(* ===== verification/Prelude.thy ===== *)
theory Prelude
  imports Main "HOL-Library.Sublist" "HOL-Library.Word"
begin

text \<open>
  Shared vocabulary of the development: the types that stand for Go's strings, byte slices and
  runes, the bytes the program tests for, the two collections of rewrite rules the component
  proofs draw on (\<open>go_simps\<close> for the standard-library layer, \<open>nl_simps\<close> for newline handling),
  and the generic facts on lists that more than one component needs.
\<close>

text \<open>
  A Go \<open>string\<close> is an immutable byte sequence; HOL's \<open>char\<close> has exactly 256 values, so a
  \<open>string\<close> of HOL is a Go string byte for byte. A rune is a code point, kept as a \<open>nat\<close>.
\<close>

type_synonym gostring = string
type_synonym bytes = "8 word list"
type_synonym rune = nat

named_theorems go_simps
named_theorems nl_simps

abbreviation LF :: char where
  "LF \<equiv> CHR 0x0A"

abbreviation CR :: char where
  "CR \<equiv> CHR 0x0D"

abbreviation TAB :: char where
  "TAB \<equiv> CHR 0x09"

abbreviation SP :: char where
  "SP \<equiv> CHR 0x20"

text \<open>Go's slice expression \<open>s[i:j]\<close> for bounds that are in range.\<close>

definition slice :: "'a list \<Rightarrow> nat \<Rightarrow> nat \<Rightarrow> 'a list" where
  "slice xs i j = take (j - i) (drop i xs)"

lemma slice_full [simp]: "slice xs 0 (length xs) = xs"
  by (simp add: slice_def)

lemma slice_empty [simp]: "slice xs i i = []"
  by (simp add: slice_def)

lemma length_slice [simp]: "length (slice xs i j) = min (j - i) (length xs - i)"
  by (simp add: slice_def min.commute)

lemma slice_append_slice:
  assumes "i \<le> j" "j \<le> k"
  shows "slice xs i j @ slice xs j k = slice xs i k"
proof -
  have "slice xs i k = take ((j - i) + (k - j)) (drop i xs)"
    using assms by (simp add: slice_def)
  also have "\<dots> = take (j - i) (drop i xs) @ take (k - j) (drop (j - i) (drop i xs))"
    by (rule take_add)
  finally show ?thesis
    using assms by (simp add: slice_def)
qed

lemma take_slice_drop:
  assumes "i \<le> j"
  shows "take i xs @ slice xs i j @ drop j xs = xs"
proof -
  have "slice xs i j @ drop j xs = drop i xs"
    using assms by (metis append_take_drop_id drop_drop le_add_diff_inverse2 slice_def)
  then show ?thesis by simp
qed

lemma drop_eq_slice_append:
  assumes "i \<le> j"
  shows "drop i xs = slice xs i j @ drop j xs"
  using assms by (metis append_take_drop_id drop_drop le_add_diff_inverse2 slice_def)

lemma takeWhile_dropWhile_length: "length (takeWhile P xs) + length (dropWhile P xs) = length xs"
  by (metis length_append takeWhile_dropWhile_id)

lemma dropWhile_drop_length:
  "dropWhile P xs = drop (length xs - length (dropWhile P xs)) xs"
  by (metis dropWhile_eq_drop takeWhile_dropWhile_length add_diff_cancel_right')

lemma drop_Suc_conv: "i < length xs \<Longrightarrow> drop i xs = xs ! i # drop (Suc i) xs"
  by (simp add: Cons_nth_drop_Suc)

lemma sum_list_take_le: "sum_list (take n xs) \<le> (sum_list xs :: nat)"
  by (metis append_take_drop_id le_add1 sum_list_append)

lemma card_map_filter_le: "length (filter P xs) \<le> length xs"
  by simp

end
