(* ===== verification/Go_Unicode.thy ===== *)
theory Go_Unicode
  imports Prelude
begin

text \<open>
  The part of Go's \<open>unicode/utf8\<close> and \<open>unicode\<close> packages the program uses: decoding the first
  and the last rune of a byte string (an invalid sequence decodes to U+FFFD of width 1),
  encoding a rune, \<open>[]rune(s)\<close> and \<open>string(runes)\<close>, and the white-space class. Nothing here is
  code of the repository; it is the language layer the components are built on.
\<close>

abbreviation RuneError :: rune where
  "RuneError \<equiv> 65533"

definition byte_at :: "gostring \<Rightarrow> nat \<Rightarrow> nat" where
  "byte_at s i = of_char (s ! i)"

definition cont_byte :: "nat \<Rightarrow> bool" where
  "cont_byte b = (128 \<le> b \<and> b \<le> 191)"

text \<open>
  \<open>utf8.DecodeRuneInString\<close>: the first byte fixes the length and the range of the second byte
  (which is what excludes overlong forms, surrogates and values above U+10FFFF).
\<close>

definition second_range :: "nat \<Rightarrow> nat \<times> nat" where
  "second_range b0 =
     (if b0 = 224 then (160, 191) else if b0 = 237 then (128, 159)
      else if b0 = 240 then (144, 191) else if b0 = 244 then (128, 143) else (128, 191))"

definition rune_len :: "nat \<Rightarrow> nat" where
  "rune_len b0 =
     (if b0 < 128 then 1 else if 194 \<le> b0 \<and> b0 \<le> 223 then 2
      else if 224 \<le> b0 \<and> b0 \<le> 239 then 3 else if 240 \<le> b0 \<and> b0 \<le> 244 then 4 else 0)"

fun decode_rune :: "gostring \<Rightarrow> rune \<times> nat" where
  "decode_rune [] = (RuneError, 0)"
| "decode_rune (c # cs) =
     (let b0 = of_char c; n = rune_len b0; (lo, hi) = second_range b0 in
      if n = 1 then (b0, 1)
      else if n = 0 \<or> length cs < n - 1 then (RuneError, 1)
      else let b1 = of_char (cs ! 0) in
        if b1 < lo \<or> hi < b1 then (RuneError, 1)
        else if n = 2 then ((b0 - 192) * 64 + (b1 - 128), 2)
        else let b2 = of_char (cs ! 1) in
          if \<not> cont_byte b2 then (RuneError, 1)
          else if n = 3 then ((b0 - 224) * 4096 + (b1 - 128) * 64 + (b2 - 128), 3)
          else let b3 = of_char (cs ! 2) in
            if \<not> cont_byte b3 then (RuneError, 1)
            else ((b0 - 240) * 262144 + (b1 - 128) * 4096 + (b2 - 128) * 64 + (b3 - 128), 4))"

definition valid_rune :: "rune \<Rightarrow> bool" where
  "valid_rune r = (r < 55296 \<or> (57344 \<le> r \<and> r \<le> 1114111))"

abbreviation byte :: "nat \<Rightarrow> char" where
  "byte n \<equiv> char_of n"

text \<open>\<open>utf8.AppendRune\<close>: surrogates and values out of range are written as U+FFFD.\<close>

definition encode_rune :: "rune \<Rightarrow> gostring" where
  "encode_rune r =
     (if r < 128 then [byte r]
      else if r < 2048 then [byte (192 + r div 64), byte (128 + r mod 64)]
      else if \<not> valid_rune r then [byte 239, byte 191, byte 189]
      else if r < 65536 then
        [byte (224 + r div 4096), byte (128 + r div 64 mod 64), byte (128 + r mod 64)]
      else [byte (240 + r div 262144), byte (128 + r div 4096 mod 64),
            byte (128 + r div 64 mod 64), byte (128 + r mod 64)])"

lemma decode_rune_width_pos: "s \<noteq> [] \<Longrightarrow> 0 < snd (decode_rune s)"
  by (cases s) (auto simp: Let_def split: prod.splits)

lemma rune_len_cases: "rune_len b \<in> {0, 1, 2, 3, 4}"
  by (simp add: rune_len_def)

lemma decode_rune_width_le: "snd (decode_rune s) \<le> length s"
proof (cases s)
  case (Cons c cs)
  have "rune_len (of_char c) \<in> {0, 1, 2, 3, 4}" by (rule rune_len_cases)
  with Cons show ?thesis by (auto simp: Let_def Suc_le_eq split: prod.splits)
qed simp

text \<open>\<open>[]rune(s)\<close>, which is also what \<open>for _, r := range s\<close> visits.\<close>

function runes :: "gostring \<Rightarrow> rune list" where
  "runes s = (if s = [] then [] else (case decode_rune s of (r, w) \<Rightarrow> r # runes (drop w s)))"
  by pat_completeness auto
termination
  by (relation "measure length")
    (simp, metis decode_rune_width_pos diff_less in_measure length_drop length_greater_0_conv snd_conv)

declare runes.simps [simp del]

lemma runes_Nil [simp]: "runes [] = []"
  by (simp add: runes.simps)

lemma runes_Cons_decode:
  "s \<noteq> [] \<Longrightarrow> runes s = fst (decode_rune s) # runes (drop (snd (decode_rune s)) s)"
  by (subst runes.simps) (simp split: prod.splits)

definition rune_count :: "gostring \<Rightarrow> nat" where
  "rune_count s = length (runes s)"

definition string_of_runes :: "rune list \<Rightarrow> gostring" where
  "string_of_runes rs = concat (map encode_rune rs)"

definition rune_norm :: "rune \<Rightarrow> rune" where
  "rune_norm r = (if valid_rune r then r else RuneError)"

text \<open>Decoding what was just encoded gives the rune back, whatever follows it.\<close>

lemma of_char_byte [simp]: "n < 256 \<Longrightarrow> of_char (byte n) = n"
  by (simp add: of_char_of)

lemma decode_encode_1: "r < 128 \<Longrightarrow> decode_rune (encode_rune r @ s) = (r, 1)"
  by (simp add: encode_rune_def rune_len_def Let_def split: prod.splits)

lemma decode_bytes_2:
  assumes "2 \<le> a" "a < 32" "b < 64"
  shows "decode_rune (byte (192 + a) # byte (128 + b) # s) = (a * 64 + b, 2)"
proof -
  have "rune_len (192 + a) = 2" "second_range (192 + a) = (128, 191)"
    using assms by (auto simp: rune_len_def second_range_def)
  then show ?thesis
    using assms by (simp add: Let_def)
qed

lemma decode_bytes_3:
  assumes "a < 16" "b < 64" "c < 64" "a = 0 \<Longrightarrow> 32 \<le> b" "a = 13 \<Longrightarrow> b < 32"
  shows "decode_rune (byte (224 + a) # byte (128 + b) # byte (128 + c) # s)
    = (a * 4096 + b * 64 + c, 3)"
proof -
  have "rune_len (224 + a) = 3"
    using assms by (auto simp: rune_len_def)
  moreover obtain lo hi where r: "second_range (224 + a) = (lo, hi)"
    by fastforce
  moreover have "lo \<le> 128 + b" "128 + b \<le> hi"
    using r assms by (auto simp: second_range_def split: if_splits)
  ultimately show ?thesis
    using assms by (simp add: Let_def cont_byte_def)
qed

lemma decode_bytes_4:
  assumes "a \<le> 4" "b < 64" "c < 64" "d < 64" "a = 0 \<Longrightarrow> 16 \<le> b" "a = 4 \<Longrightarrow> b < 16"
  shows "decode_rune (byte (240 + a) # byte (128 + b) # byte (128 + c) # byte (128 + d) # s)
    = (a * 262144 + b * 4096 + c * 64 + d, 4)"
proof -
  have "rune_len (240 + a) = 4"
    using assms by (auto simp: rune_len_def)
  moreover obtain lo hi where r: "second_range (240 + a) = (lo, hi)"
    by fastforce
  moreover have "lo \<le> 128 + b" "128 + b \<le> hi"
    using r assms by (auto simp: second_range_def split: if_splits)
  ultimately show ?thesis
    using assms by (simp add: Let_def cont_byte_def)
qed

declare decode_rune.simps(2) [simp del]

text \<open>The base-64 digits of a code point, without asking the arithmetic to split on them.\<close>

lemma digits64:
  obtains a b c d where "d < 64" "c < 64" "b < 64" "r = a * 262144 + b * 4096 + c * 64 + (d::nat)"
    and "r mod 64 = d" "r div 64 mod 64 = c" "r div 4096 mod 64 = b" "r div 262144 = a"
    and "r div 4096 = a * 64 + b" "r div 64 = a * 4096 + b * 64 + c"
proof -
  define q1 q2 q3 m1 m2 m3 where
    q: "q1 = r div 64" "q2 = q1 div 64" "q3 = q2 div 64"
       "m1 = r mod 64" "m2 = q1 mod 64" "m3 = q2 mod 64"
  have e: "r div 4096 = q2" "r div 262144 = q3"
    by (simp_all add: q div_mult2_eq [symmetric])
  have m: "m1 < 64" "m2 < 64" "m3 < 64" by (simp_all add: q)
  have r: "q1 * 64 + m1 = r" "q2 * 64 + m2 = q1" "q3 * 64 + m3 = q2"
    unfolding q by (rule div_mult_mod_eq)+
  show ?thesis
  proof (rule that [of m1 m2 m3 q3])
    show "r = q3 * 262144 + m3 * 4096 + m2 * 64 + m1" using r by linarith
    show "r mod 64 = m1" "r div 64 mod 64 = m2" "r div 4096 mod 64 = m3" "r div 262144 = q3"
      by (simp_all only: q e)
    show "r div 4096 = q3 * 64 + m3" using r e by linarith
    show "r div 64 = q3 * 4096 + m3 * 64 + m2" using r by (simp only: q(1) [symmetric])
  qed (fact m)+
qed

lemma decode_encode_2:
  assumes "128 \<le> r" "r < 2048"
  shows "decode_rune (encode_rune r @ s) = (r, 2)"
proof -
  obtain a b c d where "d < 64" "c < 64" "b < 64" "r = a * 262144 + b * 4096 + c * 64 + d"
    "r mod 64 = d" "r div 64 = a * 4096 + b * 64 + c"
    by (rule digits64)
  moreover from this assms have ab: "a = 0" "b = 0" by linarith+
  moreover from calculation assms have "2 \<le> c" "c < 32" by linarith+
  ultimately show ?thesis
    using assms decode_bytes_2 [of c d s] by (simp add: encode_rune_def)
qed

lemma decode_encode_3:
  assumes "2048 \<le> r" "r < 65536" "valid_rune r"
  shows "decode_rune (encode_rune r @ s) = (r, 3)"
proof -
  obtain a b c d where d: "d < 64" "c < 64" "b < 64" "r = a * 262144 + b * 4096 + c * 64 + d"
    "r mod 64 = d" "r div 64 mod 64 = c" "r div 4096 = a * 64 + b"
    by (rule digits64)
  have a0: "a = 0" and "b < 16" using d assms by linarith+
  moreover from this have "b = 0 \<Longrightarrow> 32 \<le> c" using d assms by linarith
  moreover have "b = 13 \<Longrightarrow> c < 32"
    using d \<open>a = 0\<close> assms(3) unfolding valid_rune_def by linarith
  ultimately show ?thesis
    using assms d a0 decode_bytes_3 [of b c d s] by (simp add: encode_rune_def)
qed

lemma decode_encode_4:
  assumes "65536 \<le> r" "valid_rune r"
  shows "decode_rune (encode_rune r @ s) = (r, 4)"
proof -
  obtain a b c d where d: "d < 64" "c < 64" "b < 64" "r = a * 262144 + b * 4096 + c * 64 + d"
    "r mod 64 = d" "r div 64 mod 64 = c" "r div 4096 mod 64 = b" "r div 262144 = a"
    by (rule digits64)
  have "r \<le> 1114111" using assms unfolding valid_rune_def by linarith
  then have "a \<le> 4" "a = 0 \<Longrightarrow> 16 \<le> b" "a = 4 \<Longrightarrow> b < 16" using d assms(1) by linarith+
  then show ?thesis
    using assms d decode_bytes_4 [of a b c d s] by (simp add: encode_rune_def)
qed

lemma encode_rune_invalid: "\<not> valid_rune r \<Longrightarrow> encode_rune r = encode_rune RuneError"
  by (auto simp: encode_rune_def valid_rune_def)

lemma decode_encode_valid:
  "valid_rune r \<Longrightarrow> decode_rune (encode_rune r @ s) = (r, length (encode_rune r))"
proof (cases "r < 128")
  case True
  then show ?thesis by (simp add: decode_encode_1) (simp add: encode_rune_def)
next
  case False
  assume v: "valid_rune r"
  consider "r < 2048" | "2048 \<le> r" "r < 65536" | "65536 \<le> r" by linarith
  then show ?thesis
  proof cases
    case 1
    with False decode_encode_2 show ?thesis by (simp add: encode_rune_def)
  next
    case 2
    with v decode_encode_3 show ?thesis by (simp add: encode_rune_def)
  next
    case 3
    with v decode_encode_4 show ?thesis by (simp add: encode_rune_def)
  qed
qed

lemma decode_encode:
  "decode_rune (encode_rune r @ s) = (rune_norm r, length (encode_rune r))"
proof (cases "valid_rune r")
  case True
  then show ?thesis by (simp add: decode_encode_valid rune_norm_def)
next
  case False
  have "valid_rune RuneError" by (simp add: valid_rune_def)
  from decode_encode_valid [OF this, of s] False show ?thesis
    by (simp add: encode_rune_invalid rune_norm_def)
qed

lemma encode_rune_ne [simp]: "encode_rune r \<noteq> []"
  by (simp add: encode_rune_def)

lemma runes_encode: "runes (encode_rune r @ s) = rune_norm r # runes s"
proof -
  have "encode_rune r @ s \<noteq> []" by simp
  from runes_Cons_decode [OF this] show ?thesis
    by (simp add: decode_encode)
qed

lemma runes_string_of_runes [go_simps]:
  "runes (string_of_runes rs @ s) = map rune_norm rs @ runes s"
  by (induction rs) (simp_all add: string_of_runes_def runes_encode)

lemma rune_count_string_of_runes [go_simps]:
  "rune_count (string_of_runes rs @ s) = length rs + rune_count s"
  by (simp add: rune_count_def go_simps)

lemma rune_count_string_of_runes' [go_simps]: "rune_count (string_of_runes rs) = length rs"
  using rune_count_string_of_runes [of rs "[]"] by (simp add: rune_count_def)

text \<open>An ASCII byte string has one rune per byte.\<close>

definition is_ascii :: "gostring \<Rightarrow> bool" where
  "is_ascii s = list_all (\<lambda>c. (of_char c :: nat) < 128) s"

lemma decode_rune_ascii: "(of_char c :: nat) < 128 \<Longrightarrow> decode_rune (c # cs) = (of_char c, 1)"
  by (simp add: decode_rune.simps rune_len_def Let_def split: prod.splits)

lemma runes_ascii: "is_ascii s \<Longrightarrow> runes s = map of_char s"
proof (induction s)
  case (Cons c cs)
  then show ?case
    using runes_Cons_decode [of "c # cs"] decode_rune_ascii [of c cs] by (simp add: is_ascii_def)
qed simp

lemma rune_count_ascii: "is_ascii s \<Longrightarrow> rune_count s = length s"
  by (simp add: rune_count_def runes_ascii)

lemma rune_count_le_length: "rune_count s \<le> length s"
proof (induction s rule: runes.induct)
  case (1 s)
  show ?case
  proof (cases "s = []")
    case False
    let ?w = "snd (decode_rune s)"
    have "rune_count (drop ?w s) \<le> length (drop ?w s)"
      using 1 False by (metis prod.collapse)
    moreover have "rune_count s = Suc (rune_count (drop ?w s))"
      using False by (simp add: rune_count_def runes_Cons_decode [of s])
    ultimately show ?thesis
      using decode_rune_width_pos [OF False] decode_rune_width_le [of s] by simp
  qed (simp add: rune_count_def)
qed

text \<open>
  \<open>utf8.DecodeLastRuneInString\<close> steps back over at most three continuation bytes to a byte that
  can start a rune, decodes there, and falls back to an invalid last byte when the decoded rune
  does not reach the end.
\<close>

fun back_to_start :: "nat \<Rightarrow> gostring \<Rightarrow> nat \<Rightarrow> nat option" where
  "back_to_start 0 s i = None"
| "back_to_start (Suc k) s i =
     (if \<not> cont_byte (byte_at s i) then Some i
      else if i = 0 then None else back_to_start k s (i - 1))"

definition decode_last_rune :: "gostring \<Rightarrow> rune \<times> nat" where
  "decode_last_rune s =
     (if s = [] then (RuneError, 0)
      else let e = length s; b = byte_at s (e - 1) in
        if b < 128 then (b, 1)
        else (case (if e < 2 then None else back_to_start 3 s (e - 2)) of
            None \<Rightarrow> (let (r, w) = decode_rune (drop (e - 1) s) in
                      if e - 1 + w \<noteq> e then (RuneError, 1) else (r, w))
          | Some st \<Rightarrow> (let (r, w) = decode_rune (drop st s) in
                      if st + w \<noteq> e then (RuneError, 1) else (r, w))))"

text \<open>\<open>unicode.IsSpace\<close>.\<close>

definition is_space :: "rune \<Rightarrow> bool" where
  "is_space r = (r \<in> {9, 10, 11, 12, 13, 32, 133, 160, 5760, 8232, 8233, 8239, 8287, 12288}
                 \<or> (8192 \<le> r \<and> r \<le> 8202))"

end
