(* ===== verification/Go_Strings.thy ===== *)
theory Go_Strings
  imports Go_Unicode
begin

text \<open>
  The functions of Go's \<open>strings\<close>, \<open>strconv\<close> and \<open>bufio\<close> packages that the program calls, as
  executable definitions on byte strings, with the laws the component proofs use: what
  \<open>Index\<close> finds, \<open>Split\<close> against \<open>Join\<close>, decimal printing against parsing.
\<close>

subsection \<open>Searching\<close>

abbreviation HasPrefix :: "gostring \<Rightarrow> gostring \<Rightarrow> bool" where
  "HasPrefix s p \<equiv> prefix p s"

abbreviation HasSuffix :: "gostring \<Rightarrow> gostring \<Rightarrow> bool" where
  "HasSuffix s p \<equiv> suffix p s"

text \<open>\<open>strings.Index\<close>; \<open>None\<close> stands for \<open>-1\<close>.\<close>

fun Index :: "gostring \<Rightarrow> gostring \<Rightarrow> nat option" where
  "Index [] sub = (if sub = [] then Some 0 else None)"
| "Index (c # cs) sub =
     (if prefix sub (c # cs) then Some 0 else map_option Suc (Index cs sub))"

definition Contains :: "gostring \<Rightarrow> gostring \<Rightarrow> bool" where
  "Contains s sub = (Index s sub \<noteq> None)"

definition ContainsAny :: "gostring \<Rightarrow> gostring \<Rightarrow> bool" where
  "ContainsAny s cs = list_ex (\<lambda>c. c \<in> set cs) s"

text \<open>\<open>strings.Count\<close>: hits from left to right without overlap.\<close>

function Count :: "gostring \<Rightarrow> gostring \<Rightarrow> nat" where
  "Count s sub =
     (if sub = [] then rune_count s + 1
      else if prefix sub s then Suc (Count (drop (length sub) s) sub)
      else (case s of [] \<Rightarrow> 0 | _ # cs \<Rightarrow> Count cs sub))"
  by pat_completeness auto
termination
  by (relation "measure (\<lambda>(s, sub). length s)") (auto simp: prefix_def)

declare Count.simps [simp del]

lemma Index_Some:
  "Index s sub = Some i \<Longrightarrow>
     prefix sub (drop i s) \<and> i + length sub \<le> length s \<and> (\<forall>j<i. \<not> prefix sub (drop j s))"
proof (induction s arbitrary: i)
  case (Cons c cs)
  show ?case
  proof (cases "prefix sub (c # cs)")
    case True
    with Cons.prems show ?thesis by (auto dest: prefix_length_le)
  next
    case False
    with Cons.prems obtain k where k: "Index cs sub = Some k" "i = Suc k" by auto
    have "\<not> prefix sub (drop j (c # cs))" if "j < i" for j
      using Cons.IH [OF k(1)] False k(2) that by (cases j) auto
    with Cons.IH [OF k(1)] k(2) show ?thesis by auto
  qed
qed (auto split: if_splits)

lemma Index_None: "Index s sub = None \<Longrightarrow> \<not> prefix sub (drop j s)"
proof (induction s arbitrary: j)
  case (Cons c cs)
  then show ?case by (cases j) (auto split: if_splits)
qed (auto split: if_splits)

lemma Index_split:
  assumes "Index s sub = Some i"
  shows "s = take i s @ sub @ drop (i + length sub) s"
proof -
  have "prefix sub (drop i s)" using Index_Some [OF assms] by blast
  then obtain t where t: "drop i s = sub @ t" by (auto simp: prefix_def)
  then have "drop (i + length sub) s = t"
    by (metis add.commute append_eq_conv_conj drop_drop)
  with t show ?thesis by (metis append_take_drop_id)
qed

lemma Contains_iff: "Contains s sub \<longleftrightarrow> (\<exists>u v. s = u @ sub @ v)"
proof
  assume "Contains s sub"
  then obtain i where "Index s sub = Some i" by (auto simp: Contains_def)
  from Index_split [OF this] show "\<exists>u v. s = u @ sub @ v" by blast
next
  assume "\<exists>u v. s = u @ sub @ v"
  then obtain u v where "s = u @ sub @ v" by blast
  then have "prefix sub (drop (length u) s)" by simp
  then show "Contains s sub" using Index_None [of s sub "length u"] by (auto simp: Contains_def)
qed

lemma Index_Some_bound: "Index s sub = Some i \<Longrightarrow> i + length sub \<le> length s"
  using Index_Some by blast

lemma Count_pos_iff: "sub \<noteq> [] \<Longrightarrow> (0 < Count s sub) = Contains s sub"
proof (induction s)
  case Nil
  then show ?case by (simp add: Count.simps Contains_def)
next
  case (Cons c cs)
  then show ?case
    by (cases "prefix sub (c # cs)") (auto simp: Count.simps [of "c # cs"] Contains_def)
qed

lemma Count_Index:
  assumes "sub \<noteq> []"
  shows "Count s sub =
    (case Index s sub of None \<Rightarrow> 0 | Some i \<Rightarrow> Suc (Count (drop (i + length sub) s) sub))"
proof (induction s)
  case Nil
  with assms show ?case by (simp add: Count.simps)
next
  case (Cons c cs)
  show ?case
  proof (cases "prefix sub (c # cs)")
    case True
    with assms show ?thesis by (simp add: Count.simps [of "c # cs"])
  next
    case False
    with assms Cons.IH show ?thesis
      by (simp add: Count.simps [of "c # cs"] split: option.splits)
  qed
qed

subsection \<open>Splitting and joining\<close>

text \<open>\<open>strings.Split\<close> on a one-byte separator.\<close>

fun split_on :: "char \<Rightarrow> gostring \<Rightarrow> gostring list" where
  "split_on c [] = [[]]"
| "split_on c (x # xs) =
     (if x = c then [] # split_on c xs
      else (case split_on c xs of [] \<Rightarrow> [[x]] | l # ls \<Rightarrow> (x # l) # ls))"

fun Join :: "gostring list \<Rightarrow> gostring \<Rightarrow> gostring" where
  "Join [] sep = []"
| "Join [l] sep = l"
| "Join (l # ls) sep = l @ sep @ Join ls sep"

abbreviation lines_of :: "gostring \<Rightarrow> gostring list" where
  "lines_of s \<equiv> split_on LF s"

abbreviation unlines :: "gostring list \<Rightarrow> gostring" where
  "unlines ls \<equiv> Join ls [LF]"

lemma split_on_ne [simp]: "split_on c s \<noteq> []"
  by (induction s) (auto split: list.splits)

lemma Join_Cons: "ls \<noteq> [] \<Longrightarrow> Join (l # ls) sep = l @ sep @ Join ls sep"
  by (cases ls) auto

lemma Join_split_on [simp, go_simps]: "Join (split_on c s) [c] = s"
proof (induction s)
  case (Cons x xs)
  obtain l ls where s: "split_on c xs = l # ls"
    using split_on_ne [of c xs] by (cases "split_on c xs") auto
  show ?case
    using Cons s by (cases ls) (auto simp: Join_Cons)
qed simp

lemma split_on_no_sep: "l \<in> set (split_on c s) \<Longrightarrow> c \<notin> set l"
proof (induction s arbitrary: l)
  case (Cons x xs)
  then show ?case by (auto split: if_splits list.splits)
qed simp

lemma split_on_absent: "c \<notin> set l \<Longrightarrow> split_on c l = [l]"
  by (induction l) auto

lemma split_on_append_sep:
  "c \<notin> set l \<Longrightarrow> split_on c (l @ c # s) = l # split_on c s"
  by (induction l) auto

lemma split_on_Join [go_simps]:
  "ls \<noteq> [] \<Longrightarrow> \<forall>l\<in>set ls. c \<notin> set l \<Longrightarrow> split_on c (Join ls [c]) = ls"
proof (induction ls)
  case (Cons l ls)
  then show ?case
    by (cases ls) (auto simp: split_on_absent split_on_append_sep)
qed simp

lemma split_on_Join_map:
  assumes "\<And>l. c \<notin> set l \<Longrightarrow> c \<notin> set (f l)"
  shows "split_on c (Join (map f (split_on c s)) [c]) = map f (split_on c s)"
  using assms split_on_no_sep [of _ c s] by (intro split_on_Join) auto

subsection \<open>Replacing\<close>

text \<open>\<open>strings.ReplaceAll\<close> for a non-empty \<open>old\<close>, the only way the program calls it.\<close>

function ReplaceAll :: "gostring \<Rightarrow> gostring \<Rightarrow> gostring \<Rightarrow> gostring" where
  "ReplaceAll s old new =
     (if old \<noteq> [] \<and> prefix old s then new @ ReplaceAll (drop (length old) s) old new
      else (case s of [] \<Rightarrow> [] | c # cs \<Rightarrow> c # ReplaceAll cs old new))"
  by pat_completeness auto
termination
  by (relation "measure (\<lambda>(s, old, new). length s)") (auto simp: prefix_def)

declare ReplaceAll.simps [simp del]

lemma ReplaceAll_Nil [simp]: "ReplaceAll [] old new = []"
  by (simp add: ReplaceAll.simps)

lemma ReplaceAll_hit [simp]:
  "old \<noteq> [] \<Longrightarrow> ReplaceAll (old @ s) old new = new @ ReplaceAll s old new"
  by (simp add: ReplaceAll.simps [of "old @ s"])

lemma ReplaceAll_hit1 [simp]: "ReplaceAll (c # s) [c] new = new @ ReplaceAll s [c] new"
  using ReplaceAll_hit [of "[c]" s new] by simp

lemma ReplaceAll_hit2 [simp]:
  "ReplaceAll (c # d # s) [c, d] new = new @ ReplaceAll s [c, d] new"
  using ReplaceAll_hit [of "[c, d]" s new] by simp

lemma ReplaceAll_miss:
  "\<not> prefix old (c # cs) \<Longrightarrow> ReplaceAll (c # cs) old new = c # ReplaceAll cs old new"
  by (simp add: ReplaceAll.simps [of "c # cs"])

lemma ReplaceAll_Index:
  assumes "old \<noteq> []"
  shows "ReplaceAll s old new =
    (case Index s old of None \<Rightarrow> s
     | Some i \<Rightarrow> take i s @ new @ ReplaceAll (drop (i + length old) s) old new)"
proof (induction s)
  case Nil
  with assms show ?case by simp
next
  case (Cons c cs)
  show ?case
  proof (cases "prefix old (c # cs)")
    case True
    with assms show ?thesis by (simp add: ReplaceAll.simps [of "c # cs"])
  next
    case False
    with Cons show ?thesis by (simp add: ReplaceAll_miss split: option.splits)
  qed
qed

subsection \<open>Trimming, repeating, case\<close>

definition TrimLeft :: "gostring \<Rightarrow> gostring \<Rightarrow> gostring" where
  "TrimLeft s cutset = dropWhile (\<lambda>c. c \<in> set cutset) s"

definition TrimRight :: "gostring \<Rightarrow> gostring \<Rightarrow> gostring" where
  "TrimRight s cutset = rev (dropWhile (\<lambda>c. c \<in> set cutset) (rev s))"

definition TrimPrefix :: "gostring \<Rightarrow> gostring \<Rightarrow> gostring" where
  "TrimPrefix s p = (if prefix p s then drop (length p) s else s)"

definition TrimSuffix :: "gostring \<Rightarrow> gostring \<Rightarrow> gostring" where
  "TrimSuffix s p = (if suffix p s then take (length s - length p) s else s)"

function TrimLeftSpace :: "gostring \<Rightarrow> gostring" where
  "TrimLeftSpace s =
     (if s = [] then [] else (case decode_rune s of (r, w) \<Rightarrow>
        if is_space r then TrimLeftSpace (drop w s) else s))"
  by pat_completeness auto
termination
  by (relation "measure length")
    (simp, metis decode_rune_width_pos diff_less in_measure length_drop length_greater_0_conv snd_conv)

function TrimRightSpace :: "gostring \<Rightarrow> gostring" where
  "TrimRightSpace s =
     (if s = [] then [] else (case decode_last_rune s of (r, w) \<Rightarrow>
        if is_space r then TrimRightSpace (take (length s - max 1 w) s) else s))"
  by pat_completeness auto
termination
  by (relation "measure length") auto

declare TrimLeftSpace.simps [simp del] TrimRightSpace.simps [simp del]

text \<open>\<open>strings.TrimSpace\<close>.\<close>

definition TrimSpace :: "gostring \<Rightarrow> gostring" where
  "TrimSpace s = TrimRightSpace (TrimLeftSpace s)"

definition Repeat :: "gostring \<Rightarrow> nat \<Rightarrow> gostring" where
  "Repeat s n = concat (replicate n s)"

lemma Repeat_single: "Repeat [c] n = replicate n c"
  by (induction n) (simp_all add: Repeat_def)

text \<open>
  \<open>strings.ToLower\<close> with the two non-ASCII letters whose lower case is ASCII (U+0130 and
  U+212A); other non-ASCII runes keep a non-ASCII value, which is all a comparison of the result
  with an ASCII literal can see.
\<close>

definition rune_lower :: "rune \<Rightarrow> rune" where
  "rune_lower r = (if 65 \<le> r \<and> r \<le> 90 then r + 32 else if r = 304 then 105
                   else if r = 8490 then 107 else r)"

definition ToLower :: "gostring \<Rightarrow> gostring" where
  "ToLower s = string_of_runes (map rune_lower (runes s))"

subsection \<open>Decimal numbers\<close>

definition digit_char :: "nat \<Rightarrow> char" where
  "digit_char d = char_of (48 + d)"

definition is_digit :: "char \<Rightarrow> bool" where
  "is_digit c = (48 \<le> (of_char c :: nat) \<and> (of_char c :: nat) \<le> 57)"

definition digit_val :: "char \<Rightarrow> nat" where
  "digit_val c = of_char c - 48"

fun show_nat :: "nat \<Rightarrow> gostring" where
  "show_nat n = (if n < 10 then [digit_char n] else show_nat (n div 10) @ [digit_char (n mod 10)])"

declare show_nat.simps [simp del]

definition show_int :: "int \<Rightarrow> gostring" where
  "show_int i = (if i < 0 then CHR ''-'' # show_nat (nat (- i)) else show_nat (nat i))"

definition digits_val :: "gostring \<Rightarrow> nat" where
  "digits_val ds = foldl (\<lambda>n c. n * 10 + digit_val c) 0 ds"

text \<open>\<open>strconv.Atoi\<close> on a 64-bit platform: an optional sign, at least one digit, in range.\<close>

definition Atoi :: "gostring \<Rightarrow> int option" where
  "Atoi s =
     (let neg = (s \<noteq> [] \<and> hd s = CHR ''-'');
          ds = (if s \<noteq> [] \<and> (hd s = CHR ''-'' \<or> hd s = CHR ''+'') then tl s else s);
          v = (if neg then - int (digits_val ds) else int (digits_val ds)) in
      if ds = [] \<or> \<not> list_all is_digit ds then None
      else if - (2 ^ 63) \<le> v \<and> v < 2 ^ 63 then Some v else None)"

lemma digit_char_is_digit [simp]: "d < 10 \<Longrightarrow> is_digit (digit_char d)"
  by (simp add: is_digit_def digit_char_def)

lemma digit_char_val [simp]: "d < 10 \<Longrightarrow> digit_val (digit_char d) = d"
  by (simp add: digit_val_def digit_char_def)

lemma show_nat_digits: "list_all is_digit (show_nat n)"
proof (induction n rule: show_nat.induct)
  case (1 n)
  then show ?case by (subst show_nat.simps) auto
qed

lemma show_nat_ne [simp]: "show_nat n \<noteq> []"
  by (subst show_nat.simps) simp

lemma digits_val_show_nat [simp]: "digits_val (show_nat n) = n"
proof (induction n rule: show_nat.induct)
  case (1 n)
  show ?case
  proof (cases "n < 10")
    case True
    then show ?thesis by (subst show_nat.simps) (simp add: digits_val_def)
  next
    case False
    with 1 have "digits_val (show_nat (n div 10)) = n div 10" by simp
    with False show ?thesis
      by (subst show_nat.simps) (simp add: digits_val_def)
  qed
qed

lemma is_digit_not_sign: "is_digit c \<Longrightarrow> c \<noteq> CHR ''-'' \<and> c \<noteq> CHR ''+''"
  by (auto simp: is_digit_def)

lemma hd_show_nat: "is_digit (hd (show_nat n))"
  using show_nat_digits [of n] by (cases "show_nat n") auto

lemma Atoi_show_nat: "n < 2 ^ 63 \<Longrightarrow> Atoi (show_nat n) = Some (int n)"
  using is_digit_not_sign [OF hd_show_nat [of n]] show_nat_digits [of n]
  by (simp add: Atoi_def Let_def)

lemma Atoi_show_int:
  assumes "- (2 ^ 63) \<le> i" "i < 2 ^ 63"
  shows "Atoi (show_int i) = Some i"
proof (cases "i < 0")
  case True
  with assms show_nat_digits [of "nat (- i)"] show ?thesis
    by (simp add: Atoi_def Let_def show_int_def)
next
  case False
  with assms Atoi_show_nat [of "nat i"] show ?thesis
    by (simp add: show_int_def nat_less_iff)
qed

subsection \<open>bufio.Scanner\<close>

text \<open>
  \<open>bufio.Scanner\<close> with its default split function: lines without their LF and without one
  trailing CR, no empty line after a final LF, and no further token once a line does not fit the
  64 KiB buffer.
\<close>

definition strip_cr :: "gostring \<Rightarrow> gostring" where
  "strip_cr l = (if l \<noteq> [] \<and> last l = CR then butlast l else l)"

definition scan_lines :: "gostring \<Rightarrow> gostring list" where
  "scan_lines s =
     (let ls = lines_of s; ls' = (if last ls = [] then butlast ls else ls)
      in map strip_cr (takeWhile (\<lambda>l. length l < 65536) ls'))"

text \<open>Trimming only removes characters at the two ends.\<close>

lemma TrimLeftSpace_suffix: "suffix (TrimLeftSpace s) s"
proof (induction s rule: TrimLeftSpace.induct)
  case (1 s)
  then show ?case
    by (subst TrimLeftSpace.simps)
      (auto split: prod.splits intro: suffix_order.trans [OF _ suffix_drop])
qed

lemma TrimRightSpace_prefix: "prefix (TrimRightSpace s) s"
proof (induction s rule: TrimRightSpace.induct)
  case (1 s)
  then show ?case
    by (subst TrimRightSpace.simps)
      (auto split: prod.splits intro: prefix_order.trans [OF _ take_is_prefix])
qed

end
