(* ===== verification/Line_Endings.thy ===== *)
theory Line_Endings
  imports Go_Strings
begin

text \<open>
  Newline handling: \<open>AnalyzeLineEndings\<close>, \<open>DetectLineEnding\<close> and \<open>NormalizeLineEndings\<close> of
  common/fileutil.go, and the two cursor structures of common/lineending.go. \<open>LineEndingMap\<close> is
  an LF-only view of a file together with the translation of its offsets back to the original
  bytes; \<open>LineEndingCursor\<close> answers which newline form a span belongs to. Both cache where their
  last scan stopped; the theorems show that the caches never change an answer.
\<close>

abbreviation CRLF :: gostring where
  "CRLF \<equiv> [CR, LF]"

subsection \<open>Counting the newline forms\<close>

record LineEndingInfo =
  Kind :: gostring
  LFCount :: nat
  CRLFCount :: nat
  CRCount :: nat
  Dominant :: gostring

text \<open>The scan of \<open>AnalyzeLineEndings\<close>: LF, CRLF and CR counts and the first form seen.\<close>

fun scan_endings :: "gostring \<Rightarrow> nat \<times> nat \<times> nat \<times> gostring \<Rightarrow> nat \<times> nat \<times> nat \<times> gostring" where
  "scan_endings [] st = st"
| "scan_endings (c # cs) (lf, crlf, cr, first) =
     (if c = CR then
        (if cs \<noteq> [] \<and> hd cs = LF
         then scan_endings (tl cs) (lf, crlf + 1, cr, if first = [] then CRLF else first)
         else scan_endings cs (lf, crlf, cr + 1, if first = [] then [CR] else first))
      else if c = LF then scan_endings cs (lf + 1, crlf, cr, if first = [] then [LF] else first)
      else scan_endings cs (lf, crlf, cr, first))"

definition pick_dominant :: "gostring \<Rightarrow> gostring \<times> nat \<Rightarrow> gostring \<times> nat \<Rightarrow> gostring \<times> nat" where
  "pick_dominant first best cand =
     (if snd best < snd cand \<or> snd cand = snd best \<and> fst cand = first then cand else best)"

definition AnalyzeLineEndings :: "gostring \<Rightarrow> LineEndingInfo" where
  "AnalyzeLineEndings content =
     (let (lf, crlf, cr, first) = scan_endings content (0, 0, 0, []);
          k0 = (if 0 < lf then (''LF'', 1) else (''None'', 0::nat));
          k1 = (if 0 < crlf then (''CRLF'', snd k0 + 1) else k0);
          k2 = (if 0 < cr then (''CR'', snd k1 + 1) else k1);
          kind = (if 1 < snd k2 then ''Mixed'' else fst k2);
          dom = foldl (pick_dominant first) ([LF], 0) [(CRLF, crlf), ([LF], lf), ([CR], cr)]
      in \<lparr>Kind = kind, LFCount = lf, CRLFCount = crlf, CRCount = cr, Dominant = fst dom\<rparr>)"

definition DetectLineEnding :: "gostring \<Rightarrow> gostring" where
  "DetectLineEnding content = Dominant (AnalyzeLineEndings content)"

definition NormalizeLineEndings :: "gostring \<Rightarrow> gostring \<Rightarrow> gostring" where
  "NormalizeLineEndings content target0 =
     (let target = (if target0 \<noteq> CRLF \<and> target0 \<noteq> [CR] then [LF] else target0);
          c1 = ReplaceAll content CRLF [LF];
          c2 = ReplaceAll c1 [CR] [LF]
      in if target \<noteq> [LF] then ReplaceAll c2 [LF] target else c2)"

subsection \<open>The normalized view\<close>

text \<open>The loop of \<open>NewLineEndingMap\<close>: every CRLF and every lone CR becomes one LF.\<close>

fun norm_lf :: "gostring \<Rightarrow> gostring" where
  "norm_lf [] = []"
| "norm_lf (c # cs) =
     (if c = CR then (if cs \<noteq> [] \<and> hd cs = LF then LF # norm_lf (tl cs) else LF # norm_lf cs)
      else c # norm_lf cs)"

lemma norm_lf_no_CR [simp, nl_simps]: "CR \<notin> set (norm_lf s)"
  by (induction s rule: norm_lf.induct) auto

lemma norm_lf_id [nl_simps]: "CR \<notin> set s \<Longrightarrow> norm_lf s = s"
  by (induction s rule: norm_lf.induct) auto

lemma norm_lf_idem [simp, nl_simps]: "norm_lf (norm_lf s) = norm_lf s"
  by (rule norm_lf_id) simp

lemma length_norm_lf_le: "length (norm_lf s) \<le> length s"
proof (induction s rule: norm_lf.induct)
  case (2 c cs)
  then show ?case by (cases cs) auto
qed simp

lemma norm_lf_eq_Nil [simp]: "norm_lf s = [] \<longleftrightarrow> s = []"
  by (cases s) auto

lemma ReplaceAll_CR_LF:
  "ReplaceAll (ReplaceAll s CRLF [LF]) [CR] [LF] = norm_lf s"
proof (induction s rule: norm_lf.induct)
  case (2 c cs)
  show ?case
  proof (cases "c = CR")
    case True
    show ?thesis
    proof (cases "cs \<noteq> [] \<and> hd cs = LF")
      case crlf: True
      then obtain ds where ds: "cs = LF # ds" by (cases cs) auto
      with 2 True crlf show ?thesis by (simp add: ReplaceAll_miss)
    next
      case False
      then have "\<not> prefix CRLF (c # cs)" using True by (cases cs) auto
      with 2 True False show ?thesis by (auto simp: ReplaceAll_miss)
    qed
  next
    case False
    with 2 show ?thesis by (simp add: ReplaceAll_miss)
  qed
qed simp

lemma NormalizeLineEndings_LF [nl_simps]: "NormalizeLineEndings s [LF] = norm_lf s"
  by (simp add: NormalizeLineEndings_def ReplaceAll_CR_LF)

text \<open>A byte string is closed when it does not end in the middle of a possible CRLF.\<close>

definition nl_closed :: "gostring \<Rightarrow> bool" where
  "nl_closed s = (s = [] \<or> last s \<noteq> CR)"

text \<open>A file without lone CRs: every CR is followed by an LF.\<close>

fun no_lone_cr :: "gostring \<Rightarrow> bool" where
  "no_lone_cr [] = True"
| "no_lone_cr (c # cs) =
     (if c = CR then cs \<noteq> [] \<and> hd cs = LF \<and> no_lone_cr (tl cs) else no_lone_cr cs)"

lemma norm_lf_append:
  "nl_closed s \<or> t = [] \<or> hd t \<noteq> LF \<Longrightarrow> norm_lf (s @ t) = norm_lf s @ norm_lf t"
proof (induction s rule: norm_lf.induct)
  case (2 c cs)
  show ?case
  proof (cases cs)
    case Nil
    with 2 show ?thesis by (cases t) (auto simp: nl_closed_def)
  next
    case (Cons d ds)
    with 2 show ?thesis by (cases ds) (auto simp: nl_closed_def)
  qed
qed simp

lemma norm_lf_append_closed [nl_simps]:
  "nl_closed s \<Longrightarrow> norm_lf (s @ t) = norm_lf s @ norm_lf t"
  by (simp add: norm_lf_append)

lemma no_lone_cr_closed: "no_lone_cr s \<Longrightarrow> nl_closed s"
proof (induction s rule: no_lone_cr.induct)
  case (2 c cs)
  then show ?case by (cases cs) (auto simp: nl_closed_def split: if_splits)
qed (simp add: nl_closed_def)

lemma no_lone_cr_no_CR: "CR \<notin> set s \<Longrightarrow> no_lone_cr s"
  by (induction s) auto

lemma no_lone_cr_append: "no_lone_cr s \<Longrightarrow> no_lone_cr t \<Longrightarrow> no_lone_cr (s @ t)"
proof (induction s rule: no_lone_cr.induct)
  case (2 c cs)
  then show ?case by (cases cs) (auto split: if_splits)
qed simp

text \<open>Converting an LF-only text to the target form.\<close>

definition expand_lf :: "gostring \<Rightarrow> gostring \<Rightarrow> gostring" where
  "expand_lf t s = concat (map (\<lambda>c. if c = LF then t else [c]) s)"

lemma expand_lf_simps [simp]:
  "expand_lf t [] = []"
  "expand_lf t (c # cs) = (if c = LF then t else [c]) @ expand_lf t cs"
  by (simp_all add: expand_lf_def)

lemma ReplaceAll_LF_single: "ReplaceAll s [LF] t = expand_lf t s"
proof (induction s)
  case (Cons c cs)
  then show ?case
    by (cases "c = LF") (simp_all add: ReplaceAll_miss)
qed simp

lemma hd_expand_lf: "t \<in> {CRLF, [CR]} \<Longrightarrow> expand_lf t s = [] \<or> hd (expand_lf t s) \<noteq> LF"
  by (cases s) auto

lemma norm_lf_convert:
  assumes "CR \<notin> set s" "t \<in> {CRLF, [CR]}"
  shows "norm_lf (expand_lf t s) = s"
  using assms(1)
proof (induction s)
  case (Cons c cs)
  with hd_expand_lf [OF assms(2), of cs] assms(2) show ?case
    by (cases "c = LF") auto
qed simp

lemma norm_lf_Normalize [nl_simps]: "norm_lf (NormalizeLineEndings s t) = norm_lf s"
  by (simp add: NormalizeLineEndings_def ReplaceAll_CR_LF Let_def ReplaceAll_LF_single
      norm_lf_convert)

lemma no_lone_cr_convert_CRLF: "CR \<notin> set s \<Longrightarrow> no_lone_cr (expand_lf CRLF s)"
  by (induction s) auto

lemma no_lone_cr_Normalize: "t \<noteq> [CR] \<Longrightarrow> no_lone_cr (NormalizeLineEndings s t)"
  by (cases "t = CRLF") (simp_all add: NormalizeLineEndings_def ReplaceAll_CR_LF Let_def
      ReplaceAll_LF_single no_lone_cr_convert_CRLF no_lone_cr_no_CR)

subsection \<open>The region cursor\<close>

record LineEndingCursor =
  content :: gostring
  fallback :: gostring
  hasNL :: bool
  scan :: nat
  foundPos :: int
  foundKind :: gostring
  lastEnd :: nat
  finalKind :: gostring
  finalDone :: bool

definition NewLineEndingCursor :: "gostring \<Rightarrow> LineEndingCursor" where
  "NewLineEndingCursor s =
     \<lparr>content = s, fallback = DetectLineEnding s, hasNL = ContainsAny s CRLF, scan = 0,
      foundPos = -2, foundKind = [], lastEnd = 0, finalKind = [], finalDone = False\<rparr>"

text \<open>
  The counting loop of \<open>spanMajority\<close> from index \<open>i\<close> to \<open>e\<close>: for each form its count and the
  index of its first occurrence.
\<close>

record SpanCount =
  sc_lf :: nat
  sc_crlf :: nat
  sc_cr :: nat
  sc_lfAt :: nat
  sc_crlfAt :: nat
  sc_crAt :: nat

function span_loop :: "gostring \<Rightarrow> nat \<Rightarrow> nat \<Rightarrow> SpanCount \<Rightarrow> SpanCount" where
  "span_loop s i e sc =
     (if i < e then
        (if s ! i = CR then
           (if i + 1 < length s \<and> s ! (i + 1) = LF
            then span_loop s (i + 2) e
                   (sc\<lparr>sc_crlf := sc_crlf sc + 1,
                       sc_crlfAt := (if sc_crlf sc = 0 then i else sc_crlfAt sc)\<rparr>)
            else span_loop s (i + 1) e
                   (sc\<lparr>sc_cr := sc_cr sc + 1,
                       sc_crAt := (if sc_cr sc = 0 then i else sc_crAt sc)\<rparr>))
         else if s ! i = LF then
           (if 0 < i \<and> s ! (i - 1) = CR
            then span_loop s (i + 1) e
                   (sc\<lparr>sc_crlf := sc_crlf sc + 1,
                       sc_crlfAt := (if sc_crlf sc = 0 then i - 1 else sc_crlfAt sc)\<rparr>)
            else span_loop s (i + 1) e
                   (sc\<lparr>sc_lf := sc_lf sc + 1,
                       sc_lfAt := (if sc_lf sc = 0 then i else sc_lfAt sc)\<rparr>))
         else span_loop s (i + 1) e sc)
      else sc)"
  by pat_completeness auto
termination
  by (relation "measure (\<lambda>(s, i, e, sc). e - i)") auto

declare span_loop.simps [simp del]

definition pick_majority ::
  "gostring \<times> nat \<times> nat \<Rightarrow> gostring \<times> nat \<times> nat \<Rightarrow> gostring \<times> nat \<times> nat" where
  "pick_majority best f =
     (case (best, f) of ((b, bestCount, bestAt), (ending, count, at)) \<Rightarrow>
        if count = 0 then best
        else if bestCount < count \<or> (count = bestCount \<and> at < bestAt) then f else best)"

definition spanMajority :: "gostring \<Rightarrow> nat \<Rightarrow> nat \<Rightarrow> gostring" where
  "spanMajority s i e =
     (let sc = span_loop s i e \<lparr>sc_lf = 0, sc_crlf = 0, sc_cr = 0, sc_lfAt = 0, sc_crlfAt = 0, sc_crAt = 0\<rparr>
      in if sc_lf sc + sc_crlf sc + sc_cr sc = 0 then []
         else fst (foldl pick_majority ([], 0, 0)
                [(CRLF, sc_crlf sc, sc_crlfAt sc), ([LF], sc_lf sc, sc_lfAt sc),
                 ([CR], sc_cr sc, sc_crAt sc)]))"

text \<open>The scan of \<open>terminator\<close>: position found (\<open>-1\<close> for none), its kind, where to resume.\<close>

function term_scan :: "gostring \<Rightarrow> nat \<Rightarrow> int \<times> gostring \<times> nat" where
  "term_scan s i =
     (if i < length s then
        (if s ! i = LF then
           (int i, if 0 < i \<and> s ! (i - 1) = CR then CRLF else [LF], i + 1)
         else if s ! i = CR then
           (if i + 1 < length s \<and> s ! (i + 1) = LF then (int i, CRLF, i + 2)
            else (int i, [CR], i + 1))
         else term_scan s (i + 1))
      else (-1, [], length s))"
  by pat_completeness auto
termination
  by (relation "measure (\<lambda>(s, i). length s - i)") auto

declare term_scan.simps [simp del]

definition terminator :: "LineEndingCursor \<Rightarrow> nat \<Rightarrow> gostring \<times> LineEndingCursor" where
  "terminator c e =
     (if foundPos c = -1 then ([], c)
      else if 0 \<le> foundPos c \<and> e < scan c then (foundKind c, c)
      else let i = (if e < scan c then scan c else e);
               (p, k, sc) = term_scan (content c) i
           in (k, c\<lparr>foundPos := p, foundKind := k, scan := sc\<rparr>))"

text \<open>The backward scan of \<open>final\<close>; the argument is one more than the index looked at.\<close>

fun final_scan :: "gostring \<Rightarrow> nat \<Rightarrow> gostring" where
  "final_scan s 0 = []"
| "final_scan s (Suc i) =
     (if s ! i = LF then (if 0 < i \<and> s ! (i - 1) = CR then CRLF else [LF])
      else if s ! i = CR then [CR] else final_scan s i)"

definition final :: "LineEndingCursor \<Rightarrow> gostring \<times> LineEndingCursor" where
  "final c =
     (if finalDone c then (finalKind c, c)
      else let k = final_scan (content c) (length (content c))
           in (k, c\<lparr>finalDone := True, finalKind := k\<rparr>))"

definition At :: "LineEndingCursor \<Rightarrow> int \<Rightarrow> int \<Rightarrow> gostring \<times> LineEndingCursor" where
  "At c start0 end0 =
     (if \<not> hasNL c then (fallback c, c)
      else let start = nat (max 0 start0);
               end1 = min end0 (int (length (content c)));
               e = nat (max end1 (int start));
               c1 = (if e < lastEnd c then c\<lparr>scan := 0, foundPos := -2, foundKind := []\<rparr> else c);
               c2 = c1\<lparr>lastEnd := e\<rparr>;
               k1 = spanMajority (content c) start e
           in if k1 \<noteq> [] then (k1, c2)
              else case terminator c2 e of (k2, c3) \<Rightarrow>
                if k2 \<noteq> [] then (k2, c3)
                else case final c3 of (k3, c4) \<Rightarrow>
                  if k3 \<noteq> [] then (k3, c4) else (fallback c4, c4))"

definition LineEndingAround :: "gostring \<Rightarrow> int \<Rightarrow> int \<Rightarrow> gostring \<Rightarrow> gostring" where
  "LineEndingAround s start e fb = fst (At ((NewLineEndingCursor s)\<lparr>fallback := fb\<rparr>) start e)"

subsection \<open>The offset map\<close>

record LineEndingMap =
  Original :: gostring
  Norm :: gostring
  DominantNL :: gostring
  region :: LineEndingCursor
  curNorm :: nat
  curOrig :: nat

definition NewLineEndingMap :: "gostring \<Rightarrow> LineEndingMap" where
  "NewLineEndingMap s =
     \<lparr>Original = s, Norm = (if CR \<notin> set s then s else norm_lf s), DominantNL = DetectLineEnding s,
      region = NewLineEndingCursor s, curNorm = 0, curOrig = 0\<rparr>"

text \<open>The forward walk of \<open>OrigOffset\<close>: \<open>k\<close> normalized bytes ahead of \<open>cur\<close>.\<close>

fun walk :: "gostring \<Rightarrow> nat \<Rightarrow> nat \<Rightarrow> nat" where
  "walk s cur 0 = cur"
| "walk s cur (Suc k) =
     walk s (if s ! cur = CR \<and> cur + 1 < length s \<and> s ! (cur + 1) = LF then cur + 2 else cur + 1) k"

definition OrigOffset :: "LineEndingMap \<Rightarrow> int \<Rightarrow> nat \<times> LineEndingMap" where
  "OrigOffset m norm0 =
     (let norm = nat (min (max 0 norm0) (int (length (Norm m))))
      in if length (Norm m) = length (Original m) then (norm, m)
         else let m1 = (if norm < curNorm m then m\<lparr>curNorm := 0, curOrig := 0\<rparr> else m);
                  o1 = walk (Original m) (curOrig m1) (norm - curNorm m1)
              in (o1, m1\<lparr>curNorm := norm, curOrig := o1\<rparr>))"

definition LocalLineEnding :: "LineEndingMap \<Rightarrow> int \<Rightarrow> int \<Rightarrow> gostring \<times> LineEndingMap" where
  "LocalLineEnding m start e =
     (case OrigOffset m start of (s1, m1) \<Rightarrow>
      case OrigOffset m1 e of (e1, m2) \<Rightarrow>
      case At (region m2) (int s1) (int e1) of (k, r) \<Rightarrow> (k, m2\<lparr>region := r\<rparr>))"

subsection \<open>Offsets: the walk against its specification\<close>

text \<open>\<open>orig_off s n\<close> is the number of bytes of \<open>s\<close> that the first \<open>n\<close> normalized bytes stand for.\<close>

fun orig_off :: "gostring \<Rightarrow> nat \<Rightarrow> nat" where
  "orig_off s 0 = 0"
| "orig_off [] (Suc n) = 0"
| "orig_off (c # cs) (Suc n) =
     (if c = CR \<and> cs \<noteq> [] \<and> hd cs = LF then 2 + orig_off (tl cs) n else 1 + orig_off cs n)"

lemma orig_off_le: "orig_off s n \<le> length s"
proof (induction s n rule: orig_off.induct)
  case (3 c cs n)
  then show ?case by (cases cs) auto
qed auto

lemma norm_lf_take: "norm_lf (take (orig_off s n) s) = take n (norm_lf s)"
proof (induction s n rule: orig_off.induct)
  case (3 c cs n)
  show ?case
  proof (cases "c = CR \<and> cs \<noteq> [] \<and> hd cs = LF")
    case True
    with 3 show ?thesis by (cases cs) auto
  next
    case False
    then have "take (orig_off cs n) cs = [] \<or> hd (take (orig_off cs n) cs) \<noteq> LF \<or> c \<noteq> CR"
      by (cases cs) auto
    with 3 False show ?thesis by auto
  qed
qed auto

lemma norm_lf_drop: "norm_lf (drop (orig_off s n) s) = drop n (norm_lf s)"
proof (induction s n rule: orig_off.induct)
  case (3 c cs n)
  then show ?case by (cases cs) auto
qed auto

lemma orig_off_drop:
  "m + n \<le> length (norm_lf s) \<Longrightarrow> orig_off s (m + n) = orig_off s m + orig_off (drop (orig_off s m) s) n"
proof (induction s m rule: orig_off.induct)
  case (3 c cs m)
  then show ?case by (cases cs) (auto split: if_splits)
qed auto

lemma orig_off_mono: "m \<le> n \<Longrightarrow> n \<le> length (norm_lf s) \<Longrightarrow> orig_off s m \<le> orig_off s n"
  using orig_off_drop [of m "n - m" s] by simp

lemma orig_off_full: "orig_off s (length (norm_lf s)) = length s"
proof (induction s rule: norm_lf.induct)
  case (2 c cs)
  then show ?case by (cases cs) auto
qed simp

lemma orig_off_Suc:
  assumes "n < length (norm_lf s)"
  defines "k \<equiv> orig_off s n"
  shows "k < length s"
    and "orig_off s (Suc n) = (if s ! k = CR \<and> k + 1 < length s \<and> s ! (k + 1) = LF then k + 2 else k + 1)"
proof -
  have ne: "drop k s \<noteq> []"
    using norm_lf_drop [of s n] assms by (metis drop_eq_Nil norm_lf_eq_Nil leD)
  then show lt: "k < length s" by simp
  then obtain c cs where d: "drop k s = c # cs" "c = s ! k" "cs = drop (Suc k) s"
    by (metis Cons_nth_drop_Suc)
  have "cs \<noteq> [] \<and> hd cs = LF \<longleftrightarrow> k + 1 < length s \<and> s ! (k + 1) = LF"
    using d by (auto simp: hd_drop_conv_nth)
  with d orig_off_drop [of n 1 s] assms
  show "orig_off s (Suc n) = (if s ! k = CR \<and> k + 1 < length s \<and> s ! (k + 1) = LF then k + 2 else k + 1)"
    by auto
qed

lemma walk_orig_off:
  "n + k \<le> length (norm_lf s) \<Longrightarrow> walk s (orig_off s n) k = orig_off s (n + k)"
proof (induction k arbitrary: n)
  case (Suc k)
  then have lt: "n < length (norm_lf s)" by simp
  from Suc.IH [of "Suc n"] Suc.prems orig_off_Suc(2) [OF lt] show ?case by (simp add: Let_def)
qed simp

lemma length_norm_lf_eq_no_pair:
  "length (norm_lf s) = length s \<Longrightarrow> n \<le> length s \<Longrightarrow> orig_off s n = n"
proof (induction s n rule: orig_off.induct)
  case (3 c cs n)
  have "length (norm_lf (tl cs)) \<le> length (tl cs)" "length (norm_lf cs) \<le> length cs"
    by (rule length_norm_lf_le)+
  with 3 show ?case by (cases cs) (auto split: if_splits)
qed auto

text \<open>What every map built by \<open>NewLineEndingMap\<close> and used through its methods satisfies.\<close>

definition map_ok :: "gostring \<Rightarrow> LineEndingMap \<Rightarrow> bool" where
  "map_ok s m = (Original m = s \<and> Norm m = norm_lf s \<and> curNorm m \<le> length (norm_lf s)
                 \<and> curOrig m = orig_off s (curNorm m))"

lemma map_ok_New: "map_ok s (NewLineEndingMap s)"
  by (simp add: map_ok_def NewLineEndingMap_def norm_lf_id)

lemma OrigOffset_spec:
  assumes "map_ok s m"
  shows "fst (OrigOffset m n) = orig_off s (nat (min (max 0 n) (int (length (norm_lf s)))))"
    and "map_ok s (snd (OrigOffset m n))" and "region (snd (OrigOffset m n)) = region m"
proof -
  have N: "Norm m = norm_lf s" "Original m = s" "curOrig m = orig_off s (curNorm m)"
    using assms by (simp_all add: map_ok_def)
  define k where "k = nat (min (max 0 n) (int (length (norm_lf s))))"
  have le: "k \<le> length (norm_lf s)" by (simp add: k_def)
  have w: "walk s 0 k = orig_off s k"
    using walk_orig_off [of 0 k s] le by simp
  have w': "\<not> k < curNorm m \<Longrightarrow> walk s (orig_off s (curNorm m)) (k - curNorm m) = orig_off s k"
    using walk_orig_off [of "curNorm m" "k - curNorm m" s] le by simp
  have id: "length (norm_lf s) = length s \<Longrightarrow> orig_off s k = k"
    using length_norm_lf_eq_no_pair [of s k] le by simp
  have eq: "OrigOffset m n =
    (if length (norm_lf s) = length s then (k, m)
     else (orig_off s k, (if k < curNorm m then m\<lparr>curNorm := 0, curOrig := 0\<rparr> else m)
            \<lparr>curNorm := k, curOrig := orig_off s k\<rparr>))"
    unfolding OrigOffset_def N Let_def k_def [symmetric] using w w' N(3) by simp
  show "fst (OrigOffset m n) = orig_off s (nat (min (max 0 n) (int (length (norm_lf s)))))"
    unfolding eq k_def [symmetric] using id by simp
  show "map_ok s (snd (OrigOffset m n))" "region (snd (OrigOffset m n)) = region m"
    unfolding eq using assms le by (simp_all add: map_ok_def)
qed

subsection \<open>Regions: the cursor against its specification\<close>

text \<open>\<open>region_ending\<close> is \<open>At\<close> with no caches: majority in the span, the terminator after it, the
  last newline of the file, the fallback.\<close>

definition region_ending :: "gostring \<Rightarrow> gostring \<Rightarrow> nat \<Rightarrow> nat \<Rightarrow> gostring" where
  "region_ending s fb start e =
     (if \<not> ContainsAny s CRLF then fb
      else if spanMajority s start e \<noteq> [] then spanMajority s start e
      else if fst (snd (term_scan s e)) \<noteq> [] then fst (snd (term_scan s e))
      else if final_scan s (length s) \<noteq> [] then final_scan s (length s) else fb)"

definition nl_at :: "gostring \<Rightarrow> nat \<Rightarrow> bool" where
  "nl_at s i = (i < length s \<and> (s ! i = LF \<or> s ! i = CR))"

lemma term_scan_skip: "i < length s \<Longrightarrow> \<not> nl_at s i \<Longrightarrow> term_scan s i = term_scan s (Suc i)"
  by (subst term_scan.simps) (simp add: nl_at_def)

lemma term_scan_end: "length s \<le> i \<Longrightarrow> term_scan s i = (-1, [], length s)"
  by (subst term_scan.simps) simp

lemma term_scan_LF:
  "i < length s \<Longrightarrow> s ! i = LF \<Longrightarrow>
     term_scan s i = (int i, if 0 < i \<and> s ! (i - 1) = CR then CRLF else [LF], i + 1)"
  by (subst term_scan.simps) simp

lemma term_scan_CR:
  "i < length s \<Longrightarrow> s ! i = CR \<Longrightarrow>
     term_scan s i = (if i + 1 < length s \<and> s ! (i + 1) = LF then (int i, CRLF, i + 2)
                      else (int i, [CR], i + 1))"
  by (subst term_scan.simps) simp

lemmas term_scan_nl = term_scan_LF term_scan_CR

lemma term_scan_at_nl: "nl_at s i \<Longrightarrow> fst (term_scan s i) = int i"
  by (auto simp: nl_at_def term_scan_nl)

lemma term_scan_induct [case_names past newline skip]:
  assumes "\<And>i. length s \<le> i \<Longrightarrow> P i"
    and "\<And>i. nl_at s i \<Longrightarrow> P i"
    and "\<And>i. i < length s \<Longrightarrow> \<not> nl_at s i \<Longrightarrow> P (Suc i) \<Longrightarrow> P i"
  shows "P i"
proof (induction "length s - i" arbitrary: i)
  case 0
  with assms(1) show ?case by simp
next
  case (Suc n)
  then show ?case by (metis assms(2,3) Suc_diff_Suc diff_Suc_1 zero_less_Suc zero_less_diff)
qed

lemma term_scan_pos: "fst (term_scan s i) \<noteq> -1 \<Longrightarrow> 0 \<le> fst (term_scan s i)"
proof (induction i rule: term_scan_induct [of s])
  case (newline i)
  then show ?case by (simp add: term_scan_at_nl)
next
  case (skip i)
  then show ?case by (simp add: term_scan_skip)
qed (simp add: term_scan_end)

lemma term_scan_none:
  "fst (term_scan s i) = -1 \<Longrightarrow> i \<le> j \<Longrightarrow> term_scan s j = (-1, [], length s)"
proof (induction i arbitrary: j rule: term_scan_induct [of s])
  case (newline i)
  then show ?case by (simp add: term_scan_at_nl)
next
  case (skip i)
  have eq: "term_scan s i = term_scan s (Suc i)" using skip by (simp add: term_scan_skip)
  show ?case
  proof (cases "i = j")
    case True
    from skip.IH [of "Suc i"] skip.prems eq True show ?thesis by simp
  next
    case False
    from skip.IH [of j] skip.prems eq False show ?thesis by simp
  qed
qed (simp add: term_scan_end)

lemma term_scan_found:
  "term_scan s i = (p, k, r) \<Longrightarrow> 0 \<le> p \<Longrightarrow> i \<le> j \<Longrightarrow> j < r \<Longrightarrow>
     fst (snd (term_scan s j)) = k \<and> 0 \<le> fst (term_scan s j)"
proof (induction i arbitrary: j rule: term_scan_induct [of s])
  case (newline i)
  show ?case
  proof (cases "j = i")
    case False
    with newline have "j = i + 1" "s ! i = CR" "i + 1 < length s" "s ! (i + 1) = LF" "k = CRLF"
      by (auto simp: nl_at_def term_scan_nl split: if_splits)
    then show ?thesis by (simp add: term_scan_LF)
  qed (use newline in simp)
next
  case (skip i)
  show ?case
  proof (cases "i = j")
    case True
    with skip have "term_scan s j = term_scan s (Suc i)" by (simp add: term_scan_skip)
    with skip True show ?thesis by simp
  qed (use skip in \<open>simp add: term_scan_skip\<close>)
qed (simp add: term_scan_end)

definition cursor_ok :: "gostring \<Rightarrow> gostring \<Rightarrow> LineEndingCursor \<Rightarrow> bool" where
  "cursor_ok s fb c =
     (content c = s \<and> fallback c = fb \<and> hasNL c = ContainsAny s CRLF
      \<and> (finalDone c \<longrightarrow> finalKind c = final_scan s (length s))
      \<and> ((foundPos c = -2 \<and> scan c = 0)
         \<or> (\<exists>e \<le> lastEnd c. term_scan s e = (foundPos c, foundKind c, scan c))))"

lemma cursor_ok_New: "cursor_ok s (DetectLineEnding s) (NewLineEndingCursor s)"
  by (simp add: cursor_ok_def NewLineEndingCursor_def)

lemma cursor_ok_later:
  "cursor_ok s fb c \<Longrightarrow> lastEnd c \<le> e \<Longrightarrow> cursor_ok s fb (c\<lparr>lastEnd := e\<rparr>)"
  by (simp add: cursor_ok_def) (meson le_trans)

lemma cursor_ok_found:
  "cursor_ok s fb c \<Longrightarrow> term_scan s (lastEnd c) = (p, k, r) \<Longrightarrow>
     cursor_ok s fb (c\<lparr>foundPos := p, foundKind := k, scan := r\<rparr>)"
  by (auto simp: cursor_ok_def)

lemma terminator_spec:
  assumes ok: "cursor_ok s fb c"
  defines "e \<equiv> lastEnd c"
  shows "fst (terminator c e) = fst (snd (term_scan s e)) \<and> cursor_ok s fb (snd (terminator c e))
    \<and> lastEnd (snd (terminator c e)) = e"
proof -
  have ct: "content c = s" using ok by (simp add: cursor_ok_def)
  obtain p k r where t: "term_scan s e = (p, k, r)" by (metis prod_cases3)
  have ok': "cursor_ok s fb (c\<lparr>foundPos := p, foundKind := k, scan := r\<rparr>)"
    using cursor_ok_found [OF ok] t by (simp add: e_def)
  consider (fresh) "foundPos c = -2" "scan c = 0"
    | (none) e0 where "e0 \<le> e" "term_scan s e0 = (-1, foundKind c, scan c)" "foundPos c = -1"
    | (hit) e0 where "e0 \<le> e" "term_scan s e0 = (foundPos c, foundKind c, scan c)" "0 \<le> foundPos c"
    using ok term_scan_pos [of s] unfolding cursor_ok_def e_def by (metis fst_conv)
  then show ?thesis
  proof cases
    case fresh
    then show ?thesis using ok' t ct by (simp add: terminator_def e_def)
  next
    case none
    then have "term_scan s e = (-1, [], length s)" using term_scan_none [of s e0 e] by simp
    with none ok show ?thesis by (simp add: terminator_def e_def)
  next
    case hit
    show ?thesis
    proof (cases "e < scan c")
      case True
      then have "fst (snd (term_scan s e)) = foundKind c"
        using term_scan_found [OF hit(2,3,1)] by simp
      with True hit ok show ?thesis by (simp add: terminator_def e_def)
    next
      case False
      with hit ok' t ct show ?thesis by (simp add: terminator_def e_def)
    qed
  qed
qed

lemma final_spec:
  assumes "cursor_ok s fb c"
  shows "fst (final c) = final_scan s (length s) \<and> cursor_ok s fb (snd (final c))"
  using assms by (auto simp: final_def cursor_ok_def Let_def)

lemma At_spec:
  fixes a b :: int
  assumes ok: "cursor_ok s fb c"
  defines "i \<equiv> nat (max 0 a)"
  defines "j \<equiv> nat (max (min b (int (length s))) (int i))"
  shows "fst (At c a b) = region_ending s fb i j \<and> cursor_ok s fb (snd (At c a b))"
proof -
  define c2 where "c2 = (if j < lastEnd c then c\<lparr>scan := 0, foundPos := -2, foundKind := []\<rparr> else c)\<lparr>lastEnd := j\<rparr>"
  have ok2: "cursor_ok s fb c2"
    using ok cursor_ok_later [OF ok, of j] by (auto simp: c2_def cursor_ok_def)
  have ct: "content c = s" "hasNL c = ContainsAny s CRLF" "fallback c = fb" "lastEnd c2 = j"
    using ok by (auto simp: cursor_ok_def c2_def)
  obtain k2 c3 where t: "terminator c2 j = (k2, c3)" by fastforce
  have t': "k2 = fst (snd (term_scan s j))" "cursor_ok s fb c3"
    using terminator_spec [OF ok2] t ct by auto
  obtain k3 c4 where f: "final c3 = (k3, c4)" by fastforce
  have f': "k3 = final_scan s (length s)" "cursor_ok s fb c4" "fallback c4 = fb"
    using final_spec [OF t'(2)] f by (auto simp: cursor_ok_def)
  have "At c a b =
    (if \<not> ContainsAny s CRLF then (fb, c)
     else if spanMajority s i j \<noteq> [] then (spanMajority s i j, c2)
     else if k2 \<noteq> [] then (k2, c3) else if k3 \<noteq> [] then (k3, c4) else (fb, c4))"
    unfolding At_def Let_def ct i_def [symmetric] j_def [symmetric]
    using t f f'(3) by (simp add: c2_def)
  then show ?thesis
    using ok ok2 t' f' by (simp add: region_ending_def)
qed

text \<open>The answer is a newline form whenever the fallback is one.\<close>

lemma fst_pick_majority: "fst (pick_majority b f) = fst b \<or> fst (pick_majority b f) = fst f"
  by (cases b; cases f) (simp add: pick_majority_def)

lemma fst_foldl_pick:
  "fst (foldl pick_majority b fs) \<in> insert (fst b) (set (map fst fs))"
proof (induction fs arbitrary: b)
  case (Cons f fs)
  from Cons [of "pick_majority b f"] fst_pick_majority [of b f] show ?case by auto
qed simp

lemma spanMajority_range: "spanMajority s a b \<in> {[], CRLF, [LF], [CR]}"
proof -
  have "fst (foldl pick_majority ([], 0, 0) [(CRLF, x1, y1), ([LF], x2, y2), ([CR], x3, y3)])
    \<in> {[], CRLF, [LF], [CR]}" for x1 y1 x2 y2 x3 y3
    using fst_foldl_pick [of "([], 0, 0)" "[(CRLF, x1, y1), ([LF], x2, y2), ([CR], x3, y3)]"]
    by (simp only: set_simps list.map fst_conv)
  then show ?thesis by (simp only: spanMajority_def Let_def split: if_splits) blast
qed

lemma term_scan_kind: "fst (snd (term_scan s i)) \<in> {[], CRLF, [LF], [CR]}"
proof (induction i rule: term_scan_induct [of s])
  case (newline i)
  then show ?case by (auto simp: nl_at_def term_scan_nl split: if_splits)
next
  case (skip i)
  then show ?case by (simp add: term_scan_skip)
qed (simp add: term_scan_end)

lemma final_scan_kind: "final_scan s n \<in> {[], CRLF, [LF], [CR]}"
  by (induction n) auto

lemma region_ending_range:
  "fb \<in> {CRLF, [LF], [CR]} \<Longrightarrow> region_ending s fb a b \<in> {CRLF, [LF], [CR]}"
  using spanMajority_range [of s a b] term_scan_kind [of s b] final_scan_kind [of s "length s"]
  by (auto simp: region_ending_def)

lemma fst_pick_dominant:
  "fst (foldl (pick_dominant first) b fs) \<in> insert (fst b) (set (map fst fs))"
proof (induction fs arbitrary: b)
  case (Cons f fs)
  from Cons [of "pick_dominant first b f"] show ?case
    by (auto simp: pick_dominant_def split: if_splits)
qed simp

lemma DetectLineEnding_range: "DetectLineEnding s \<in> {CRLF, [LF], [CR]}"
proof -
  obtain lf crlf cr first where "scan_endings s (0, 0, 0, []) = (lf, crlf, cr, first)"
    by (metis prod_cases4)
  then show ?thesis
    using fst_pick_dominant [of first "([LF], 0)" "[(CRLF, crlf), ([LF], lf), ([CR], cr)]"]
    by (auto simp add: DetectLineEnding_def AnalyzeLineEndings_def Let_def simp del: foldl_Cons)
qed

subsection \<open>The interface the editing tools rely on\<close>

text \<open>
  A normalized view with an offset translation: cutting the original at a translated offset
  cuts the view at that offset. Everything the splicing code of the edit tool needs follows.
\<close>

locale offset_view =
  fixes norm :: "gostring \<Rightarrow> gostring"
    and off :: "gostring \<Rightarrow> nat \<Rightarrow> nat"
  assumes norm_take_off: "norm (take (off s n) s) = take n (norm s)"
    and norm_drop_off: "norm (drop (off s n) s) = drop n (norm s)"
    and off_add: "m + n \<le> length (norm s) \<Longrightarrow> off s (m + n) = off s m + off (drop (off s m) s) n"
    and off_full: "off s (length (norm s)) = length s"
begin

lemma off_mono: "m \<le> n \<Longrightarrow> n \<le> length (norm s) \<Longrightarrow> off s m \<le> off s n"
  using off_add [of m "n - m" s] by simp

lemma off_le_length: "n \<le> length (norm s) \<Longrightarrow> off s n \<le> length s"
  using off_mono [of n "length (norm s)" s] off_full [of s] by simp

lemma norm_slice_off:
  assumes "i \<le> j" "j \<le> length (norm s)"
  shows "norm (slice s (off s i) (off s j)) = slice (norm s) i j"
proof -
  let ?t = "drop (off s i) s"
  have "off s j - off s i = off ?t (j - i)"
    using off_add [of i "j - i" s] assms by simp
  then show ?thesis
    using norm_take_off [of ?t "j - i"] norm_drop_off [of s i] by (simp add: slice_def)
qed

lemma split_at_offs:
  assumes "i \<le> j" "j \<le> length (norm s)"
  shows "s = take (off s i) s @ slice s (off s i) (off s j) @ drop (off s j) s"
  using take_slice_drop [OF off_mono [OF assms]] by (rule sym)

end

interpretation le: offset_view norm_lf orig_off
  by unfold_locales (simp_all add: norm_lf_take norm_lf_drop orig_off_drop orig_off_full)

subsection \<open>Correctness of the cursors under any history of queries\<close>

definition after_spans :: "LineEndingCursor \<Rightarrow> (int \<times> int) list \<Rightarrow> LineEndingCursor" where
  "after_spans c qs = foldl (\<lambda>c (a, b). snd (At c a b)) c qs"

definition after_queries :: "LineEndingMap \<Rightarrow> (int \<times> int) list \<Rightarrow> LineEndingMap" where
  "after_queries m qs = foldl (\<lambda>m (a, b). snd (LocalLineEnding m a b)) m qs"

lemma cursor_ok_after_spans:
  "cursor_ok s fb c \<Longrightarrow> cursor_ok s fb (after_spans c qs)"
  by (induction qs arbitrary: c) (auto simp: after_spans_def At_spec)

lemma map_ok_LocalLineEnding: "map_ok s m \<Longrightarrow> map_ok s (snd (LocalLineEnding m a b))"
proof -
  assume ok: "map_ok s m"
  obtain s1 m1 where 1: "OrigOffset m a = (s1, m1)" by fastforce
  obtain e1 m2 where 2: "OrigOffset m1 b = (e1, m2)" by fastforce
  have "map_ok s m1" using OrigOffset_spec(2) [OF ok, of a] 1 by simp
  then have "map_ok s m2" using OrigOffset_spec(2) [of s m1 b] 2 by simp
  then show ?thesis using 1 2 by (simp add: LocalLineEnding_def map_ok_def split: prod.splits)
qed

lemma map_ok_after_queries: "map_ok s m \<Longrightarrow> map_ok s (after_queries m qs)"
  by (induction qs arbitrary: m) (auto simp: after_queries_def map_ok_LocalLineEnding)

lemma LocalLineEnding_spec:
  assumes ok: "map_ok s m" "cursor_ok s fb (region m)"
    and le: "i \<le> j" "j \<le> length (norm_lf s)"
  shows "fst (LocalLineEnding m (int i) (int j)) = region_ending s fb (orig_off s i) (orig_off s j)"
    and "map_ok s (snd (LocalLineEnding m (int i) (int j)))"
    and "cursor_ok s fb (region (snd (LocalLineEnding m (int i) (int j))))"
proof -
  obtain s1 m1 where 1: "OrigOffset m (int i) = (s1, m1)" by fastforce
  obtain e1 m2 where 2: "OrigOffset m1 (int j) = (e1, m2)" by fastforce
  have m1: "s1 = orig_off s i" "map_ok s m1" "region m1 = region m"
    using OrigOffset_spec [OF ok(1), of "int i"] 1 le by simp_all
  have m2: "e1 = orig_off s j" "map_ok s m2" "region m2 = region m"
    using OrigOffset_spec [OF m1(2), of "int j"] 2 le m1(3) by simp_all
  note off = le.off_mono [OF le] le.off_le_length [OF le(2)]
  have eq: "LocalLineEnding m (int i) (int j) =
    (case At (region m) (int (orig_off s i)) (int (orig_off s j)) of (k, r) \<Rightarrow> (k, m2\<lparr>region := r\<rparr>))"
    by (simp add: LocalLineEnding_def 1 2 m1 m2)
  show "fst (LocalLineEnding m (int i) (int j)) = region_ending s fb (orig_off s i) (orig_off s j)"
    "cursor_ok s fb (region (snd (LocalLineEnding m (int i) (int j))))"
    using At_spec [OF ok(2), of "int (orig_off s i)" "int (orig_off s j)"] off
    by (simp_all add: eq case_prod_beta)
  show "map_ok s (snd (LocalLineEnding m (int i) (int j)))"
    by (rule map_ok_LocalLineEnding [OF ok(1)])
qed


lemma cursor_ok_after_queries:
  "map_ok s m \<Longrightarrow> cursor_ok s fb (region m) \<Longrightarrow> cursor_ok s fb (region (after_queries m qs))"
proof (induction qs arbitrary: m)
  case (Cons q qs)
  obtain a b where q: "q = (a, b)" by fastforce
  have "cursor_ok s fb (region (snd (LocalLineEnding m a b)))"
  proof -
    obtain s1 m1 where 1: "OrigOffset m a = (s1, m1)" by fastforce
    obtain e1 m2 where 2: "OrigOffset m1 b = (e1, m2)" by fastforce
    have "region m2 = region m"
      using OrigOffset_spec [OF Cons.prems(1), of a] OrigOffset_spec(3) [of s m1 b] 1 2 by simp
    then show ?thesis
      using At_spec [of s fb "region m" "int s1" "int e1"] Cons.prems(2) 1 2
      by (simp add: LocalLineEnding_def case_prod_beta)
  qed
  with Cons map_ok_LocalLineEnding [OF Cons.prems(1), of a b] show ?case
    by (simp add: after_queries_def q)
qed (simp add: after_queries_def)

subsection \<open>Counts\<close>

lemma scan_endings_counts:
  "scan_endings s (lf, crlf, cr, f) = (lf', crlf', cr', f') \<Longrightarrow>
     lf' + crlf' + cr' = lf + crlf + cr + count_list (norm_lf s) LF"
proof (induction s "(lf, crlf, cr, f)" arbitrary: lf crlf cr f rule: scan_endings.induct)
  case (2 c cs lf crlf cr f)
  consider (pair) "c = CR" "cs \<noteq> []" "hd cs = LF" | (cr) "c = CR" "\<not> (cs \<noteq> [] \<and> hd cs = LF)"
    | (lf) "c = LF" | (other) "c \<noteq> CR" "c \<noteq> LF" by blast
  then show ?case
  proof cases
    case pair
    from 2(1) [OF pair(1) conjI [OF pair(2,3)]] 2(5) pair show ?thesis by simp
  next
    case cr
    from 2(2) [OF cr] 2(5) cr show ?thesis by (auto split: if_splits)
  next
    case lf
    from 2(3) [OF _ lf] 2(5) lf show ?thesis by simp
  next
    case other
    from 2(4) [OF other] 2(5) other show ?thesis by simp
  qed
qed simp

text \<open>The number of newlines of the given form.\<close>

definition form_count :: "LineEndingInfo \<Rightarrow> gostring \<Rightarrow> nat" where
  "form_count info k =
     (if k = CRLF then CRLFCount info else if k = [LF] then LFCount info
      else if k = [CR] then CRCount info else 0)"

subsection \<open>Properties\<close>

text \<open>the view searched by the editing tools is the file with every CRLF and every lone CR
  turned into LF. It contains no CR, and converting the file to any newline form first does not
  change it.\<close>

theorem NewLineEndingMap_norm:
  "Norm (NewLineEndingMap s) = NormalizeLineEndings s [LF]
   \<and> CR \<notin> set (Norm (NewLineEndingMap s))
   \<and> Norm (NewLineEndingMap (NormalizeLineEndings s t)) = Norm (NewLineEndingMap s)"
proof -
  have "Norm (NewLineEndingMap x) = norm_lf x" for x
    using map_ok_New [of x] by (simp add: map_ok_def)
  then show ?thesis by (simp add: nl_simps)
qed

text \<open>C21: \<open>OrigOffset\<close> is right after any sequence of earlier queries, for any integer offset: the
  original cut at the returned offset has the view cut at the requested (clamped) offset as its
  view, on both sides. The cached position never changes an answer.\<close>

theorem OrigOffset_correct:
  "let k = fst (OrigOffset (after_queries (NewLineEndingMap s) qs) n)
   in Norm (NewLineEndingMap (take k s)) = take (nat n) (Norm (NewLineEndingMap s))
      \<and> Norm (NewLineEndingMap (drop k s)) = drop (nat n) (Norm (NewLineEndingMap s))
      \<and> k \<le> length s"
proof -
  define k where "k = fst (OrigOffset (after_queries (NewLineEndingMap s) qs) n)"
  have N: "Norm (NewLineEndingMap x) = norm_lf x" for x
    using map_ok_New [of x] by (simp add: map_ok_def)
  define l where "l = length (norm_lf s)"
  have k: "k = orig_off s (nat (min (max 0 n) (int l)))"
    using OrigOffset_spec(1) [OF map_ok_after_queries [OF map_ok_New]]
    by (simp add: k_def l_def)
  have "nat (min (max 0 n) (int l)) = min (nat n) l" by linarith
  then have k': "k = orig_off s (min (nat n) l)" using k by simp
  show ?thesis
    unfolding k_def [symmetric] Let_def N k' norm_lf_take norm_lf_drop
    by (auto simp: l_def orig_off_le min_def)
qed

text \<open>the newline form chosen for a span depends on the file and the span only, not on the
  spans asked for before; through the map it is the form of the translated span, and it is
  always one of CRLF, LF and CR.\<close>

theorem At_history_independent:
  "fst (At (after_spans (NewLineEndingCursor s) qs) a b) = fst (At (NewLineEndingCursor s) a b)
   \<and> fst (LocalLineEnding (after_queries (NewLineEndingMap s) ps) a b)
      = fst (LocalLineEnding (NewLineEndingMap s) a b)
   \<and> fst (At (NewLineEndingCursor s) a b) \<in> {CRLF, [LF], [CR]}"
proof -
  let ?fb = "DetectLineEnding s"
  have At: "fst (At c a b) = region_ending s ?fb (nat (max 0 a))
      (nat (max (min b (int (length s))) (int (nat (max 0 a)))))"
    if "cursor_ok s ?fb c" for c a b
    using At_spec [OF that] by simp
  have Local: "fst (LocalLineEnding m a b) =
      fst (At (region m) (int (fst (OrigOffset (NewLineEndingMap s) a)))
                         (int (fst (OrigOffset (NewLineEndingMap s) b))))"
    if m: "map_ok s m" for m
  proof -
    obtain s1 m1 where 1: "OrigOffset m a = (s1, m1)" by fastforce
    obtain e1 m2 where 2: "OrigOffset m1 b = (e1, m2)" by fastforce
    have "map_ok s m1" using OrigOffset_spec(2) [OF m, of a] 1 by simp
    then show ?thesis
      using OrigOffset_spec [OF m, of a] OrigOffset_spec [of s m1 b] 1 2
        OrigOffset_spec(1) [OF map_ok_New [of s]]
      by (simp add: LocalLineEnding_def case_prod_beta)
  qed
  have new: "cursor_ok s ?fb (region (NewLineEndingMap s))"
    using cursor_ok_New by (simp add: NewLineEndingMap_def)
  show ?thesis
    using At [OF cursor_ok_New] At [OF cursor_ok_after_spans [OF cursor_ok_New]]
      Local [OF map_ok_New] Local [OF map_ok_after_queries [OF map_ok_New, of s ps]]
      At [OF new] At [OF cursor_ok_after_queries [OF map_ok_New new, of ps]]
      region_ending_range [OF DetectLineEnding_range, of s s]
    by simp
qed

text \<open>\<open>AnalyzeLineEndings\<close> counts every newline of the view exactly once, the dominant form
  occurs at least as often as each other form, and the kind is \<open>Mixed\<close> exactly when two forms
  occur.\<close>

theorem AnalyzeLineEndings_counts:
  "let info = AnalyzeLineEndings s
   in LFCount info + CRLFCount info + CRCount info = count_list (NormalizeLineEndings s [LF]) LF
      \<and> form_count info (Dominant info) = max (LFCount info) (max (CRLFCount info) (CRCount info))
      \<and> (Kind info = ''Mixed'')
         = (1 < length (filter (\<lambda>k. 0 < form_count info k) [CRLF, [LF], [CR]]))"
proof -
  obtain lf crlf cr first where sc: "scan_endings s (0, 0, 0, []) = (lf, crlf, cr, first)"
    by (metis prod_cases4)
  have "lf + crlf + cr = count_list (norm_lf s) LF"
    using scan_endings_counts [OF sc] by simp
  then show ?thesis
    by (simp add: AnalyzeLineEndings_def sc Let_def form_count_def pick_dominant_def nl_simps)
qed

end
