(* ===== verification/Text_Diff.thy ===== *)
theory Text_Diff
  imports Line_Endings
begin

text \<open>
  Unified diffs (internal/textdiff/textdiff.go). The matcher is the third-party package difflib;
  what it returns is an argument of \<open>Unified\<close>. \<open>groups_ok\<close> states what difflib documents of
  grouped opcodes: they describe, from left to right, how to turn the first sequence into the
  second, and the lines between two groups are equal.
\<close>

subsection \<open>Lines\<close>

definition SplitLines :: "gostring \<Rightarrow> gostring list" where
  "SplitLines s =
     (if s = [] then []
      else let ls = lines_of (ReplaceAll s CRLF [LF])
           in if last ls = [] then butlast ls else ls)"

subsection \<open>Opcodes of the matcher\<close>

datatype tag = Equal | Delete | Insert | Change

record OpCode =
  Tag :: tag
  I1 :: nat
  I2 :: nat
  J1 :: nat
  J2 :: nat

definition op_ok :: "gostring list \<Rightarrow> gostring list \<Rightarrow> nat \<Rightarrow> nat \<Rightarrow> OpCode \<Rightarrow> bool" where
  "op_ok a b i j oc =
     (I1 oc = i \<and> J1 oc = j \<and> i \<le> I2 oc \<and> j \<le> J2 oc \<and> I2 oc \<le> length a \<and> J2 oc \<le> length b \<and>
      (case Tag oc of
         Equal \<Rightarrow> slice a i (I2 oc) = slice b j (J2 oc)
       | Delete \<Rightarrow> J2 oc = j
       | Insert \<Rightarrow> I2 oc = i
       | Change \<Rightarrow> True))"

fun ops_ok :: "gostring list \<Rightarrow> gostring list \<Rightarrow> nat \<Rightarrow> nat \<Rightarrow> OpCode list \<Rightarrow> bool" where
  "ops_ok a b i j [] = True"
| "ops_ok a b i j (oc # ocs) = (op_ok a b i j oc \<and> ops_ok a b (I2 oc) (J2 oc) ocs)"

fun groups_ok :: "gostring list \<Rightarrow> gostring list \<Rightarrow> nat \<Rightarrow> nat \<Rightarrow> OpCode list list \<Rightarrow> bool" where
  "groups_ok a b i j [] = (drop i a = drop j b)"
| "groups_ok a b i j (g # gs) =
     (g \<noteq> [] \<and> i \<le> I1 (hd g) \<and> j \<le> J1 (hd g)
      \<and> slice a i (I1 (hd g)) = slice b j (J1 (hd g))
      \<and> ops_ok a b (I1 (hd g)) (J1 (hd g)) g
      \<and> groups_ok a b (I2 (last g)) (J2 (last g)) gs)"

subsection \<open>Printing\<close>

definition formatRange :: "nat \<Rightarrow> nat \<Rightarrow> gostring" where
  "formatRange start stop =
     (let count = stop - start; line = (if count = 0 then start else start + 1)
      in show_nat line @ '','' @ show_nat count)"

definition writeLines :: "char \<Rightarrow> gostring list \<Rightarrow> gostring" where
  "writeLines p ls = concat (map (\<lambda>line. p # line @ [LF]) ls)"

definition write_op :: "gostring list \<Rightarrow> gostring list \<Rightarrow> OpCode \<Rightarrow> gostring" where
  "write_op a b oc =
     (case Tag oc of
        Equal \<Rightarrow> writeLines (CHR '' '') (slice a (I1 oc) (I2 oc))
      | Delete \<Rightarrow> writeLines (CHR ''-'') (slice a (I1 oc) (I2 oc))
      | Insert \<Rightarrow> writeLines (CHR ''+'') (slice b (J1 oc) (J2 oc))
      | Change \<Rightarrow> writeLines (CHR ''-'') (slice a (I1 oc) (I2 oc))
                 @ writeLines (CHR ''+'') (slice b (J1 oc) (J2 oc)))"

definition write_group :: "gostring list \<Rightarrow> gostring list \<Rightarrow> OpCode list \<Rightarrow> gostring" where
  "write_group a b g =
     ''@@ -'' @ formatRange (I1 (hd g)) (I2 (last g)) @ '' +''
     @ formatRange (J1 (hd g)) (J2 (last g)) @ '' @@'' @ [LF]
     @ concat (map (write_op a b) g)"

text \<open>\<open>grouped\<close> is \<open>difflib.NewMatcher(a, b).GetGroupedOpCodes(n)\<close>.\<close>

definition Unified ::
  "(gostring list \<Rightarrow> gostring list \<Rightarrow> nat \<Rightarrow> OpCode list list) \<Rightarrow> gostring \<Rightarrow> gostring
   \<Rightarrow> gostring list \<Rightarrow> gostring list \<Rightarrow> nat \<Rightarrow> gostring" where
  "Unified grouped nameA nameB a b contextLines =
     ''--- '' @ nameA @ [LF] @ ''+++ '' @ nameB @ [LF]
     @ concat (map (write_group a b) (grouped a b contextLines))"

definition UnifiedStrings ::
  "(gostring list \<Rightarrow> gostring list \<Rightarrow> nat \<Rightarrow> OpCode list list) \<Rightarrow> gostring \<Rightarrow> gostring
   \<Rightarrow> gostring \<Rightarrow> gostring \<Rightarrow> nat \<Rightarrow> gostring" where
  "UnifiedStrings grouped nameA nameB before after contextLines =
     Unified grouped nameA nameB (SplitLines before) (SplitLines after) contextLines"

subsection \<open>The diff as a list of lines\<close>

definition plain_line :: "gostring \<Rightarrow> bool" where
  "plain_line l = (LF \<notin> set l \<and> (l = [] \<or> last l \<noteq> CR))"

definition terminated :: "gostring list \<Rightarrow> gostring" where
  "terminated ls = concat (map (\<lambda>l. l @ [LF]) ls)"

lemma terminated_simps [simp]:
  "terminated [] = []" "terminated (l # ls) = l @ [LF] @ terminated ls"
  "terminated (xs @ ys) = terminated xs @ terminated ys"
  by (simp_all add: terminated_def)

definition op_lines :: "gostring list \<Rightarrow> gostring list \<Rightarrow> OpCode \<Rightarrow> gostring list" where
  "op_lines a b oc =
     (case Tag oc of
        Equal \<Rightarrow> map ((#) (CHR '' '')) (slice a (I1 oc) (I2 oc))
      | Delete \<Rightarrow> map ((#) (CHR ''-'')) (slice a (I1 oc) (I2 oc))
      | Insert \<Rightarrow> map ((#) (CHR ''+'')) (slice b (J1 oc) (J2 oc))
      | Change \<Rightarrow> map ((#) (CHR ''-'')) (slice a (I1 oc) (I2 oc))
                 @ map ((#) (CHR ''+'')) (slice b (J1 oc) (J2 oc)))"

definition group_header :: "OpCode list \<Rightarrow> gostring" where
  "group_header g =
     ''@@ -'' @ formatRange (I1 (hd g)) (I2 (last g)) @ '' +''
     @ formatRange (J1 (hd g)) (J2 (last g)) @ '' @@''"

lemma writeLines_terminated: "writeLines p ls = terminated (map ((#) p) ls)"
  by (simp add: writeLines_def terminated_def comp_def)

lemma write_op_terminated: "write_op a b oc = terminated (op_lines a b oc)"
  by (simp add: write_op_def op_lines_def writeLines_terminated split: tag.splits)

lemma write_ops_terminated: "concat (map (write_op a b) g) = terminated (concat (map (op_lines a b) g))"
  by (induction g) (simp_all add: write_op_terminated)

lemma write_group_terminated:
  "write_group a b g = terminated (group_header g # concat (map (op_lines a b) g))"
  by (simp add: write_group_def group_header_def write_ops_terminated)

lemma Unified_terminated:
  "Unified grouped nA nB a b n =
     terminated ((''--- '' @ nA) # (''+++ '' @ nB)
       # concat (map (\<lambda>g. group_header g # concat (map (op_lines a b) g)) (grouped a b n)))"
proof -
  have "concat (map (write_group a b) gs) =
      terminated (concat (map (\<lambda>g. group_header g # concat (map (op_lines a b) g)) gs))" for gs
    by (induction gs) (simp_all add: write_group_terminated)
  then show ?thesis by (simp add: Unified_def)
qed

text \<open>Normalizing CRLF leaves lines alone that do not end in CR.\<close>

lemma ReplaceAll_CRLF_line:
  "LF \<notin> set l \<Longrightarrow> ReplaceAll (l @ LF # t) CRLF [LF] = strip_cr l @ LF # ReplaceAll t CRLF [LF]"
proof (induction l)
  case Nil
  then show ?case by (simp add: ReplaceAll_miss strip_cr_def)
next
  case (Cons c l)
  then show ?case
  proof (cases "l = [] \<and> c = CR")
    case True
    then show ?thesis by (simp add: strip_cr_def)
  next
    case False
    then have "\<not> prefix CRLF ((c # l) @ LF # t)" using Cons.prems by (cases l) auto
    with Cons False show ?thesis by (auto simp: ReplaceAll_miss strip_cr_def)
  qed
qed

lemma ReplaceAll_CRLF_no_LF: "LF \<notin> set l \<Longrightarrow> ReplaceAll l CRLF [LF] = l"
proof (induction l)
  case (Cons c l)
  then have "\<not> prefix CRLF (c # l)" by (cases l) auto
  with Cons show ?case by (simp add: ReplaceAll_miss)
qed simp

lemma strip_cr_plain: "plain_line l \<Longrightarrow> strip_cr l = l"
  by (auto simp: plain_line_def strip_cr_def)

lemma ReplaceAll_CRLF_terminated:
  "list_all plain_line ls \<Longrightarrow> ReplaceAll (terminated ls) CRLF [LF] = terminated ls"
  by (induction ls) (auto simp: ReplaceAll_CRLF_line strip_cr_plain plain_line_def)

lemma terminated_Join: "ls \<noteq> [] \<Longrightarrow> terminated ls = unlines ls @ [LF]"
proof (induction ls)
  case (Cons l ls)
  then show ?case by (cases ls) auto
qed simp

lemma lines_of_terminated: "list_all plain_line ls \<Longrightarrow> lines_of (terminated ls) = ls @ [[]]"
  by (induction ls) (auto simp: plain_line_def split_on_append_sep)

lemma strip_cr_set: "set (strip_cr l) \<subseteq> set l"
  by (auto simp: strip_cr_def dest: in_set_butlastD)

lemma strip_cr_restore:
  "l \<noteq> [] \<Longrightarrow> last l = CR \<Longrightarrow> strip_cr l @ CR # t = l @ t"
  "\<not> (l \<noteq> [] \<and> last l = CR) \<Longrightarrow> strip_cr l = l"
  using append_butlast_last_id [of l] by (auto simp: strip_cr_def)

lemma HasSuffix_LF: "HasSuffix s [LF] \<longleftrightarrow> s \<noteq> [] \<and> last s = LF"
  by (auto simp: suffix_def) (metis append_butlast_last_id)

lemma lines_of_ReplaceAll_CRLF:
  "LF \<notin> set l \<Longrightarrow> lines_of (ReplaceAll (l @ LF # t) CRLF [LF])
     = strip_cr l # lines_of (ReplaceAll t CRLF [LF])"
  using split_on_append_sep [of LF "strip_cr l"] strip_cr_set [of l]
  by (auto simp: ReplaceAll_CRLF_line)

lemma SplitLines_line:
  "LF \<notin> set l \<Longrightarrow> SplitLines (l @ LF # t) = strip_cr l # SplitLines t"
  by (simp add: SplitLines_def lines_of_ReplaceAll_CRLF Let_def)

lemma SplitLines_no_LF: "LF \<notin> set l \<Longrightarrow> SplitLines l = (if l = [] then [] else [l])"
  by (simp add: SplitLines_def ReplaceAll_CRLF_no_LF split_on_absent Let_def)

text \<open>Induction over the lines of a text.\<close>

lemma line_induct [case_names last line]:
  assumes "\<And>l. LF \<notin> set l \<Longrightarrow> P l" and "\<And>l t. LF \<notin> set l \<Longrightarrow> P t \<Longrightarrow> P (l @ LF # t)"
  shows "P s"
proof (induction "length s" arbitrary: s rule: less_induct)
  case less
  show ?case
  proof (cases "LF \<in> set s")
    case True
    then obtain l t where "s = l @ LF # t" "LF \<notin> set l" by (meson split_list_first)
    with less assms(2) show ?thesis by simp
  qed (rule assms(1))
qed

end
