(* ===== verification/Edit_Indent.thy ===== *)
theory Edit_Indent
  imports Go_Strings
begin

text \<open>
  Indentation handling of the edit tool (tools/edit/indent.go): detection of the style of a text,
  conversion of leading whitespace between tabs and spaces, the pieces of .editorconfig parsing
  that do not touch the file system, and the \<open>indent_style\<close> option of tools/edit/handler.go.
  Go iterates over a map in an unspecified order; the order is an argument of the definitions
  that do so. The theorems show that conversion touches leading whitespace only and keeps its
  width, and when it can be undone.
\<close>

record IndentStyle =
  UseTabs :: bool
  IndentSize :: int

subsection \<open>Converting leading whitespace\<close>

definition tab_size :: "int \<Rightarrow> nat" where
  "tab_size indentSize = (if indentSize \<le> 0 then 4 else nat indentSize)"

definition spaces_to_tabs_line :: "nat \<Rightarrow> gostring \<Rightarrow> gostring" where
  "spaces_to_tabs_line n line =
     (if line = [] \<or> hd line \<noteq> SP then line
      else let stripped = TrimLeft line [SP]; nSpaces = length line - length stripped
           in if nSpaces < 2 then line
              else Repeat [TAB] (nSpaces div n) @ Repeat [SP] (nSpaces mod n) @ stripped)"

definition SpacesToTabs :: "gostring \<Rightarrow> int \<Rightarrow> gostring" where
  "SpacesToTabs text indentSize =
     unlines (map (spaces_to_tabs_line (tab_size indentSize)) (lines_of text))"

definition tabs_to_spaces_line :: "nat \<Rightarrow> gostring \<Rightarrow> gostring" where
  "tabs_to_spaces_line n line =
     (if line = [] \<or> hd line \<noteq> TAB then line
      else let stripped = TrimLeft line [TAB]; nTabs = length line - length stripped
           in Repeat [SP] (nTabs * n) @ stripped)"

definition TabsToSpaces :: "gostring \<Rightarrow> int \<Rightarrow> gostring" where
  "TabsToSpaces text indentSize =
     unlines (map (tabs_to_spaces_line (tab_size indentSize)) (lines_of text))"

definition rescale_line :: "nat \<Rightarrow> nat \<Rightarrow> gostring \<Rightarrow> gostring" where
  "rescale_line srcSize dstSize line =
     (if line = [] \<or> hd line \<noteq> SP then line
      else let stripped = TrimLeft line [SP]; nSpaces = length line - length stripped;
               level = nSpaces div srcSize; remainder = nSpaces mod srcSize
           in Repeat [SP] (level * dstSize + remainder) @ stripped)"

definition RescaleSpaces :: "gostring \<Rightarrow> int \<Rightarrow> int \<Rightarrow> gostring" where
  "RescaleSpaces text srcSize dstSize =
     (if srcSize \<le> 0 \<or> dstSize \<le> 0 \<or> srcSize = dstSize then text
      else unlines (map (rescale_line (nat srcSize) (nat dstSize)) (lines_of text)))"

definition ConvertIndent :: "gostring \<Rightarrow> IndentStyle \<Rightarrow> IndentStyle \<Rightarrow> gostring" where
  "ConvertIndent text src dst =
     (if UseTabs src = UseTabs dst \<and> IndentSize src = IndentSize dst then text
      else if UseTabs src \<and> \<not> UseTabs dst then TabsToSpaces text (IndentSize dst)
      else if \<not> UseTabs src \<and> UseTabs dst then SpacesToTabs text (IndentSize src)
      else if IndentSize src \<noteq> IndentSize dst \<and> 0 < IndentSize src
      then RescaleSpaces text (IndentSize src) (IndentSize dst)
      else text)"

subsection \<open>Detecting a style\<close>

text \<open>The regular expression \<open>^  +\S\<close>: two or more spaces, then a byte outside \<open>[\t\n\f\r ]\<close>.\<close>

definition reLeadingSpaces :: "gostring \<Rightarrow> bool" where
  "reLeadingSpaces line =
     (let rest = TrimLeft line [SP]
      in 2 \<le> length line - length rest \<and> rest \<noteq> [] \<and> hd rest \<notin> {TAB, LF, CHR 0x0C, CR})"

definition HasLeadingSpaces :: "gostring \<Rightarrow> bool" where
  "HasLeadingSpaces text = list_ex reLeadingSpaces (lines_of text)"

text \<open>The scan state of \<open>detectIndentFromContent\<close>: tab lines, space lines, the indentation of the
  previous line and how often each increase of indentation was seen.\<close>

record IndentScan =
  tabLines :: nat
  spaceLines :: nat
  prevSpaces :: nat
  spaceDiffs :: "nat \<Rightarrow> nat"

definition indent_scan_line :: "IndentScan \<Rightarrow> gostring \<Rightarrow> IndentScan" where
  "indent_scan_line st line =
     (if line = [] then st
      else if hd line = TAB then st\<lparr>tabLines := tabLines st + 1\<rparr>
      else if hd line = SP \<and> reLeadingSpaces line then
        (let nSpaces = length line - length (TrimLeft line [SP]);
             diff = int nSpaces - int (prevSpaces st);
             ds = (if 0 < diff \<and> diff \<le> 8
                   then (spaceDiffs st)(nat diff := spaceDiffs st (nat diff) + 1) else spaceDiffs st)
         in st\<lparr>spaceLines := spaceLines st + 1, spaceDiffs := ds, prevSpaces := nSpaces\<rparr>)
      else st\<lparr>prevSpaces := 0\<rparr>)"

definition indent_scan :: "gostring \<Rightarrow> IndentScan" where
  "indent_scan content =
     foldl indent_scan_line
       \<lparr>tabLines = 0, spaceLines = 0, prevSpaces = 0, spaceDiffs = (\<lambda>_. 0)\<rparr>
       (take 100 (scan_lines content))"

text \<open>\<open>iter\<close> is the order in which Go's \<open>range\<close> visits the keys of the map.\<close>

definition pick_size :: "(nat \<Rightarrow> nat) \<Rightarrow> nat \<times> nat \<Rightarrow> nat \<Rightarrow> nat \<times> nat" where
  "pick_size counts best sz = (if snd best < counts sz then (sz, counts sz) else best)"

definition detectIndentFromContent :: "(nat list \<Rightarrow> nat list) \<Rightarrow> gostring \<Rightarrow> IndentStyle" where
  "detectIndentFromContent iter content =
     (let st = indent_scan content in
      if 0 < tabLines st \<and> spaceLines st \<le> tabLines st
      then \<lparr>UseTabs = True, IndentSize = 4\<rparr>
      else \<lparr>UseTabs = False,
            IndentSize = int (fst (foldl (pick_size (spaceDiffs st)) (4, 0)
              (iter (filter (\<lambda>d. 0 < spaceDiffs st d) [1..<9]))))\<rparr>)"

definition DetectIndentOfString :: "(nat list \<Rightarrow> nat list) \<Rightarrow> gostring \<Rightarrow> IndentStyle" where
  "DetectIndentOfString iter s = detectIndentFromContent iter s"

definition tabs_scan_line :: "nat \<times> nat \<Rightarrow> gostring \<Rightarrow> nat \<times> nat" where
  "tabs_scan_line st line =
     (if line = [] then st
      else if hd line = TAB then (fst st + 1, snd st)
      else if reLeadingSpaces line then (fst st, snd st + 1) else st)"

definition detectTabsFromContent :: "gostring \<Rightarrow> bool" where
  "detectTabsFromContent content =
     (let (tl, sl) = foldl tabs_scan_line (0, 0) (take 100 (scan_lines content))
      in 0 < tl \<and> sl < tl)"

definition hasSpaceIndentation :: "gostring \<Rightarrow> bool" where
  "hasSpaceIndentation content = list_ex reLeadingSpaces (take 100 (scan_lines content))"

text \<open>\<open>DetectIndent\<close>, given what \<open>findEditorConfig\<close> returned for the file.\<close>

definition DetectIndent :: "(nat list \<Rightarrow> nat list) \<Rightarrow> IndentStyle option \<Rightarrow> gostring \<Rightarrow> IndentStyle" where
  "DetectIndent iter ec content =
     (case ec of
        Some style \<Rightarrow>
          if UseTabs style \<and> \<not> detectTabsFromContent content \<and> hasSpaceIndentation content
          then \<lparr>UseTabs = False, IndentSize = IndentSize style\<rparr> else style
      | None \<Rightarrow> detectIndentFromContent iter content)"

subsection \<open>Options and .editorconfig values\<close>

definition parseInt_step :: "nat \<Rightarrow> rune \<Rightarrow> nat" where
  "parseInt_step n c = n * 10 + (c - 48)"

fun parseInt_loop :: "nat \<Rightarrow> rune list \<Rightarrow> nat" where
  "parseInt_loop n [] = n"
| "parseInt_loop n (c # cs) =
     (if c < 48 \<or> 57 < c then n
      else if 1000 < parseInt_step n c then parseInt_step n c
      else parseInt_loop (parseInt_step n c) cs)"

definition parseInt :: "gostring \<Rightarrow> nat" where
  "parseInt s = parseInt_loop 0 (runes s)"

text \<open>\<open>expandBraces\<close>; each recursive call has one opening brace less.\<close>

lemma count_list_prefix_le: "prefix a b \<Longrightarrow> count_list a x \<le> count_list b x"
  by (auto simp: prefix_def)

lemma count_list_suffix_le: "suffix a b \<Longrightarrow> count_list a x \<le> count_list b x"
  by (auto simp: suffix_def)

lemma count_list_TrimSpace: "count_list (TrimSpace s) x \<le> count_list s x"
  using count_list_prefix_le [OF TrimRightSpace_prefix, of "TrimLeftSpace s" x]
    count_list_suffix_le [OF TrimLeftSpace_suffix, of s x]
  by (simp add: TrimSpace_def)

lemma count_list_split_on: "l \<in> set (split_on c s) \<Longrightarrow> count_list l x \<le> count_list s x"
proof (induction s arbitrary: l)
  case (Cons y ys)
  then show ?case
    by (auto split: if_splits list.splits) (fastforce simp: le_SucI)+
qed simp

function expandBraces :: "gostring \<Rightarrow> gostring list" where
  "expandBraces pattern =
     (case Index pattern ''{'' of
        None \<Rightarrow> [pattern]
      | Some start \<Rightarrow>
          (case Index (drop start pattern) ''}'' of
             None \<Rightarrow> [pattern]
           | Some e \<Rightarrow>
               (let e' = e + start;
                    pre = take start pattern; suf = drop (e' + 1) pattern;
                    options = split_on (CHR '','') (slice pattern (start + 1) e')
                in concat (map (\<lambda>opt. expandBraces (pre @ TrimSpace opt @ suf)) options))))"
  by pat_completeness auto

lemma Index_char_split: "Index s [c] = Some i \<Longrightarrow> s = take i s @ c # drop (Suc i) s"
  using Index_split [of s "[c]" i] by simp

lemma brace_decomp:
  assumes "Index p ''{'' = Some start" "Index (drop start p) ''}'' = Some e"
  shows "p = take start p @ CHR ''{'' # slice p (start + 1) (e + start) @ CHR ''}'' # drop (e + start + 1) p"
proof -
  have 1: "p = take start p @ CHR ''{'' # drop (Suc start) p"
    by (rule Index_char_split [OF assms(1)])
  have lt: "start < length p" using Index_Some_bound [OF assms(1)] by simp
  have d: "drop start p = take e (drop start p) @ CHR ''}'' # drop (Suc e) (drop start p)"
    by (rule Index_char_split [OF assms(2)])
  have hd: "drop start p = CHR ''{'' # drop (Suc start) p"
    using 1 lt by (metis append_eq_conv_conj length_take less_or_eq_imp_le min.absorb2)
  have "e \<noteq> 0" using d hd by (cases e) auto
  then obtain k where k: "e = Suc k" by (cases e) auto
  have "drop (Suc start) p = take k (drop (Suc start) p) @ CHR ''}'' # drop (e + start + 1) p"
    using d unfolding hd k by (simp add: add.commute)
  moreover have "slice p (start + 1) (e + start) = take k (drop (Suc start) p)"
    by (simp add: slice_def k)
  ultimately show ?thesis using 1 by simp
qed

termination expandBraces
proof (relation "measure (\<lambda>p. count_list p (CHR ''{''))")
  fix pattern opt start e
  fix e' pre suf options x
  assume a: "Index pattern ''{'' = Some start" "Index (drop start pattern) ''}'' = Some e"
    and d: "e' = e + start" "pre = take start pattern" "suf = drop (e' + 1) pattern"
      "options = split_on (CHR '','') (slice pattern (start + 1) e')" "opt \<in> set options"
  have "count_list (TrimSpace opt) (CHR ''{'') \<le> count_list (slice pattern (start + 1) e') (CHR ''{'')"
    using d(4,5) count_list_TrimSpace count_list_split_on order_trans by blast
  moreover have "count_list pattern (CHR ''{'') =
    Suc (count_list pre (CHR ''{'') + count_list (slice pattern (start + 1) e') (CHR ''{'')
         + count_list suf (CHR ''{''))"
    by (subst brace_decomp [OF a]) (simp add: d)
  ultimately show "(pre @ TrimSpace opt @ suf, pattern) \<in> measure (\<lambda>p. count_list p (CHR ''{''))"
    by simp
qed simp

declare expandBraces.simps [simp del]

text \<open>\<open>parseIndentStyleOption\<close> of tools/edit/handler.go.\<close>

datatype indent_error = InvalidIndentSize gostring | ExpectedStyle gostring

definition parseIndentStyleOption :: "gostring \<Rightarrow> indent_error + IndentStyle" where
  "parseIndentStyleOption s0 =
     (let s = ToLower (TrimSpace s0) in
      if s = ''tabs'' \<or> s = ''tab'' then Inr \<lparr>UseTabs = True, IndentSize = 4\<rparr>
      else if HasPrefix s ''spaces-'' \<or> HasPrefix s ''space-'' then
        (let sz = drop (the (Index s ''-'') + 1) s in
         case Atoi sz of
           None \<Rightarrow> Inl (InvalidIndentSize sz)
         | Some n \<Rightarrow> if n < 1 \<or> 8 < n then Inl (InvalidIndentSize sz)
                     else Inr \<lparr>UseTabs = False, IndentSize = n\<rparr>)
      else if s = ''spaces'' \<or> s = ''space'' then Inr \<lparr>UseTabs = False, IndentSize = 4\<rparr>
      else Inl (ExpectedStyle s))"


subsection \<open>Conversion touches leading whitespace only\<close>

lemma TrimLeft_decomp:
  obtains k where "l = replicate k c @ TrimLeft l [c]"
    "length l = k + length (TrimLeft l [c])" "TrimLeft l [c] = [] \<or> hd (TrimLeft l [c]) \<noteq> c"
proof -
  let ?t = "takeWhile (\<lambda>x. x = c) l"
  have t: "?t = replicate (length ?t) c"
    by (rule replicate_eqI) (auto dest: set_takeWhileD)
  have l: "l = ?t @ TrimLeft l [c]"
    by (simp add: TrimLeft_def)
  have h: "TrimLeft l [c] = [] \<or> hd (TrimLeft l [c]) \<noteq> c"
    using hd_dropWhile [of "\<lambda>x. x = c" l] by (auto simp: TrimLeft_def)
  have len: "length l = length ?t + length (TrimLeft l [c])"
    by (subst l) simp
  show ?thesis
    by (rule that [OF _ len h]) (subst t [symmetric], rule l)
qed

lemma TrimLeft_replicate [simp]:
  "c \<in> set cs \<Longrightarrow> TrimLeft (replicate k c @ l) cs = TrimLeft l cs"
  by (induction k) (simp_all add: TrimLeft_def)

lemma TrimLeft_same: "l = [] \<or> hd l \<noteq> c \<Longrightarrow> TrimLeft l [c] = l"
  by (cases l) (auto simp: TrimLeft_def)

text \<open>The shape of a line: \<open>k\<close> copies of a byte, then a rest that does not start with it.\<close>

lemma line_shape:
  assumes "r = [] \<or> hd r \<noteq> c"
  shows "TrimLeft (replicate k c @ r) [c] = r"
    and "replicate k c @ r = [] \<or> hd (replicate k c @ r) \<noteq> c \<longleftrightarrow> k = 0"
  using assms TrimLeft_replicate [of c "[c]" k r] by (cases k; auto simp: TrimLeft_same)+

lemma spaces_to_tabs_line_eq:
  assumes "r = [] \<or> hd r \<noteq> SP"
  shows "spaces_to_tabs_line n (replicate k SP @ r) =
    (if k < 2 then replicate k SP @ r else replicate (k div n) TAB @ replicate (k mod n) SP @ r)"
  unfolding spaces_to_tabs_line_def line_shape [OF assms]
  by (simp add: Repeat_single Let_def)

lemma tabs_to_spaces_line_eq:
  assumes "r = [] \<or> hd r \<noteq> TAB"
  shows "tabs_to_spaces_line n (replicate k TAB @ r) = replicate (k * n) SP @ r"
  unfolding tabs_to_spaces_line_def line_shape [OF assms]
  by (simp add: Repeat_single Let_def)

lemma rescale_line_eq:
  assumes "r = [] \<or> hd r \<noteq> SP"
  shows "rescale_line a b (replicate k SP @ r) = replicate (k div a * b + k mod a) SP @ r"
  unfolding rescale_line_def line_shape [OF assms]
  by (simp add: Repeat_single Let_def)

lemma convert_lines_keep_text:
  "TrimLeft (spaces_to_tabs_line n l) [SP, TAB] = TrimLeft l [SP, TAB]"
  "TrimLeft (tabs_to_spaces_line n l) [SP, TAB] = TrimLeft l [SP, TAB]"
  "TrimLeft (rescale_line a b l) [SP, TAB] = TrimLeft l [SP, TAB]"
proof -
  obtain k where k: "l = replicate k SP @ TrimLeft l [SP]"
    "TrimLeft l [SP] = [] \<or> hd (TrimLeft l [SP]) \<noteq> SP" by (rule TrimLeft_decomp [of l SP])
  show "TrimLeft (spaces_to_tabs_line n l) [SP, TAB] = TrimLeft l [SP, TAB]"
    "TrimLeft (rescale_line a b l) [SP, TAB] = TrimLeft l [SP, TAB]"
    by (subst (1 2) k(1), simp add: spaces_to_tabs_line_eq rescale_line_eq k(2))+
  obtain j where j: "l = replicate j TAB @ TrimLeft l [TAB]"
    "TrimLeft l [TAB] = [] \<or> hd (TrimLeft l [TAB]) \<noteq> TAB" by (rule TrimLeft_decomp [of l TAB])
  show "TrimLeft (tabs_to_spaces_line n l) [SP, TAB] = TrimLeft l [SP, TAB]"
    by (subst (1 2) j(1), simp add: tabs_to_spaces_line_eq j(2))
qed

text \<open>Conversions keep the absence of LF, so splitting the result again gives the converted lines.\<close>

lemma convert_lines_no_LF:
  assumes "LF \<notin> set l"
  shows "LF \<notin> set (spaces_to_tabs_line n l)" "LF \<notin> set (tabs_to_spaces_line n l)"
    "LF \<notin> set (rescale_line a b l)"
proof -
  obtain k where k: "l = replicate k SP @ TrimLeft l [SP]"
    "TrimLeft l [SP] = [] \<or> hd (TrimLeft l [SP]) \<noteq> SP" by (rule TrimLeft_decomp [of l SP])
  have r: "LF \<notin> set (TrimLeft l cs)" for cs
    using assms by (auto simp: TrimLeft_def dest: set_dropWhileD)
  show "LF \<notin> set (spaces_to_tabs_line n l)" "LF \<notin> set (rescale_line a b l)"
    by (subst k(1), simp add: spaces_to_tabs_line_eq rescale_line_eq k(2) r)+
  obtain j where j: "l = replicate j TAB @ TrimLeft l [TAB]"
    "TrimLeft l [TAB] = [] \<or> hd (TrimLeft l [TAB]) \<noteq> TAB" by (rule TrimLeft_decomp [of l TAB])
  show "LF \<notin> set (tabs_to_spaces_line n l)"
    by (subst j(1), simp add: tabs_to_spaces_line_eq j(2) r)
qed

lemma lines_of_convert:
  "lines_of (SpacesToTabs t i) = map (spaces_to_tabs_line (tab_size i)) (lines_of t)"
  "lines_of (TabsToSpaces t i) = map (tabs_to_spaces_line (tab_size i)) (lines_of t)"
  by (simp_all add: SpacesToTabs_def TabsToSpaces_def split_on_Join_map convert_lines_no_LF)

text \<open>The columns an indentation stands for when a tab is \<open>n\<close> columns wide.\<close>

fun indent_width :: "nat \<Rightarrow> gostring \<Rightarrow> nat" where
  "indent_width n [] = 0"
| "indent_width n (c # cs) =
     (if c = TAB then n + indent_width n cs else if c = SP then 1 + indent_width n cs else 0)"

lemma indent_width_replicate [simp]:
  "indent_width n (replicate k TAB @ l) = k * n + indent_width n l"
  "indent_width n (replicate k SP @ l) = k + indent_width n l"
  by (induction k) auto

lemma spaces_to_tabs_width: "indent_width n (spaces_to_tabs_line n l) = indent_width n l"
proof -
  obtain k where k: "l = replicate k SP @ TrimLeft l [SP]"
    "TrimLeft l [SP] = [] \<or> hd (TrimLeft l [SP]) \<noteq> SP" by (rule TrimLeft_decomp [of l SP])
  show ?thesis
    by (subst (1 2) k(1)) (simp add: spaces_to_tabs_line_eq k(2) add.assoc [symmetric])
qed

lemma tabs_to_spaces_width: "indent_width n (tabs_to_spaces_line n l) = indent_width n l"
proof -
  obtain k where k: "l = replicate k TAB @ TrimLeft l [TAB]"
    "TrimLeft l [TAB] = [] \<or> hd (TrimLeft l [TAB]) \<noteq> TAB" by (rule TrimLeft_decomp [of l TAB])
  show ?thesis by (subst (1 2) k(1)) (simp add: tabs_to_spaces_line_eq k(2))
qed

text \<open>A line indented by tabs only, and a line indented by a multiple of \<open>n\<close> spaces only.\<close>

definition tab_indented :: "gostring \<Rightarrow> bool" where
  "tab_indented l = (let r = TrimLeft l [TAB] in r = [] \<or> hd r \<noteq> SP)"

definition space_indented :: "nat \<Rightarrow> gostring \<Rightarrow> bool" where
  "space_indented n l =
     (let r = TrimLeft l [SP] in (r = [] \<or> hd r \<noteq> TAB) \<and> (length l - length r) mod n = 0)"

lemma tabs_spaces_tabs_line:
  assumes "2 \<le> n" "tab_indented l"
  shows "spaces_to_tabs_line n (tabs_to_spaces_line n l) = l"
proof -
  obtain k where k: "l = replicate k TAB @ TrimLeft l [TAB]"
    "TrimLeft l [TAB] = [] \<or> hd (TrimLeft l [TAB]) \<noteq> TAB" by (rule TrimLeft_decomp [of l TAB])
  define r where "r = TrimLeft l [TAB]"
  have r: "r = [] \<or> hd r \<noteq> TAB" "r = [] \<or> hd r \<noteq> SP" "l = replicate k TAB @ r"
    using k assms(2) by (simp_all add: tab_indented_def r_def Let_def)
  have "k * n < 2 \<Longrightarrow> k = 0" using assms(1) by (cases k) auto
  with assms(1) show ?thesis
    unfolding r(3) tabs_to_spaces_line_eq [OF r(1)] spaces_to_tabs_line_eq [OF r(2)] by auto
qed

lemma spaces_tabs_spaces_line:
  assumes "2 \<le> n" "space_indented n l"
  shows "tabs_to_spaces_line n (spaces_to_tabs_line n l) = l"
proof -
  obtain k where k: "l = replicate k SP @ TrimLeft l [SP]" "length l = k + length (TrimLeft l [SP])"
    "TrimLeft l [SP] = [] \<or> hd (TrimLeft l [SP]) \<noteq> SP" by (rule TrimLeft_decomp [of l SP])
  define r where "r = TrimLeft l [SP]"
  have r: "r = [] \<or> hd r \<noteq> TAB" "r = [] \<or> hd r \<noteq> SP" "l = replicate k SP @ r" "k mod n = 0"
    using k assms(2) by (simp_all add: space_indented_def r_def Let_def)
  show ?thesis
  proof (cases "k < 2")
    case True
    then have "k = 0" using r(4) assms(1) by (cases k) auto
    then show ?thesis using r by (simp add: spaces_to_tabs_line_def tabs_to_spaces_line_def)
  next
    case False
    have "k div n * n = k" using r(4) by auto
    with False show ?thesis
      unfolding r(3) spaces_to_tabs_line_eq [OF r(2)] using r(4)
      by (simp add: tabs_to_spaces_line_eq [OF r(1)])
  qed
qed

subsection \<open>Facts on detection and option parsing\<close>

lemma pick_size_range: "fst (foldl (pick_size f) b ks) \<in> insert (fst b) (set ks)"
proof (induction ks arbitrary: b)
  case (Cons k ks)
  from Cons [of "pick_size f b k"] show ?case by (auto simp: pick_size_def split: if_splits)
qed simp

lemma parseInt_loop_bound: "n \<le> 1000 \<Longrightarrow> parseInt_loop n cs \<le> 10009"
  by (induction n cs rule: parseInt_loop.induct) (auto simp: parseInt_step_def)

subsection \<open>Properties\<close>

text \<open>for every iteration order of the Go map, the detected style is tabs with size 4 or
  spaces with a size from 1 to 8.\<close>

theorem detectIndent_range:
  assumes "\<And>ks. set (iter ks) = set ks"
  shows "detectIndentFromContent iter content = \<lparr>UseTabs = True, IndentSize = 4\<rparr>
    \<or> \<not> UseTabs (detectIndentFromContent iter content)
      \<and> IndentSize (detectIndentFromContent iter content) \<in> {1..8}"
proof -
  let ?f = "spaceDiffs (indent_scan content)"
  have "fst (foldl (pick_size ?f) (4, 0) (iter (filter (\<lambda>d. 0 < ?f d) [1..<9]))) \<in> {1..8}"
    using pick_size_range [of ?f "(4, 0)" "iter (filter (\<lambda>d. 0 < ?f d) [1..<9])"]
    by (auto simp: assms)
  then show ?thesis by (auto simp: detectIndentFromContent_def Let_def)
qed

theorem detectIndent_range_witness:
  "detectIndentFromContent id [SP, SP, CHR ''x''] = \<lparr>UseTabs = True, IndentSize = 4\<rparr>
   \<or> \<not> UseTabs (detectIndentFromContent id [SP, SP, CHR ''x''])
     \<and> IndentSize (detectIndentFromContent id [SP, SP, CHR ''x'']) \<in> {1..8}"
  by (rule detectIndent_range) simp

text \<open>C29: converting tabs to spaces and back (and spaces to tabs and back) gives the text again,
  for a size of at least two, when every line is indented by tabs only (by a multiple of the size
  in spaces only).\<close>

theorem indent_roundtrip:
  assumes "2 \<le> i"
  shows "(list_all tab_indented (lines_of t) \<longrightarrow> SpacesToTabs (TabsToSpaces t i) i = t)
    \<and> (list_all (space_indented (nat i)) (lines_of t) \<longrightarrow> TabsToSpaces (SpacesToTabs t i) i = t)"
proof -
  have n: "tab_size i = nat i" "2 \<le> nat i" using assms by (auto simp: tab_size_def)
  have "map (spaces_to_tabs_line (nat i)) (map (tabs_to_spaces_line (nat i)) (lines_of t)) = lines_of t"
    if "list_all tab_indented (lines_of t)"
    using that n(2) by (auto simp: list_all_iff tabs_spaces_tabs_line intro!: map_idI)
  moreover have "map (tabs_to_spaces_line (nat i)) (map (spaces_to_tabs_line (nat i)) (lines_of t)) = lines_of t"
    if "list_all (space_indented (nat i)) (lines_of t)"
    using that n(2) by (auto simp: list_all_iff spaces_tabs_spaces_line intro!: map_idI)
  ultimately show ?thesis
    using lines_of_convert [of t i] n(1)
    by (simp add: SpacesToTabs_def [of "TabsToSpaces t i"] TabsToSpaces_def [of "SpacesToTabs t i"])
qed

theorem indent_roundtrip_witness:
  "SpacesToTabs (TabsToSpaces [TAB, CHR ''a'', LF, TAB, TAB, CHR ''b''] 4) 4
     = [TAB, CHR ''a'', LF, TAB, TAB, CHR ''b'']
   \<and> TabsToSpaces (SpacesToTabs [SP, SP, CHR ''a''] 2) 2 = [SP, SP, CHR ''a'']"
  using indent_roundtrip [of 4 "[TAB, CHR ''a'', LF, TAB, TAB, CHR ''b'']"]
    indent_roundtrip [of 2 "[SP, SP, CHR ''a'']"]
  by (simp add: tab_indented_def space_indented_def TrimLeft_def)

end
