(* ===== verification/Edit_Replace.thy ===== *)
theory Edit_Replace
  imports Edit_Indent Line_Endings
begin

text \<open>
  The replacement engine of the edit tool (tools/edit/replace.go). The search runs on the LF-only
  view of the file, hits are mapped back to byte spans of the original, and the replacement text
  takes the newline form of the region it lands in. \<open>Replace\<close> tries seven passes with different
  indentation of \<open>old_string\<close>. The theorems state what an applied edit does to the bytes and to
  the view of the file, and that an ambiguous match is never applied.
\<close>

datatype replace_message =
  NotFound | IndentDiffers | FoundTimes nat | Replaced nat

record ReplaceResult =
  Content :: gostring
  MatchCount :: nat
  Applied :: bool
  Message :: replace_message

definition not_applied :: "replace_message \<Rightarrow> ReplaceResult" where
  "not_applied msg = \<lparr>Content = [], MatchCount = 0, Applied = False, Message = msg\<rparr>"

subsection \<open>Counting hits\<close>

lemma scan_progress:
  "sub \<noteq> [] \<Longrightarrow> i + length sub \<le> length s \<Longrightarrow> length s - (i + x + length sub) < length s - i"
  by (cases sub) auto

function count_loop :: "gostring \<Rightarrow> gostring \<Rightarrow> nat \<Rightarrow> nat \<Rightarrow> nat" where
  "count_loop s sub i n =
     (if sub \<noteq> [] \<and> i + length sub \<le> length s then
        (case Index (drop i s) sub of
           None \<Rightarrow> n
         | Some idx \<Rightarrow>
             (let pos = i + idx
              in count_loop s sub (pos + length sub)
                   (if pos = 0 \<or> s ! (pos - 1) = LF then n + 1 else n)))
      else n)"
  by pat_completeness auto
termination
  by (relation "measure (\<lambda>(s, sub, i, n). length s - i)")
    (auto intro: scan_progress)

declare count_loop.simps [simp del]

definition countOccurrences :: "gostring \<Rightarrow> gostring \<Rightarrow> bool \<Rightarrow> nat" where
  "countOccurrences s sub lineStart =
     (if sub = [] then 0 else if \<not> lineStart then Count s sub else count_loop s sub 0 0)"

definition lineStartCount :: "gostring \<Rightarrow> gostring \<Rightarrow> nat" where
  "lineStartCount s sub = countOccurrences s sub True"

definition hasLeadingWhitespace :: "gostring \<Rightarrow> bool" where
  "hasLeadingWhitespace s = (0 < length s \<and> (s ! 0 = TAB \<or> s ! 0 = SP))"

definition hasLeadingTabs :: "gostring \<Rightarrow> bool" where
  "hasLeadingTabs text = list_ex (\<lambda>line. 0 < length line \<and> line ! 0 = TAB) (lines_of text)"

subsection \<open>Splicing\<close>

text \<open>The loop of \<open>applySpans\<close>. \<open>norm\<close> is \<open>m.Norm\<close>; the map \<open>m\<close> is threaded because its methods move
  its cursors. The loop is only entered with a non-empty \<open>old\<close>.\<close>

function splice_loop ::
  "gostring \<Rightarrow> gostring \<Rightarrow> gostring \<Rightarrow> bool \<Rightarrow> bool \<Rightarrow> LineEndingMap \<Rightarrow> nat \<Rightarrow> nat \<Rightarrow> gostring
   \<Rightarrow> gostring \<times> nat" where
  "splice_loop norm old new lineStart replaceAll m i prev sb =
     (if old \<noteq> [] \<and> i + length old \<le> length norm then
        (case Index (drop i norm) old of
           None \<Rightarrow> (sb, prev)
         | Some idx \<Rightarrow>
             (let pos = i + idx; i' = pos + length old in
              if lineStart \<and> pos \<noteq> 0 \<and> norm ! (pos - 1) \<noteq> LF
              then splice_loop norm old new lineStart replaceAll m i' prev sb
              else
                case OrigOffset m (int pos) of (o1, m1) \<Rightarrow>
                let sb1 = sb @ slice (Original m) prev o1 in
                case (if \<not> ContainsAny new CRLF then (new, m1)
                      else case LocalLineEnding m1 (int pos) (int i') of (nl, m2) \<Rightarrow>
                             (NormalizeLineEndings new nl, m2)) of (ins, m3) \<Rightarrow>
                case OrigOffset m3 (int i') of (o2, m4) \<Rightarrow>
                if \<not> replaceAll then (sb1 @ ins, o2)
                else splice_loop norm old new lineStart replaceAll m4 i' o2 (sb1 @ ins)))
      else (sb, prev))"
  by pat_completeness auto
termination
  by (relation "measure (\<lambda>(norm, old, new, lineStart, replaceAll, m, i, prev, sb). length norm - i)")
    (auto intro: scan_progress)

declare splice_loop.simps [simp del]

definition applySpans :: "LineEndingMap \<Rightarrow> gostring \<Rightarrow> gostring \<Rightarrow> bool \<Rightarrow> bool \<Rightarrow> ReplaceResult" where
  "applySpans m old new lineStart replaceAll =
     (let count = countOccurrences (Norm m) old lineStart in
      if count = 0 then not_applied NotFound
      else if \<not> replaceAll \<and> 1 < count then not_applied (FoundTimes count)
      else case splice_loop (Norm m) old new lineStart replaceAll m 0 0 [] of (sb, prev) \<Rightarrow>
           \<lparr>Content = sb @ drop prev (Original m), MatchCount = count, Applied = True,
            Message = Replaced count\<rparr>)"

definition applyReplace :: "LineEndingMap \<Rightarrow> gostring \<Rightarrow> gostring \<Rightarrow> bool \<Rightarrow> ReplaceResult" where
  "applyReplace m old new replaceAll = applySpans m old new False replaceAll"

definition applyLineStartReplace :: "LineEndingMap \<Rightarrow> gostring \<Rightarrow> gostring \<Rightarrow> bool \<Rightarrow> ReplaceResult" where
  "applyLineStartReplace m old new replaceAll = applySpans m old new True replaceAll"

subsection \<open>Shifting the indentation depth\<close>

definition leading_tabs :: "gostring \<Rightarrow> nat" where
  "leading_tabs line = length line - length (TrimLeft line [TAB])"

definition min_tabs_step :: "int \<Rightarrow> gostring \<Rightarrow> int" where
  "min_tabs_step mn line =
     (if TrimSpace line = [] then mn
      else if mn < 0 \<or> int (leading_tabs line) < mn then int (leading_tabs line) else mn)"

definition findMinLeadingTabs :: "gostring \<Rightarrow> nat" where
  "findMinLeadingTabs s =
     (let mn = foldl min_tabs_step (- 1) (lines_of s) in if mn < 0 then 0 else nat mn)"

definition shift_line :: "int \<Rightarrow> gostring \<Rightarrow> gostring" where
  "shift_line delta line =
     (if 0 < delta then Repeat [TAB] (nat delta) @ line
      else let toRemove = nat (- delta); tabCount = leading_tabs line
           in drop (if tabCount < toRemove then tabCount else toRemove) line)"

definition shiftTabs :: "gostring \<Rightarrow> int \<Rightarrow> gostring" where
  "shiftTabs s delta =
     (if delta = 0 then s else unlines (map (shift_line delta) (lines_of s)))"

definition normalizeIndent :: "gostring \<Rightarrow> gostring" where
  "normalizeIndent s = unlines (map (\<lambda>line. TrimLeft line [SP, TAB]) (lines_of s))"

subsection \<open>The passes of Replace\<close>

definition try_sizes :: "int list" where
  "try_sizes = [2, 3, 4, 5, 6, 7, 8]"

text \<open>Fourth pass: the first size whose conversion changes \<open>old_string\<close> and is found.\<close>

definition pass4 :: "LineEndingMap \<Rightarrow> gostring \<Rightarrow> gostring \<Rightarrow> bool \<Rightarrow> ReplaceResult option" where
  "pass4 m old new replaceAll =
     (case find (\<lambda>n. SpacesToTabs old n \<noteq> old \<and> 0 < Count (Norm m) (SpacesToTabs old n)) try_sizes of
        None \<Rightarrow> None
      | Some n \<Rightarrow> Some (applyReplace m (SpacesToTabs old n) (SpacesToTabs new n) replaceAll))"

definition pass5 :: "LineEndingMap \<Rightarrow> gostring \<Rightarrow> gostring \<Rightarrow> bool \<Rightarrow> ReplaceResult option" where
  "pass5 m old new replaceAll =
     (case find (\<lambda>n. 0 < Count (Norm m) (TabsToSpaces old n)) try_sizes of
        None \<Rightarrow> None
      | Some n \<Rightarrow> Some (applyReplace m (TabsToSpaces old n) (TabsToSpaces new n) replaceAll))"

definition absDist :: "int \<Rightarrow> int \<Rightarrow> int" where
  "absDist a b = (if b < a then a - b else b - a)"

text \<open>Sixth pass: a candidate is a depth and its number of hits; a unique hit beats several, and
  among equals the depth closest to the original one wins.\<close>

definition better_depth :: "nat \<Rightarrow> nat \<times> nat \<Rightarrow> nat \<times> nat \<Rightarrow> nat \<times> nat" where
  "better_depth minTabsOld best c =
     (let cUniq = (snd c = 1); bUniq = (snd best = 1) in
      if cUniq \<and> \<not> bUniq then c
      else if cUniq = bUniq
           \<and> absDist (int (fst c)) (int minTabsOld) < absDist (int (fst best)) (int minTabsOld)
      then c else best)"

definition depth_candidates :: "gostring \<Rightarrow> gostring \<Rightarrow> nat \<Rightarrow> (nat \<times> nat) list" where
  "depth_candidates norm strippedOld minTabsOld =
     filter (\<lambda>(b, cnt). 0 < cnt)
       (map (\<lambda>b. (b, Count norm (shiftTabs strippedOld (int b))))
         (filter (\<lambda>b. b \<noteq> minTabsOld) [0..<11]))"

definition pass6 :: "LineEndingMap \<Rightarrow> gostring \<Rightarrow> gostring \<Rightarrow> bool \<Rightarrow> ReplaceResult option" where
  "pass6 m old new replaceAll =
     (let minTabsOld = findMinLeadingTabs old; minTabsNew = findMinLeadingTabs new;
          tabDelta = int minTabsNew - int minTabsOld;
          strippedOld = shiftTabs old (- int minTabsOld);
          strippedNew = shiftTabs new (- int minTabsNew)
      in case depth_candidates (Norm m) strippedOld minTabsOld of
           [] \<Rightarrow> None
         | c # cs \<Rightarrow>
             (let best = foldl (better_depth minTabsOld) c cs;
                  newDepth = max 0 (int (fst best) + tabDelta)
              in Some (applyReplace m (shiftTabs strippedOld (int (fst best)))
                         (shiftTabs strippedNew newDepth) replaceAll)))"

text \<open>\<open>itOld\<close> and \<open>itNew\<close> are the map iteration orders of the two style detections.\<close>

definition Replace ::
  "(nat list \<Rightarrow> nat list) \<Rightarrow> (nat list \<Rightarrow> nat list) \<Rightarrow> gostring \<Rightarrow> gostring \<Rightarrow> gostring \<Rightarrow> bool
   \<Rightarrow> IndentStyle \<Rightarrow> bool \<Rightarrow> ReplaceResult" where
  "Replace itOld itNew cont oldStr newStr replaceAll fileStyle forceStyle =
     (let m = NewLineEndingMap cont; norm = Norm m;
          old = NormalizeLineEndings oldStr [LF]; new = NormalizeLineEndings newStr [LF];
          count = (if hasLeadingWhitespace old then lineStartCount norm old else Count norm old) in
      if 0 < count then
        (let newStyle = DetectIndentOfString itNew newStr;
             finalNew = (if forceStyle \<and> (UseTabs newStyle \<noteq> UseTabs fileStyle
                                            \<or> IndentSize newStyle \<noteq> IndentSize fileStyle)
                         then ConvertIndent new newStyle fileStyle else new)
         in if hasLeadingWhitespace old then applyLineStartReplace m old finalNew replaceAll
            else applyReplace m old finalNew replaceAll)
      else
      let srcStyle = DetectIndentOfString itOld oldStr;
          old2 = ConvertIndent old srcStyle fileStyle; new2 = ConvertIndent new srcStyle fileStyle in
      if UseTabs srcStyle \<noteq> UseTabs fileStyle \<and> 0 < Count norm old2
      then applyReplace m old2 new2 replaceAll
      else
      let old3 = SpacesToTabs old (IndentSize fileStyle); new3 = SpacesToTabs new (IndentSize fileStyle) in
      if UseTabs fileStyle \<and> HasLeadingSpaces old \<and> 0 < Count norm old3
      then applyReplace m old3 new3 replaceAll
      else
      case (if UseTabs fileStyle \<and> HasLeadingSpaces old then pass4 m old new replaceAll else None) of
        Some r \<Rightarrow> r
      | None \<Rightarrow>
      case (if \<not> UseTabs fileStyle \<and> hasLeadingTabs old then pass5 m old new replaceAll else None) of
        Some r \<Rightarrow> r
      | None \<Rightarrow>
      case (if UseTabs fileStyle \<and> hasLeadingTabs old then pass6 m old new replaceAll else None) of
        Some r \<Rightarrow> r
      | None \<Rightarrow>
      if normalizeIndent old \<noteq> [] \<and> Contains (normalizeIndent norm) (normalizeIndent old)
      then not_applied IndentDiffers else not_applied NotFound)"


subsection \<open>What the splice does\<close>

text \<open>The positions in the view that the loops accept, from \<open>i\<close> on.\<close>

function hits :: "gostring \<Rightarrow> gostring \<Rightarrow> bool \<Rightarrow> nat \<Rightarrow> nat list" where
  "hits norm old lineStart i =
     (if old \<noteq> [] \<and> i + length old \<le> length norm then
        (case Index (drop i norm) old of
           None \<Rightarrow> []
         | Some idx \<Rightarrow>
             (let pos = i + idx; rest = hits norm old lineStart (pos + length old)
              in if lineStart \<and> pos \<noteq> 0 \<and> norm ! (pos - 1) \<noteq> LF then rest else pos # rest))
      else [])"
  by pat_completeness auto
termination
  by (relation "measure (\<lambda>(norm, old, lineStart, i). length norm - i)")
    (auto intro: scan_progress)

declare hits.simps [simp del]

lemma Index_beyond: "length s < i + length sub \<Longrightarrow> sub \<noteq> [] \<Longrightarrow> Index (drop i s) sub = None"
  by (cases "Index (drop i s) sub") (auto dest!: Index_Some_bound, cases sub, auto)

lemma hits_Index:
  "old \<noteq> [] \<Longrightarrow> hits norm old ls i =
     (case Index (drop i norm) old of None \<Rightarrow> []
      | Some idx \<Rightarrow>
          (let rest = hits norm old ls (i + idx + length old)
           in if ls \<and> i + idx \<noteq> 0 \<and> norm ! (i + idx - 1) \<noteq> LF then rest else (i + idx) # rest))"
  by (subst hits.simps) (auto simp: Index_beyond Let_def split: option.splits)

lemma hits_induct [consumes 1, case_names none hit]:
  assumes "old \<noteq> []"
    and "\<And>i. old \<noteq> [] \<Longrightarrow> Index (drop i norm) old = None \<Longrightarrow> P i"
    and "\<And>i idx. old \<noteq> [] \<Longrightarrow> Index (drop i norm) old = Some idx \<Longrightarrow> P (i + idx + length old) \<Longrightarrow> P i"
  shows "P i"
proof (induction "length norm - i" arbitrary: i rule: less_induct)
  case less
  show ?case
  proof (cases "Index (drop i norm) old")
    case (Some idx)
    then have "length norm - (i + idx + length old) < length norm - i"
      using assms(1) Index_Some_bound [OF Some] by (cases old) auto
    with less assms(1,3) Some show ?thesis by blast
  qed (rule assms(2) [OF assms(1)])
qed

lemma count_loop_hits: "old \<noteq> [] \<Longrightarrow> count_loop norm old i n = n + length (hits norm old True i)"
proof (induction i arbitrary: n rule: hits_induct [of old norm])
  case (none i)
  then show ?case by (simp add: hits_Index count_loop.simps [of norm old i n])
next
  case (hit i idx)
  then have "i + length old \<le> length norm"
    using Index_Some_bound [OF hit(2)] Index_beyond [of norm i old] by (cases "i + length old \<le> length norm") auto
  with hit show ?case by (simp add: hits_Index count_loop.simps [of norm old i n] Let_def)
qed

lemma Count_hits: "old \<noteq> [] \<Longrightarrow> Count (drop i norm) old = length (hits norm old False i)"
proof (induction i rule: hits_induct [of old norm])
  case (none i)
  then show ?case by (simp add: hits_Index Count_Index)
next
  case (hit i idx)
  then show ?case
    by (simp add: hits_Index Count_Index [of old "drop i norm"] add.commute add.left_commute)
qed

lemma countOccurrences_hits:
  "countOccurrences norm old ls = length (hits norm old ls 0)"
proof (cases "old = []")
  case True
  then show ?thesis by (simp add: countOccurrences_def hits.simps)
next
  case False
  then show ?thesis
    using Count_hits [of old 0 norm] count_loop_hits [of old norm 0 0]
    by (cases ls) (simp_all add: countOccurrences_def)
qed

text \<open>A list of hits in increasing order that do not overlap.\<close>

fun spans_ok :: "gostring \<Rightarrow> gostring \<Rightarrow> nat \<Rightarrow> nat list \<Rightarrow> bool" where
  "spans_ok norm old i [] = (i \<le> length norm)"
| "spans_ok norm old i (p # ps) =
     (i \<le> p \<and> slice norm p (p + length old) = old \<and> spans_ok norm old (p + length old) ps)"

lemma spans_ok_le: "spans_ok norm old i ps \<Longrightarrow> i \<le> length norm"
  by (induction ps arbitrary: i) force+

lemma spans_ok_earlier: "spans_ok norm old j ps \<Longrightarrow> i \<le> j \<Longrightarrow> spans_ok norm old i ps"
  by (cases ps) auto

lemma spans_ok_hits:
  assumes "old \<noteq> []"
  shows "i \<le> length norm \<Longrightarrow> spans_ok norm old i (hits norm old ls i)"
  using assms
proof (induction i rule: hits_induct [of old norm])
  case (none i)
  then show ?case by (simp add: hits_Index)
next
  case (hit i idx)
  note b = Index_Some_bound [OF hit(2)]
  have "prefix old (drop (i + idx) norm)"
    using Index_Some [OF hit(2)] by (simp add: add.commute)
  then have sl: "slice norm (i + idx) (i + idx + length old) = old"
    by (auto simp: prefix_def slice_def)
  have le: "i + idx + length old \<le> length norm" using b hit(4) by simp
  from hit(3) [OF le] have IH:
    "spans_ok norm old (i + idx + length old) (hits norm old ls (i + idx + length old))" .
  then have "spans_ok norm old i (hits norm old ls (i + idx + length old))"
    by (rule spans_ok_earlier) simp
  with IH sl hit(1,2) show ?case by (simp add: hits_Index Let_def)
qed

text \<open>The text written for a hit, and the bytes assembled from a list of hits.\<close>

definition inserted :: "gostring \<Rightarrow> gostring \<Rightarrow> gostring \<Rightarrow> nat \<Rightarrow> gostring" where
  "inserted s old new p =
     (if \<not> ContainsAny new CRLF then new
      else NormalizeLineEndings new
        (region_ending s (DetectLineEnding s) (orig_off s p) (orig_off s (p + length old))))"

fun splice :: "gostring \<Rightarrow> gostring \<Rightarrow> gostring \<Rightarrow> nat \<Rightarrow> nat list \<Rightarrow> gostring" where
  "splice s old new i [] = drop (orig_off s i) s"
| "splice s old new i (p # ps) =
     slice s (orig_off s i) (orig_off s p) @ inserted s old new p
     @ splice s old new (p + length old) ps"

definition region_ok :: "gostring \<Rightarrow> LineEndingMap \<Rightarrow> bool" where
  "region_ok s m = (map_ok s m \<and> cursor_ok s (DetectLineEnding s) (region m))"

lemma region_ok_New: "region_ok s (NewLineEndingMap s)"
  using map_ok_New [of s] cursor_ok_New [of s]
  by (simp add: region_ok_def NewLineEndingMap_def)

lemma region_ok_Orig:
  assumes "region_ok s m" "n \<le> length (norm_lf s)"
  shows "fst (OrigOffset m (int n)) = orig_off s n" "region_ok s (snd (OrigOffset m (int n)))"
  using OrigOffset_spec [of s m "int n"] assms by (simp_all add: region_ok_def)

lemma region_ok_Local:
  assumes "region_ok s m" "i \<le> j" "j \<le> length (norm_lf s)"
  shows "fst (LocalLineEnding m (int i) (int j))
      = region_ending s (DetectLineEnding s) (orig_off s i) (orig_off s j)"
    and "region_ok s (snd (LocalLineEnding m (int i) (int j)))"
  using LocalLineEnding_spec [of s m "DetectLineEnding s" i j] assms by (simp_all add: region_ok_def)

lemma region_ok_Original: "region_ok s m \<Longrightarrow> Original m = s \<and> Norm m = norm_lf s"
  by (simp add: region_ok_def map_ok_def)

lemma insert_step:
  assumes m: "region_ok s m" and le: "p + length old \<le> length (norm_lf s)"
  shows "\<exists>m'. region_ok s m' \<and>
    (if \<not> ContainsAny new CRLF then (new, m)
     else case LocalLineEnding m (int p) (int (p + length old)) of (nl, m2) \<Rightarrow>
       (NormalizeLineEndings new nl, m2)) = (inserted s old new p, m')"
  using region_ok_Local [OF m _ le, of p] m
  by (cases "ContainsAny new CRLF") (auto simp: inserted_def case_prod_beta)

lemma splice_loop_spec:
  assumes "old \<noteq> []" "prev = orig_off s j" "norm = norm_lf s" "region_ok s m" "i \<le> length norm"
  shows "(case splice_loop norm old new ls ra m i prev sb of (r, q) \<Rightarrow> r @ drop q s)
     = sb @ splice s old new j (if ra then hits norm old ls i else take 1 (hits norm old ls i))"
  using assms
proof (induction i arbitrary: j prev m sb rule: hits_induct [of old norm])
  case (none i)
  then show ?case
    by (subst splice_loop.simps) (simp add: hits_Index)
next
  case (hit i idx)
  define pos where "pos = i + idx"
  note b = Index_Some_bound [OF hit(2)]
  have le: "pos + length old \<le> length norm" "i + length old \<le> length norm"
    using b hit(7) by (simp_all add: pos_def)
  show ?case
  proof (cases "ls \<and> pos \<noteq> 0 \<and> norm ! (pos - 1) \<noteq> LF")
    case True
    with hit le show ?thesis
      by (subst splice_loop.simps) (simp add: hits_Index [of old "norm_lf s" _ i] Let_def pos_def)
  next
    case False
    obtain o1 m1 where o1: "OrigOffset m (int pos) = (o1, m1)" by fastforce
    have o1': "o1 = orig_off s pos" "region_ok s m1"
      using region_ok_Orig [OF hit(6), of pos] o1 le hit(5) by simp_all
    obtain m3 where m3: "region_ok s m3"
      "(if \<not> ContainsAny new CRLF then (new, m1)
        else case LocalLineEnding m1 (int pos) (int (pos + length old)) of (nl, m2) \<Rightarrow>
          (NormalizeLineEndings new nl, m2)) = (inserted s old new pos, m3)"
      using insert_step [OF o1'(2)] le hit(5) by blast
    obtain o2 m4 where o2: "OrigOffset m3 (int (pos + length old)) = (o2, m4)" by fastforce
    have o2': "o2 = orig_off s (pos + length old)" "region_ok s m4"
      using region_ok_Orig [OF m3(1), of "pos + length old"] o2 le hit(5) by simp_all
    let ?sb = "sb @ slice s prev o1 @ inserted s old new pos"
    have "splice_loop norm old new ls ra m i prev sb =
      (if \<not> ra then (?sb, o2) else splice_loop norm old new ls ra m4 (pos + length old) o2 ?sb)"
      by (subst splice_loop.simps)
        (simp only: hit(1,2) le if_True if_False option.case Let_def pos_def [symmetric] False o1
          prod.case m3(2) o2 append_assoc region_ok_Original [OF hit(6)] simp_thms)
    moreover have "hits norm old ls i = pos # hits norm old ls (pos + length old)"
      using hit(1,2) False by (simp add: hits_Index [of old norm ls i] Let_def pos_def)
    moreover have "(case splice_loop norm old new ls ra m4 (pos + length old) o2 ?sb of (r, q) \<Rightarrow> r @ drop q s)
      = ?sb @ splice s old new (pos + length old)
          (if ra then hits norm old ls (pos + length old) else take 1 (hits norm old ls (pos + length old)))"
      using hit(3) [folded pos_def, OF o2'(1) hit(5) o2'(2) le(1)] .
    ultimately show ?thesis
      by (cases ra) (simp_all add: o1'(1) hit(4) o2'(1))
  qed
qed

lemma applySpans_Content:
  assumes "Applied (applySpans (NewLineEndingMap s) old new ls ra)"
  shows "old \<noteq> []" "hits (norm_lf s) old ls 0 \<noteq> []" "ra \<or> length (hits (norm_lf s) old ls 0) = 1"
    "Content (applySpans (NewLineEndingMap s) old new ls ra)
      = splice s old new 0 (hits (norm_lf s) old ls 0)"
    "MatchCount (applySpans (NewLineEndingMap s) old new ls ra) = length (hits (norm_lf s) old ls 0)"
proof -
  let ?m = "NewLineEndingMap s" and ?h = "hits (norm_lf s) old ls 0"
  have N: "Norm ?m = norm_lf s" "Original ?m = s" using region_ok_Original [OF region_ok_New] by simp_all
  have c: "0 < length ?h" "ra \<or> \<not> 1 < length ?h"
    using assms by (auto simp: applySpans_def N countOccurrences_hits not_applied_def Let_def split: if_splits)
  then show ne: "?h \<noteq> []" "ra \<or> length ?h = 1" by (auto, cases ?h, auto)
  show old: "old \<noteq> []"
  proof
    assume "old = []"
    with ne(1) show False by (simp add: hits.simps)
  qed
  have "applySpans ?m old new ls ra =
    (case splice_loop (norm_lf s) old new ls ra ?m 0 0 [] of (sb, prev) \<Rightarrow>
      \<lparr>Content = sb @ drop prev s, MatchCount = length ?h, Applied = True, Message = Replaced (length ?h)\<rparr>)"
    using c by (auto simp: applySpans_def N countOccurrences_hits Let_def)
  moreover have "(if ra then ?h else take 1 ?h) = ?h" using ne(2) by auto
  moreover have "(case splice_loop (norm_lf s) old new ls ra ?m 0 0 [] of (r, q) \<Rightarrow> r @ drop q s)
     = [] @ splice s old new 0 (if ra then ?h else take 1 ?h)"
    by (rule splice_loop_spec [OF old _ refl region_ok_New]) simp_all
  ultimately show "Content (applySpans ?m old new ls ra) = splice s old new 0 ?h"
    "MatchCount (applySpans ?m old new ls ra) = length ?h"
    by (simp_all split: prod.splits)
qed


subsection \<open>Files without lone CRs\<close>

lemma no_lone_cr_nth:
  "no_lone_cr s \<Longrightarrow> i < length s \<Longrightarrow> s ! i = CR \<Longrightarrow> i + 1 < length s \<and> s ! (i + 1) = LF"
proof (induction s arbitrary: i rule: no_lone_cr.induct)
  case (2 c cs)
  show ?case
  proof (cases "c = CR")
    case True
    then obtain ds where ds: "cs = LF # ds" "no_lone_cr ds" using 2 by (cases cs) auto
    show ?thesis
    proof (cases i)
      case 0
      then show ?thesis using ds by simp
    next
      case (Suc k)
      with 2 ds have k: "k \<noteq> 0" by (cases k) auto
      then obtain l where "k = Suc l" by (cases k) auto
      with 2(1) [of l] 2(3-) True ds Suc show ?thesis by auto
    qed
  next
    case False
    with 2 show ?thesis by (cases i) auto
  qed
qed simp

lemma no_lone_cr_take_drop:
  "no_lone_cr s \<Longrightarrow> no_lone_cr (take (orig_off s n) s) \<and> no_lone_cr (drop (orig_off s n) s)"
proof (induction s n rule: orig_off.induct)
  case (3 c cs n)
  show ?case
  proof (cases "c = CR")
    case True
    with 3 show ?thesis by (cases cs) auto
  next
    case False
    with 3 show ?thesis by auto
  qed
qed auto

lemma no_lone_cr_slice:
  assumes "no_lone_cr s" "i \<le> j" "j \<le> length (norm_lf s)"
  shows "no_lone_cr (slice s (orig_off s i) (orig_off s j))"
proof -
  let ?t = "drop (orig_off s i) s"
  have "orig_off s j - orig_off s i = orig_off ?t (j - i)"
    using orig_off_drop [of i "j - i" s] assms by simp
  then show ?thesis
    using no_lone_cr_take_drop [of ?t "j - i"] no_lone_cr_take_drop [OF assms(1), of i]
    by (simp add: slice_def)
qed

lemma span_loop_no_cr:
  "no_lone_cr s \<Longrightarrow> e \<le> length s \<Longrightarrow> sc_cr (span_loop s i e sc) = sc_cr sc"
proof (induction s i e sc rule: span_loop.induct)
  case (1 s i e sc)
  then show ?case
    using no_lone_cr_nth [of s i] by (subst span_loop.simps) auto
qed

lemma spanMajority_no_cr: "no_lone_cr s \<Longrightarrow> e \<le> length s \<Longrightarrow> spanMajority s i e \<noteq> [CR]"
  using span_loop_no_cr [of s e i] fst_foldl_pick [of "([], 0, 0)" "[(CRLF, x, y), ([LF], x', y')]" for x y x' y']
  by (auto simp: spanMajority_def Let_def pick_majority_def)

lemma term_scan_no_cr: "no_lone_cr s \<Longrightarrow> fst (snd (term_scan s i)) \<noteq> [CR]"
proof (induction i rule: term_scan_induct [of s])
  case (newline i)
  then show ?case using no_lone_cr_nth [of s i] by (auto simp: nl_at_def term_scan_nl split: if_splits)
qed (simp_all add: term_scan_end term_scan_skip)

lemma final_scan_no_cr:
  "no_lone_cr s \<Longrightarrow> n \<le> length s \<Longrightarrow> n = length s \<or> s ! n \<noteq> LF \<Longrightarrow> final_scan s n \<noteq> [CR]"
proof (induction n)
  case (Suc n)
  then show ?case using no_lone_cr_nth [of s n] by auto
qed simp

lemma scan_endings_no_cr:
  "no_lone_cr s \<Longrightarrow> scan_endings s (l, cl, c, f) = (l', cl', c', f') \<Longrightarrow>
     c' = c \<and> (f \<noteq> [CR] \<longrightarrow> f' \<noteq> [CR])"
proof (induction s "(l, cl, c, f)" arbitrary: l cl c f rule: scan_endings.induct)
  case (2 x xs l cl c f)
  consider (pair) "x = CR" "xs \<noteq> []" "hd xs = LF" "no_lone_cr (tl xs)"
    | (lf) "x = LF" "no_lone_cr xs" | (other) "x \<noteq> CR" "x \<noteq> LF" "no_lone_cr xs"
    using 2(5) by (auto split: if_splits)
  then show ?case
  proof cases
    case pair
    from 2(1) [OF pair(1) conjI [OF pair(2,3)] pair(4)] 2(6) pair show ?thesis
      by (auto split: if_splits)
  next
    case lf
    from 2(3) [OF _ lf] 2(6) lf show ?thesis by (auto split: if_splits)
  next
    case other
    from 2(4) [OF other] 2(6) other show ?thesis by simp
  qed
qed simp

lemma DetectLineEnding_no_cr: "no_lone_cr s \<Longrightarrow> DetectLineEnding s \<noteq> [CR]"
proof -
  assume a: "no_lone_cr s"
  obtain lf crlf cr first where sc: "scan_endings s (0, 0, 0, []) = (lf, crlf, cr, first)"
    by (metis prod_cases4)
  have "cr = 0" "first \<noteq> [CR]" using scan_endings_no_cr [OF a sc] by simp_all
  then show ?thesis
    by (simp add: DetectLineEnding_def AnalyzeLineEndings_def Let_def sc pick_dominant_def)
qed

lemma region_ending_no_cr:
  "no_lone_cr s \<Longrightarrow> fb \<noteq> [CR] \<Longrightarrow> e \<le> length s \<Longrightarrow> region_ending s fb i e \<noteq> [CR]"
  using spanMajority_no_cr [of s e i] term_scan_no_cr [of s e] final_scan_no_cr [of s "length s"]
  by (simp add: region_ending_def)

lemma inserted_view:
  "norm_lf (inserted s old new p) = norm_lf new"
  by (simp add: inserted_def nl_simps)

lemma inserted_closed: "no_lone_cr s \<Longrightarrow> nl_closed (inserted s old new p)"
proof -
  assume a: "no_lone_cr s"
  show ?thesis
  proof (cases "ContainsAny new CRLF")
    case True
    have "no_lone_cr (inserted s old new p)"
      using True region_ending_no_cr [OF a DetectLineEnding_no_cr [OF a] orig_off_le]
      by (simp add: inserted_def no_lone_cr_Normalize)
    then show ?thesis by (rule no_lone_cr_closed)
  next
    case False
    then have "CR \<notin> set new" by (auto simp: ContainsAny_def list_ex_iff)
    then have "CR \<noteq> last new" if "new \<noteq> []" using that last_in_set by metis
    with False show ?thesis by (auto simp: inserted_def nl_closed_def)
  qed
qed

text \<open>The view of the assembled bytes.\<close>

fun splice_view :: "gostring \<Rightarrow> gostring \<Rightarrow> gostring \<Rightarrow> nat \<Rightarrow> nat list \<Rightarrow> gostring" where
  "splice_view norm old new i [] = drop i norm"
| "splice_view norm old new i (p # ps) =
     slice norm i p @ new @ splice_view norm old new (p + length old) ps"

lemma splice_norm:
  assumes "no_lone_cr s"
  shows "spans_ok (norm_lf s) old i ps \<Longrightarrow>
    norm_lf (splice s old new i ps) = splice_view (norm_lf s) old (norm_lf new) i ps"
proof (induction ps arbitrary: i)
  case (Cons p ps)
  have le: "i \<le> p" "p \<le> length (norm_lf s)"
    using Cons.prems spans_ok_le [of "norm_lf s" old "p + length old" ps] by auto
  have "nl_closed (slice s (orig_off s i) (orig_off s p))"
    by (rule no_lone_cr_closed [OF no_lone_cr_slice [OF assms le]])
  with Cons inserted_closed [OF assms] show ?case
    by (simp add: norm_lf_append_closed inserted_view le.norm_slice_off [OF le])
qed (simp add: norm_lf_drop)

lemma splice_view_ReplaceAll:
  assumes "old \<noteq> []"
  shows "splice_view norm old new i (hits norm old False i) = ReplaceAll (drop i norm) old new"
  using assms
proof (induction i rule: hits_induct [of old norm])
  case (none i)
  then show ?case by (simp add: hits_Index ReplaceAll_Index)
next
  case (hit i idx)
  then show ?case
    by (simp add: hits_Index [of old norm False i] ReplaceAll_Index [of old "drop i norm"] slice_def
        Let_def add.commute add.left_commute)
qed


subsection \<open>Bytes outside the hits\<close>

text \<open>Kept pieces alternating with replaced pieces.\<close>

fun weave :: "gostring list \<Rightarrow> gostring list \<Rightarrow> gostring" where
  "weave (k # ks) (d # ds) = k @ d @ weave ks ds"
| "weave ks ds = concat ks"

lemma splice_weave:
  assumes "spans_ok (norm_lf s) old i ps"
  shows "\<exists>ks ds xs. length ds = length ps \<and> length xs = length ps \<and> length ks = Suc (length ps)
    \<and> drop (orig_off s i) s = weave ks ds \<and> splice s old new i ps = weave ks xs
    \<and> (\<forall>d\<in>set ds. norm_lf d = old) \<and> (\<forall>x\<in>set xs. norm_lf x = norm_lf new)"
  using assms
proof (induction ps arbitrary: i)
  case Nil
  show ?case by (rule exI [of _ "[drop (orig_off s i) s]"]) simp
next
  case (Cons p ps)
  let ?j = "p + length old"
  have ok: "i \<le> p" "slice (norm_lf s) p ?j = old" "spans_ok (norm_lf s) old ?j ps"
    using Cons.prems by simp_all
  then have le: "?j \<le> length (norm_lf s)" by (blast dest: spans_ok_le)
  obtain ks ds xs where IH: "length ds = length ps" "length xs = length ps" "length ks = Suc (length ps)"
    "drop (orig_off s ?j) s = weave ks ds" "splice s old new ?j ps = weave ks xs"
    "\<forall>d\<in>set ds. norm_lf d = old" "\<forall>x\<in>set xs. norm_lf x = norm_lf new"
    using Cons.IH [OF ok(3)] by blast
  let ?k = "slice s (orig_off s i) (orig_off s p)" and ?d = "slice s (orig_off s p) (orig_off s ?j)"
  have le': "p \<le> length (norm_lf s)" using le by simp
  have "norm_lf ?d = old" using le.norm_slice_off [of p ?j s] le ok(2) by simp
  moreover have "drop (orig_off s i) s = ?k @ ?d @ drop (orig_off s ?j) s"
    using drop_eq_slice_append [OF le.off_mono [OF ok(1) le'], of s]
      drop_eq_slice_append [OF le.off_mono [OF _ le, of p], of s] by simp
  ultimately show ?case
    using IH by (intro exI [of _ "?k # ks"] exI [of _ "?d # ds"]
        exI [of _ "inserted s old new p # xs"]) (simp add: inserted_view)
qed

subsection \<open>Indentation variants\<close>

text \<open>Two texts that differ in the leading whitespace of their lines only.\<close>

definition indent_variant :: "gostring \<Rightarrow> gostring \<Rightarrow> bool" where
  "indent_variant a b = (normalizeIndent a = normalizeIndent b)"

lemma indent_variant_refl [simp]: "indent_variant a a"
  by (simp add: indent_variant_def)

lemma indent_variant_trans: "indent_variant a b \<Longrightarrow> indent_variant b c \<Longrightarrow> indent_variant a c"
  by (simp add: indent_variant_def)

lemma indent_variant_map:
  assumes "\<And>l. LF \<notin> set l \<Longrightarrow> LF \<notin> set (f l)" "\<And>l. TrimLeft (f l) [SP, TAB] = TrimLeft l [SP, TAB]"
  shows "indent_variant (unlines (map f (lines_of t))) t"
  using assms by (simp add: indent_variant_def normalizeIndent_def split_on_Join_map comp_def)

lemma indent_variant_convert [simp]:
  "indent_variant (SpacesToTabs t n) t" "indent_variant (TabsToSpaces t n) t"
  "indent_variant (RescaleSpaces t a b) t"
  by (simp_all add: SpacesToTabs_def TabsToSpaces_def RescaleSpaces_def indent_variant_map
      convert_lines_no_LF convert_lines_keep_text)

lemma indent_variant_ConvertIndent [simp]: "indent_variant (ConvertIndent t a b) t"
  by (simp add: ConvertIndent_def)

lemma drop_leading_tabs: "k \<le> leading_tabs l \<Longrightarrow> TrimLeft (drop k l) [SP, TAB] = TrimLeft l [SP, TAB]"
proof -
  assume k: "k \<le> leading_tabs l"
  obtain n where n: "l = replicate n TAB @ TrimLeft l [TAB]" "length l = n + length (TrimLeft l [TAB])"
    by (rule TrimLeft_decomp [of l TAB])
  then have "k \<le> n" using k by (simp add: leading_tabs_def)
  then show ?thesis by (subst (1 2) n(1)) simp
qed

lemma shift_line_text: "TrimLeft (shift_line d l) [SP, TAB] = TrimLeft l [SP, TAB]"
  by (simp add: shift_line_def Repeat_single Let_def drop_leading_tabs)

lemma shift_line_no_LF: "LF \<notin> set l \<Longrightarrow> LF \<notin> set (shift_line d l)"
  by (auto simp: shift_line_def Repeat_single Let_def dest: in_set_dropD)

lemma indent_variant_shiftTabs [simp]: "indent_variant (shiftTabs t d) t"
  by (simp add: shiftTabs_def indent_variant_map shift_line_text shift_line_no_LF)

lemma indent_variant_shift2 [simp]: "indent_variant (shiftTabs (shiftTabs t d) e) t"
  by (rule indent_variant_trans [OF indent_variant_shiftTabs indent_variant_shiftTabs])

text \<open>Every result of \<open>Replace\<close> that is applied comes from one splice with such variants.\<close>

definition variant_edit :: "LineEndingMap \<Rightarrow> gostring \<Rightarrow> gostring \<Rightarrow> bool \<Rightarrow> ReplaceResult \<Rightarrow> bool" where
  "variant_edit m old new ra r =
     (\<exists>ls old' new'. r = applySpans m old' new' ls ra \<and> indent_variant old' old \<and> indent_variant new' new)"

lemma variant_editI [intro]:
  "indent_variant old' old \<Longrightarrow> indent_variant new' new \<Longrightarrow> variant_edit m old new ra (applyReplace m old' new' ra)"
  "indent_variant old' old \<Longrightarrow> indent_variant new' new \<Longrightarrow> variant_edit m old new ra (applyLineStartReplace m old' new' ra)"
  by (auto simp: variant_edit_def applyReplace_def applyLineStartReplace_def)

lemma pass_variant:
  "pass4 m old new ra = Some r \<Longrightarrow> variant_edit m old new ra r"
  "pass5 m old new ra = Some r \<Longrightarrow> variant_edit m old new ra r"
  "pass6 m old new ra = Some r \<Longrightarrow> variant_edit m old new ra r"
  by (auto simp: pass4_def pass5_def pass6_def Let_def split: option.splits list.splits)

lemma Replace_variant:
  "variant_edit (NewLineEndingMap cont) (NormalizeLineEndings oldStr [LF]) (NormalizeLineEndings newStr [LF])
     ra (Replace itO itN cont oldStr newStr ra fs force)
   \<or> Replace itO itN cont oldStr newStr ra fs force \<in> {not_applied NotFound, not_applied IndentDiffers}"
proof -
  let ?m = "NewLineEndingMap cont"
  let ?old = "NormalizeLineEndings oldStr [LF]" and ?new = "NormalizeLineEndings newStr [LF]"
  define ok where "ok r \<longleftrightarrow> variant_edit ?m ?old ?new ra r
    \<or> r \<in> {not_applied NotFound, not_applied IndentDiffers}" for r
  have ok_if: "ok (if c then a else b)" if "ok a" "ok b" for a b c using that by simp
  have ok_opt: "ok (case (if c then p else None) of None \<Rightarrow> q | Some r \<Rightarrow> r)"
    if "\<And>r. p = Some r \<Longrightarrow> variant_edit ?m ?old ?new ra r" "ok q" for c p q
    using that by (auto simp: ok_def split: option.splits)
  have base: "ok (not_applied NotFound)" "ok (not_applied IndentDiffers)"
    by (simp_all add: ok_def)
  have edit: "ok (applyReplace ?m o' n' ra)" "ok (applyLineStartReplace ?m o' n' ra)"
    if "indent_variant o' ?old" "indent_variant n' ?new" for o' n'
    using that by (auto simp: ok_def)
  have cond: "indent_variant (if c then ConvertIndent ?new x y else ?new) ?new" for c x y by simp
  show ?thesis
    unfolding ok_def [symmetric] Replace_def Let_def
    by (intro ok_if ok_opt base edit cond pass_variant indent_variant_refl
        indent_variant_convert indent_variant_ConvertIndent)
qed


lemma Replace_applied_cases:
  assumes "Applied (Replace itO itN cont oldStr newStr ra fs force)"
  obtains ls old' new' where
    "Replace itO itN cont oldStr newStr ra fs force = applySpans (NewLineEndingMap cont) old' new' ls ra"
    "indent_variant old' (NormalizeLineEndings oldStr [LF])"
    "indent_variant new' (NormalizeLineEndings newStr [LF])"
proof -
  have "\<not> Applied (not_applied x)" for x by (simp add: not_applied_def)
  then show ?thesis
    using Replace_variant [of cont oldStr newStr ra itO itN fs force] assms that
    unfolding variant_edit_def by (metis insertE singletonD)
qed

text \<open>A direct match is one splice with the text as given.\<close>

definition direct_hits :: "gostring \<Rightarrow> gostring \<Rightarrow> nat list" where
  "direct_hits cont oldStr =
     hits (norm_lf cont) (norm_lf oldStr) (hasLeadingWhitespace (norm_lf oldStr)) 0"

definition forced_new ::
  "(nat list \<Rightarrow> nat list) \<Rightarrow> gostring \<Rightarrow> IndentStyle \<Rightarrow> bool \<Rightarrow> gostring" where
  "forced_new itN newStr fs force =
     (if force \<and> (UseTabs (DetectIndentOfString itN newStr) \<noteq> UseTabs fs
                   \<or> IndentSize (DetectIndentOfString itN newStr) \<noteq> IndentSize fs)
      then ConvertIndent (norm_lf newStr) (DetectIndentOfString itN newStr) fs else norm_lf newStr)"

lemma Replace_direct_eq:
  assumes "oldStr \<noteq> []" "direct_hits cont oldStr \<noteq> []"
  shows "Replace itO itN cont oldStr newStr ra fs force =
    applySpans (NewLineEndingMap cont) (norm_lf oldStr) (forced_new itN newStr fs force)
      (hasLeadingWhitespace (norm_lf oldStr)) ra"
proof -
  let ?old = "norm_lf oldStr" and ?norm = "norm_lf cont"
  let ?ls = "hasLeadingWhitespace ?old"
  have N: "Norm (NewLineEndingMap cont) = ?norm"
    using region_ok_Original [OF region_ok_New] by simp
  have old: "?old \<noteq> []" using assms(1) by simp
  have cnt: "(if ?ls then lineStartCount ?norm ?old else Count ?norm ?old)
      = length (direct_hits cont oldStr)"
    using old countOccurrences_hits [of ?norm ?old ?ls]
    by (auto simp: lineStartCount_def countOccurrences_def direct_hits_def)
  show ?thesis
    unfolding Replace_def Let_def nl_simps N cnt forced_new_def [symmetric]
    using assms(2) by (simp add: applyReplace_def applyLineStartReplace_def)
qed

lemma applySpans_decision:
  assumes "n = length (hits (norm_lf s) old ls 0)" "0 < n"
  shows "if \<not> ra \<and> 1 < n then applySpans (NewLineEndingMap s) old new ls ra = not_applied (FoundTimes n)
    else Applied (applySpans (NewLineEndingMap s) old new ls ra)
         \<and> Message (applySpans (NewLineEndingMap s) old new ls ra) = Replaced n"
proof -
  have N: "Norm (NewLineEndingMap s) = norm_lf s"
    using region_ok_Original [OF region_ok_New] by simp
  show ?thesis
    using assms by (auto simp: applySpans_def N countOccurrences_hits Let_def split: prod.splits)
qed

lemma Replace_direct_applied:
  assumes "oldStr \<noteq> []" "direct_hits cont oldStr \<noteq> []" "ra \<or> length (direct_hits cont oldStr) = 1"
  shows "Applied (Replace itO itN cont oldStr newStr ra fs force)"
    and "Content (Replace itO itN cont oldStr newStr ra fs force) =
      splice cont (norm_lf oldStr) (forced_new itN newStr fs force) 0 (direct_hits cont oldStr)"
proof -
  let ?a = "applySpans (NewLineEndingMap cont) (norm_lf oldStr) (forced_new itN newStr fs force)
      (hasLeadingWhitespace (norm_lf oldStr)) ra"
  have "Applied ?a"
    using applySpans_decision [OF refl, of cont "norm_lf oldStr" "hasLeadingWhitespace (norm_lf oldStr)" ra
        "forced_new itN newStr fs force"] assms(2,3)
    by (auto simp: direct_hits_def)
  then show "Applied (Replace itO itN cont oldStr newStr ra fs force)"
    "Content (Replace itO itN cont oldStr newStr ra fs force) =
      splice cont (norm_lf oldStr) (forced_new itN newStr fs force) 0 (direct_hits cont oldStr)"
    using Replace_direct_eq [OF assms(1,2)] applySpans_Content(4) [of cont "norm_lf oldStr"]
    by (simp_all add: direct_hits_def)
qed

subsection \<open>Properties\<close>

text \<open>C2: an applied edit, in any of the passes, keeps every byte outside the replaced spans. The
  file is a sequence of kept pieces with spans in between, the result is the same kept pieces with
  new texts in between; the view of every span is one and the same indentation variant of
  \<open>old_string\<close>, the view of every new text one and the same indentation variant of
  \<open>new_string\<close>, and the number of spans is the reported match count.\<close>

theorem Replace_frame:
  assumes "Applied (Replace itO itN cont oldStr newStr ra fs force)"
  shows "\<exists>old' new' ks ds xs.
    indent_variant old' (NormalizeLineEndings oldStr [LF])
    \<and> indent_variant new' (NormalizeLineEndings newStr [LF])
    \<and> cont = weave ks ds
    \<and> Content (Replace itO itN cont oldStr newStr ra fs force) = weave ks xs
    \<and> length ds = length xs \<and> length ks = Suc (length ds)
    \<and> MatchCount (Replace itO itN cont oldStr newStr ra fs force) = length ds
    \<and> list_all (\<lambda>d. NormalizeLineEndings d [LF] = old') ds
    \<and> list_all (\<lambda>x. NormalizeLineEndings x [LF] = NormalizeLineEndings new' [LF]) xs"
proof -
  let ?r = "Replace itO itN cont oldStr newStr ra fs force"
  obtain ls old' new' where r: "?r = applySpans (NewLineEndingMap cont) old' new' ls ra"
    and v: "indent_variant old' (NormalizeLineEndings oldStr [LF])"
      "indent_variant new' (NormalizeLineEndings newStr [LF])"
    using Replace_applied_cases [OF assms] .
  let ?h = "hits (norm_lf cont) old' ls 0"
  note c = applySpans_Content [OF assms [unfolded r], folded r]
  have "spans_ok (norm_lf cont) old' 0 ?h" using spans_ok_hits [OF c(1)] by simp
  from splice_weave [OF this, of new'] v c show ?thesis
    by (simp add: nl_simps list_all_iff) metis
qed

theorem Replace_frame_witness:
  "Applied (Replace id id ''a b'' ''b'' ''c'' False \<lparr>UseTabs = False, IndentSize = 4\<rparr> False)
   \<and> (\<exists>old' new' ks ds xs.
    indent_variant old' (NormalizeLineEndings ''b'' [LF])
    \<and> indent_variant new' (NormalizeLineEndings ''c'' [LF])
    \<and> ''a b'' = weave ks ds
    \<and> Content (Replace id id ''a b'' ''b'' ''c'' False \<lparr>UseTabs = False, IndentSize = 4\<rparr> False) = weave ks xs
    \<and> length ds = length xs \<and> length ks = Suc (length ds)
    \<and> MatchCount (Replace id id ''a b'' ''b'' ''c'' False \<lparr>UseTabs = False, IndentSize = 4\<rparr> False) = length ds
    \<and> list_all (\<lambda>d. NormalizeLineEndings d [LF] = old') ds
    \<and> list_all (\<lambda>x. NormalizeLineEndings x [LF] = NormalizeLineEndings new' [LF]) xs)"
proof -
  have "Applied (Replace id id ''a b'' ''b'' ''c'' False \<lparr>UseTabs = False, IndentSize = 4\<rparr> False)"
    by (rule Replace_direct_applied) code_simp+
  with Replace_frame [OF this] show ?thesis by blast
qed

text \<open>C1: in a file without lone CRs, the view of an applied edit is the view of the file with the
  hits of an indentation variant of \<open>old_string\<close> replaced by the matching variant of
  \<open>new_string\<close>: all hits, or those at line starts when the first pass anchors the match. Without
  \<open>replace_all\<close> there is exactly one hit.\<close>

theorem Replace_view:
  assumes "Applied (Replace itO itN cont oldStr newStr ra fs force)" "no_lone_cr cont"
  shows "\<exists>old' new' ls.
    indent_variant old' (NormalizeLineEndings oldStr [LF])
    \<and> indent_variant new' (NormalizeLineEndings newStr [LF])
    \<and> (let norm = NormalizeLineEndings cont [LF]; new = NormalizeLineEndings new' [LF];
           r = Replace itO itN cont oldStr newStr ra fs force
       in NormalizeLineEndings (Content r) [LF] = splice_view norm old' new 0 (hits norm old' ls 0)
          \<and> (ls \<or> NormalizeLineEndings (Content r) [LF] = ReplaceAll norm old' new)
          \<and> MatchCount r = length (hits norm old' ls 0)
          \<and> (ra \<or> MatchCount r = 1))"
proof -
  let ?r = "Replace itO itN cont oldStr newStr ra fs force"
  obtain ls old' new' where r: "?r = applySpans (NewLineEndingMap cont) old' new' ls ra"
    and v: "indent_variant old' (NormalizeLineEndings oldStr [LF])"
      "indent_variant new' (NormalizeLineEndings newStr [LF])"
    using Replace_applied_cases [OF assms(1)] .
  let ?h = "hits (norm_lf cont) old' ls 0"
  note c = applySpans_Content [OF assms(1) [unfolded r], folded r]
  have "spans_ok (norm_lf cont) old' 0 ?h" using spans_ok_hits [OF c(1)] by simp
  from splice_norm [OF assms(2) this, of new']
  have "norm_lf (Content ?r) = splice_view (norm_lf cont) old' (norm_lf new') 0 ?h" by (simp add: c)
  moreover have "ls \<or> splice_view (norm_lf cont) old' (norm_lf new') 0 ?h = ReplaceAll (norm_lf cont) old' (norm_lf new')"
    using splice_view_ReplaceAll [OF c(1), of "norm_lf cont" "norm_lf new'" 0] by (cases ls) simp_all
  ultimately show ?thesis
    using v c(3,5) by (intro exI [of _ old'] exI [of _ new'] exI [of _ ls]) (simp add: nl_simps Let_def)
qed

theorem Replace_view_witness:
  "\<exists>old' new' ls.
    indent_variant old' (NormalizeLineEndings ''b'' [LF])
    \<and> indent_variant new' (NormalizeLineEndings ''c'' [LF])
    \<and> (let norm = NormalizeLineEndings [CHR ''b'', CR, LF, CHR ''b''] [LF]; new = NormalizeLineEndings new' [LF];
           r = Replace id id [CHR ''b'', CR, LF, CHR ''b''] ''b'' ''c'' True \<lparr>UseTabs = False, IndentSize = 4\<rparr> False
       in NormalizeLineEndings (Content r) [LF] = splice_view norm old' new 0 (hits norm old' ls 0)
          \<and> (ls \<or> NormalizeLineEndings (Content r) [LF] = ReplaceAll norm old' new)
          \<and> MatchCount r = length (hits norm old' ls 0)
          \<and> (True \<or> MatchCount r = 1))"
proof (rule Replace_view)
  show "Applied (Replace id id [CHR ''b'', CR, LF, CHR ''b''] ''b'' ''c'' True \<lparr>UseTabs = False, IndentSize = 4\<rparr> False)"
    by (rule Replace_direct_applied) code_simp+
qed code_simp

text \<open>the decision on a direct match. Without \<open>replace_all\<close>, \<open>n > 1\<close> hits of the text as given
  are reported as ambiguous and nothing is replaced; exactly one hit, or any number with
  \<open>replace_all\<close>, is applied. Hits of a text with leading whitespace count at line starts only.\<close>

theorem Replace_direct:
  assumes "oldStr \<noteq> []"
    and "n = length (hits (NormalizeLineEndings cont [LF]) (NormalizeLineEndings oldStr [LF])
              (hasLeadingWhitespace (NormalizeLineEndings oldStr [LF])) 0)"
    and "0 < n"
  shows "if \<not> ra \<and> 1 < n
    then Replace itO itN cont oldStr newStr ra fs force = not_applied (FoundTimes n)
    else Applied (Replace itO itN cont oldStr newStr ra fs force)
         \<and> Message (Replace itO itN cont oldStr newStr ra fs force) = Replaced n"
proof -
  have n: "n = length (direct_hits cont oldStr)" using assms(2) by (simp add: nl_simps direct_hits_def)
  then have "direct_hits cont oldStr \<noteq> []" using assms(3) by auto
  note eq = Replace_direct_eq [OF assms(1) this]
  show ?thesis
    unfolding eq by (rule applySpans_decision [OF n [unfolded direct_hits_def] assms(3)])
qed

theorem Replace_direct_witness:
  "Replace id id ''aXbX'' ''X'' ''Y'' False \<lparr>UseTabs = False, IndentSize = 4\<rparr> False
     = not_applied (FoundTimes 2)
   \<and> Applied (Replace id id ''aXbX'' ''X'' ''Y'' True \<lparr>UseTabs = False, IndentSize = 4\<rparr> False)"
proof -
  have n: "2 = length (hits (NormalizeLineEndings ''aXbX'' [LF]) (NormalizeLineEndings ''X'' [LF])
              (hasLeadingWhitespace (NormalizeLineEndings ''X'' [LF])) 0)"
    by code_simp
  show ?thesis
    using Replace_direct [OF _ n, of False id id] Replace_direct [OF _ n, of True id id] by simp
qed

text \<open>a newline is lost when a replacement that starts with a newline lands right after a lone
  CR and the region uses LF: the CR and the inserted LF become one CRLF. The view of the result
  has one newline less than replacing in the view gives.\<close>

theorem Replace_lone_cr_merges:
  "let cont = [CHR ''a'', CR, CHR ''X'', LF]; new = [LF, CHR ''Y''];
       r = Replace id id cont ''X'' new False \<lparr>UseTabs = False, IndentSize = 4\<rparr> False
   in Applied r
      \<and> Content r = [CHR ''a'', CR, LF, CHR ''Y'', LF]
      \<and> NormalizeLineEndings (Content r) [LF] = [CHR ''a'', LF, CHR ''Y'', LF]
      \<and> ReplaceAll (NormalizeLineEndings cont [LF]) ''X'' new = [CHR ''a'', LF, LF, CHR ''Y'', LF]"
proof -
  let ?c = "[CHR ''a'', CR, CHR ''X'', LF]" and ?n = "[LF, CHR ''Y'']"
  let ?r = "Replace id id ?c ''X'' ?n False \<lparr>UseTabs = False, IndentSize = 4\<rparr> False"
  have h: "direct_hits ?c ''X'' = [2]" by code_simp
  then have "Applied ?r" "Content ?r = splice ?c (norm_lf ''X'') (norm_lf ?n) 0 [2]"
    using Replace_direct_applied [of "''X''" ?c False id id ?n] by (simp_all add: forced_new_def)
  moreover have "splice ?c (norm_lf ''X'') (norm_lf ?n) 0 [2] = [CHR ''a'', CR, LF, CHR ''Y'', LF]"
    by code_simp
  moreover have "NormalizeLineEndings [CHR ''a'', CR, LF, CHR ''Y'', LF] [LF] = [CHR ''a'', LF, CHR ''Y'', LF]"
    by code_simp
  moreover have "ReplaceAll (NormalizeLineEndings ?c [LF]) ''X'' ?n = [CHR ''a'', LF, LF, CHR ''Y'', LF]"
    by code_simp
  ultimately show ?thesis by (simp add: Let_def)
qed

end
