(* ===== verification/Patch.thy ===== *)
theory Patch
  imports Text_Diff Edit_Replace
begin

text \<open>
  The patch tool (tools/patch/handler.go): parsing a unified diff into hunks, checking each hunk
  against the file and applying the hunks from the last to the first, with every line keeping the
  bytes that terminated it. \<open>patch_text\<close> is the part of \<open>Handle\<close> between reading and writing the
  file. The main theorem composes it with the diff of Text_Diff: the diff of two files, applied
  to the first, gives the lines of the second.
\<close>

subsection \<open>Hunks\<close>

record hunkLine =
  hop :: char
  htext :: gostring

record hunk =
  srcStart :: int
  srcCount :: int
  dstStart :: int
  dstCount :: int
  hlines :: "hunkLine list"

datatype parse_error =
  InvalidSrcStart gostring | InvalidSrcCount gostring | InvalidDstStart gostring | InvalidDstCount gostring

text \<open>The regular expression of hunk headers; an absent count is the empty string.\<close>

definition take_count :: "gostring \<Rightarrow> gostring \<times> gostring" where
  "take_count s =
     (if s \<noteq> [] \<and> hd s = CHR '','' \<and> takeWhile is_digit (tl s) \<noteq> []
      then (takeWhile is_digit (tl s), dropWhile is_digit (tl s)) else ([], s))"

definition reHunkHeader :: "gostring \<Rightarrow> (gostring \<times> gostring \<times> gostring \<times> gostring) option" where
  "reHunkHeader line =
     (if \<not> HasPrefix line ''@@ -'' then None
      else let r0 = drop 4 line; m1 = takeWhile is_digit r0;
               (m2, r2) = take_count (dropWhile is_digit r0)
           in if m1 = [] \<or> \<not> HasPrefix r2 '' +'' then None
              else let r3 = drop 2 r2; m3 = takeWhile is_digit r3;
                       (m4, r4) = take_count (dropWhile is_digit r3)
                   in if m3 = [] \<or> \<not> HasPrefix r4 '' @@'' then None else Some (m1, m2, m3, m4))"

definition number :: "(gostring \<Rightarrow> parse_error) \<Rightarrow> gostring \<Rightarrow> parse_error + int" where
  "number err m =
     (case Atoi m of None \<Rightarrow> Inl (err m) | Some n \<Rightarrow> if n < 0 then Inl (err m) else Inr n)"

definition count_number :: "(gostring \<Rightarrow> parse_error) \<Rightarrow> gostring \<Rightarrow> parse_error + int" where
  "count_number err m = (if m = [] then Inr 1 else number err m)"

definition parse_header :: "gostring \<times> gostring \<times> gostring \<times> gostring \<Rightarrow> parse_error + hunk" where
  "parse_header m =
     (case m of (m1, m2, m3, m4) \<Rightarrow>
      case number InvalidSrcStart m1 of Inl e \<Rightarrow> Inl e | Inr ss \<Rightarrow>
      case count_number InvalidSrcCount m2 of Inl e \<Rightarrow> Inl e | Inr sc \<Rightarrow>
      case number InvalidDstStart m3 of Inl e \<Rightarrow> Inl e | Inr ds \<Rightarrow>
      case count_number InvalidDstCount m4 of Inl e \<Rightarrow> Inl e | Inr dc \<Rightarrow>
      Inr \<lparr>srcStart = ss, srcCount = sc, dstStart = ds, dstCount = dc, hlines = []\<rparr>)"

text \<open>What a line inside a hunk contributes; other lines are ignored.\<close>

definition hunk_line :: "gostring \<Rightarrow> hunkLine option" where
  "hunk_line line =
     (case line of
        [] \<Rightarrow> Some \<lparr>hop = CHR '' '', htext = []\<rparr>
      | c # text \<Rightarrow> if c = CHR '' '' \<or> c = CHR ''-'' \<or> c = CHR ''+''
                    then Some \<lparr>hop = c, htext = text\<rparr> else None)"

definition append_line :: "hunk list \<Rightarrow> hunkLine option \<Rightarrow> hunk list" where
  "append_line hs hl =
     (case hl of None \<Rightarrow> hs
      | Some l \<Rightarrow> butlast hs @ [(last hs)\<lparr>hlines := hlines (last hs) @ [l]\<rparr>])"

text \<open>The loop over the lines; \<open>current\<close> is the last hunk, absent while there is none.\<close>

fun parse_loop :: "hunk list \<Rightarrow> gostring list \<Rightarrow> parse_error + hunk list" where
  "parse_loop hs [] = Inr hs"
| "parse_loop hs (line # rest) =
     (if HasPrefix line ''---'' \<or> HasPrefix line ''+++'' then parse_loop hs rest
      else case reHunkHeader line of
             Some m \<Rightarrow> (case parse_header m of Inl e \<Rightarrow> Inl e | Inr h \<Rightarrow> parse_loop (hs @ [h]) rest)
           | None \<Rightarrow> if hs = [] then parse_loop hs rest
                     else parse_loop (append_line hs (hunk_line line)) rest)"

definition parseUnifiedDiff :: "gostring \<Rightarrow> parse_error + hunk list" where
  "parseUnifiedDiff patch =
     parse_loop [] (lines_of (TrimRight (ReplaceAll patch CRLF [LF]) [LF]))"

subsection \<open>Lines with their terminators\<close>

record srcLine =
  ltext :: gostring
  lterm :: gostring

text \<open>The loop of \<open>splitKeepingTerminators\<close>; \<open>cur\<close> is the line read so far.\<close>

fun split_keep :: "gostring \<Rightarrow> gostring \<Rightarrow> srcLine list" where
  "split_keep cur [] = (if cur = [] then [] else [\<lparr>ltext = cur, lterm = []\<rparr>])"
| "split_keep cur (c # cs) =
     (if c \<noteq> LF then split_keep (cur @ [c]) cs
      else (if cur \<noteq> [] \<and> last cur = CR then \<lparr>ltext = butlast cur, lterm = CRLF\<rparr>
            else \<lparr>ltext = cur, lterm = [LF]\<rparr>) # split_keep [] cs)"

definition splitKeepingTerminators :: "gostring \<Rightarrow> srcLine list" where
  "splitKeepingTerminators cont = split_keep [] cont"

subsection \<open>Applying hunks\<close>

datatype apply_error =
  InvalidStart nat int
| StartExceeds nat int nat
| FileTooShort nat nat nat
| ContextMismatch nat nat gostring srcLine
| IndexOutOfRange nat nat

text \<open>First loop: every context and deleted line has to be the line of the file at its place;
  the result is the number of lines consumed.\<close>

fun verify_loop :: "nat \<Rightarrow> srcLine list \<Rightarrow> nat \<Rightarrow> nat \<Rightarrow> hunkLine list \<Rightarrow> apply_error + nat" where
  "verify_loop n ls srcIdx consumed [] = Inr consumed"
| "verify_loop n ls srcIdx consumed (hl # hls) =
     (if hop hl = CHR '' '' \<or> hop hl = CHR ''-'' then
        (if length ls \<le> srcIdx then Inl (FileTooShort n (srcIdx + 1) (length ls))
         else if htext hl \<noteq> ltext (ls ! srcIdx)
         then Inl (ContextMismatch n (srcIdx + 1) (htext hl) (ls ! srcIdx))
         else verify_loop n ls (srcIdx + 1) (consumed + 1) hls)
      else verify_loop n ls srcIdx consumed hls)"

definition added_term :: "gostring \<Rightarrow> srcLine list \<Rightarrow> nat \<Rightarrow> gostring \<Rightarrow> gostring" where
  "added_term dominant ls srcIdx replacedTerm =
     (let t0 = replacedTerm;
          t1 = (if t0 = [] \<and> srcIdx < length ls then lterm (ls ! srcIdx) else t0);
          t2 = (if t1 = [] \<and> 0 < srcIdx then lterm (ls ! (srcIdx - 1)) else t1)
      in if t2 = [] then dominant else t2)"

text \<open>Second loop: the lines the hunk puts in place of the consumed ones.\<close>

fun apply_loop ::
  "nat \<Rightarrow> gostring \<Rightarrow> srcLine list \<Rightarrow> nat \<Rightarrow> gostring \<Rightarrow> srcLine list \<Rightarrow> hunkLine list
   \<Rightarrow> apply_error + srcLine list" where
  "apply_loop n dominant ls srcIdx replacedTerm new [] = Inr new"
| "apply_loop n dominant ls srcIdx replacedTerm new (hl # hls) =
     (if hop hl = CHR '' '' then
        (if length ls \<le> srcIdx then Inl (IndexOutOfRange n (srcIdx + 1))
         else apply_loop n dominant ls (srcIdx + 1) [] (new @ [ls ! srcIdx]) hls)
      else if hop hl = CHR ''-'' then
        (if length ls \<le> srcIdx then Inl (IndexOutOfRange n (srcIdx + 1))
         else apply_loop n dominant ls (srcIdx + 1) (lterm (ls ! srcIdx)) new hls)
      else if hop hl = CHR ''+'' then
        apply_loop n dominant ls srcIdx replacedTerm
          (new @ [\<lparr>ltext = htext hl, lterm = added_term dominant ls srcIdx replacedTerm\<rparr>]) hls
      else apply_loop n dominant ls srcIdx replacedTerm new hls)"

definition apply_hunk :: "gostring \<Rightarrow> nat \<Rightarrow> srcLine list \<Rightarrow> hunk \<Rightarrow> apply_error + srcLine list" where
  "apply_hunk dominant n ls h =
     (let startIdx = srcStart h - 1 in
      if startIdx < 0 then Inl (InvalidStart n (srcStart h))
      else if int (length ls) < startIdx then Inl (StartExceeds n (srcStart h) (length ls))
      else case verify_loop n ls (nat startIdx) 0 (hlines h) of
             Inl e \<Rightarrow> Inl e
           | Inr consumed \<Rightarrow>
               (case apply_loop n dominant ls (nat startIdx) [] [] (hlines h) of
                  Inl e \<Rightarrow> Inl e
                | Inr new \<Rightarrow> Inr (take (nat startIdx) ls @ new @ drop (nat startIdx + consumed) ls)))"

text \<open>From the last hunk to the first; the first argument is the number of hunks left.\<close>

fun apply_hunks :: "nat \<Rightarrow> gostring \<Rightarrow> hunk list \<Rightarrow> srcLine list \<Rightarrow> apply_error + srcLine list" where
  "apply_hunks 0 dominant hs ls = Inr ls"
| "apply_hunks (Suc i) dominant hs ls =
     (case apply_hunk dominant (i + 1) ls (hs ! i) of
        Inl e \<Rightarrow> Inl e | Inr ls' \<Rightarrow> apply_hunks i dominant hs ls')"

fun combine :: "bool \<Rightarrow> gostring \<Rightarrow> srcLine list \<Rightarrow> gostring" where
  "combine endsWithNewline dominant [] = []"
| "combine endsWithNewline dominant (l # ls) =
     ltext l
     @ (if ls = [] \<and> \<not> endsWithNewline then [] else if lterm l \<noteq> [] then lterm l else dominant)
     @ combine endsWithNewline dominant ls"

subsection \<open>The tool between reading and writing\<close>

definition maxPatchSize :: nat where
  "maxPatchSize = 10 * 1024 * 1024"

datatype patch_error =
  PatchRequired | PatchTooLarge nat | ParseFailed parse_error | NoHunks | HunkFailed apply_error

definition check_patch :: "gostring \<Rightarrow> patch_error + hunk list" where
  "check_patch patch =
     (if patch = [] then Inl PatchRequired
      else if maxPatchSize < length patch then Inl (PatchTooLarge (length patch))
      else case parseUnifiedDiff patch of
             Inl e \<Rightarrow> Inl (ParseFailed e)
           | Inr hs \<Rightarrow> if hs = [] then Inl NoHunks else Inr hs)"

definition patch_lines :: "gostring \<Rightarrow> hunk list \<Rightarrow> apply_error + srcLine list" where
  "patch_lines cont hs =
     apply_hunks (length hs) (DetectLineEnding cont) hs (splitKeepingTerminators cont)"

definition patch_text :: "gostring \<Rightarrow> gostring \<Rightarrow> patch_error + gostring" where
  "patch_text cont patch =
     (case check_patch patch of
        Inl e \<Rightarrow> Inl e
      | Inr hs \<Rightarrow>
          (case patch_lines cont hs of
             Inl e \<Rightarrow> Inl (HunkFailed e)
           | Inr ls \<Rightarrow> Inr (combine (HasSuffix cont [LF] \<or> cont = []) (DetectLineEnding cont) ls)))"

definition addedLines :: "gostring \<Rightarrow> gostring" where
  "addedLines patch =
     concat (map (\<lambda>line. if HasPrefix line ''+'' \<and> \<not> HasPrefix line ''+++''
                          then drop 1 line @ [LF] else []) (lines_of patch))"


subsection \<open>Splitting and combining\<close>

definition line_bytes :: "srcLine \<Rightarrow> gostring" where
  "line_bytes l = ltext l @ lterm l"

lemma split_keep_no_LF:
  "LF \<notin> set s \<Longrightarrow> split_keep cur s = (if cur @ s = [] then [] else [\<lparr>ltext = cur @ s, lterm = []\<rparr>])"
  by (induction s arbitrary: cur) auto

lemma split_keep_line:
  "LF \<notin> set l \<Longrightarrow> split_keep cur (l @ LF # t) =
     (if cur @ l \<noteq> [] \<and> last (cur @ l) = CR then \<lparr>ltext = butlast (cur @ l), lterm = CRLF\<rparr>
      else \<lparr>ltext = cur @ l, lterm = [LF]\<rparr>) # split_keep [] t"
  by (induction l arbitrary: cur) auto

lemma split_line:
  "LF \<notin> set l \<Longrightarrow> splitKeepingTerminators (l @ LF # t) =
     \<lparr>ltext = strip_cr l, lterm = (if l \<noteq> [] \<and> last l = CR then CRLF else [LF])\<rparr>
     # splitKeepingTerminators t"
  by (auto simp: splitKeepingTerminators_def split_keep_line strip_cr_def)

lemma split_last:
  "LF \<notin> set l \<Longrightarrow> splitKeepingTerminators l = (if l = [] then [] else [\<lparr>ltext = l, lterm = []\<rparr>])"
  by (simp add: splitKeepingTerminators_def split_keep_no_LF)

lemma texts_SplitLines: "map ltext (splitKeepingTerminators s) = SplitLines s"
  by (induction s rule: line_induct) (simp_all add: split_line split_last SplitLines_line SplitLines_no_LF)

lemma bytes_split: "concat (map line_bytes (splitKeepingTerminators s)) = s"
  by (induction s rule: line_induct)
    (auto simp: split_line split_last line_bytes_def strip_cr_restore)

lemma terms_split: "l \<in> set (splitKeepingTerminators s) \<Longrightarrow> lterm l \<in> {[], [LF], CRLF}"
  by (induction s rule: line_induct) (auto simp: split_line split_last split: if_splits)

lemma combine_split:
  "combine (HasSuffix s [LF] \<or> s = []) dn (splitKeepingTerminators s) = s"
proof (induction s rule: line_induct)
  case (last l)
  then have "\<not> HasSuffix l [LF]" by (auto simp: suffix_def)
  with last show ?case by (simp add: split_last)
next
  case (line l t)
  have e: "splitKeepingTerminators t = [] \<longleftrightarrow> t = []"
    by (metis bytes_split concat.simps(1) list.simps(8) split_last list.set(1) empty_iff)
  have "HasSuffix (l @ LF # t) [LF] = (HasSuffix t [LF] \<or> t = [])"
    by (auto simp: HasSuffix_LF)
  then show ?case
    using line by (auto simp: split_line e strip_cr_restore)
qed

text \<open>Reading back what \<open>combine\<close> writes.\<close>

definition term_ok :: "srcLine \<Rightarrow> bool" where
  "term_ok l = (lterm l = [] \<or> lterm l = [LF] \<or> lterm l = CRLF)"

lemma SplitLines_combine:
  assumes "dn = [LF] \<or> dn = CRLF" "list_all term_ok ls" "list_all (\<lambda>l. plain_line (ltext l)) ls"
    and "e \<or> ls = [] \<or> ltext (last ls) \<noteq> []"
  shows "SplitLines (combine e dn ls) = map ltext ls"
  using assms(2-)
proof (induction ls)
  case (Cons l ls)
  have pl: "LF \<notin> set (ltext l)" "strip_cr (ltext l) = ltext l" "strip_cr (ltext l @ [CR]) = ltext l"
    using Cons.prems strip_cr_plain by (auto simp: plain_line_def strip_cr_def)
  show ?case
  proof (cases "ls = [] \<and> \<not> e")
    case True
    with Cons pl show ?thesis by (simp add: SplitLines_no_LF)
  next
    case False
    define t where "t = (if lterm l \<noteq> [] then lterm l else dn)"
    have t: "t = [LF] \<or> t = CRLF" using Cons.prems assms(1) by (auto simp: t_def term_ok_def)
    have "combine e dn (l # ls) = ltext l @ t @ combine e dn ls" using False by (auto simp: t_def)
    moreover have "SplitLines (ltext l @ t @ combine e dn ls) = ltext l # SplitLines (combine e dn ls)"
      using t pl SplitLines_line [of "ltext l" "combine e dn ls"]
        SplitLines_line [of "ltext l @ [CR]" "combine e dn ls"] by auto
    ultimately show ?thesis using Cons False by auto
  qed
qed (simp add: SplitLines_def)

subsection \<open>One hunk\<close>

text \<open>The texts a hunk expects in the file and the texts it leaves there.\<close>

definition old_side :: "hunkLine list \<Rightarrow> gostring list" where
  "old_side hls = map htext (filter (\<lambda>l. hop l = CHR '' '' \<or> hop l = CHR ''-'') hls)"

definition new_side :: "hunkLine list \<Rightarrow> gostring list" where
  "new_side hls = map htext (filter (\<lambda>l. hop l = CHR '' '' \<or> hop l = CHR ''+'') hls)"

lemma take_Suc_nth: "i < length xs \<Longrightarrow> take (Suc n) (drop i xs) = xs ! i # take n (drop (Suc i) xs)"
  by (simp add: Cons_nth_drop_Suc [symmetric])

lemma verify_loop_iff:
  "verify_loop n ls i k hls = Inr m \<longleftrightarrow>
     m = k + length (old_side hls)
     \<and> take (length (old_side hls)) (drop i (map ltext ls)) = old_side hls"
proof (induction n ls i k hls arbitrary: m rule: verify_loop.induct)
  case (2 n ls i k hl hls)
  show ?case
  proof (cases "hop hl = CHR '' '' \<or> hop hl = CHR ''-''")
    case True
    then have o: "old_side (hl # hls) = htext hl # old_side hls" by (auto simp: old_side_def)
    show ?thesis
    proof (cases "i < length ls")
      case lt: True
      then have t: "take (Suc n') (drop i (map ltext ls)) = ltext (ls ! i) # take n' (drop (Suc i) (map ltext ls))" for n'
        using take_Suc_nth [of i "map ltext ls" n'] by simp
      show ?thesis
      proof (cases "htext hl = ltext (ls ! i)")
        case eq: True
        with 2(1) True lt have IH: "verify_loop n ls (i + 1) (k + 1) hls = Inr m \<longleftrightarrow>
          m = k + 1 + length (old_side hls)
          \<and> take (length (old_side hls)) (drop (i + 1) (map ltext ls)) = old_side hls" by simp
        show ?thesis using True lt eq IH by (simp add: o t)
      qed (use True lt in \<open>simp add: o t\<close>)
    qed (use True in \<open>simp add: o\<close>)
  next
    case False
    with 2(2) show ?thesis by (auto simp: old_side_def)
  qed
qed (auto simp: old_side_def)

lemma apply_loop_texts:
  assumes "take (length (old_side hls)) (drop i (map ltext ls)) = old_side hls"
  shows "\<exists>new'. apply_loop n dn ls i rt new hls = Inr (new @ new') \<and> map ltext new' = new_side hls"
  using assms
proof (induction n dn ls i rt new hls rule: apply_loop.induct)
  case (2 n dn ls i rt new hl hls)
  consider (ctx) "hop hl = CHR '' ''" | (del) "hop hl = CHR ''-''" | (add) "hop hl = CHR ''+''"
    | (other) "hop hl \<noteq> CHR '' ''" "hop hl \<noteq> CHR ''-''" "hop hl \<noteq> CHR ''+''" by blast
  then show ?case
  proof cases
    case ctx
    then have o: "old_side (hl # hls) = htext hl # old_side hls"
      "new_side (hl # hls) = htext hl # new_side hls" by (auto simp: old_side_def new_side_def)
    have lt: "i < length ls"
      using 2(5) by (cases "i < length ls") (auto simp: o)
    have m: "htext hl = ltext (ls ! i)"
      "take (length (old_side hls)) (drop (Suc i) (map ltext ls)) = old_side hls"
      using 2(5) take_Suc_nth [of i "map ltext ls"] lt by (auto simp: o)
    with 2(1) ctx lt show ?thesis by (force simp: o)
  next
    case del
    then have o: "old_side (hl # hls) = htext hl # old_side hls"
      "new_side (hl # hls) = new_side hls" by (auto simp: old_side_def new_side_def)
    have lt: "i < length ls"
      using 2(5) by (cases "i < length ls") (auto simp: o)
    have m: "take (length (old_side hls)) (drop (Suc i) (map ltext ls)) = old_side hls"
      using 2(5) take_Suc_nth [of i "map ltext ls"] lt by (auto simp: o)
    with 2(2) del lt show ?thesis by (force simp: o)
  next
    case add
    then have o: "old_side (hl # hls) = old_side hls"
      "new_side (hl # hls) = htext hl # new_side hls" by (auto simp: old_side_def new_side_def)
    with 2(3) 2(5) add show ?thesis by (force simp: o)
  next
    case other
    then have o: "old_side (hl # hls) = old_side hls" "new_side (hl # hls) = new_side hls"
      by (auto simp: old_side_def new_side_def)
    with 2(4) 2(5) other show ?thesis by simp
  qed
qed (simp add: new_side_def)


lemma apply_loop_terms:
  assumes "list_all term_ok ls" "list_all term_ok new" "rt \<in> {[], [LF], CRLF}" "dn = [LF] \<or> dn = CRLF"
    and "i \<le> length ls" "apply_loop n dn ls i rt new hls = Inr new'"
  shows "list_all term_ok new'"
  using assms
proof (induction n dn ls i rt new hls rule: apply_loop.induct)
  case (2 n dn ls i rt new hl hls)
  have nth: "k < length ls \<Longrightarrow> term_ok (ls ! k) \<and> lterm (ls ! k) \<in> {[], [LF], CRLF}" for k
    using 2(5) by (auto simp: list_all_length term_ok_def)
  consider (ctx) "hop hl = CHR '' ''" | (del) "hop hl = CHR ''-''" | (add) "hop hl = CHR ''+''"
    | (other) "hop hl \<noteq> CHR '' ''" "hop hl \<noteq> CHR ''-''" "hop hl \<noteq> CHR ''+''" by blast
  then show ?case
  proof cases
    case ctx
    with 2(1) 2(5-) nth [of i] show ?thesis by (auto split: if_splits)
  next
    case del
    with 2(2) 2(5-) nth [of i] show ?thesis by (auto split: if_splits)
  next
    case add
    have "added_term dn ls i rt \<in> {[], [LF], CRLF}"
      using 2(7-9) nth [of i] nth [of "i - 1"]
      by (cases "i < length ls"; cases "0 < i") (auto simp: added_term_def Let_def)
    with 2(3) 2(5-) add show ?thesis by (auto simp: term_ok_def)
  next
    case other
    with 2(4) 2(5-) show ?thesis by simp
  qed
qed simp

lemma apply_hunk_texts:
  assumes "1 \<le> srcStart h" "srcStart h - 1 \<le> int (length ls)"
    and "take (length (old_side (hlines h))) (drop (nat (srcStart h - 1)) (map ltext ls)) = old_side (hlines h)"
  obtains ls' where "apply_hunk dn n ls h = Inr ls'"
    "map ltext ls' = take (nat (srcStart h - 1)) (map ltext ls) @ new_side (hlines h)
       @ drop (nat (srcStart h - 1) + length (old_side (hlines h))) (map ltext ls)"
proof -
  let ?s = "nat (srcStart h - 1)"
  have v: "verify_loop n ls ?s 0 (hlines h) = Inr (length (old_side (hlines h)))"
    using assms(3) by (simp add: verify_loop_iff)
  obtain new where new: "apply_loop n dn ls ?s [] [] (hlines h) = Inr new"
    "map ltext new = new_side (hlines h)"
    using apply_loop_texts [OF assms(3), of n dn "[]" "[]"] by auto
  show ?thesis
    by (rule that [of "take ?s ls @ new @ drop (?s + length (old_side (hlines h))) ls"])
      (use assms(1,2) v new in \<open>simp_all add: apply_hunk_def Let_def take_map drop_map\<close>)
qed

lemma apply_hunk_terms:
  assumes "list_all term_ok ls" "dn = [LF] \<or> dn = CRLF" "apply_hunk dn n ls h = Inr ls'"
  shows "list_all term_ok ls'"
proof -
  have "list_all term_ok (take k ls)" "list_all term_ok (drop k ls)" for k
    using assms(1) by (auto simp: list_all_iff dest: in_set_takeD in_set_dropD)
  with assms apply_loop_terms [of ls "[]" "[]" dn "nat (srcStart h - 1)" n "hlines h"] show ?thesis
    by (auto simp: apply_hunk_def Let_def split: if_splits sum.splits)
qed

subsection \<open>Hunks from the right\<close>

fun apply_right :: "nat \<Rightarrow> gostring \<Rightarrow> hunk list \<Rightarrow> srcLine list \<Rightarrow> apply_error + srcLine list" where
  "apply_right k dn [] ls = Inr ls"
| "apply_right k dn (h # hs) ls =
     (case apply_right (k + 1) dn hs ls of Inl e \<Rightarrow> Inl e | Inr ls' \<Rightarrow> apply_hunk dn (k + 1) ls' h)"

lemma apply_hunks_split:
  "apply_hunks (length pre + length hs) dn (pre @ hs) ls =
     (case apply_right (length pre) dn hs ls of Inl e \<Rightarrow> Inl e
      | Inr ls' \<Rightarrow> apply_hunks (length pre) dn (pre @ hs) ls')"
proof (induction hs arbitrary: pre)
  case (Cons h hs)
  from Cons [of "pre @ [h]"] show ?case by (simp split: sum.splits)
qed simp

lemma apply_hunks_right: "apply_hunks (length hs) dn hs ls = apply_right 0 dn hs ls"
  using apply_hunks_split [of "[]" hs dn ls] by (simp split: sum.splits)

subsection \<open>Hunks of a diff\<close>

definition op_hlines :: "gostring list \<Rightarrow> gostring list \<Rightarrow> OpCode \<Rightarrow> hunkLine list" where
  "op_hlines a b oc =
     map (\<lambda>l. \<lparr>hop = hd l, htext = tl l\<rparr>) (op_lines a b oc)"

definition hunk_of :: "gostring list \<Rightarrow> gostring list \<Rightarrow> OpCode list \<Rightarrow> hunk" where
  "hunk_of a b g =
     (let i1 = I1 (hd g); i2 = I2 (last g); j1 = J1 (hd g); j2 = J2 (last g)
      in \<lparr>srcStart = int (if i2 - i1 = 0 then i1 else i1 + 1), srcCount = int (i2 - i1),
          dstStart = int (if j2 - j1 = 0 then j1 else j1 + 1), dstCount = int (j2 - j1),
          hlines = concat (map (op_hlines a b) g)\<rparr>)"

lemma op_sides:
  assumes "op_ok a b i j oc"
  shows "old_side (op_hlines a b oc) = slice a i (I2 oc)" "new_side (op_hlines a b oc) = slice b j (J2 oc)"
  using assms
  by (auto simp: op_ok_def op_hlines_def op_lines_def old_side_def new_side_def comp_def
      filter_map split: tag.splits)

lemma side_append:
  "old_side (xs @ ys) = old_side xs @ old_side ys" "new_side (xs @ ys) = new_side xs @ new_side ys"
  by (simp_all add: old_side_def new_side_def)

lemma group_sides:
  assumes "ops_ok a b i j g" "g \<noteq> []"
  shows "old_side (concat (map (op_hlines a b) g)) = slice a i (I2 (last g))
    \<and> new_side (concat (map (op_hlines a b) g)) = slice b j (J2 (last g))
    \<and> i \<le> I2 (last g) \<and> j \<le> J2 (last g) \<and> I2 (last g) \<le> length a \<and> J2 (last g) \<le> length b"
  using assms
proof (induction g arbitrary: i j)
  case (Cons oc g)
  then have ok: "op_ok a b i j oc" "ops_ok a b (I2 oc) (J2 oc) g" by simp_all
  have le: "i \<le> I2 oc" "j \<le> J2 oc" "I2 oc \<le> length a" "J2 oc \<le> length b" using ok(1) by (auto simp: op_ok_def)
  show ?case
  proof (cases "g = []")
    case True
    with op_sides [OF ok(1)] le show ?thesis by simp
  next
    case False
    from Cons.IH [OF ok(2) False] op_sides [OF ok(1)] le False show ?thesis
      by (auto simp: side_append slice_append_slice)
  qed
qed simp


lemma groups_apply:
  assumes "groups_ok a b i j gs" "i \<le> length a" "j \<le> length b"
    and "list_all (\<lambda>g. I1 (hd g) < I2 (last g)) gs" "map ltext ls = a"
  obtains ls' where "apply_right k dn (map (hunk_of a b) gs) ls = Inr ls'"
    "map ltext ls' = take i a @ drop j b"
proof -
  have "\<exists>ls'. apply_right k dn (map (hunk_of a b) gs) ls = Inr ls' \<and> map ltext ls' = take i a @ drop j b"
    using assms
  proof (induction gs arbitrary: i j k)
    case Nil
    then show ?case by (simp, metis append_take_drop_id)
  next
    case (Cons g gs)
    let ?i1 = "I1 (hd g)" and ?j1 = "J1 (hd g)" and ?i2 = "I2 (last g)" and ?j2 = "J2 (last g)"
    let ?h = "hunk_of a b g"
    from Cons.prems have g: "g \<noteq> []" "i \<le> ?i1" "j \<le> ?j1" "slice a i ?i1 = slice b j ?j1"
      "ops_ok a b ?i1 ?j1 g" "groups_ok a b ?i2 ?j2 gs" "?i1 < ?i2" by simp_all
    note sides = group_sides [OF g(5,1)]
    have h: "hlines ?h = concat (map (op_hlines a b) g)" "srcStart ?h = int ?i1 + 1"
      using g(7) by (simp_all add: hunk_of_def Let_def)
    obtain ls1 where ls1: "apply_right (k + 1) dn (map (hunk_of a b) gs) ls = Inr ls1"
      "map ltext ls1 = take ?i2 a @ drop ?j2 b"
      using Cons.IH [OF g(6)] sides Cons.prems by auto
    have len: "length (old_side (hlines ?h)) = ?i2 - ?i1"
      using sides by (simp add: h min_def diff_le_mono)
    have "take (?i2 - ?i1) (drop ?i1 (map ltext ls1)) = slice a ?i1 ?i2"
      using sides by (simp add: ls1(2) slice_def drop_take min_absorb2 diff_le_mono)
    then have match: "take (length (old_side (hlines ?h))) (drop (nat (srcStart ?h - 1)) (map ltext ls1))
        = old_side (hlines ?h)"
      unfolding len using sides by (simp add: h)
    have "length (map ltext ls1) \<ge> ?i2" unfolding ls1(2) using sides by auto
    then have bound: "1 \<le> srcStart ?h" "srcStart ?h - 1 \<le> int (length ls1)"
      using g(7) by (simp_all add: h)
    obtain ls' where ls': "apply_hunk dn (k + 1) ls1 ?h = Inr ls'"
      "map ltext ls' = take (nat (srcStart ?h - 1)) (map ltext ls1) @ new_side (hlines ?h)
         @ drop (nat (srcStart ?h - 1) + length (old_side (hlines ?h))) (map ltext ls1)"
      by (rule apply_hunk_texts [OF bound match])
    have "map ltext ls' = take ?i1 a @ slice b ?j1 ?j2 @ drop ?j2 b"
      unfolding ls'(2) len using sides g(7) by (simp add: h ls1(2) min_def)
    also have "\<dots> = take ?i1 a @ drop ?j1 b"
      using sides drop_eq_slice_append [of ?j1 ?j2 b] by simp
    also have "take ?i1 a = take i a @ slice a i ?i1"
      using g(2) by (metis le_add_diff_inverse slice_def take_add)
    also have "(take i a @ slice a i ?i1) @ drop ?j1 b = take i a @ drop j b"
      using g(3,4) drop_eq_slice_append [of j ?j1 b] by simp
    finally show ?case using ls1(1) ls'(1) by simp
  qed
  with that show ?thesis by blast
qed

lemma apply_right_terms:
  assumes "dn = [LF] \<or> dn = CRLF" "list_all term_ok ls" "apply_right k dn hs ls = Inr ls'"
  shows "list_all term_ok ls'"
  using assms(3)
proof (induction hs arbitrary: k ls')
  case (Cons h hs)
  then obtain ls1 where "apply_right (k + 1) dn hs ls = Inr ls1" "apply_hunk dn (k + 1) ls1 h = Inr ls'"
    by (auto split: sum.splits)
  then show ?case using apply_hunk_terms [OF _ assms(1)] Cons.IH by blast
qed (use assms(2) in simp)

subsection \<open>Parsing a printed diff\<close>

lemma takeWhile_digits:
  "\<not> is_digit c \<Longrightarrow> takeWhile is_digit (show_nat n @ c # s) = show_nat n"
  "\<not> is_digit c \<Longrightarrow> dropWhile is_digit (show_nat n @ c # s) = c # s"
  using show_nat_digits [of n] by (auto simp: list_all_iff takeWhile_append dropWhile_append)

lemma take_count_show: "\<not> is_digit c \<Longrightarrow> take_count (CHR '','' # show_nat n @ c # s) = (show_nat n, c # s)"
  by (simp add: take_count_def takeWhile_digits)

lemma reHunkHeader_show:
  "reHunkHeader (''@@ -'' @ show_nat w @ '','' @ show_nat x @ '' +'' @ show_nat y @ '','' @ show_nat z @ '' @@'')
     = Some (show_nat w, show_nat x, show_nat y, show_nat z)"
  by (simp add: reHunkHeader_def takeWhile_digits take_count_show is_digit_def)

lemma parse_header_show:
  assumes "w < 2 ^ 63" "x < 2 ^ 63" "y < 2 ^ 63" "z < 2 ^ 63"
  shows "parse_header (show_nat w, show_nat x, show_nat y, show_nat z) =
    Inr \<lparr>srcStart = int w, srcCount = int x, dstStart = int y, dstCount = int z, hlines = []\<rparr>"
  using assms by (simp add: parse_header_def number_def count_number_def Atoi_show_nat)

text \<open>A printed line that the parser takes as a hunk line: it is not skipped as a file header.\<close>

definition hunk_text :: "gostring \<Rightarrow> bool" where
  "hunk_text l = (l \<noteq> [] \<and> (hd l = CHR '' '' \<or> hd l = CHR ''-'' \<or> hd l = CHR ''+'')
     \<and> \<not> HasPrefix l ''---'' \<and> \<not> HasPrefix l ''+++'')"

lemma parse_loop_lines:
  "list_all hunk_text xs \<Longrightarrow> parse_loop (hs @ [h]) (xs @ rest) =
     parse_loop (hs @ [h\<lparr>hlines := hlines h @ map (\<lambda>l. \<lparr>hop = hd l, htext = tl l\<rparr>) xs\<rparr>]) rest"
proof (induction xs arbitrary: h)
  case (Cons x xs)
  then obtain c l where x: "x = c # l" "c = CHR '' '' \<or> c = CHR ''-'' \<or> c = CHR ''+''"
    "\<not> HasPrefix x ''---''" "\<not> HasPrefix x ''+++''" by (cases x) (auto simp: hunk_text_def)
  have "reHunkHeader x = None" using x by (auto simp: reHunkHeader_def)
  moreover have "hunk_line x = Some \<lparr>hop = c, htext = l\<rparr>" using x by (auto simp: hunk_line_def)
  ultimately have "parse_loop (hs @ [h]) (x # (xs @ rest))
      = parse_loop (hs @ [h\<lparr>hlines := hlines h @ [\<lparr>hop = c, htext = l\<rparr>]\<rparr>]) (xs @ rest)"
    using x(3,4) by (simp add: append_line_def)
  with Cons.IH [of "h\<lparr>hlines := hlines h @ [\<lparr>hop = c, htext = l\<rparr>]\<rparr>"] Cons.prems x(1)
  show ?case by simp
qed simp

lemma parse_loop_group:
  assumes "list_all hunk_text (concat (map (op_lines a b) g))"
    and "I1 (hd g) < 2 ^ 63 - 1" "I2 (last g) < 2 ^ 63" "J1 (hd g) < 2 ^ 63 - 1" "J2 (last g) < 2 ^ 63"
  shows "parse_loop hs (group_header g # concat (map (op_lines a b) g) @ rest)
    = parse_loop (hs @ [hunk_of a b g]) rest"
proof -
  let ?n = "\<lambda>x y. if y - x = 0 then x else x + 1"
  let ?h = "hunk_of a b g\<lparr>hlines := []\<rparr>"
  have head: "group_header g = ''@@ -'' @ show_nat (?n (I1 (hd g)) (I2 (last g))) @ '','' @ show_nat (I2 (last g) - I1 (hd g))
    @ '' +'' @ show_nat (?n (J1 (hd g)) (J2 (last g))) @ '','' @ show_nat (J2 (last g) - J1 (hd g)) @ '' @@''"
    by (simp add: group_header_def formatRange_def Let_def)
  have m: "reHunkHeader (group_header g) = Some (show_nat (?n (I1 (hd g)) (I2 (last g))), show_nat (I2 (last g) - I1 (hd g)),
      show_nat (?n (J1 (hd g)) (J2 (last g))), show_nat (J2 (last g) - J1 (hd g)))"
    unfolding head by (rule reHunkHeader_show)
  have p: "parse_header (show_nat (?n (I1 (hd g)) (I2 (last g))), show_nat (I2 (last g) - I1 (hd g)),
      show_nat (?n (J1 (hd g)) (J2 (last g))), show_nat (J2 (last g) - J1 (hd g))) = Inr ?h"
    by (subst parse_header_show) (use assms(2-) in \<open>auto simp: hunk_of_def Let_def\<close>)
  have "\<not> HasPrefix (group_header g) ''---''" "\<not> HasPrefix (group_header g) ''+++''"
    by (simp_all add: group_header_def)
  with m p have "parse_loop hs (group_header g # concat (map (op_lines a b) g) @ rest)
      = parse_loop (hs @ [?h]) (concat (map (op_lines a b) g) @ rest)" by simp
  also have "\<dots> = parse_loop (hs @ [hunk_of a b g]) rest"
    by (subst parse_loop_lines [OF assms(1)])
      (simp add: hunk_of_def Let_def op_hlines_def [abs_def] map_concat comp_def)
  finally show ?thesis .
qed


lemma parse_loop_groups:
  assumes "\<And>g. g \<in> set gs \<Longrightarrow> list_all hunk_text (concat (map (op_lines a b) g))
      \<and> I1 (hd g) < 2 ^ 63 - 1 \<and> I2 (last g) < 2 ^ 63 \<and> J1 (hd g) < 2 ^ 63 - 1 \<and> J2 (last g) < 2 ^ 63"
  shows "parse_loop hs (concat (map (\<lambda>g. group_header g # concat (map (op_lines a b) g)) gs))
    = Inr (hs @ map (hunk_of a b) gs)"
  using assms
proof (induction gs arbitrary: hs)
  case (Cons g gs)
  from Cons.prems [of g] have "parse_loop hs (group_header g # concat (map (op_lines a b) g)
      @ concat (map (\<lambda>g. group_header g # concat (map (op_lines a b) g)) gs))
    = parse_loop (hs @ [hunk_of a b g]) (concat (map (\<lambda>g. group_header g # concat (map (op_lines a b) g)) gs))"
    by (intro parse_loop_group) auto
  with Cons.IH [of "hs @ [hunk_of a b g]"] Cons.prems show ?case by simp
qed simp

lemma TrimRight_LF: "l = [] \<or> last l \<noteq> LF \<Longrightarrow> TrimRight (l @ [LF]) [LF] = l"
  by (cases l rule: rev_cases) (auto simp: TrimRight_def)

lemma parse_terminated:
  assumes "list_all plain_line ls" "ls \<noteq> []" "last ls \<noteq> []"
  shows "parseUnifiedDiff (terminated ls) = parse_loop [] ls"
proof -
  have noLF: "\<forall>l\<in>set ls. LF \<notin> set l" using assms(1) by (auto simp: list_all_iff plain_line_def)
  obtain ls' l where ls: "ls = ls' @ [l]" using assms(2) by (cases ls rule: rev_cases) auto
  have "l \<noteq> []" "LF \<notin> set l" using assms(3) noLF ls by auto
  then have "last l \<noteq> LF" using last_in_set by metis
  moreover have "unlines (ls' @ [l]) \<noteq> [] \<and> last (unlines (ls' @ [l])) = last l" for ls'
    using \<open>l \<noteq> []\<close> by (induction ls') (auto simp: Join_Cons)
  ultimately have "unlines ls = [] \<or> last (unlines ls) \<noteq> LF" unfolding ls by metis
  then have "TrimRight (unlines ls @ [LF]) [LF] = unlines ls" by (rule TrimRight_LF)
  then show ?thesis
    using noLF assms
    by (simp add: parseUnifiedDiff_def ReplaceAll_CRLF_terminated split_on_Join)
      (simp add: terminated_Join split_on_Join)
qed

text \<open>What the printed diff of \<open>a\<close> and \<open>b\<close> needs to be read back: no deleted line starts with two
  dashes and no added line with two plus signs.\<close>

definition op_readable :: "gostring list \<Rightarrow> gostring list \<Rightarrow> OpCode \<Rightarrow> bool" where
  "op_readable a b oc =
     ((Tag oc \<in> {Delete, Change} \<longrightarrow> list_all (\<lambda>l. \<not> HasPrefix l ''--'') (slice a (I1 oc) (I2 oc)))
      \<and> (Tag oc \<in> {Insert, Change} \<longrightarrow> list_all (\<lambda>l. \<not> HasPrefix l ''++'') (slice b (J1 oc) (J2 oc))))"

lemma op_lines_readable:
  "op_readable a b oc \<Longrightarrow> list_all hunk_text (op_lines a b oc)"
  by (auto simp: op_readable_def op_lines_def hunk_text_def list_all_iff split: tag.splits)

lemma set_slice: "set (slice xs i j) \<subseteq> set xs"
  by (auto simp: slice_def dest: in_set_takeD in_set_dropD)

lemma op_lines_plain:
  assumes "list_all plain_line a" "list_all plain_line b"
  shows "list_all plain_line (op_lines a b oc)"
proof -
  have "plain_line (c # l)" if "plain_line l" "c \<in> {CHR '' '', CHR ''-'', CHR ''+''}" for c l
    using that by (auto simp: plain_line_def)
  with assms set_slice [of a "I1 oc" "I2 oc"] set_slice [of b "J1 oc" "J2 oc"] show ?thesis
    by (auto simp: op_lines_def list_all_iff split: tag.splits)
qed

lemma show_nat_plain: "LF \<notin> set (show_nat n)"
  using show_nat_digits [of n] by (auto simp: list_all_iff is_digit_def)

lemma group_header_plain: "plain_line (group_header g)"
  by (simp add: plain_line_def group_header_def formatRange_def Let_def show_nat_plain)


lemma parse_Unified:
  assumes plain: "list_all plain_line a" "list_all plain_line b"
    and ok: "groups_ok a b i j (grouped a b n)" "grouped a b n \<noteq> []"
    and src: "list_all (\<lambda>g. I1 (hd g) < I2 (last g)) (grouped a b n)"
    and readable: "list_all (list_all (op_readable a b)) (grouped a b n)"
    and names: "plain_line nA" "plain_line nB"
    and len: "length a < 2 ^ 63 - 1" "length b < 2 ^ 63 - 1"
  shows "parseUnifiedDiff (Unified grouped nA nB a b n) = Inr (map (hunk_of a b) (grouped a b n))"
proof -
  let ?gs = "grouped a b n"
  let ?body = "concat (map (\<lambda>g. group_header g # concat (map (op_lines a b) g)) ?gs)"
  let ?ls = "(''--- '' @ nA) # (''+++ '' @ nB) # ?body"
  have each: "g \<noteq> [] \<and> ops_ok a b (I1 (hd g)) (J1 (hd g)) g" if "g \<in> set ?gs" for g
  proof -
    have "groups_ok a b i j gs \<Longrightarrow> g \<in> set gs \<Longrightarrow> g \<noteq> [] \<and> ops_ok a b (I1 (hd g)) (J1 (hd g)) g" for gs i j
      by (induction gs arbitrary: i j) auto
    with ok(1) that show ?thesis by blast
  qed
  have bounds: "list_all hunk_text (concat (map (op_lines a b) g)) \<and> I1 (hd g) < 2 ^ 63 - 1
      \<and> I2 (last g) < 2 ^ 63 \<and> J1 (hd g) < 2 ^ 63 - 1 \<and> J2 (last g) < 2 ^ 63" if g: "g \<in> set ?gs" for g
  proof -
    have "list_all hunk_text (op_lines a b oc)" if "oc \<in> set g" for oc
      using readable g that op_lines_readable by (metis list_all_iff)
    then have "list_all hunk_text (concat (map (op_lines a b) g))" by (auto simp: list_all_iff)
    then show ?thesis
      using group_sides [of a b "I1 (hd g)" "J1 (hd g)" g] each [OF g] len by auto
  qed
  have nonempty: "x \<noteq> []" if "x \<in> set ?body" for x
  proof -
    have "[] \<noteq> group_header g" for g by (simp add: group_header_def)
    moreover have "l \<noteq> []" if "l \<in> set (op_lines a b oc)" for l oc
      using that by (auto simp: op_lines_def split: tag.splits)
    ultimately show ?thesis using that by auto
  qed
  have "list_all plain_line ?body"
    using op_lines_plain [OF plain] group_header_plain by (auto simp: list_all_iff)
  moreover have "plain_line (''--- '' @ nA)" "plain_line (''+++ '' @ nB)"
    using names by (auto simp: plain_line_def)
  ultimately have "list_all plain_line ?ls" by simp
  moreover have "?body \<noteq> []" using ok(2) by (cases ?gs) auto
  then have "last ?ls \<noteq> []" using nonempty [OF last_in_set] by simp
  ultimately have "parseUnifiedDiff (terminated ?ls) = parse_loop [] ?ls"
    by (intro parse_terminated) auto
  also have "\<dots> = parse_loop [] ?body" by simp
  also have "\<dots> = Inr (map (hunk_of a b) ?gs)" using parse_loop_groups [OF bounds, of ?gs "[]"] by simp
  finally show ?thesis by (simp add: Unified_terminated)
qed

lemma no_lone_cr_after_LF: "no_lone_cr (l @ LF # t) \<Longrightarrow> no_lone_cr t"
proof (induction l rule: no_lone_cr.induct)
  case (2 c cs)
  then show ?case by (cases cs) (auto split: if_splits)
qed simp

lemma no_lone_cr_lines: "no_lone_cr s \<Longrightarrow> list_all plain_line (SplitLines s)"
proof (induction s rule: line_induct)
  case (last l)
  have "CR \<notin> set l"
    using no_lone_cr_nth [OF last(2)] last(1) by (auto simp: in_set_conv_nth)
  then have "l \<noteq> [] \<Longrightarrow> last l \<noteq> CR" using last_in_set by metis
  with last show ?case by (auto simp: SplitLines_no_LF plain_line_def)
next
  case (line l t)
  have nth: "i + 1 = length l" if "i < length l" "l ! i = CR" for i
    using no_lone_cr_nth [OF line(3), of i] that line(1)
    by (cases "i + 1 < length l") (auto simp: nth_append in_set_conv_nth)
  have "CR \<notin> set (strip_cr l)"
  proof
    assume "CR \<in> set (strip_cr l)"
    then obtain i where i: "i < length (strip_cr l)" "strip_cr l ! i = CR"
      by (auto simp: in_set_conv_nth)
    then have "i < length l" "l ! i = CR" by (auto simp: strip_cr_def nth_butlast split: if_splits)
    with nth have "i + 1 = length l" "last l = CR"
      by (auto simp: last_conv_nth) (metis diff_Suc_1 last_conv_nth list.size(3) nat.distinct(1))
    with i show False by (auto simp: strip_cr_def last_conv_nth split: if_splits)
  qed
  then have "strip_cr l \<noteq> [] \<Longrightarrow> last (strip_cr l) \<noteq> CR" using last_in_set by metis
  then show ?case
    using line no_lone_cr_after_LF [OF line(3)] strip_cr_set [of l]
    by (auto simp: SplitLines_line plain_line_def)
qed


text \<open>Where a hunk fits: its start lies in the file and its old side is there.\<close>

definition hunk_fits :: "srcLine list \<Rightarrow> hunk \<Rightarrow> bool" where
  "hunk_fits ls h =
     (1 \<le> srcStart h \<and> srcStart h - 1 \<le> int (length ls)
      \<and> take (length (old_side (hlines h))) (drop (nat (srcStart h - 1)) (map ltext ls))
          = old_side (hlines h))"

lemma patch_lines_diff:
  assumes "groups_ok (SplitLines A) b 0 0 gs"
    and "list_all (\<lambda>g. I1 (hd g) < I2 (last g)) gs" "no_lone_cr A"
  obtains ls where "patch_lines A (map (hunk_of (SplitLines A) b) gs) = Inr ls"
    "map ltext ls = b" "list_all term_ok ls"
proof -
  let ?a = "SplitLines A" and ?ls = "splitKeepingTerminators A" and ?dn = "DetectLineEnding A"
  obtain ls where ls: "apply_right 0 ?dn (map (hunk_of ?a b) gs) ?ls = Inr ls" "map ltext ls = b"
    using groups_apply [OF assms(1) _ _ assms(2) texts_SplitLines, of 0 ?dn] by auto
  have dn: "?dn = [LF] \<or> ?dn = CRLF"
    using DetectLineEnding_range [of A] DetectLineEnding_no_cr [OF assms(3)] by auto
  have "list_all term_ok ?ls" using terms_split [of _ A] by (auto simp: list_all_iff term_ok_def)
  from apply_right_terms [OF dn this ls(1)] ls that show ?thesis
    using apply_hunks_right [of "map (hunk_of ?a b) gs"] by (simp add: patch_lines_def)
qed

lemma patch_text_parsed:
  assumes "patch \<noteq> []" "length patch \<le> maxPatchSize" "parseUnifiedDiff patch = Inr hs" "hs \<noteq> []"
  shows "patch_text cont patch =
    (case patch_lines cont hs of
       Inl e \<Rightarrow> Inl (HunkFailed e)
     | Inr ls \<Rightarrow> Inr (combine (HasSuffix cont [LF] \<or> cont = []) (DetectLineEnding cont) ls))"
  using assms by (simp add: patch_text_def check_patch_def)

subsection \<open>Properties\<close>

text \<open>splitting a file into lines with their terminators loses nothing: the pieces put
  together are the file, \<open>combine\<close> on the untouched lines gives the file back whatever its newline
  forms, and the texts are the lines the diff tool compares.\<close>

theorem splitKeepingTerminators_roundtrip:
  "concat (map (\<lambda>l. ltext l @ lterm l) (splitKeepingTerminators s)) = s
   \<and> combine (HasSuffix s [LF] \<or> s = []) (DetectLineEnding s) (splitKeepingTerminators s) = s
   \<and> map ltext (splitKeepingTerminators s) = SplitLines s"
  using bytes_split [of s] combine_split [of s] texts_SplitLines [of s]
  by (simp add: line_bytes_def [abs_def])

text \<open>C4: a hunk is applied exactly when its start lies in the file and the file has the context
  and deleted lines of the hunk there; then those lines make way for the context and added
  lines, and all lines before and after stay as they are, terminators included.\<close>

theorem apply_hunk_spec:
  "case apply_hunk dn n ls h of
     Inl e \<Rightarrow> \<not> hunk_fits ls h
   | Inr ls' \<Rightarrow> hunk_fits ls h
       \<and> (\<exists>new. ls' = take (nat (srcStart h - 1)) ls @ new
                  @ drop (nat (srcStart h - 1) + length (old_side (hlines h))) ls
               \<and> map ltext new = new_side (hlines h))"
proof (cases "1 \<le> srcStart h \<and> srcStart h - 1 \<le> int (length ls)")
  case range: True
  let ?s = "nat (srcStart h - 1)" and ?old = "old_side (hlines h)"
  show ?thesis
  proof (cases "take (length ?old) (drop ?s (map ltext ls)) = ?old")
    case True
    then have v: "verify_loop n ls ?s 0 (hlines h) = Inr (length ?old)" by (simp add: verify_loop_iff)
    obtain new where "apply_loop n dn ls ?s [] [] (hlines h) = Inr new" "map ltext new = new_side (hlines h)"
      using apply_loop_texts [OF True, of n dn "[]" "[]"] by auto
    with range True v show ?thesis by (simp add: apply_hunk_def hunk_fits_def Let_def)
  next
    case False
    then have "verify_loop n ls ?s 0 (hlines h) \<noteq> Inr m" for m by (simp add: verify_loop_iff)
    then obtain e where "verify_loop n ls ?s 0 (hlines h) = Inl e" by (metis sumE)
    with range False show ?thesis by (simp add: apply_hunk_def hunk_fits_def Let_def)
  qed
qed (auto simp: apply_hunk_def hunk_fits_def Let_def)

text \<open>C3: the diff of two files, applied to the first, gives the lines of the second. Assumed are
  the documented shape of difflib's grouped opcodes, that every hunk has source lines (true with
  context lines and a non-empty first file), files without lone CRs, no deleted line starting
  with two dashes and no added line starting with two plus signs, and the size limit of the tool.
  The last line of the second file is not empty or the first file ends in a newline.\<close>

theorem patch_diff_roundtrip:
  assumes "no_lone_cr A" "no_lone_cr B"
    and "groups_ok (SplitLines A) (SplitLines B) 0 0 (grouped (SplitLines A) (SplitLines B) n)"
    and "grouped (SplitLines A) (SplitLines B) n \<noteq> []"
    and "list_all (\<lambda>g. I1 (hd g) < I2 (last g)) (grouped (SplitLines A) (SplitLines B) n)"
    and "list_all (list_all (op_readable (SplitLines A) (SplitLines B)))
           (grouped (SplitLines A) (SplitLines B) n)"
    and "plain_line nameA" "plain_line nameB"
    and "length (SplitLines A) < 2 ^ 63 - 1" "length (SplitLines B) < 2 ^ 63 - 1"
    and "length (UnifiedStrings grouped nameA nameB A B n) \<le> maxPatchSize"
    and "HasSuffix A [LF] \<or> SplitLines B = [] \<or> last (SplitLines B) \<noteq> []"
  shows "\<exists>out. patch_text A (UnifiedStrings grouped nameA nameB A B n) = Inr out
               \<and> SplitLines out = SplitLines B"
proof -
  let ?a = "SplitLines A" and ?b = "SplitLines B"
  let ?gs = "grouped ?a ?b n" and ?U = "UnifiedStrings grouped nameA nameB A B n"
  have parse: "parseUnifiedDiff ?U = Inr (map (hunk_of ?a ?b) ?gs)"
    unfolding UnifiedStrings_def
    by (rule parse_Unified [OF no_lone_cr_lines [OF assms(1)] no_lone_cr_lines [OF assms(2)]]) (fact assms)+
  obtain ls where ls: "patch_lines A (map (hunk_of ?a ?b) ?gs) = Inr ls" "map ltext ls = ?b" "list_all term_ok ls"
    by (rule patch_lines_diff [OF assms(3,5,1)])
  let ?e = "HasSuffix A [LF] \<or> A = []" and ?dn = "DetectLineEnding A"
  have dn: "?dn = [LF] \<or> ?dn = CRLF"
    using DetectLineEnding_range [of A] DetectLineEnding_no_cr [OF assms(1)] by auto
  have pl: "list_all (\<lambda>l. plain_line (ltext l)) ls"
    using no_lone_cr_lines [OF assms(2)] unfolding ls(2) [symmetric] by (simp add: list_all_iff)
  have ends: "?e \<or> ls = [] \<or> ltext (last ls) \<noteq> []"
    using assms(12) unfolding ls(2) [symmetric] by (auto simp: last_map)
  have "SplitLines (combine ?e ?dn ls) = ?b"
    using SplitLines_combine [OF dn ls(3) pl ends] ls(2) by simp
  moreover have "patch_text A ?U = Inr (combine ?e ?dn ls)"
  proof -
    have "?U \<noteq> []" by (simp add: UnifiedStrings_def Unified_def)
    then show ?thesis
      using patch_text_parsed [OF _ assms(11) parse] ls(1) assms(4) by simp
  qed
  ultimately show ?thesis by blast
qed

text \<open>A matcher good enough for the witness: one replacement of everything.\<close>

definition replace_all_matcher :: "gostring list \<Rightarrow> gostring list \<Rightarrow> nat \<Rightarrow> OpCode list list" where
  "replace_all_matcher a b n =
     [[\<lparr>Tag = Change, I1 = 0, I2 = length a, J1 = 0, J2 = length b\<rparr>]]"

theorem patch_diff_roundtrip_witness:
  "\<exists>out. patch_text [CHR ''a'', CR, LF] (UnifiedStrings replace_all_matcher ''x'' ''y'' [CHR ''a'', CR, LF] ''b'' 3) = Inr out
         \<and> SplitLines out = SplitLines ''b''"
proof (rule patch_diff_roundtrip)
  have s: "SplitLines [CHR ''a'', CR, LF] = [''a'']" "SplitLines ''b'' = [''b'']" by code_simp+
  show "groups_ok (SplitLines [CHR ''a'', CR, LF]) (SplitLines ''b'') 0 0
      (replace_all_matcher (SplitLines [CHR ''a'', CR, LF]) (SplitLines ''b'') 3)"
    by (simp add: s replace_all_matcher_def op_ok_def)
  show "list_all (list_all (op_readable (SplitLines [CHR ''a'', CR, LF]) (SplitLines ''b'')))
      (replace_all_matcher (SplitLines [CHR ''a'', CR, LF]) (SplitLines ''b'') 3)"
    by (simp add: s replace_all_matcher_def op_readable_def slice_def)
  show "length (UnifiedStrings replace_all_matcher ''x'' ''y'' [CHR ''a'', CR, LF] ''b'' 3) \<le> maxPatchSize"
    by (simp add: UnifiedStrings_def s Unified_def replace_all_matcher_def write_group_def write_op_def
        writeLines_def slice_def formatRange_def maxPatchSize_def show_nat.simps)
  show "list_all (\<lambda>g. I1 (hd g) < I2 (last g))
      (replace_all_matcher (SplitLines [CHR ''a'', CR, LF]) (SplitLines ''b'') 3)"
    by (simp add: s replace_all_matcher_def)
  show "length (SplitLines [CHR ''a'', CR, LF]) < 2 ^ 63 - 1" "length (SplitLines ''b'') < 2 ^ 63 - 1"
    by (simp_all add: s)
  show "HasSuffix [CHR ''a'', CR, LF] [LF] \<or> SplitLines ''b'' = [] \<or> last (SplitLines ''b'') \<noteq> []"
    by (simp add: s)
qed (simp_all add: replace_all_matcher_def plain_line_def)

text \<open>the patch tool reads an insertion hunk without source lines as starting at its line
  number, although \<open>formatRange\<close> (like every unified diff) gives the line before the insertion
  there: the new line lands one line too early, and an insertion into an empty file is refused.\<close>

theorem zero_count_hunk_misplaced:
  "let ins = (\<lambda>i j. \<lambda>_ _ _. [[\<lparr>Tag = Insert, I1 = i, I2 = i, J1 = i, J2 = j\<rparr>]])
   in formatRange 1 1 = ''1,0''
      \<and> patch_text [CHR ''a'', LF, CHR ''b'', LF] (Unified (ins 1 2) ''x'' ''y'' [''a'', ''b''] [''a'', ''c'', ''b''] 0)
         = Inr [CHR ''c'', LF, CHR ''a'', LF, CHR ''b'', LF]
      \<and> patch_text [] (Unified (ins 0 1) ''x'' ''y'' [] [''a''] 3) = Inl (HunkFailed (InvalidStart 1 0))"
proof -
  let ?ins = "\<lambda>i j. \<lambda>_ _ _. [[\<lparr>Tag = Insert, I1 = i, I2 = i, J1 = i, J2 = j\<rparr>]]"
  let ?h = "\<lambda>n m t. \<lparr>srcStart = n, srcCount = 0, dstStart = m, dstCount = 1, hlines = [\<lparr>hop = CHR ''+'', htext = t\<rparr>]\<rparr>"
  let ?u1 = "Unified (?ins 1 2) ''x'' ''y'' [''a'', ''b''] [''a'', ''c'', ''b''] 0"
  let ?u2 = "Unified (?ins 0 1) ''x'' ''y'' [] [''a''] 3"
  have u: "?u1 = ''--- x'' @ [LF] @ ''+++ y'' @ [LF] @ ''@@ -1,0 +2,1 @@'' @ [LF] @ ''+c'' @ [LF]"
    "?u2 = ''--- x'' @ [LF] @ ''+++ y'' @ [LF] @ ''@@ -0,0 +1,1 @@'' @ [LF] @ ''+a'' @ [LF]"
    by code_simp+
  have p: "parseUnifiedDiff ?u1 = Inr [?h 1 2 ''c'']" "parseUnifiedDiff ?u2 = Inr [?h 0 1 ''a'']"
    unfolding u by code_simp+
  have l: "length ?u1 \<le> maxPatchSize" "length ?u2 \<le> maxPatchSize"
    unfolding u by (simp_all add: maxPatchSize_def)
  have a: "patch_lines [CHR ''a'', LF, CHR ''b'', LF] [?h 1 2 ''c'']
      = Inr [\<lparr>ltext = ''c'', lterm = [LF]\<rparr>, \<lparr>ltext = ''a'', lterm = [LF]\<rparr>, \<lparr>ltext = ''b'', lterm = [LF]\<rparr>]"
    "patch_lines [] [?h 0 1 ''a''] = Inl (InvalidStart 1 0)"
    by code_simp+
  have f: "formatRange 1 1 = ''1,0''" by code_simp
  have ne: "?u1 \<noteq> []" "?u2 \<noteq> []" unfolding u by simp_all
  have r1: "patch_text [CHR ''a'', LF, CHR ''b'', LF] ?u1 = Inr [CHR ''c'', LF, CHR ''a'', LF, CHR ''b'', LF]"
    by (subst patch_text_parsed [OF ne(1) l(1) p(1)]) (simp_all add: a(1) HasSuffix_LF)
  have r2: "patch_text [] ?u2 = Inl (HunkFailed (InvalidStart 1 0))"
    by (subst patch_text_parsed [OF ne(2) l(2) p(2)]) (simp_all add: a(2) del: One_nat_def)
  show ?thesis unfolding Let_def using f r1 r2 by blast
qed

text \<open>a deleted line that itself starts with two dashes is taken for a file header and dropped
  from its hunk, so the patch that deletes it is applied without deleting it.\<close>

theorem dashed_line_not_deleted:
  "let A = ''--x'' @ [LF] @ ''k'' @ [LF];
       g = [[\<lparr>Tag = Delete, I1 = 0, I2 = 1, J1 = 0, J2 = 0\<rparr>]]
   in groups_ok (SplitLines A) [''k''] 0 0 g
      \<and> patch_text A (Unified (\<lambda>_ _ _. g) ''x'' ''y'' (SplitLines A) [''k''] 0) = Inr A"
proof -
  let ?A = "''--x'' @ [LF] @ ''k'' @ [LF]"
  let ?g = "[[\<lparr>Tag = Delete, I1 = 0, I2 = 1, J1 = 0, J2 = 0\<rparr>]]"
  let ?u = "Unified (\<lambda>_ _ _. ?g) ''x'' ''y'' [''--x'', ''k''] [''k''] 0"
  have s: "SplitLines ?A = [''--x'', ''k'']" by code_simp
  have u: "?u = ''--- x'' @ [LF] @ ''+++ y'' @ [LF] @ ''@@ -1,1 +0,0 @@'' @ [LF] @ ''---x'' @ [LF]"
    by code_simp
  have p: "parseUnifiedDiff ?u = Inr [\<lparr>srcStart = 1, srcCount = 1, dstStart = 0, dstCount = 0, hlines = []\<rparr>]"
    unfolding u by code_simp
  have l: "length ?u \<le> maxPatchSize"
    unfolding u by (simp add: maxPatchSize_def)
  have a: "patch_lines ?A [\<lparr>srcStart = 1, srcCount = 1, dstStart = 0, dstCount = 0, hlines = []\<rparr>]
      = Inr [\<lparr>ltext = ''--x'', lterm = [LF]\<rparr>, \<lparr>ltext = ''k'', lterm = [LF]\<rparr>]"
    by code_simp
  have g: "groups_ok [''--x'', ''k''] [''k''] 0 0 ?g"
    by (simp add: op_ok_def slice_def)
  have ne: "?u \<noteq> []" unfolding u by simp
  have "patch_text ?A ?u = Inr ?A"
    unfolding patch_text_parsed [OF ne l p list.distinct(2), of ?A] a by (simp add: HasSuffix_LF)
  with g show ?thesis unfolding Let_def s by blast
qed

end
