(* ===== verification/Output.thy ===== *)
theory Output
  imports Text_Diff
begin

text \<open>
  Bounding what a tool returns: the rune limits of common/outputlimit.go, the bounded capture of a
  byte stream of common/capture.go and the folding of repeated diagnostics of
  common/outputcompact.go. The theorems give the bounds, show that the capture does not depend on
  how the stream is cut into writes, and account for every folded line.
\<close>

subsection \<open>Rune limits\<close>

definition DefaultOutputChars :: nat where
  "DefaultOutputChars = 32 * 1024"

definition HardOutputChars :: nat where
  "HardOutputChars = 128 * 1024"

definition TextLineCount :: "gostring \<Rightarrow> nat" where
  "TextLineCount text =
     (if text = [] then 0
      else Count text [LF] + (if \<not> HasSuffix text [LF] then 1 else 0))"

definition TruncateRunes :: "gostring \<Rightarrow> int \<Rightarrow> gostring \<Rightarrow> gostring \<times> bool" where
  "TruncateRunes text maxRunes sfx =
     (if maxRunes < 0 \<or> int (rune_count text) \<le> maxRunes then (text, False)
      else if maxRunes = 0 then ([], True)
      else let rs = runes text in
        if maxRunes \<le> int (length (runes sfx)) then (string_of_runes (take (nat maxRunes) rs), True)
        else let keep = nat maxRunes - length (runes sfx)
             in (string_of_runes (take keep rs) @ sfx, True))"

text \<open>The builder and the number of runes used, and whether the text was appended.\<close>

definition AppendWithinRuneBudget ::
  "gostring \<times> nat \<Rightarrow> gostring \<Rightarrow> int \<Rightarrow> (gostring \<times> nat) \<times> bool" where
  "AppendWithinRuneBudget st text maxRunes =
     (case st of (sb, used) \<Rightarrow>
      let n = rune_count text in
      if 0 < maxRunes \<and> maxRunes < int (used + n) then (st, False)
      else ((sb @ text, used + n), True))"

text \<open>Content of a tool result: text, or something else that is passed through.\<close>

datatype 'a content = TextContent gostring | OtherContent 'a

fun text_runes :: "'a content \<Rightarrow> nat" where
  "text_runes (TextContent t) = rune_count t"
| "text_runes (OtherContent x) = 0"

definition total_runes :: "'a content list \<Rightarrow> nat" where
  "total_runes cs = sum_list (map text_runes cs)"

definition limit_suffix :: "nat \<Rightarrow> int \<Rightarrow> gostring" where
  "limit_suffix tot maxRunes =
     [LF] @ ''[truncated=true; original_chars='' @ show_nat tot @ ''; limit='' @ show_int maxRunes
     @ ''; narrow the request or use paging parameters]''"

fun limit_loop :: "gostring \<Rightarrow> int \<Rightarrow> bool \<Rightarrow> 'a content list \<Rightarrow> 'a content list" where
  "limit_loop sfx remaining markerWritten [] = []"
| "limit_loop sfx remaining markerWritten (OtherContent x # cs) =
     OtherContent x # limit_loop sfx remaining markerWritten cs"
| "limit_loop sfx remaining markerWritten (TextContent t # cs) =
     (if markerWritten then limit_loop sfx remaining markerWritten cs
      else if int (rune_count t) < remaining - int (rune_count sfx)
      then TextContent t # limit_loop sfx (remaining - int (rune_count t)) False cs
      else TextContent (fst (TruncateRunes t remaining sfx)) # limit_loop sfx remaining True cs)"

definition LimitToolResultText :: "'a content list \<Rightarrow> int \<Rightarrow> 'a content list \<times> bool" where
  "LimitToolResultText cs maxRunes =
     (if maxRunes \<le> 0 then (cs, False)
      else let tot = total_runes cs in
        if int tot \<le> maxRunes then (cs, False)
        else (limit_loop (limit_suffix tot maxRunes) maxRunes False cs, True))"

subsection \<open>Bounded capture\<close>

datatype capture_mode = Head | Tail | HeadTail

record BoundedCapture =
  climit :: nat
  cmode :: capture_mode
  ctotal :: nat
  chead :: gostring
  ctail :: gostring

definition NewBoundedCaptureMode :: "int \<Rightarrow> gostring \<Rightarrow> BoundedCapture" where
  "NewBoundedCaptureMode limit mode =
     \<lparr>climit = nat limit,
      cmode = (if mode = ''head'' then Head else if mode = ''tail'' then Tail else HeadTail),
      ctotal = 0, chead = [], ctail = []\<rparr>"

definition NewBoundedCapture :: "int \<Rightarrow> BoundedCapture" where
  "NewBoundedCapture limit = NewBoundedCaptureMode limit ''head_tail''"

definition headLimit :: "BoundedCapture \<Rightarrow> nat" where
  "headLimit c =
     (case cmode c of Head \<Rightarrow> climit c | Tail \<Rightarrow> 0 | HeadTail \<Rightarrow> (climit c + 1) div 2)"

definition tailLimit :: "BoundedCapture \<Rightarrow> nat" where
  "tailLimit c =
     (case cmode c of Head \<Rightarrow> 0 | Tail \<Rightarrow> climit c | HeadTail \<Rightarrow> climit c div 2)"

definition capture_write :: "BoundedCapture \<Rightarrow> gostring \<Rightarrow> BoundedCapture" where
  "capture_write c p =
     (let c1 = c\<lparr>ctotal := ctotal c + length p\<rparr> in
      if climit c = 0 then c1
      else
        let n = (if length (chead c) < headLimit c
                 then min (headLimit c - length (chead c)) (length p) else 0);
            c2 = c1\<lparr>chead := chead c @ take n p\<rparr>;
            p2 = drop n p
        in if 0 < tailLimit c \<and> p2 \<noteq> []
           then let t = ctail c @ p2
                in c2\<lparr>ctail := (if tailLimit c < length t then drop (length t - tailLimit c) t else t)\<rparr>
           else c2)"

text \<open>\<open>bytes.ToValidUTF8\<close>: a run of invalid bytes becomes one replacement.\<close>

function to_valid :: "bool \<Rightarrow> gostring \<Rightarrow> gostring \<Rightarrow> gostring" where
  "to_valid bad s rep =
     (if s = [] then []
      else case decode_rune s of (r, w) \<Rightarrow>
        if r = RuneError \<and> w = 1
        then (if bad then [] else rep) @ to_valid True (drop 1 s) rep
        else take w s @ to_valid False (drop w s) rep)"
  by pat_completeness auto
termination
  by (relation "measure (\<lambda>(bad, s, rep). length s)")
    (simp_all, metis decode_rune_width_pos diff_less length_greater_0_conv snd_conv)

declare to_valid.simps [simp del]

definition ToValidUTF8 :: "gostring \<Rightarrow> gostring" where
  "ToValidUTF8 s = to_valid False s (encode_rune RuneError)"

definition capture_marker :: "BoundedCapture \<Rightarrow> gostring" where
  "capture_marker c =
     [LF] @ ''...[truncated; original_bytes='' @ show_nat (ctotal c) @ ''; retained_bytes=''
     @ show_nat (climit c) @ '']...'' @ [LF]"

definition capture_result :: "BoundedCapture \<Rightarrow> gostring \<times> nat \<times> bool" where
  "capture_result c =
     (if \<not> climit c < ctotal c then (ToValidUTF8 (chead c @ ctail c), ctotal c, False)
      else (ToValidUTF8 (ToValidUTF8 (chead c) @ capture_marker c @ ToValidUTF8 (ctail c)), ctotal c, True))"

subsection \<open>Folding diagnostics\<close>

record OutputCompaction =
  ocText :: gostring
  Compacted :: bool
  InputLines :: nat
  OutputLines :: nat
  OmittedLines :: nat
  Groups :: nat

datatype view_error = BadOutputView

definition NormalizeOutputView :: "gostring \<Rightarrow> view_error + gostring" where
  "NormalizeOutputView view0 =
     (let view = ToLower (TrimSpace view0) in
      if view = [] then Inr ''compact''
      else if view \<noteq> ''compact'' \<and> view \<noteq> ''raw'' then Inl BadOutputView else Inr view)"

definition git_prefix :: gostring where
  "git_prefix = ''warning: in the working copy of ''"

definition git_messages :: "gostring list" where
  "git_messages =
     [x @ '' will be replaced by '' @ y @ '' the next time Git touches it''.
        x \<leftarrow> [''LF'', ''CRLF''], y \<leftarrow> [''LF'', ''CRLF'']]"

text \<open>The regular expression: the prefix, a non-empty path, a comma and one of the messages at the
  end of the line.\<close>

definition parseGitLineEndingWarning :: "gostring \<Rightarrow> (gostring \<times> gostring) option" where
  "parseGitLineEndingWarning line0 =
     (let line = TrimSpace line0 in
      if \<not> HasPrefix line git_prefix then None
      else let rest = drop (length git_prefix) line in
        case find (\<lambda>m. HasSuffix rest ('', '' @ m) \<and> length ('', '' @ m) < length rest) git_messages of
          None \<Rightarrow> None
        | Some m \<Rightarrow> Some (take (length rest - length ('', '' @ m)) rest, m))"

definition formatGitLineEndingGroup :: "gostring \<Rightarrow> gostring list \<Rightarrow> gostring" where
  "formatGitLineEndingGroup message paths =
     (let examples = take 3 paths;
          result = ''warning: '' @ message @ '' for '' @ show_nat (length paths)
                   @ '' working-copy files: '' @ Join examples '', ''
      in if length examples < length paths
         then result @ '' ... (+'' @ show_nat (length paths - length examples) @ '' more)''
         else result)"

definition isDiagnosticLine :: "gostring \<Rightarrow> bool" where
  "isDiagnosticLine line0 =
     (let line = ToLower (TrimSpace line0) in
      list_ex (HasPrefix line)
        [''warning:'', ''warn:'', ''error:'', ''fatal:'', ''note:'',
         ''[warning]'', ''[warn]'', ''[error]'', ''[fatal]'', ''[note]'']
      \<or> list_ex (Contains line)
        ['': warning:'', '': warn:'', '': error:'', '': fatal:'', '': note:''])"

text \<open>The paths of the warnings with the given message that directly follow.\<close>

fun git_run :: "gostring \<Rightarrow> gostring list \<Rightarrow> gostring list" where
  "git_run message [] = []"
| "git_run message (l # ls) =
     (case parseGitLineEndingWarning l of
        Some (p, m) \<Rightarrow> if m = message then p # git_run message ls else []
      | None \<Rightarrow> [])"

lemma length_git_run: "length (git_run m ls) \<le> length ls"
  by (induction ls) (auto split: option.splits)

text \<open>The main loop on the lines left: output lines, groups and omitted lines.\<close>

function compact_loop :: "gostring list \<Rightarrow> gostring list \<times> nat \<times> nat" where
  "compact_loop [] = ([], 0, 0)"
| "compact_loop (l # ls) =
     (let fold_equal =
        (let run = takeWhile (\<lambda>x. x = l) ls; count = Suc (length run); rest = drop (length run) ls;
             (out, g, om) = compact_loop rest
         in if 1 < count \<and> isDiagnosticLine l
            then ((l @ '' [x'' @ show_nat count @ '']'') # out, g + 1, om + (count - 1))
            else ((l # run) @ out, g, om))
      in case parseGitLineEndingWarning l of
           Some (path, message) \<Rightarrow>
             (let paths = path # git_run message ls in
              if 1 < length paths
              then (let (out, g, om) = compact_loop (drop (length paths - 1) ls)
                    in (formatGitLineEndingGroup message paths # out, g + 1, om + (length paths - 1)))
              else fold_equal)
         | None \<Rightarrow> fold_equal)"
  by pat_completeness auto
termination
  by (relation "measure length") auto

declare compact_loop.simps(2) [simp del]

definition CompactDiagnosticOutput :: "gostring \<Rightarrow> OutputCompaction" where
  "CompactDiagnosticOutput text =
     (if text = []
      then \<lparr>ocText = [], Compacted = False, InputLines = 0, OutputLines = 0, OmittedLines = 0, Groups = 0\<rparr>
      else let normalized = ReplaceAll text CRLF [LF];
               trailingNewline = HasSuffix normalized [LF];
               lines = (if trailingNewline then butlast (lines_of normalized) else lines_of normalized);
               (out, g, om) = compact_loop lines;
               joined = unlines out
           in \<lparr>ocText = (if trailingNewline then joined @ [LF] else joined), Compacted = (0 < g),
               InputLines = length lines, OutputLines = length out, OmittedLines = om, Groups = g\<rparr>)"


subsection \<open>Facts on the limits\<close>

lemma TruncateRunes_count: "0 \<le> m \<Longrightarrow> int (rune_count (fst (TruncateRunes t m sfx))) \<le> m"
proof -
  assume m: "0 \<le> m"
  have "rune_count (string_of_runes (take k (runes t)) @ sfx) \<le> k + rune_count sfx" for k
    by (simp add: go_simps)
  from this [of "nat m - length (runes sfx)"] m show ?thesis
    by (auto simp: TruncateRunes_def Let_def go_simps rune_count_def [of sfx])
       (simp add: rune_count_def)
qed

fun is_other :: "'a content \<Rightarrow> bool" where
  "is_other (TextContent t) = False"
| "is_other (OtherContent x) = True"

lemma limit_loop_others: "filter is_other (limit_loop sfx r mk cs) = filter is_other cs"
  by (induction sfx r mk cs rule: limit_loop.induct) auto

lemma limit_loop_marked: "total_runes (limit_loop sfx r True cs) = 0"
  by (induction sfx r True cs rule: limit_loop.induct) (auto simp: total_runes_def)

lemma limit_loop_total: "0 \<le> r \<Longrightarrow> int (total_runes (limit_loop sfx r False cs)) \<le> r"
proof (induction sfx r False cs rule: limit_loop.induct)
  case (3 sfx r t cs)
  show ?case
  proof (cases "int (rune_count t) < r - int (rune_count sfx)")
    case True
    with 3 show ?thesis by (simp add: total_runes_def)
  next
    case False
    have "total_runes (limit_loop sfx r False (TextContent t # cs))
        = rune_count (fst (TruncateRunes t r sfx)) + total_runes (limit_loop sfx r True cs)"
      using False by (simp add: total_runes_def)
    then show ?thesis
      using TruncateRunes_count [OF 3(4), of t sfx] by (simp only: limit_loop_marked add_0_right)
  qed
qed (auto simp: total_runes_def)

lemma Count_single: "Count s [c] = count_list s c"
proof (induction s)
  case Nil
  then show ?case by (simp add: Count.simps)
next
  case (Cons x xs)
  then show ?case by (simp add: Count.simps [of "x # xs"])
qed

lemma length_split_on: "length (split_on c s) = Suc (count_list s c)"
  by (induction s) (auto split: list.splits)

lemma split_on_snoc: "split_on c (t @ [c]) = split_on c t @ [[]]"
  by (induction t) (auto split: list.splits)

lemma lines_of_last: "HasSuffix s [LF] \<Longrightarrow> last (lines_of s) = []"
  by (auto simp: suffix_def split_on_snoc)

lemma lines_of_last_conv: "last (lines_of s) = [] \<longleftrightarrow> s = [] \<or> HasSuffix s [LF]"
proof
  assume "last (lines_of s) = []"
  then show "s = [] \<or> HasSuffix s [LF]"
  proof (induction s)
    case (Cons c cs)
    then show ?case
      by (cases "lines_of cs") (auto simp: HasSuffix_LF split: if_splits)
  qed simp
qed (auto simp: lines_of_last)

subsection \<open>Facts on the capture\<close>

text \<open>What a capture holds after the bytes \<open>d\<close> were written, in whatever pieces.\<close>

definition last_n :: "nat \<Rightarrow> 'a list \<Rightarrow> 'a list" where
  "last_n n xs = rev (take n (rev xs))"

definition captured :: "BoundedCapture \<Rightarrow> gostring \<Rightarrow> bool" where
  "captured c d =
     (ctotal c = length d
      \<and> (climit c = 0 \<longrightarrow> chead c = [] \<and> ctail c = [])
      \<and> (climit c \<noteq> 0 \<longrightarrow> chead c = take (headLimit c) d
                        \<and> ctail c = last_n (tailLimit c) (drop (headLimit c) d)))"

lemma last_n_append: "last_n n (last_n n xs @ ys) = last_n n (xs @ ys)"
  by (simp add: last_n_def min_def)

lemma last_n_drop: "last_n n xs = drop (length xs - n) xs"
  by (simp add: last_n_def rev_take)

lemma write_fixed [simp]:
  "climit (capture_write c p) = climit c" "cmode (capture_write c p) = cmode c"
  by (simp_all add: capture_write_def Let_def)

lemma write_limits [simp]:
  "headLimit (capture_write c p) = headLimit c" "tailLimit (capture_write c p) = tailLimit c"
  unfolding headLimit_def tailLimit_def write_fixed by (rule refl)+

lemma limits_sum: "headLimit c + tailLimit c = climit c"
  by (cases "cmode c") (auto simp: headLimit_def tailLimit_def)

lemma captured_write:
  assumes "captured c d"
  shows "captured (capture_write c p) (d @ p)"
proof (cases "climit c = 0")
  case True
  with assms show ?thesis by (simp add: captured_def capture_write_def)
next
  case False
  define h where "h = headLimit c"
  define n where "n = (if length (chead c) < h then min (h - length (chead c)) (length p) else 0)"
  have c: "ctotal c = length d" "chead c = take h d" "ctail c = last_n (tailLimit c) (drop h d)"
    using assms False by (simp_all add: captured_def h_def)
  have n: "n = min (h - length d) (length p)"
    by (auto simp: n_def c min_def)
  have head: "take h d @ take n p = take h (d @ p)"
    by (simp add: n min_def)
  have tail: "drop h (d @ p) = drop h d @ drop n p"
    by (simp add: n min_def)
  have w: "capture_write c p = c\<lparr>ctotal := length (d @ p), chead := take h (d @ p),
      ctail := last_n (tailLimit c) (drop h (d @ p))\<rparr>"
  proof (cases "0 < tailLimit c \<and> drop n p \<noteq> []")
    case True
    have "(let t = ctail c @ drop n p in if tailLimit c < length t then drop (length t - tailLimit c) t else t)
        = last_n (tailLimit c) (ctail c @ drop n p)"
      by (simp add: last_n_drop Let_def)
    also have "\<dots> = last_n (tailLimit c) (drop h (d @ p))" by (simp only: c(3) tail last_n_append)
    finally show ?thesis
      using False True unfolding capture_write_def h_def [symmetric] n_def [symmetric] Let_def
      by (simp add: c head)
  next
    case no: False
    have "last_n (tailLimit c) (drop h (d @ p)) = ctail c"
      unfolding tail c(3) using no by (auto simp: last_n_def)
    then show ?thesis
      using False no unfolding capture_write_def h_def [symmetric] n_def [symmetric] Let_def
      by (auto simp: c head)
  qed
  show ?thesis
    unfolding captured_def write_limits write_fixed using False by (simp add: w h_def)
qed

lemma captured_writes:
  "captured c d \<Longrightarrow> captured (foldl capture_write c ps) (d @ concat ps)"
proof (induction ps arbitrary: c d)
  case (Cons p ps)
  from Cons.IH [OF captured_write [OF Cons.prems, of p]] show ?case by simp
qed simp

lemma captured_New: "captured (NewBoundedCaptureMode limit mode) []"
  by (simp add: captured_def NewBoundedCaptureMode_def last_n_def)

lemma writes_fixed:
  "climit (foldl capture_write c ps) = climit c \<and> headLimit (foldl capture_write c ps) = headLimit c
   \<and> tailLimit (foldl capture_write c ps) = tailLimit c"
  by (induction ps arbitrary: c) auto

subsection \<open>Facts on folding\<close>

lemma compact_cases:
  obtains (git) path message k where "parseGitLineEndingWarning l = Some (path, message)"
      "k = length (git_run message ls)" "0 < k"
      "compact_loop (l # ls) =
        (let (out, g, om) = compact_loop (drop k ls)
         in (formatGitLineEndingGroup message (path # git_run message ls) # out, g + 1, om + k))"
  | (folded) k where "k = length (takeWhile (\<lambda>x. x = l) ls)" "0 < k" "isDiagnosticLine l"
      "compact_loop (l # ls) =
        (let (out, g, om) = compact_loop (drop k ls)
         in ((l @ '' [x'' @ show_nat (Suc k) @ '']'') # out, g + 1, om + k))"
  | (kept) k where "k = length (takeWhile (\<lambda>x. x = l) ls)"
      "compact_loop (l # ls) =
        (let (out, g, om) = compact_loop (drop k ls) in ((l # takeWhile (\<lambda>x. x = l) ls) @ out, g, om))"
proof (cases "\<exists>path message. parseGitLineEndingWarning l = Some (path, message) \<and> git_run message ls \<noteq> []")
  case True
  then show ?thesis using git by (auto simp: compact_loop.simps(2) Let_def split: prod.splits)
next
  case False
  then have eq: "compact_loop (l # ls) =
    (let run = takeWhile (\<lambda>x. x = l) ls; count = Suc (length run); rest = drop (length run) ls;
             (out, g, om) = compact_loop rest
         in if 1 < count \<and> isDiagnosticLine l
            then ((l @ '' [x'' @ show_nat count @ '']'') # out, g + 1, om + (count - 1))
            else ((l # run) @ out, g, om))"
    by (auto simp: compact_loop.simps(2) Let_def split: option.splits)
  show ?thesis
  proof (cases "0 < length (takeWhile (\<lambda>x. x = l) ls) \<and> isDiagnosticLine l")
    case True
    then show ?thesis using folded [OF refl] eq by (simp add: Let_def)
  next
    case False
    then show ?thesis using kept [OF refl] eq by (auto simp: Let_def)
  qed
qed

lemma takeWhile_append_drop: "takeWhile P xs @ drop (length (takeWhile P xs)) xs = xs"
  by (metis append_take_drop_id takeWhile_eq_take)

lemma compact_loop_counts:
  "compact_loop ls = (out, g, om) \<Longrightarrow> length ls = length out + om \<and> (g = 0 \<longrightarrow> out = ls)"
proof (induction "length ls" arbitrary: ls out g om rule: less_induct)
  case less
  show ?case
  proof (cases ls)
    case Nil
    with less show ?thesis by simp
  next
    case (Cons l ls')
    have IH: "length (drop k ls') = length out' + om' \<and> (g' = 0 \<longrightarrow> out' = drop k ls')"
      if "compact_loop (drop k ls') = (out', g', om')" for k out' g' om'
      using less(1) [OF _ that] Cons by simp
    show ?thesis
    proof (cases rule: compact_cases [of l ls'])
      case (git path message k)
      obtain out' g' om' where r: "compact_loop (drop k ls') = (out', g', om')" by (metis prod_cases3)
      have "k \<le> length ls'" using git(2) length_git_run by simp
      with IH [OF r] git(4) r less(2) Cons show ?thesis by auto
    next
      case (folded k)
      obtain out' g' om' where r: "compact_loop (drop k ls') = (out', g', om')" by (metis prod_cases3)
      have "k \<le> length ls'" using folded(1) length_takeWhile_le by metis
      with IH [OF r] folded(4) r less(2) Cons show ?thesis by auto
    next
      case (kept k)
      obtain out' g' om' where r: "compact_loop (drop k ls') = (out', g', om')" by (metis prod_cases3)
      have "k \<le> length ls'" using kept(1) length_takeWhile_le by metis
      with IH [OF r] kept r less(2) Cons takeWhile_append_drop [of "\<lambda>x. x = l" ls'] show ?thesis by auto
    qed
  qed
qed

subsection \<open>Properties\<close>

text \<open>\<open>TruncateRunes\<close> never returns more runes than asked for, reports truncation exactly when
  the text has more runes than the limit, and leaves a text that fits alone.\<close>

theorem TruncateRunes_bound:
  assumes "0 \<le> maxRunes"
  shows "int (rune_count (fst (TruncateRunes t maxRunes sfx))) \<le> maxRunes
    \<and> snd (TruncateRunes t maxRunes sfx) = (maxRunes < int (rune_count t))
    \<and> (\<not> snd (TruncateRunes t maxRunes sfx) \<longrightarrow> fst (TruncateRunes t maxRunes sfx) = t)"
  using assms TruncateRunes_count [OF assms, of t sfx]
  by (intro conjI) (simp, simp_all add: TruncateRunes_def Let_def)

theorem TruncateRunes_bound_witness:
  "int (rune_count (fst (TruncateRunes ''abcd'' 4 ''..''))) \<le> 4
    \<and> snd (TruncateRunes ''abcd'' 4 ''..'') = (4 < int (rune_count ''abcd''))
    \<and> fst (TruncateRunes ''abcd'' 4 ''..'') = ''abcd''"
proof -
  have "\<not> 4 < int (rune_count ''abcd'')" by (simp add: rune_count_ascii is_ascii_def)
  with TruncateRunes_bound [of 4 "''abcd''" "''..''"] show ?thesis by simp
qed

text \<open>after \<open>LimitToolResultText\<close> with a positive limit, the text of a result has at most that
  many runes; content that is not text is kept, in order; a result that fits is not touched.\<close>

theorem LimitToolResultText_bound:
  assumes "0 < maxRunes"
  shows "int (total_runes (fst (LimitToolResultText cs maxRunes))) \<le> maxRunes
    \<and> filter is_other (fst (LimitToolResultText cs maxRunes)) = filter is_other cs
    \<and> snd (LimitToolResultText cs maxRunes) = (maxRunes < int (total_runes cs))
    \<and> (snd (LimitToolResultText cs maxRunes) \<or> fst (LimitToolResultText cs maxRunes) = cs)"
  using assms limit_loop_total [of maxRunes _ cs]
  by (auto simp: LimitToolResultText_def Let_def limit_loop_others)

theorem LimitToolResultText_bound_witness:
  "int (total_runes (fst (LimitToolResultText [TextContent ''abc'', OtherContent (7::nat)] 2))) \<le> 2
    \<and> filter is_other (fst (LimitToolResultText [TextContent ''abc'', OtherContent (7::nat)] 2))
        = filter is_other [TextContent ''abc'', OtherContent 7]
    \<and> snd (LimitToolResultText [TextContent ''abc'', OtherContent (7::nat)] 2)
        = (2 < int (total_runes [TextContent ''abc'', OtherContent (7::nat)]))
    \<and> (snd (LimitToolResultText [TextContent ''abc'', OtherContent (7::nat)] 2)
       \<or> fst (LimitToolResultText [TextContent ''abc'', OtherContent (7::nat)] 2)
           = [TextContent ''abc'', OtherContent 7])"
  by (rule LimitToolResultText_bound) simp

text \<open>a first text that fits the limit but leaves less room than the truncation notice needs is
  kept as it is and every later text is dropped, with no notice in the result: the omission is
  silent.\<close>

theorem LimitToolResultText_silent:
  assumes "0 < maxRunes" "int (rune_count a) \<le> maxRunes" "maxRunes < int (rune_count a + rune_count b)"
    and "maxRunes - int (rune_count (limit_suffix (rune_count a + rune_count b) maxRunes)) \<le> int (rune_count a)"
  shows "fst (LimitToolResultText [TextContent a, TextContent b] maxRunes) = [TextContent a]"
proof -
  have "fst (TruncateRunes a maxRunes sfx) = a" for sfx using assms(2) by (simp add: TruncateRunes_def)
  then show ?thesis
    using assms by (simp add: LimitToolResultText_def total_runes_def)
qed

theorem LimitToolResultText_silent_witness:
  "fst (LimitToolResultText [TextContent ''abc'', TextContent ''def''] 4) = ([TextContent ''abc''] :: nat content list)"
proof (rule LimitToolResultText_silent)
  have r: "rune_count ''abc'' = 3" "rune_count ''def'' = 3" by (simp_all add: rune_count_ascii is_ascii_def)
  show "4 - int (rune_count (limit_suffix (rune_count ''abc'' + rune_count ''def'') 4)) \<le> int (rune_count ''abc'')"
  proof -
    have "limit_suffix 6 4 \<noteq> []" by (simp add: limit_suffix_def)
    then have "0 < rune_count (limit_suffix 6 4)" by (simp add: rune_count_def runes_Cons_decode)
    with r show ?thesis by simp
  qed
qed (simp_all add: rune_count_ascii is_ascii_def)

lemma capture_limits:
  assumes "c = foldl capture_write (NewBoundedCaptureMode limit mode) ps"
  shows "captured c (concat ps)" "climit c = nat limit" "headLimit c + tailLimit c = nat limit"
proof -
  show "captured c (concat ps)" using captured_writes [OF captured_New, of limit mode ps] assms by simp
  show lim: "climit c = nat limit"
    using writes_fixed [of "NewBoundedCaptureMode limit mode" ps] assms by (simp add: NewBoundedCaptureMode_def)
  then show "headLimit c + tailLimit c = nat limit" using limits_sum [of c] by simp
qed

lemma capture_result_eq:
  assumes "c = foldl capture_write (NewBoundedCaptureMode limit mode) ps"
  shows "capture_result c =
    (if length (concat ps) \<le> nat limit then (ToValidUTF8 (concat ps), length (concat ps), False)
     else (ToValidUTF8 (ToValidUTF8 (chead c) @ capture_marker c @ ToValidUTF8 (ctail c)), length (concat ps), True))"
proof -
  note L = capture_limits [OF assms]
  have "chead c @ ctail c = concat ps" if "length (concat ps) \<le> nat limit"
  proof (cases "nat limit = 0")
    case True
    with that L show ?thesis by (simp add: captured_def)
  next
    case False
    have "last_n (tailLimit c) (drop (headLimit c) (concat ps)) = drop (headLimit c) (concat ps)"
      using that L(3) by (simp add: last_n_def)
    with False L show ?thesis by (simp add: captured_def)
  qed
  then show ?thesis using L by (simp add: capture_result_def captured_def)
qed

text \<open>C28: a capture depends on the bytes written, not on how they are cut into writes: it holds
  the first and the last bytes of the stream within its limit and the exact length, and a stream
  within the limit is returned whole.\<close>

theorem capture_correct:
  "let c = foldl capture_write (NewBoundedCaptureMode limit mode) ps; d = concat ps
   in ctotal c = length d
      \<and> length (chead c) + length (ctail c) \<le> nat limit
      \<and> (0 < limit \<longrightarrow> chead c = take (headLimit c) d \<and> ctail c = last_n (tailLimit c) (drop (headLimit c) d))
      \<and> capture_result c =
          (if length d \<le> nat limit then (ToValidUTF8 d, length d, False)
           else (ToValidUTF8 (ToValidUTF8 (chead c) @ capture_marker c @ ToValidUTF8 (ctail c)), length d, True))"
proof -
  define c where "c = foldl capture_write (NewBoundedCaptureMode limit mode) ps"
  note L = capture_limits [OF c_def]
  have len: "length (last_n k xs) \<le> k" for k and xs :: gostring by (simp add: last_n_def)
  have "length (chead c) + length (ctail c) \<le> nat limit"
    using L len [of "tailLimit c" "drop (headLimit c) (concat ps)"]
    by (cases "nat limit = 0") (auto simp: captured_def intro: order_trans [OF add_mono])
  then show ?thesis
    using L(1,2) capture_result_eq [OF c_def] unfolding c_def [symmetric] Let_def by (simp add: captured_def)
qed

theorem capture_correct_witness:
  "let c = foldl capture_write (NewBoundedCaptureMode 4 ''head_tail'') [''abc'', ''def'']; d = concat [''abc'', ''def'']
   in ctotal c = length d
      \<and> length (chead c) + length (ctail c) \<le> nat 4
      \<and> (0 < (4::int) \<longrightarrow> chead c = take (headLimit c) d \<and> ctail c = last_n (tailLimit c) (drop (headLimit c) d))
      \<and> capture_result c =
          (if length d \<le> nat 4 then (ToValidUTF8 d, length d, False)
           else (ToValidUTF8 (ToValidUTF8 (chead c) @ capture_marker c @ ToValidUTF8 (ctail c)), length d, True))"
  by (rule capture_correct)

text \<open>folding accounts for every line (input lines are output lines plus omitted lines), and
  when nothing is folded the display text is the input with CRLF normalized.\<close>

theorem CompactDiagnosticOutput_counts:
  "let r = CompactDiagnosticOutput s
   in InputLines r = OutputLines r + OmittedLines r
      \<and> InputLines r = TextLineCount (ReplaceAll s CRLF [LF])
      \<and> (\<not> Compacted r \<longrightarrow> ocText r = ReplaceAll s CRLF [LF])"
proof (cases "s = []")
  case True
  then show ?thesis by (simp add: CompactDiagnosticOutput_def TextLineCount_def)
next
  case False
  define n where "n = ReplaceAll s CRLF [LF]"
  have ne: "n \<noteq> []" using False by (simp add: n_def ReplaceAll.simps [of s] split: list.splits)
  define ls where "ls = (if HasSuffix n [LF] then butlast (lines_of n) else lines_of n)"
  obtain out g om where c: "compact_loop ls = (out, g, om)" by (metis prod_cases3)
  note cnt = compact_loop_counts [OF c]
  have len: "length ls = TextLineCount n"
    using ne by (simp add: ls_def TextLineCount_def Count_single length_split_on)
  have join: "(if HasSuffix n [LF] then unlines ls @ [LF] else unlines ls) = n"
  proof (cases "HasSuffix n [LF]")
    case True
    then obtain t where t: "n = t @ [LF]" by (auto simp: suffix_def)
    then show ?thesis using True by (simp add: ls_def split_on_snoc)
  qed (simp add: ls_def)
  have "CompactDiagnosticOutput s =
      \<lparr>ocText = (if HasSuffix n [LF] then unlines out @ [LF] else unlines out), Compacted = (0 < g),
       InputLines = length ls, OutputLines = length out, OmittedLines = om, Groups = g\<rparr>"
    using False c unfolding CompactDiagnosticOutput_def n_def [symmetric] ls_def [symmetric] Let_def
    by simp
  note eq = this
  have same: "ocText (CompactDiagnosticOutput s) = n" if "\<not> Compacted (CompactDiagnosticOutput s)"
  proof -
    have "out = ls" using that cnt by (simp add: eq)
    then show ?thesis unfolding eq by (simp only: OutputCompaction.simps join)
  qed
  have num: "InputLines (CompactDiagnosticOutput s)
      = OutputLines (CompactDiagnosticOutput s) + OmittedLines (CompactDiagnosticOutput s)"
    "InputLines (CompactDiagnosticOutput s) = TextLineCount n"
    using cnt len by (simp_all add: eq)
  show ?thesis
    unfolding n_def [symmetric] Let_def using same num by blast
qed

theorem CompactDiagnosticOutput_counts_witness:
  "let r = CompactDiagnosticOutput ''note: a''
   in InputLines r = OutputLines r + OmittedLines r
      \<and> InputLines r = TextLineCount (ReplaceAll ''note: a'' CRLF [LF])
      \<and> (\<not> Compacted r \<longrightarrow> ocText r = ReplaceAll ''note: a'' CRLF [LF])"
  by (rule CompactDiagnosticOutput_counts)

text \<open>\<open>TextLineCount\<close> is the number of lines \<open>bufio.Scanner\<close> exposes for a text whose lines fit
  its buffer.\<close>

theorem TextLineCount_scanner:
  assumes "list_all (\<lambda>l. length l < 65536) (lines_of s)"
  shows "TextLineCount s = length (scan_lines s)"
proof -
  have tw: "takeWhile (\<lambda>l. length l < 65536) ls = ls" if "set ls \<subseteq> set (lines_of s)" for ls
    using assms that by (auto simp: list_all_iff takeWhile_eq_all_conv)
  have "set (butlast (lines_of s)) \<subseteq> set (lines_of s)" by (auto dest: in_set_butlastD)
  then have "scan_lines s = map strip_cr (if last (lines_of s) = [] then butlast (lines_of s) else lines_of s)"
    unfolding scan_lines_def Let_def by (subst tw) auto
  then show ?thesis
    using lines_of_last_conv [of s]
    by (auto simp: TextLineCount_def Count_single length_split_on)
qed

theorem TextLineCount_scanner_witness:
  "TextLineCount [CHR ''a'', LF, CHR ''b''] = length (scan_lines [CHR ''a'', LF, CHR ''b''])"
  by (rule TextLineCount_scanner) simp

end
