(* ===== verification/Raw_Output.thy ===== *)
theory Raw_Output
  imports Go_Strings
begin

text \<open>
  The store of raw command outputs (common/rawoutput.go): a map from identifiers to records, the
  identifiers in order of insertion, and the total size. Time is the clock reading passed to
  each operation; the random identifier of \<open>put\<close> is an argument, \<open>None\<close> when the random source
  fails. The state machine \<open>raw_reach\<close> runs any sequence of puts and gets with a clock that does
  not go back and identifiers that are not in use.
\<close>

record RawOutputRecord =
  rID :: gostring
  rSource :: gostring
  rContent :: gostring
  rTruncated :: bool
  rOriginalBytes :: int
  rCreatedAt :: int
  rExpiresAt :: int

record rawOutputStore =
  entries :: "gostring \<Rightarrow> RawOutputRecord option"
  order :: "gostring list"
  totalBytes :: int
  maxEntries :: int
  maxBytes :: int
  ttl :: int

definition newRawOutputStore :: "int \<Rightarrow> int \<Rightarrow> int \<Rightarrow> rawOutputStore" where
  "newRawOutputStore me mb t =
     \<lparr>entries = Map.empty, order = [], totalBytes = 0, maxEntries = me, maxBytes = mb, ttl = t\<rparr>"

definition commandRawOutputs :: rawOutputStore where
  "commandRawOutputs = newRawOutputStore 64 (4 * 1024 * 1024) (30 * 60 * 1000000000)"

definition removeLocked :: "rawOutputStore \<Rightarrow> gostring \<Rightarrow> rawOutputStore" where
  "removeLocked s rid =
     (let s1 = (case entries s rid of
                  Some r \<Rightarrow> s\<lparr>totalBytes := totalBytes s - int (length (rContent r)),
                               entries := (entries s)(rid := None)\<rparr>
                | None \<Rightarrow> s)
      in s1\<lparr>order := remove1 rid (order s1)\<rparr>)"

lemma order_removeLocked [simp]: "order (removeLocked s rid) = remove1 rid (order s)"
  by (simp add: removeLocked_def Let_def split: option.splits)

lemma removeLocked_fixed [simp]:
  "maxEntries (removeLocked s rid) = maxEntries s" "maxBytes (removeLocked s rid) = maxBytes s"
  "ttl (removeLocked s rid) = ttl s"
  by (simp_all add: removeLocked_def Let_def split: option.splits)

function removeExpiredLocked :: "rawOutputStore \<Rightarrow> int \<Rightarrow> rawOutputStore" where
  "removeExpiredLocked s now =
     (case order s of
        [] \<Rightarrow> s
      | rid # ids \<Rightarrow>
          (case entries s rid of
             Some r \<Rightarrow> if now < rExpiresAt r then s else removeExpiredLocked (removeLocked s rid) now
           | None \<Rightarrow> removeExpiredLocked (removeLocked s rid) now))"
  by pat_completeness auto
termination
  by (relation "measure (\<lambda>(s, now). length (order s))") auto

declare removeExpiredLocked.simps [simp del]

text \<open>The eviction loop of \<open>put\<close>; \<open>None\<close> when the store is empty and the content still does not fit.\<close>

function evict :: "rawOutputStore \<Rightarrow> nat \<Rightarrow> rawOutputStore \<times> bool" where
  "evict s n =
     (if maxEntries s \<le> int (length (order s)) \<or> maxBytes s < totalBytes s + int n then
        (case order s of [] \<Rightarrow> (s, False) | rid # ids \<Rightarrow> evict (removeLocked s rid) n)
      else (s, True))"
  by pat_completeness auto
termination
  by (relation "measure (\<lambda>(s, n). length (order s))") auto

declare evict.simps [simp del]

definition put ::
  "rawOutputStore \<Rightarrow> gostring option \<Rightarrow> gostring \<Rightarrow> gostring \<Rightarrow> bool \<Rightarrow> int \<Rightarrow> int \<Rightarrow> rawOutputStore \<times> gostring" where
  "put s rnd source cont truncated originalBytes now =
     (if cont = [] \<or> maxEntries s \<le> 0 \<or> maxBytes s \<le> 0 \<or> maxBytes s < int (length cont) then (s, [])
      else case rnd of
             None \<Rightarrow> (s, [])
           | Some hex \<Rightarrow>
               (let rid = ''out_'' @ hex;
                    record = \<lparr>rID = rid, rSource = source, rContent = cont, rTruncated = truncated,
                              rOriginalBytes = originalBytes, rCreatedAt = now, rExpiresAt = now + ttl s\<rparr>
                in case evict (removeExpiredLocked s now) (length cont) of
                     (s1, False) \<Rightarrow> (s1, [])
                   | (s1, True) \<Rightarrow>
                       (s1\<lparr>entries := (entries s1)(rid := Some record), order := order s1 @ [rid],
                           totalBytes := totalBytes s1 + int (length cont)\<rparr>, rid)))"

definition get :: "rawOutputStore \<Rightarrow> gostring \<Rightarrow> int \<Rightarrow> rawOutputStore \<times> RawOutputRecord option" where
  "get s rid now = (let s1 = removeExpiredLocked s now in (s1, entries s1 rid))"

subsection \<open>The invariant\<close>

definition stored_size :: "rawOutputStore \<Rightarrow> gostring \<Rightarrow> int" where
  "stored_size s rid = (case entries s rid of Some r \<Rightarrow> int (length (rContent r)) | None \<Rightarrow> 0)"

definition expiry :: "rawOutputStore \<Rightarrow> gostring \<Rightarrow> int" where
  "expiry s rid = (case entries s rid of Some r \<Rightarrow> rExpiresAt r | None \<Rightarrow> 0)"

text \<open>At clock \<open>now\<close>: the order lists the keys once each, oldest expiry first, the total is the sum
  of the sizes, and the limits hold.\<close>

definition raw_ok :: "int \<Rightarrow> rawOutputStore \<Rightarrow> bool" where
  "raw_ok now s =
     (distinct (order s) \<and> set (order s) = dom (entries s)
      \<and> totalBytes s = sum_list (map (stored_size s) (order s))
      \<and> sorted (map (expiry s) (order s))
      \<and> (\<forall>r\<in>ran (entries s). rExpiresAt r \<le> now + ttl s)
      \<and> (\<forall>rid r. entries s rid = Some r \<longrightarrow> rID r = rid)
      \<and> int (length (order s)) \<le> max 0 (maxEntries s) \<and> totalBytes s \<le> max 0 (maxBytes s))"

lemma raw_ok_later: "raw_ok now s \<Longrightarrow> now \<le> now' \<Longrightarrow> raw_ok now' s"
  by (fastforce simp: raw_ok_def)

lemma raw_ok_new: "raw_ok now (newRawOutputStore me mb t)"
  by (simp add: raw_ok_def newRawOutputStore_def)

lemma raw_ok_head: "raw_ok now s \<Longrightarrow> order s = rid # ids \<Longrightarrow> \<exists>r. entries s rid = Some r"
  by (auto simp: raw_ok_def simp flip: domIff)

lemma removeLocked_head:
  assumes "raw_ok now s" "order s = rid # ids"
  shows "raw_ok now (removeLocked s rid)" "order (removeLocked s rid) = ids"
    "entries (removeLocked s rid) = (entries s)(rid := None)"
    "totalBytes (removeLocked s rid) = sum_list (map (stored_size s) ids)"
proof -
  obtain r where r: "entries s rid = Some r" using raw_ok_head [OF assms] by blast
  show o: "order (removeLocked s rid) = ids" using assms by simp
  show e: "entries (removeLocked s rid) = (entries s)(rid := None)"
    by (simp add: removeLocked_def r)
  have notin: "rid \<notin> set ids" using assms by (auto simp: raw_ok_def)
  then have same: "map (stored_size (removeLocked s rid)) ids = map (stored_size s) ids"
    "map (expiry (removeLocked s rid)) ids = map (expiry s) ids"
    by (auto simp: stored_size_def expiry_def e)
  show t: "totalBytes (removeLocked s rid) = sum_list (map (stored_size s) ids)"
    using assms by (simp add: removeLocked_def r raw_ok_def stored_size_def)
  have "0 \<le> stored_size s rid" by (simp add: stored_size_def split: option.splits)
  moreover have "set ids = dom (entries s) - {rid}" "sorted (map (expiry s) ids)" "distinct ids"
    "int (length ids) \<le> max 0 (maxEntries s)"
    "stored_size s rid + sum_list (map (stored_size s) ids) \<le> max 0 (maxBytes s)"
    "\<forall>r\<in>ran (entries s). rExpiresAt r \<le> now + ttl s" "\<forall>rid r. entries s rid = Some r \<longrightarrow> rID r = rid"
    using assms notin by (auto simp: raw_ok_def)
  moreover have "ran ((entries s)(rid := None)) \<subseteq> ran (entries s)" by (auto simp: ran_def split: if_splits)
  ultimately show "raw_ok now (removeLocked s rid)"
    unfolding raw_ok_def o e t same using notin by (auto simp: fun_upd_apply)
qed

lemma removeExpired_ok:
  "raw_ok now0 s \<Longrightarrow> raw_ok now0 (removeExpiredLocked s now)
    \<and> (\<forall>rid. entries (removeExpiredLocked s now) rid =
         (case entries s rid of Some r \<Rightarrow> if now < rExpiresAt r then Some r else None | None \<Rightarrow> None))
    \<and> ttl (removeExpiredLocked s now) = ttl s
    \<and> maxEntries (removeExpiredLocked s now) = maxEntries s
    \<and> maxBytes (removeExpiredLocked s now) = maxBytes s"
proof (induction s now rule: removeExpiredLocked.induct)
  case (1 s now)
  show ?case
  proof (cases "order s")
    case Nil
    then have "entries s rid = None" for rid using 1(3) by (auto simp: raw_ok_def)
    with Nil 1(3) show ?thesis by (simp add: removeExpiredLocked.simps)
  next
    case (Cons rid ids)
    then obtain r where r: "entries s rid = Some r" using raw_ok_head [OF 1(3)] by blast
    note h = removeLocked_head [OF 1(3) Cons]
    show ?thesis
    proof (cases "now < rExpiresAt r")
      case True
      have "now < rExpiresAt r'" if "entries s x = Some r'" for x r'
      proof -
        have "x \<in> set (order s)" using 1(3) that by (auto simp: raw_ok_def)
        then have "expiry s rid \<le> expiry s x" using 1(3) Cons by (auto simp: raw_ok_def)
        with True r that show ?thesis by (simp add: expiry_def)
      qed
      with True Cons r 1(3) show ?thesis
        by (auto simp: removeExpiredLocked.simps [of s] split: option.splits)
    next
      case False
      have "removeExpiredLocked s now = removeExpiredLocked (removeLocked s rid) now"
        using False Cons r by (subst removeExpiredLocked.simps) simp
      with 1(2) [OF Cons r False h(1)] False r show ?thesis
        by (auto simp: h(3) split: option.splits)
    qed
  qed
qed

lemma evict_ok:
  assumes "raw_ok now s" "0 < maxEntries s" "int n \<le> maxBytes s"
  shows "snd (evict s n) \<and> raw_ok now (fst (evict s n))
    \<and> int (length (order (fst (evict s n)))) < maxEntries s
    \<and> totalBytes (fst (evict s n)) + int n \<le> maxBytes s
    \<and> ttl (fst (evict s n)) = ttl s
    \<and> (\<exists>k. order (fst (evict s n)) = drop k (order s)
         \<and> entries (fst (evict s n)) = (entries s) |` set (drop k (order s)))
    \<and> maxEntries (fst (evict s n)) = maxEntries s \<and> maxBytes (fst (evict s n)) = maxBytes s"
  using assms
proof (induction s n rule: evict.induct)
  case (1 s n)
  show ?case
  proof (cases "maxEntries s \<le> int (length (order s)) \<or> maxBytes s < totalBytes s + int n")
    case True
    show ?thesis
    proof (cases "order s")
      case Nil
      with 1(2-) True show ?thesis by (simp add: raw_ok_def)
    next
      case (Cons rid ids)
      note h = removeLocked_head [OF 1(2) Cons]
      have eq: "evict s n = evict (removeLocked s rid) n"
        using True Cons by (subst evict.simps) simp
      have notin: "rid \<notin> set ids" using 1(2) Cons by (auto simp: raw_ok_def)
      note IH = 1(1) [OF True Cons h(1), unfolded removeLocked_fixed, OF 1(3,4)]
      obtain k where "order (fst (evict s n)) = drop k (order (removeLocked s rid))"
        "entries (fst (evict s n)) = entries (removeLocked s rid) |` set (drop k (order (removeLocked s rid)))"
        using IH unfolding eq by blast
      then have k: "order (fst (evict s n)) = drop k ids"
        "entries (fst (evict s n)) = ((entries s)(rid := None)) |` set (drop k ids)"
        unfolding h(2,3) by simp_all
      have "((entries s)(rid := None)) |` set (drop k ids) = entries s |` set (drop k ids)"
        using notin by (auto simp: restrict_map_def fun_eq_iff dest: in_set_dropD)
      with k have "\<exists>k. order (fst (evict s n)) = drop k (order s)
          \<and> entries (fst (evict s n)) = (entries s) |` set (drop k (order s))"
        using Cons by (intro exI [of _ "Suc k"]) simp
      with IH show ?thesis unfolding eq by blast
    qed
  next
    case False
    have "entries s |` set (order s) = entries s"
      using 1(2) by (auto simp: raw_ok_def restrict_map_def fun_eq_iff)
    then have "\<exists>k. order s = drop k (order s) \<and> entries s = (entries s) |` set (drop k (order s))"
      by (intro exI [of _ 0]) simp
    with 1(2-) False show ?thesis by (simp add: evict.simps [of s n])
  qed
qed


lemma put_fits:
  fixes src :: gostring and tr :: bool and ob :: int
  assumes "raw_ok now0 s" "now0 \<le> now" "cont \<noteq> []" "0 < maxEntries s" "int (length cont) \<le> maxBytes s"
    and "entries s (''out_'' @ hex) = None" "0 \<le> ttl s"
  defines "s' \<equiv> fst (put s (Some hex) src cont tr ob now)"
  shows "snd (put s (Some hex) src cont tr ob now) = ''out_'' @ hex" "raw_ok now s'"
    "entries s' (''out_'' @ hex) = Some \<lparr>rID = ''out_'' @ hex, rSource = src, rContent = cont,
       rTruncated = tr, rOriginalBytes = ob, rCreatedAt = now, rExpiresAt = now + ttl s\<rparr>"
    "ttl s' = ttl s \<and> maxEntries s' = maxEntries s \<and> maxBytes s' = maxBytes s"
proof -
  let ?id = "''out_'' @ hex" and ?x = "removeExpiredLocked s now"
  let ?rec = "\<lparr>rID = ?id, rSource = src, rContent = cont, rTruncated = tr, rOriginalBytes = ob,
      rCreatedAt = now, rExpiresAt = now + ttl s\<rparr>"
  note x = removeExpired_ok [OF raw_ok_later [OF assms(1,2)], of now]
  have x1: "raw_ok now ?x" "0 < maxEntries ?x" "int (length cont) \<le> maxBytes ?x" "entries ?x ?id = None"
    "ttl ?x = ttl s" using x assms(4-6) by auto
  obtain s1 where s1: "evict ?x (length cont) = (s1, True)"
    using evict_ok [OF x1(1-3)] by (metis prod.collapse)
  have e: "raw_ok now s1" "int (length (order s1)) < maxEntries s" "totalBytes s1 + int (length cont) \<le> maxBytes s"
    "ttl s1 = ttl s" "maxEntries s1 = maxEntries s" "maxBytes s1 = maxBytes s" "entries s1 ?id = None"
    using evict_ok [OF x1(1-3)] x x1(4) s1 by (auto simp: restrict_map_def)
  have put: "put s (Some hex) src cont tr ob now =
      (s1\<lparr>entries := (entries s1)(?id := Some ?rec), order := order s1 @ [?id],
          totalBytes := totalBytes s1 + int (length cont)\<rparr>, ?id)"
  proof -
    have "0 < maxBytes s" using assms(3,5) by (cases cont) auto
    with assms(3-5) s1 show ?thesis by (simp add: put_def Let_def)
  qed
  then show "snd (put s (Some hex) src cont tr ob now) = ?id" "entries s' ?id = Some ?rec"
    "ttl s' = ttl s \<and> maxEntries s' = maxEntries s \<and> maxBytes s' = maxBytes s"
    by (simp_all add: s'_def e)
  have s': "entries s' = (entries s1)(?id := Some ?rec)" "order s' = order s1 @ [?id]"
    "totalBytes s' = totalBytes s1 + int (length cont)" "ttl s' = ttl s"
    "maxEntries s' = maxEntries s" "maxBytes s' = maxBytes s"
    by (simp_all add: s'_def put e)
  have notin: "?id \<notin> set (order s1)" using e(1,7) by (auto simp: raw_ok_def)
  then have same: "map (stored_size s') (order s1) = map (stored_size s1) (order s1)"
    "map (expiry s') (order s1) = map (expiry s1) (order s1)"
    by (auto simp: stored_size_def expiry_def s')
  have "\<forall>y\<in>set (order s1). expiry s1 y \<le> now + ttl s"
    using e(1,4) by (auto simp: raw_ok_def expiry_def ran_def split: option.splits)
  moreover have "expiry s' ?id = now + ttl s" "stored_size s' ?id = int (length cont)"
    by (simp_all add: expiry_def stored_size_def s')
  moreover from this have m: "map (stored_size s') (order s1 @ [?id]) = map (stored_size s1) (order s1) @ [int (length cont)]"
    "map (expiry s') (order s1 @ [?id]) = map (expiry s1) (order s1) @ [now + ttl s]"
    unfolding map_append same by simp_all
  ultimately show "raw_ok now s'"
    using e notin unfolding raw_ok_def s' m
    by (auto simp: sorted_append ran_def split: if_splits)
qed

lemma put_rejected:
  "cont = [] \<or> maxEntries s \<le> 0 \<or> maxBytes s \<le> 0 \<or> maxBytes s < int (length cont) \<or> rnd = None \<Longrightarrow>
     put s rnd src cont tr ob now = (s, [])"
  by (auto simp: put_def)

subsection \<open>All runs\<close>

inductive raw_reach :: "int \<Rightarrow> int \<Rightarrow> int \<Rightarrow> int \<Rightarrow> rawOutputStore \<Rightarrow> bool" for me mb t where
  start: "raw_reach me mb t now (newRawOutputStore me mb t)"
| put: "raw_reach me mb t now s \<Longrightarrow> now \<le> now' \<Longrightarrow>
     (\<And>hex. rnd = Some hex \<Longrightarrow> entries s (''out_'' @ hex) = None) \<Longrightarrow>
     raw_reach me mb t now' (fst (put s rnd src cont tr ob now'))"
| get: "raw_reach me mb t now s \<Longrightarrow> now \<le> now' \<Longrightarrow> raw_reach me mb t now' (fst (get s rid now'))"

lemma raw_reach_ok:
  assumes "raw_reach me mb t now s" "0 \<le> t"
  shows "raw_ok now s \<and> maxEntries s = me \<and> maxBytes s = mb \<and> ttl s = t"
  using assms
proof (induction rule: raw_reach.induct)
  case (start now)
  show ?case using raw_ok_new by (simp add: newRawOutputStore_def)
next
  case (put now s now' rnd src cont tr ob)
  show ?case
  proof (cases "cont = [] \<or> maxEntries s \<le> 0 \<or> maxBytes s \<le> 0 \<or> maxBytes s < int (length cont) \<or> rnd = None")
    case True
    then show ?thesis using put raw_ok_later [of now s now'] by (simp add: put_rejected)
  next
    case False
    then obtain hex where "rnd = Some hex" by auto
    with False put put_fits [of now s now' cont hex src tr ob] show ?thesis by simp
  qed
next
  case (get now s now' rid)
  then show ?case
    using removeExpired_ok [OF raw_ok_later, of now s now' now'] by (simp add: get_def Let_def)
qed

subsection \<open>Properties\<close>

text \<open>C26: in every run of the store the order lists the stored identifiers once each, the byte total
  is the sum of the stored contents, and both limits hold.\<close>

theorem raw_store_invariant:
  assumes "raw_reach me mb t now s" "0 \<le> t"
  shows "distinct (order s) \<and> set (order s) = dom (entries s)
    \<and> totalBytes s = sum_list (map (stored_size s) (order s))
    \<and> int (length (order s)) \<le> max 0 me \<and> totalBytes s \<le> max 0 mb"
  using raw_reach_ok [OF assms] by (auto simp: raw_ok_def)

theorem raw_store_invariant_witness:
  "\<exists>s. s = fst (put (newRawOutputStore 2 10 5) (Some ''ab'') ''bash'' ''hello'' False 5 1)
    \<and> distinct (order s) \<and> set (order s) = dom (entries s)
    \<and> totalBytes s = sum_list (map (stored_size s) (order s))
    \<and> int (length (order s)) \<le> max 0 2 \<and> totalBytes s \<le> max 0 10"
proof -
  have "raw_reach 2 10 5 1 (fst (put (newRawOutputStore 2 10 5) (Some ''ab'') ''bash'' ''hello'' False 5 1))"
    by (rule raw_reach.put [OF raw_reach.start, of 0]) (simp_all add: newRawOutputStore_def)
  from raw_store_invariant [OF this] show ?thesis by simp
qed

text \<open>C27: an output that is not empty and fits the store is stored under its identifier whatever is in
  the store already, and reading it before it expires gives the record back unchanged.\<close>

theorem raw_store_roundtrip:
  assumes "raw_reach me mb t now0 s" "0 < t" "0 < me"
    and "cont \<noteq> []" "int (length cont) \<le> mb" "entries s (''out_'' @ hex) = None"
    and "now0 \<le> now" "now \<le> later" "later < now + t"
  shows "let (s', rid) = put s (Some hex) src cont tr ob now
         in rid = ''out_'' @ hex
            \<and> snd (get s' rid later) = Some \<lparr>rID = rid, rSource = src, rContent = cont, rTruncated = tr,
                 rOriginalBytes = ob, rCreatedAt = now, rExpiresAt = now + t\<rparr>"
proof -
  note r = raw_reach_ok [OF assms(1)]
  have ok: "raw_ok now0 s" "maxEntries s = me" "maxBytes s = mb" "ttl s = t" using r assms(2) by auto
  note p = put_fits [OF ok(1) assms(7) assms(4), of hex src tr ob, unfolded ok(2-4), OF assms(3,5,6)]
  obtain s' rid where eq: "put s (Some hex) src cont tr ob now = (s', rid)" by fastforce
  have "rid = ''out_'' @ hex" "raw_ok now s'" "entries s' rid = Some \<lparr>rID = rid, rSource = src,
      rContent = cont, rTruncated = tr, rOriginalBytes = ob, rCreatedAt = now, rExpiresAt = now + t\<rparr>"
    using p assms(2) by (simp_all add: eq)
  then show ?thesis
    using removeExpired_ok [of now s' later] assms(9) by (simp add: eq get_def Let_def)
qed

theorem raw_store_roundtrip_witness:
  "let (s', rid) = put (newRawOutputStore 2 10 5) (Some ''ab'') ''bash'' ''hello'' False 5 1
   in rid = ''out_'' @ ''ab''
      \<and> snd (get s' rid 3) = Some \<lparr>rID = rid, rSource = ''bash'', rContent = ''hello'', rTruncated = False,
           rOriginalBytes = 5, rCreatedAt = 1, rExpiresAt = 1 + 5\<rparr>"
  by (rule raw_store_roundtrip [OF raw_reach.start [of 2 10 5 0]]) (simp_all add: newRawOutputStore_def)

text \<open>in every run, a record that a read returns carries the identifier asked for and has not
  expired at the time of the read.\<close>

theorem raw_store_get_fresh:
  assumes "raw_reach me mb t now0 s" "0 \<le> t" "now0 \<le> now"
    and "snd (get s rid now) = Some r"
  shows "rID r = rid \<and> now < rExpiresAt r \<and> entries s rid = Some r"
proof -
  have ok: "raw_ok now0 s" using raw_reach_ok [OF assms(1,2)] by simp
  then have "\<forall>rid r. entries s rid = Some r \<longrightarrow> rID r = rid" by (simp add: raw_ok_def)
  with removeExpired_ok [OF ok, of now] assms(4) show ?thesis
    by (auto simp: get_def Let_def split: option.splits if_splits)
qed

theorem raw_store_get_fresh_witness:
  "let s = fst (put (newRawOutputStore 2 10 5) (Some ''ab'') ''bash'' ''hello'' False 5 1)
   in \<exists>r. snd (get s ''out_ab'' 3) = Some r \<and> rID r = ''out_ab'' \<and> 3 < rExpiresAt r \<and> entries s ''out_ab'' = Some r"
proof -
  let ?s = "fst (put (newRawOutputStore 2 10 5) (Some ''ab'') ''bash'' ''hello'' False 5 1)"
  have reach: "raw_reach 2 10 5 1 ?s"
    by (rule raw_reach.put [OF raw_reach.start, of 0]) (simp_all add: newRawOutputStore_def)
  have "\<exists>r. snd (get ?s ''out_ab'' 3) = Some r"
    by (simp add: put_def newRawOutputStore_def removeExpiredLocked.simps evict.simps get_def Let_def)
  then obtain r where r: "snd (get ?s ''out_ab'' 3) = Some r" ..
  from raw_store_get_fresh [OF reach _ _ r] r show ?thesis by (simp add: Let_def)
qed

end
