(* ===== verification/Broker.thy ===== *)
theory Broker
  imports Go_Strings "HOL-Library.AList" "HOL-Library.Multiset"
begin

text \<open>
  The message broker of tools/ipc/broker.go. Each critical section (the code between \<open>b.mu.Lock\<close>
  and \<open>b.mu.Unlock\<close>) is a function on \<open>brokerState\<close>; a step relation interleaves them with what
  the handlers do outside the lock: the send on a waiter's channel after a post, the receive, the
  timer, and the non-blocking drain. The invariant gives the limits, that a mailbox never has both
  queued messages and waiters, that the send after the unlock never blocks and never hits a closed
  channel, and an exact account of every acknowledged message. A run that loses a message
  acknowledged as delivered is exhibited as well.
\<close>

record brokerMsg =
  mFrom :: gostring
  mMsg :: gostring
  mTS :: int

record brokerReq =
  qOp :: gostring
  qTo :: gostring
  qFrom :: gostring
  qMsg :: gostring
  qMailbox :: gostring
  qTimeout :: int

datatype broker_error =
  ToRequired | MsgRequired | MailboxRequired | MailboxLimit gostring | MailboxFull gostring
| TooManyWaiters gostring | StoppedWhileWaiting | WaitTimedOut int gostring | UnknownOp gostring

datatype broker_info = DeliveredToWaiter | Queued | BrokerMagic

datatype brokerResp =
  Failed broker_error
| OkInfo broker_info
| OkMessages "brokerMsg list"
| OkMessage brokerMsg
| OkStatus "gostring \<Rightarrow> nat option"

definition maxMailboxes :: nat where "maxMailboxes = 1000"
definition maxQueuePerBox :: nat where "maxQueuePerBox = 10000"
definition maxWaitersPerBox :: nat where "maxWaitersPerBox = 100"

text \<open>\<open>boxes\<close> is a Go map as an association list with distinct keys, so that its length is \<open>len\<close>; a
  missing key reads as the empty queue. A channel is named by a number.\<close>

record brokerState =
  boxes :: "(gostring \<times> brokerMsg list) list"
  waiters :: "gostring \<Rightarrow> nat list"
  stopped :: bool

definition box :: "brokerState \<Rightarrow> gostring \<Rightarrow> brokerMsg list" where
  "box b k = (case map_of (boxes b) k of Some ms \<Rightarrow> ms | None \<Rightarrow> [])"

definition newBroker :: brokerState where
  "newBroker = \<lparr>boxes = [], waiters = (\<lambda>_. []), stopped = False\<rparr>"

subsection \<open>Critical sections\<close>

text \<open>What \<open>doPost\<close> does after its critical section: answer, or send on a channel and answer.\<close>

datatype post_outcome = Answer brokerResp | SendThenAnswer nat brokerMsg

definition doPost :: "brokerState \<Rightarrow> brokerReq \<Rightarrow> int \<Rightarrow> brokerState \<times> post_outcome" where
  "doPost b req now =
     (if qTo req = [] then (b, Answer (Failed ToRequired))
      else if qMsg req = [] then (b, Answer (Failed MsgRequired))
      else
        let msg = \<lparr>mFrom = qFrom req, mMsg = qMsg req, mTS = now\<rparr> in
        case waiters b (qTo req) of
          ch # ws \<Rightarrow> (b\<lparr>waiters := (waiters b)(qTo req := ws)\<rparr>, SendThenAnswer ch msg)
        | [] \<Rightarrow>
            if map_of (boxes b) (qTo req) = None \<and> maxMailboxes \<le> length (boxes b)
            then (b, Answer (Failed (MailboxLimit (qTo req))))
            else if maxQueuePerBox \<le> length (box b (qTo req))
            then (b, Answer (Failed (MailboxFull (qTo req))))
            else (b\<lparr>boxes := AList.update (qTo req) (box b (qTo req) @ [msg]) (boxes b)\<rparr>,
                  Answer (OkInfo Queued)))"

definition doFetch :: "brokerState \<Rightarrow> brokerReq \<Rightarrow> brokerState \<times> brokerResp" where
  "doFetch b req =
     (if qMailbox req = [] then (b, Failed MailboxRequired)
      else (b\<lparr>boxes := AList.update (qMailbox req) [] (boxes b)\<rparr>, OkMessages (box b (qMailbox req))))"

text \<open>The first critical section of \<open>doWait\<close>: an answer, or registration of the new channel.\<close>

definition doWait_enter :: "brokerState \<Rightarrow> brokerReq \<Rightarrow> nat \<Rightarrow> brokerState \<times> brokerResp option" where
  "doWait_enter b req ch =
     (if qMailbox req = [] then (b, Some (Failed MailboxRequired))
      else case box b (qMailbox req) of
             msg # msgs \<Rightarrow> (b\<lparr>boxes := AList.update (qMailbox req) msgs (boxes b)\<rparr>, Some (OkMessage msg))
           | [] \<Rightarrow>
               if maxWaitersPerBox \<le> length (waiters b (qMailbox req))
               then (b, Some (Failed (TooManyWaiters (qMailbox req))))
               else (b\<lparr>waiters := (waiters b)(qMailbox req := waiters b (qMailbox req) @ [ch])\<rparr>, None))"

definition wait_timeout :: "brokerReq \<Rightarrow> int" where
  "wait_timeout req =
     (let t = (if qTimeout req \<le> 0 then 60 else qTimeout req) in if 300 < t then 300 else t)"

text \<open>The second critical section of \<open>doWait\<close>, after the timer fired.\<close>

definition doWait_leave :: "brokerState \<Rightarrow> gostring \<Rightarrow> nat \<Rightarrow> brokerState" where
  "doWait_leave b mb ch = b\<lparr>waiters := (waiters b)(mb := remove1 ch (waiters b mb))\<rparr>"

definition doStatus :: "brokerState \<Rightarrow> brokerResp" where
  "doStatus b =
     OkStatus (\<lambda>k. if 0 < length (box b k) then Some (length (box b k))
                    else if 0 < length (waiters b k) then Some 0 else None)"

text \<open>\<open>stop\<close>: the channels it closes, and the state it leaves.\<close>

definition broker_stop :: "brokerState \<Rightarrow> brokerState" where
  "broker_stop b = b\<lparr>stopped := True, waiters := (\<lambda>_. [])\<rparr>"

subsection \<open>Handlers and channels\<close>

record channel =
  buf :: "brokerMsg option"
  closed :: bool

datatype wait_phase = Blocked | TimerFired | Left

text \<open>Everything in flight: the broker, the channels, the posts between unlock and send, and the
  waiting handlers by their channel with mailbox, timeout and phase. \<open>acked\<close> and \<open>returned\<close> are the
  messages whose post was answered OK (or will be after its send) and those handed to a reader.\<close>

record config =
  bst :: brokerState
  chans :: "nat \<Rightarrow> channel"
  next_ch :: nat
  sending :: "(nat \<times> brokerMsg) list"
  waiting :: "nat \<Rightarrow> (gostring \<times> int \<times> wait_phase) option"
  acked :: "brokerMsg list"
  returned :: "brokerMsg list"

definition init_config :: config where
  "init_config =
     \<lparr>bst = newBroker, chans = (\<lambda>_. \<lparr>buf = None, closed = False\<rparr>), next_ch = 0, sending = [],
      waiting = (\<lambda>_. None), acked = [], returned = []\<rparr>"

definition post_msg :: "brokerReq \<Rightarrow> int \<Rightarrow> brokerMsg" where
  "post_msg req now = \<lparr>mFrom = qFrom req, mMsg = qMsg req, mTS = now\<rparr>"

definition is_ok :: "brokerResp \<Rightarrow> bool" where
  "is_ok r = (case r of Failed e \<Rightarrow> False | _ \<Rightarrow> True)"

definition resp_msgs :: "brokerResp \<Rightarrow> brokerMsg list" where
  "resp_msgs r = (case r of OkMessages ms \<Rightarrow> ms | OkMessage m \<Rightarrow> [m] | _ \<Rightarrow> [])"

definition set_buf :: "config \<Rightarrow> nat \<Rightarrow> brokerMsg option \<Rightarrow> config" where
  "set_buf c ch m = c\<lparr>chans := (chans c)(ch := (chans c ch)\<lparr>buf := m\<rparr>)\<rparr>"

inductive bstep :: "config \<Rightarrow> config \<Rightarrow> bool" where
  post_answer: "doPost (bst c) req now = (b', Answer r) \<Longrightarrow>
    bstep c (c\<lparr>bst := b', acked := (if is_ok r then [post_msg req now] else []) @ acked c\<rparr>)"
| post_handoff: "doPost (bst c) req now = (b', SendThenAnswer ch m) \<Longrightarrow>
    bstep c (c\<lparr>bst := b', sending := (ch, m) # sending c, acked := m # acked c\<rparr>)"
| send: "(ch, m) \<in> set (sending c) \<Longrightarrow> buf (chans c ch) = None \<Longrightarrow>
    bstep c ((set_buf c ch (Some m))\<lparr>sending := remove1 (ch, m) (sending c)\<rparr>)"
| fetch: "doFetch (bst c) req = (b', r) \<Longrightarrow>
    bstep c (c\<lparr>bst := b', returned := resp_msgs r @ returned c\<rparr>)"
| wait_answer: "doWait_enter (bst c) req (next_ch c) = (b', Some r) \<Longrightarrow>
    bstep c (c\<lparr>bst := b', returned := resp_msgs r @ returned c\<rparr>)"
| wait_block: "doWait_enter (bst c) req (next_ch c) = (b', None) \<Longrightarrow>
    bstep c (c\<lparr>bst := b', next_ch := next_ch c + 1,
              waiting := (waiting c)(next_ch c \<mapsto> (qMailbox req, wait_timeout req, Blocked))\<rparr>)"
| receive: "waiting c ch = Some (mb, t, Blocked) \<Longrightarrow> buf (chans c ch) = Some m \<Longrightarrow>
    bstep c ((set_buf c ch None)\<lparr>waiting := (waiting c)(ch := None), returned := m # returned c\<rparr>)"
| receive_closed: "waiting c ch = Some (mb, t, Blocked) \<Longrightarrow> buf (chans c ch) = None \<Longrightarrow> closed (chans c ch) \<Longrightarrow>
    bstep c (c\<lparr>waiting := (waiting c)(ch := None)\<rparr>)"
| timer: "waiting c ch = Some (mb, t, Blocked) \<Longrightarrow>
    bstep c (c\<lparr>waiting := (waiting c)(ch \<mapsto> (mb, t, TimerFired))\<rparr>)"
| leave: "waiting c ch = Some (mb, t, TimerFired) \<Longrightarrow>
    bstep c (c\<lparr>bst := doWait_leave (bst c) mb ch, waiting := (waiting c)(ch \<mapsto> (mb, t, Left))\<rparr>)"
| drain: "waiting c ch = Some (mb, t, Left) \<Longrightarrow> buf (chans c ch) = Some m \<Longrightarrow>
    bstep c ((set_buf c ch None)\<lparr>waiting := (waiting c)(ch := None), returned := m # returned c\<rparr>)"
| drain_empty: "waiting c ch = Some (mb, t, Left) \<Longrightarrow> buf (chans c ch) = None \<Longrightarrow>
    bstep c (c\<lparr>waiting := (waiting c)(ch := None)\<rparr>)"
| stop: "bstep c (c\<lparr>bst := broker_stop (bst c),
    chans := (\<lambda>ch. if \<exists>k. ch \<in> set (waiters (bst c) k) then (chans c ch)\<lparr>closed := True\<rparr> else chans c ch)\<rparr>)"

inductive breach :: "config \<Rightarrow> bool" where
  init: "breach init_config"
| step: "breach c \<Longrightarrow> bstep c c' \<Longrightarrow> breach c'"


subsection \<open>Mailboxes as an association list\<close>

lemma map_of_update: "map_of (AList.update k v al) = (map_of al)(k \<mapsto> v)"
  by (rule update_conv')

lemma box_update: "box (b\<lparr>boxes := AList.update k v (boxes b)\<rparr>) k' = (if k' = k then v else box b k')"
  by (simp add: box_def map_of_update)

lemma mset_update:
  "distinct (map fst al) \<Longrightarrow>
     mset (concat (map snd (AList.update k v al))) + mset (case map_of al k of Some ms \<Rightarrow> ms | None \<Rightarrow> [])
     = mset (concat (map snd al)) + mset v"
proof (induction al)
  case (Cons x al)
  obtain k' v' where x: "x = (k', v')" by fastforce
  show ?case
  proof (cases "k' = k")
    case True
    then have "map_of al k = None" using Cons.prems x by (simp add: map_of_eq_None_iff)
    with True x show ?thesis by simp
  next
    case False
    with Cons x show ?thesis by (simp add: ac_simps)
  qed
qed simp

lemma length_update: "length (AList.update k v al) = (if map_of al k = None then Suc (length al) else length al)"
  by (induction al) auto

text \<open>All queued messages.\<close>

definition queued :: "brokerState \<Rightarrow> brokerMsg multiset" where
  "queued b = mset (concat (map snd (boxes b)))"

lemma queued_update:
  "distinct (map fst (boxes b)) \<Longrightarrow>
     queued (b\<lparr>boxes := AList.update k v (boxes b)\<rparr>) + mset (box b k) = queued b + mset v"
  by (simp add: queued_def box_def mset_update)

subsection \<open>Invariants\<close>

definition box_inv :: "brokerState \<Rightarrow> bool" where
  "box_inv b =
     (distinct (map fst (boxes b))
      \<and> (\<forall>k. length (box b k) \<le> maxQueuePerBox \<and> length (waiters b k) \<le> maxWaitersPerBox
            \<and> (box b k = [] \<or> waiters b k = [])))"

definition chan_idle :: "config \<Rightarrow> nat \<Rightarrow> bool" where
  "chan_idle c ch = (buf (chans c ch) = None \<and> \<not> closed (chans c ch))"

definition chan_inv :: "config \<Rightarrow> bool" where
  "chan_inv c =
     ((\<forall>k. distinct (waiters (bst c) k))
      \<and> (\<forall>k. \<forall>ch\<in>set (waiters (bst c) k).
           ch < next_ch c \<and> chan_idle c ch \<and> ch \<notin> fst ` set (sending c)
           \<and> (\<exists>t ph. waiting c ch = Some (k, t, ph) \<and> ph \<noteq> Left))
      \<and> distinct (map fst (sending c))
      \<and> (\<forall>ch\<in>fst ` set (sending c). ch < next_ch c \<and> chan_idle c ch)
      \<and> (\<forall>ch\<ge>next_ch c. waiting c ch = None \<and> chan_idle c ch))"

text \<open>The message in a channel's buffer.\<close>

definition buffered :: "config \<Rightarrow> nat \<Rightarrow> brokerMsg multiset" where
  "buffered c ch = (case buf (chans c ch) of Some m \<Rightarrow> {#m#} | None \<Rightarrow> {#})"

definition account :: "config \<Rightarrow> bool" where
  "account c =
     (mset (acked c) = queued (bst c) + mset (map snd (sending c))
        + (\<Sum>ch<next_ch c. buffered c ch) + mset (returned c))"

lemma box_waiters_upd [simp]: "box (b\<lparr>waiters := w\<rparr>) k = box b k"
  by (simp add: box_def)

lemma box_inv_waiters:
  "box_inv b \<Longrightarrow> length ws \<le> maxWaitersPerBox \<Longrightarrow> box b k = [] \<or> ws = [] \<Longrightarrow>
     box_inv (b\<lparr>waiters := (waiters b)(k := ws)\<rparr>)"
  by (simp add: box_inv_def)

lemma box_inv_boxes:
  "box_inv b \<Longrightarrow> length ms \<le> maxQueuePerBox \<Longrightarrow> ms = [] \<or> waiters b k = [] \<Longrightarrow>
     box_inv (b\<lparr>boxes := AList.update k ms (boxes b)\<rparr>)"
  by (simp add: box_inv_def box_update distinct_update)

lemma box_invD:
  "box_inv b \<Longrightarrow> length (box b k) \<le> maxQueuePerBox" "box_inv b \<Longrightarrow> length (waiters b k) \<le> maxWaitersPerBox"
  "box_inv b \<Longrightarrow> box b k = [] \<or> waiters b k = []" "box_inv b \<Longrightarrow> distinct (map fst (boxes b))"
  by (simp_all add: box_inv_def)

lemma box_inv_doPost:
  assumes "box_inv b" "doPost b req now = (b', r)"
  shows "box_inv b'"
proof (cases "waiters b (qTo req)")
  case Nil
  with assms show ?thesis by (auto simp: doPost_def Let_def intro: box_inv_boxes split: if_splits)
next
  case (Cons ch ws)
  have "box_inv (b\<lparr>waiters := (waiters b)(qTo req := ws)\<rparr>)"
    using box_invD(2,3) [OF assms(1), of "qTo req"] Cons by (intro box_inv_waiters assms) auto
  with assms Cons show ?thesis by (auto simp: doPost_def Let_def split: if_splits)
qed

lemma box_inv_doFetch: "box_inv b \<Longrightarrow> box_inv (fst (doFetch b req))"
  by (simp add: doFetch_def box_inv_boxes)

lemma box_inv_doWait_enter:
  assumes "box_inv b" "doWait_enter b req ch = (b', r)"
  shows "box_inv b'"
proof (cases "box b (qMailbox req)")
  case Nil
  with assms show ?thesis by (auto simp: doWait_enter_def intro: box_inv_waiters split: if_splits)
next
  case (Cons m ms)
  have "box_inv (b\<lparr>boxes := AList.update (qMailbox req) ms (boxes b)\<rparr>)"
    using box_invD(1,3) [OF assms(1), of "qMailbox req"] Cons by (intro box_inv_boxes assms) auto
  with assms Cons show ?thesis by (auto simp: doWait_enter_def split: if_splits)
qed

lemma box_inv_leave: "box_inv b \<Longrightarrow> box_inv (doWait_leave b mb ch)"
  unfolding doWait_leave_def
  using box_invD(2,3) [of b mb] by (intro box_inv_waiters) (auto simp: length_remove1)

lemma box_inv_stop: "box_inv b \<Longrightarrow> box_inv (broker_stop b)"
  by (simp add: box_inv_def broker_stop_def box_def)

lemma bst_set_buf [simp]: "bst (set_buf c ch m) = bst c"
  by (simp add: set_buf_def)

lemma box_inv_step: "bstep c c' \<Longrightarrow> box_inv (bst c) \<Longrightarrow> box_inv (bst c')"
proof (induction rule: bstep.induct)
  case (fetch c req b' r)
  then show ?case using box_inv_doFetch [of "bst c" req] by simp
next
  case (post_answer c req now b' r)
  then show ?case using box_inv_doPost [of "bst c" req now b'] by simp
next
  case (post_handoff c req now b' ch m)
  then show ?case using box_inv_doPost [of "bst c" req now b'] by simp
next
  case (wait_answer c req b' r)
  then show ?case using box_inv_doWait_enter [of "bst c" req "next_ch c" b'] by simp
next
  case (wait_block c req b')
  then show ?case using box_inv_doWait_enter [of "bst c" req "next_ch c" b'] by simp
qed (simp_all add: box_inv_leave box_inv_stop)


lemma doPost_answer:
  "doPost b req now = (b', Answer r) \<Longrightarrow>
     b' = b \<and> \<not> is_ok r
     \<or> is_ok r \<and> b' = b\<lparr>boxes := AList.update (qTo req) (box b (qTo req) @ [post_msg req now]) (boxes b)\<rparr>"
  by (auto simp: doPost_def Let_def is_ok_def post_msg_def split: if_splits list.splits)

lemma doPost_handoff:
  "doPost b req now = (b', SendThenAnswer ch m) \<Longrightarrow>
     \<exists>k ws. waiters b k = ch # ws \<and> b' = b\<lparr>waiters := (waiters b)(k := ws)\<rparr> \<and> m = post_msg req now"
  by (auto simp: doPost_def Let_def post_msg_def split: if_splits list.splits)

lemma doWait_answer:
  "doWait_enter b req ch = (b', Some r) \<Longrightarrow>
     b' = b \<and> resp_msgs r = []
     \<or> (\<exists>k m ms. box b k = m # ms \<and> r = OkMessage m \<and> b' = b\<lparr>boxes := AList.update k ms (boxes b)\<rparr>)"
  by (auto simp: doWait_enter_def resp_msgs_def split: if_splits list.splits)

lemma doWait_block:
  "doWait_enter b req ch = (b', None) \<Longrightarrow>
     b' = b\<lparr>waiters := (waiters b)(qMailbox req := waiters b (qMailbox req) @ [ch])\<rparr>"
  by (auto simp: doWait_enter_def split: if_splits list.splits)

lemma doFetch_cases:
  "doFetch b req = (b', r) \<Longrightarrow>
     b' = b \<and> resp_msgs r = []
     \<or> (\<exists>k. r = OkMessages (box b k) \<and> b' = b\<lparr>boxes := AList.update k [] (boxes b)\<rparr>)"
  by (auto simp: doFetch_def resp_msgs_def split: if_splits)

text \<open>The channel invariant only looks at these parts.\<close>

lemma chan_inv_cong:
  "waiters (bst c') = waiters (bst c) \<Longrightarrow> sending c' = sending c \<Longrightarrow> chans c' = chans c \<Longrightarrow>
     waiting c' = waiting c \<Longrightarrow> next_ch c' = next_ch c \<Longrightarrow> chan_inv c' = chan_inv c"
  by (simp add: chan_inv_def chan_idle_def)

lemma chan_inv_waiter:
  assumes "chan_inv c" "ch \<in> set (waiters (bst c) k)"
  shows "ch < next_ch c" "chan_idle c ch" "ch \<notin> fst ` set (sending c)"
    "\<exists>t ph. waiting c ch = Some (k, t, ph) \<and> ph \<noteq> Left"
  using assms unfolding chan_inv_def by blast+

lemma chan_inv_unique:
  assumes "chan_inv c" "ch \<in> set (waiters (bst c) k)" "ch \<in> set (waiters (bst c) k')"
  shows "k = k'"
  using chan_inv_waiter(4) [OF assms(1,2)] chan_inv_waiter(4) [OF assms(1,3)] by auto

lemma chan_inv_distinct: "chan_inv c \<Longrightarrow> distinct (waiters (bst c) k)" "chan_inv c \<Longrightarrow> distinct (map fst (sending c))"
  by (simp_all add: chan_inv_def)

lemma chan_inv_sending: "chan_inv c \<Longrightarrow> (ch, m) \<in> set (sending c) \<Longrightarrow> ch < next_ch c \<and> chan_idle c ch"
  unfolding chan_inv_def by force

lemma chan_inv_new: "chan_inv c \<Longrightarrow> next_ch c \<le> ch \<Longrightarrow> waiting c ch = None \<and> chan_idle c ch"
  by (simp add: chan_inv_def)

lemma chan_invI:
  assumes "\<And>k. distinct (waiters (bst c) k)"
    and "\<And>k ch. ch \<in> set (waiters (bst c) k) \<Longrightarrow> ch < next_ch c \<and> chan_idle c ch \<and> ch \<notin> fst ` set (sending c)
           \<and> (\<exists>t ph. waiting c ch = Some (k, t, ph) \<and> ph \<noteq> Left)"
    and "distinct (map fst (sending c))"
    and "\<And>ch m. (ch, m) \<in> set (sending c) \<Longrightarrow> ch < next_ch c \<and> chan_idle c ch"
    and "\<And>ch. next_ch c \<le> ch \<Longrightarrow> waiting c ch = None \<and> chan_idle c ch"
  shows "chan_inv c"
  using assms unfolding chan_inv_def by force

lemma chan_inv_handoff:
  assumes inv: "chan_inv c" and w: "waiters (bst c) k = ch # ws"
  shows "chan_inv (c\<lparr>bst := (bst c)\<lparr>waiters := (waiters (bst c))(k := ws)\<rparr>, sending := (ch, m) # sending c,
     acked := a\<rparr>)"
proof -
  have ch: "ch < next_ch c" "chan_idle c ch" "ch \<notin> fst ` set (sending c)"
    using chan_inv_waiter [OF inv, of ch k] w by simp_all
  have ws: "distinct ws" "ch \<notin> set ws" using chan_inv_distinct(1) [OF inv, of k] w by simp_all
  have old: "x \<in> set (waiters (bst c) k') \<and> x \<noteq> ch" if "x \<in> set (((waiters (bst c))(k := ws)) k')" for x k'
    using that ws w chan_inv_unique [OF inv, of ch k k'] by (auto split: if_splits)
  show ?thesis
  proof (rule chan_invI, goal_cases)
    case (1 k)
    then show ?case using ws chan_inv_distinct(1) [OF inv] by simp
  next
    case (2 k' x)
    then have "x \<in> set (waiters (bst c) k')" "x \<noteq> ch" using old by simp_all
    with chan_inv_waiter [OF inv this(1)] show ?case by (auto simp: chan_idle_def)
  next
    case 3
    then show ?case using ch chan_inv_distinct(2) [OF inv] by simp
  next
    case (4 x m)
    then show ?case using ch chan_inv_sending [OF inv, of x] by (auto simp: chan_idle_def)
  next
    case (5 x)
    then show ?case using chan_inv_new [OF inv, of x] by (simp add: chan_idle_def)
  qed
qed

lemma remove1_fst_gone: "distinct (map fst xs) \<Longrightarrow> (x, y) \<in> set xs \<Longrightarrow> x \<notin> fst ` set (remove1 (x, y) xs)"
proof (induction xs)
  case (Cons z zs)
  then show ?case by (cases z) (force split: if_splits)
qed simp

lemma chan_inv_send:
  assumes inv: "chan_inv c" and m: "(ch, m) \<in> set (sending c)"
  shows "chan_inv ((set_buf c ch (Some m))\<lparr>sending := remove1 (ch, m) (sending c)\<rparr>)"
proof -
  have gone: "ch \<notin> fst ` set (remove1 (ch, m) (sending c))"
    by (rule remove1_fst_gone [OF chan_inv_distinct(2) [OF inv] m])
  have sub: "set (remove1 (ch, m) (sending c)) \<subseteq> set (sending c)" by (rule set_remove1_subset)
  have notw: "ch \<notin> set (waiters (bst c) k)" for k
    using chan_inv_waiter(3) [OF inv, of ch k] m by force
  show ?thesis
  proof (rule chan_invI, goal_cases)
    case (2 k x)
    then have x: "x \<in> set (waiters (bst c) k)" "x \<noteq> ch" using notw by auto
    from chan_inv_waiter [OF inv x(1)] x(2) sub show ?case
      by (auto simp: chan_idle_def set_buf_def)
  next
    case 3
    have "distinct (remove1 (ch, m) (sending c))" "inj_on fst (set (remove1 (ch, m) (sending c)))"
      using chan_inv_distinct(2) [OF inv] sub by (auto simp: distinct_map intro: inj_on_subset)
    then show ?case by (simp add: distinct_map)
  next
    case (4 x m')
    then have "(x, m') \<in> set (sending c)" "x \<noteq> ch" using sub gone by (auto simp: image_iff)
    with chan_inv_sending [OF inv this(1)] show ?case by (simp add: chan_idle_def set_buf_def)
  next
    case (5 x)
    then show ?case using chan_inv_new [OF inv, of x] chan_inv_sending [OF inv m]
      by (auto simp: chan_idle_def set_buf_def)
  qed (simp add: chan_inv_distinct(1) [OF inv])
qed


lemma chan_inv_block:
  assumes inv: "chan_inv c"
  shows "chan_inv (c\<lparr>bst := (bst c)\<lparr>waiters := (waiters (bst c))(k := waiters (bst c) k @ [next_ch c])\<rparr>,
     next_ch := next_ch c + 1, waiting := (waiting c)(next_ch c \<mapsto> (k, t, Blocked))\<rparr>)"
proof -
  have new: "next_ch c \<notin> set (waiters (bst c) k')" for k'
    using chan_inv_waiter(1) [OF inv, of "next_ch c" k'] by auto
  have news: "next_ch c \<notin> fst ` set (sending c)" using chan_inv_sending [OF inv] by force
  show ?thesis
  proof (rule chan_invI, goal_cases)
    case (1 k')
    then show ?case using chan_inv_distinct(1) [OF inv] new by simp
  next
    case (2 k' x)
    show ?case
    proof (cases "x = next_ch c")
      case True
      with 2 new have "k' = k" by (auto split: if_splits)
      with True news chan_inv_new [OF inv, of x] show ?thesis by (simp add: chan_idle_def)
    next
      case False
      with 2 have "x \<in> set (waiters (bst c) k')" by (auto split: if_splits)
      with chan_inv_waiter [OF inv this] False show ?thesis by (auto simp: chan_idle_def)
    qed
  next
    case 3
    then show ?case using chan_inv_distinct(2) [OF inv] by simp
  next
    case (4 x m)
    then show ?case using chan_inv_sending [OF inv, of x m] by (simp add: chan_idle_def)
  next
    case (5 x)
    then show ?case using chan_inv_new [OF inv, of x] by (simp add: chan_idle_def)
  qed
qed

text \<open>A handler that is not registered any more may go away, taking its buffered message.\<close>

lemma chan_inv_finish:
  assumes inv: "chan_inv c" and notw: "\<And>k. ch \<notin> set (waiters (bst c) k)"
  shows "chan_inv (c\<lparr>waiting := (waiting c)(ch := None)\<rparr>)"
    and "chan_inv ((set_buf c ch None)\<lparr>waiting := (waiting c)(ch := None), returned := r\<rparr>)"
proof -
  have w: "x < next_ch c \<and> chan_idle c x \<and> x \<notin> fst ` set (sending c) \<and> x \<noteq> ch
      \<and> (\<exists>t ph. waiting c x = Some (k, t, ph) \<and> ph \<noteq> Left)" if "x \<in> set (waiters (bst c) k)" for x k
    using chan_inv_waiter [OF inv that] that notw by auto
  show "chan_inv (c\<lparr>waiting := (waiting c)(ch := None)\<rparr>)"
    by (rule chan_invI)
      (use w chan_inv_distinct [OF inv] chan_inv_sending [OF inv] chan_inv_new [OF inv] in \<open>auto simp: chan_idle_def\<close>)
  show "chan_inv ((set_buf c ch None)\<lparr>waiting := (waiting c)(ch := None), returned := r\<rparr>)"
    by (rule chan_invI)
      (use w chan_inv_distinct [OF inv] chan_inv_sending [OF inv] chan_inv_new [OF inv]
        in \<open>auto simp: chan_idle_def set_buf_def\<close>)
qed

lemma chan_inv_timer:
  assumes inv: "chan_inv c" and w: "waiting c ch = Some (mb, t, Blocked)"
  shows "chan_inv (c\<lparr>waiting := (waiting c)(ch \<mapsto> (mb, t, TimerFired))\<rparr>)"
proof (rule chan_invI, goal_cases)
  case (2 k x)
  then have "x \<in> set (waiters (bst c) k)" by simp
  from chan_inv_waiter [OF inv this] w show ?case by (auto simp: chan_idle_def)
next
  case (5 x)
  then show ?case using chan_inv_new [OF inv, of x] w by (auto simp: chan_idle_def)
qed (use chan_inv_distinct [OF inv] chan_inv_sending [OF inv] in \<open>auto simp: chan_idle_def\<close>)

lemma chan_inv_leave:
  assumes inv: "chan_inv c" and w: "waiting c ch = Some (mb, t, TimerFired)"
  shows "chan_inv (c\<lparr>bst := doWait_leave (bst c) mb ch, waiting := (waiting c)(ch \<mapsto> (mb, t, Left))\<rparr>)"
proof -
  have old: "x \<in> set (waiters (bst c) k) \<and> x \<noteq> ch" if "x \<in> set (waiters (doWait_leave (bst c) mb ch) k)" for x k
  proof -
    have x: "x \<in> set (waiters (bst c) k)"
      using that by (auto simp: doWait_leave_def split: if_splits dest: notin_set_remove1 set_remove1_subset [THEN subsetD])
    have "x \<noteq> ch"
    proof
      assume "x = ch"
      then have "k = mb" using chan_inv_waiter(4) [OF inv x] w by auto
      with that \<open>x = ch\<close> chan_inv_distinct(1) [OF inv, of mb] show False by (simp add: doWait_leave_def)
    qed
    with x show ?thesis ..
  qed
  show ?thesis
  proof (rule chan_invI, goal_cases)
    case (1 k)
    then show ?case using chan_inv_distinct(1) [OF inv] by (simp add: doWait_leave_def)
  next
    case (2 k x)
    then have "x \<in> set (waiters (bst c) k)" "x \<noteq> ch" using old by auto
    with chan_inv_waiter [OF inv this(1)] show ?case by (auto simp: chan_idle_def)
  next
    case (5 x)
    then show ?case using chan_inv_new [OF inv, of x] w by (auto simp: chan_idle_def)
  qed (use chan_inv_distinct [OF inv] chan_inv_sending [OF inv] in \<open>auto simp: chan_idle_def\<close>)
qed

lemma chan_inv_stop:
  assumes inv: "chan_inv c"
  shows "chan_inv (c\<lparr>bst := broker_stop (bst c),
    chans := (\<lambda>ch. if \<exists>k. ch \<in> set (waiters (bst c) k) then (chans c ch)\<lparr>closed := True\<rparr> else chans c ch)\<rparr>)"
proof -
  have s: "\<forall>k. x \<notin> set (waiters (bst c) k)" if "x \<in> fst ` set (sending c) \<or> next_ch c \<le> x" for x
    using chan_inv_waiter(1,3) [OF inv] that by (meson leD)
  show ?thesis
  proof (rule chan_invI, goal_cases)
    case (4 x m)
    then have "x \<in> fst ` set (sending c)" by force
    with 4 s [of x] chan_inv_sending [OF inv, of x m] show ?case by (auto simp: chan_idle_def)
  next
    case (5 x)
    then show ?case using s [of x] chan_inv_new [OF inv, of x] by (auto simp: chan_idle_def)
  qed (use chan_inv_distinct [OF inv] in \<open>auto simp: broker_stop_def\<close>)
qed

lemma chan_inv_step: "bstep c c' \<Longrightarrow> chan_inv c \<Longrightarrow> chan_inv c'"
proof (induction rule: bstep.induct)
  case (post_answer c req now b' r)
  then show ?case using doPost_answer [OF post_answer(1)] by (subst chan_inv_cong) auto
next
  case (post_handoff c req now b' ch m)
  then show ?case using doPost_handoff [OF post_handoff(1)] chan_inv_handoff by auto
next
  case (fetch c req b' r)
  then show ?case using doFetch_cases [OF fetch(1)] by (subst chan_inv_cong) auto
next
  case (wait_answer c req b' r)
  then show ?case using doWait_answer [OF wait_answer(1)] by (subst chan_inv_cong) auto
next
  case (wait_block c req b')
  then show ?case using doWait_block [OF wait_block(1)] chan_inv_block by simp
next
  case (receive c ch mb t m)
  then have "ch \<notin> set (waiters (bst c) k)" for k
    using chan_inv_waiter(2) [OF receive(3), of ch k] by (auto simp: chan_idle_def)
  with receive show ?case by (intro chan_inv_finish) auto
next
  case (receive_closed c ch mb t)
  then have "ch \<notin> set (waiters (bst c) k)" for k
    using chan_inv_waiter(2) [OF receive_closed(4), of ch k] by (auto simp: chan_idle_def)
  with receive_closed show ?case by (intro chan_inv_finish) auto
next
  case (drain c ch mb t m)
  then have "ch \<notin> set (waiters (bst c) k)" for k
    using chan_inv_waiter(4) [OF drain(3), of ch k] by auto
  with drain show ?case by (intro chan_inv_finish) auto
next
  case (drain_empty c ch mb t)
  then have "ch \<notin> set (waiters (bst c) k)" for k
    using chan_inv_waiter(4) [OF drain_empty(3), of ch k] by auto
  with drain_empty show ?case by (intro chan_inv_finish) auto
qed (auto intro: chan_inv_send chan_inv_timer chan_inv_leave chan_inv_stop)


subsection \<open>Every acknowledged message\<close>

lemma queued_waiters [simp]: "queued (b\<lparr>waiters := w\<rparr>) = queued b"
  by (simp add: queued_def)

lemma buffered_set_buf:
  "buffered (set_buf c ch mo) x = (if x = ch then (case mo of Some m \<Rightarrow> {#m#} | None \<Rightarrow> {#}) else buffered c x)"
  by (simp add: buffered_def set_buf_def)

lemma sum_buffered_set_buf:
  assumes "ch < n"
  shows "(\<Sum>x<n. buffered (set_buf c ch mo) x) + buffered c ch
    = (\<Sum>x<n. buffered c x) + (case mo of Some m \<Rightarrow> {#m#} | None \<Rightarrow> {#})"
proof -
  have "(\<Sum>x<n. f x) = f ch + (\<Sum>x\<in>{..<n} - {ch}. f x)" for f :: "nat \<Rightarrow> brokerMsg multiset"
    using assms by (simp add: sum.remove)
  moreover have "(\<Sum>x\<in>{..<n} - {ch}. buffered (set_buf c ch mo) x) = (\<Sum>x\<in>{..<n} - {ch}. buffered c x)"
    by (rule sum.cong) (simp_all add: buffered_set_buf)
  ultimately show ?thesis by (simp add: buffered_set_buf ac_simps)
qed

lemma buffered_cong: "(\<And>x. buf (chans c' x) = buf (chans c x)) \<Longrightarrow> buffered c' = buffered c"
  by (simp add: buffered_def fun_eq_iff)

lemma mset_remove1_snd:
  "(x, y) \<in> set xs \<Longrightarrow> mset (map snd xs) = mset (map snd (remove1 (x, y) xs)) + {#y#}"
  by (induction xs) (auto split: if_splits)

lemma account_take:
  assumes "account c" "chan_inv c" "buf (chans c ch) = Some m"
  shows "account ((set_buf c ch None)\<lparr>waiting := w, returned := m # returned c\<rparr>)"
proof -
  have lt: "ch < next_ch c" using chan_inv_new [OF assms(2), of ch] assms(3) by (auto simp: chan_idle_def not_less [symmetric])
  have "buffered ((set_buf c ch None)\<lparr>waiting := w, returned := m # returned c\<rparr>) = buffered (set_buf c ch None)"
    by (rule buffered_cong) simp
  with sum_buffered_set_buf [OF lt, of c None] assms(1,3) show ?thesis
    by (simp add: account_def set_buf_def buffered_def)
qed

lemma account_step:
  assumes "bstep c c'" "box_inv (bst c)" "chan_inv c" "account c"
  shows "account c'"
  using assms
proof (induction rule: bstep.induct)
  case (post_answer c req now b' r)
  have "queued (bst c) + mset (if is_ok r then [post_msg req now] else []) = queued b'"
    using doPost_answer [OF post_answer(1)]
      queued_update [OF box_invD(4) [OF post_answer(2)], of "qTo req" "box (bst c) (qTo req) @ [post_msg req now]"]
    by auto
  with post_answer(4) show ?case by (auto simp: account_def buffered_def split: if_splits)
next
  case (post_handoff c req now b' ch m)
  then show ?case
    using doPost_handoff [OF post_handoff(1)] by (auto simp: account_def buffered_def)
next
  case (send ch m c)
  have lt: "ch < next_ch c" using chan_inv_sending [OF send(4,1)] by simp
  have "buffered ((set_buf c ch (Some m))\<lparr>sending := remove1 (ch, m) (sending c)\<rparr>) = buffered (set_buf c ch (Some m))"
    by (rule buffered_cong) simp
  with sum_buffered_set_buf [OF lt, of c "Some m"] send(2,5) mset_remove1_snd [OF send(1)] show ?case
    by (simp add: account_def set_buf_def buffered_def)
next
  case (fetch c req b' r)
  have "queued (bst c) = queued b' + mset (resp_msgs r)"
    using doFetch_cases [OF fetch(1)] queued_update [OF box_invD(4) [OF fetch(2)], of _ "[]"]
    by (auto simp: resp_msgs_def)
  with fetch(4) show ?case by (simp add: account_def buffered_def ac_simps)
next
  case (wait_answer c req b' r)
  have "queued (bst c) = queued b' + mset (resp_msgs r)"
  proof (cases "b' = bst c \<and> resp_msgs r = []")
    case False
    then obtain k m ms where k: "box (bst c) k = m # ms" "r = OkMessage m"
      "b' = (bst c)\<lparr>boxes := AList.update k ms (boxes (bst c))\<rparr>"
      using doWait_answer [OF wait_answer(1)] by blast
    with queued_update [OF box_invD(4) [OF wait_answer(2)], of k ms] show ?thesis
      by (simp add: resp_msgs_def)
  qed simp
  with wait_answer(4) show ?case by (simp add: account_def buffered_def ac_simps)
next
  case (wait_block c req b')
  have "buf (chans c (next_ch c)) = None" using chan_inv_new [OF wait_block(3), of "next_ch c"] by (simp add: chan_idle_def)
  with wait_block doWait_block [OF wait_block(1)] show ?case by (simp add: account_def buffered_def)
next
  case (receive c ch mb t m)
  then show ?case by (intro account_take) auto
next
  case (drain c ch mb t m)
  then show ?case by (intro account_take) auto
next
  case (leave c ch mb t)
  then show ?case by (simp add: account_def buffered_def doWait_leave_def)
next
  case (stop c)
  let ?c = "c\<lparr>bst := broker_stop (bst c), chans := (\<lambda>ch. if \<exists>k. ch \<in> set (waiters (bst c) k)
      then (chans c ch)\<lparr>closed := True\<rparr> else chans c ch)\<rparr>"
  have "buffered ?c = buffered c" by (rule buffered_cong) simp
  with stop show ?case by (simp add: account_def broker_stop_def queued_def)
qed (simp_all add: account_def buffered_def)

lemma breach_inv: "breach c \<Longrightarrow> box_inv (bst c) \<and> chan_inv c \<and> account c"
proof (induction rule: breach.induct)
  case init
  show ?case
    by (simp add: init_config_def newBroker_def box_inv_def box_def chan_inv_def chan_idle_def account_def
        queued_def buffered_def)
next
  case (step c c')
  then show ?case using box_inv_step chan_inv_step account_step by blast
qed

subsection \<open>Two runs\<close>

definition wait_req :: brokerReq where
  "wait_req = \<lparr>qOp = ''wait'', qTo = [], qFrom = [], qMsg = [], qMailbox = ''a'', qTimeout = 1\<rparr>"

definition post_req :: brokerReq where
  "post_req = \<lparr>qOp = ''post'', qTo = ''a'', qFrom = ''b'', qMsg = ''hi'', qMailbox = [], qTimeout = 0\<rparr>"

text \<open>A handler waits on a mailbox, and a post has taken its channel but not sent yet.\<close>

definition handed_off :: config where
  "handed_off =
     init_config\<lparr>next_ch := 1, sending := [(0, post_msg post_req 5)], acked := [post_msg post_req 5],
       waiting := (\<lambda>_. None)(0 \<mapsto> (''a'', 1, Blocked))\<rparr>"

lemma breach_handed_off: "breach handed_off"
proof -
  let ?b = "newBroker\<lparr>waiters := (\<lambda>_. [])(''a'' := [0])\<rparr>"
  let ?c = "init_config\<lparr>bst := ?b, next_ch := 1, waiting := (\<lambda>_. None)(0 \<mapsto> (''a'', 1, Blocked))\<rparr>"
  have "doWait_enter (bst init_config) wait_req (next_ch init_config) = (?b, None)"
    by (simp add: doWait_enter_def wait_req_def init_config_def newBroker_def box_def maxWaitersPerBox_def)
  from bstep.wait_block [OF this] have "bstep init_config ?c"
    by (simp add: init_config_def wait_req_def wait_timeout_def)
  then have c: "breach ?c" by (rule breach.step [OF breach.init])
  have "doPost (bst ?c) post_req 5 = (newBroker, SendThenAnswer 0 (post_msg post_req 5))"
    by (simp add: doPost_def post_req_def post_msg_def newBroker_def Let_def fun_upd_idem)
  from bstep.post_handoff [OF this] have "bstep ?c handed_off"
    by (simp add: handed_off_def init_config_def)
  then show ?thesis by (rule breach.step [OF c])
qed

text \<open>The timer fires, the handler finds itself gone from the waiters and its channel empty, and
  answers with a timeout; only then does the send happen.\<close>

lemma breach_lost:
  "breach (handed_off\<lparr>bst := doWait_leave (bst handed_off) ''a'' 0, waiting := (\<lambda>_. None), sending := [],
     chans := (chans handed_off)(0 := \<lparr>buf = Some (post_msg post_req 5), closed = False\<rparr>)\<rparr>)"
proof -
  let ?w = "\<lambda>ph. (\<lambda>_. None)(0 \<mapsto> (''a'', 1, ph)) :: nat \<Rightarrow> (gostring \<times> int \<times> wait_phase) option"
  let ?l = "doWait_leave (bst handed_off) ''a'' 0"
  let ?c1 = "handed_off\<lparr>waiting := ?w TimerFired\<rparr>"
  let ?c2 = "handed_off\<lparr>bst := ?l, waiting := ?w Left\<rparr>"
  let ?c3 = "handed_off\<lparr>bst := ?l, waiting := (\<lambda>_. None)\<rparr>"
  have "bstep handed_off ?c1"
    using bstep.timer [of handed_off 0 "''a''" 1] by (simp add: handed_off_def)
  then have 1: "breach ?c1" by (rule breach.step [OF breach_handed_off])
  have "bstep ?c1 ?c2"
    using bstep.leave [of ?c1 0 "''a''" 1] by simp
  then have 2: "breach ?c2" by (rule breach.step [OF 1])
  have "bstep ?c2 ?c3"
    using bstep.drain_empty [of ?c2 0 "''a''" 1] by (simp add: handed_off_def init_config_def)
  then have 3: "breach ?c3" by (rule breach.step [OF 2])
  have "bstep ?c3 (?c3\<lparr>sending := [], chans := (chans handed_off)(0 := \<lparr>buf = Some (post_msg post_req 5), closed = False\<rparr>)\<rparr>)"
    using bstep.send [of 0 "post_msg post_req 5" ?c3] by (simp add: handed_off_def init_config_def set_buf_def)
  then show ?thesis using breach.step [OF 3] by simp
qed

lemma fetch_reach:
  "\<exists>c. breach c \<and> map fst (boxes (bst c)) = map (\<lambda>i. replicate (Suc i) (CHR ''a'')) [0..<n]"
proof (induction n)
  case 0
  show ?case using breach.init by (intro exI [of _ init_config]) (simp add: init_config_def newBroker_def)
next
  case (Suc n)
  then obtain c where c: "breach c" "map fst (boxes (bst c)) = map (\<lambda>i. replicate (Suc i) (CHR ''a'')) [0..<n]"
    by blast
  let ?k = "replicate (Suc n) (CHR ''a'')"
  let ?req = "post_req\<lparr>qMailbox := ?k\<rparr>"
  let ?b = "(bst c)\<lparr>boxes := AList.update ?k [] (boxes (bst c))\<rparr>"
  have "doFetch (bst c) ?req = (?b, OkMessages (box (bst c) ?k))"
    by (simp add: doFetch_def)
  from breach.step [OF c(1) bstep.fetch [OF this]] obtain c' where c': "breach c'" "bst c' = ?b" by force
  have new: "?k \<notin> set (map fst (boxes (bst c)))"
    unfolding c(2) by (auto simp del: replicate_Suc dest: arg_cong [of _ _ length])
  have "map fst (AList.update ?k [] al) = map fst al @ [?k]" if "?k \<notin> set (map fst al)" for al :: "(gostring \<times> brokerMsg list) list"
    using that by (induction al) auto
  from this [OF new] c' c(2) show ?case by (intro exI [of _ c']) simp
qed

subsection \<open>Properties\<close>

text \<open>C7: in every reachable configuration no queue and no waiter list exceeds its limit, and a
  mailbox never holds messages and waiters at the same time.\<close>

theorem broker_limits:
  assumes "breach c"
  shows "length (box (bst c) k) \<le> 10000 \<and> length (waiters (bst c) k) \<le> 100
    \<and> (box (bst c) k = [] \<or> waiters (bst c) k = [])"
  using breach_inv [OF assms] by (simp add: box_inv_def maxQueuePerBox_def maxWaitersPerBox_def)

theorem broker_limits_witness:
  "length (box (bst init_config) ''a'') \<le> 10000 \<and> length (waiters (bst init_config) ''a'') \<le> 100
    \<and> (box (bst init_config) ''a'' = [] \<or> waiters (bst init_config) ''a'' = [])"
  by (rule broker_limits [OF breach.init])

text \<open>C6: the send a post performs after releasing the lock never blocks and never hits a closed
  channel, in every interleaving: the channel is open and its one-element buffer is empty.\<close>

theorem broker_send_never_blocks:
  assumes "breach c" "(ch, m) \<in> set (sending c)"
  shows "buf (chans c ch) = None \<and> \<not> closed (chans c ch)"
  using chan_inv_sending [of c ch m] breach_inv [OF assms(1)] assms(2) by (simp add: chan_idle_def)

theorem broker_send_never_blocks_witness:
  "(0, post_msg post_req 5) \<in> set (sending handed_off)
   \<and> buf (chans handed_off 0) = None \<and> \<not> closed (chans handed_off 0)"
proof -
  have "(0, post_msg post_req 5) \<in> set (sending handed_off)" by (simp add: handed_off_def)
  with broker_send_never_blocks [OF breach_handed_off this] show ?thesis by simp
qed

text \<open>C5: every acknowledged message is accounted for exactly once in every interleaving: queued, on
  its way to a waiter, in a waiter's channel, or handed to a reader.\<close>

theorem broker_account:
  assumes "breach c"
  shows "mset (acked c) = queued (bst c) + mset (map snd (sending c))
      + (\<Sum>ch<next_ch c. buffered c ch) + mset (returned c)"
  using breach_inv [OF assms] by (simp add: account_def)

theorem broker_account_witness:
  "sending handed_off \<noteq> []
   \<and> mset (acked handed_off) = queued (bst handed_off) + mset (map snd (sending handed_off))
      + (\<Sum>ch<next_ch handed_off. buffered handed_off ch) + mset (returned handed_off)"
  using broker_account [OF breach_handed_off] by (simp add: handed_off_def)

text \<open>messages left in a mailbox are handed out in the order they were posted: a post to a
  mailbox without waiters appends, a wait takes the first, a fetch takes all in order.\<close>

theorem broker_fifo:
  "(doPost b req now = (b', Answer (OkInfo Queued)) \<longrightarrow>
      box b' (qTo req) = box b (qTo req) @ [post_msg req now] \<and> (\<forall>k. k \<noteq> qTo req \<longrightarrow> box b' k = box b k))
   \<and> (qMailbox req' \<noteq> [] \<and> box b (qMailbox req') = m # ms \<longrightarrow>
      (\<exists>b''. doWait_enter b req' ch = (b'', Some (OkMessage m)) \<and> box b'' (qMailbox req') = ms))
   \<and> (qMailbox req' \<noteq> [] \<longrightarrow>
      (\<exists>b''. doFetch b req' = (b'', OkMessages (box b (qMailbox req'))) \<and> box b'' (qMailbox req') = []))"
  using doPost_answer [of b req now b' "OkInfo Queued"]
  by (auto simp: doWait_enter_def doFetch_def box_update is_ok_def)


theorem broker_fifo_witness:
  "\<exists>b'. doPost newBroker post_req 5 = (b', Answer (OkInfo Queued))
     \<and> box b' ''a'' = [post_msg post_req 5]
     \<and> (\<exists>b''. doWait_enter b' wait_req 0 = (b'', Some (OkMessage (post_msg post_req 5))) \<and> box b'' ''a'' = [])"
proof -
  let ?b = "newBroker\<lparr>boxes := [(''a'', [post_msg post_req 5])]\<rparr>"
  have p: "doPost newBroker post_req 5 = (?b, Answer (OkInfo Queued))"
    by (simp add: doPost_def post_req_def post_msg_def newBroker_def Let_def box_def maxMailboxes_def maxQueuePerBox_def)
  have b: "box ?b ''a'' = [post_msg post_req 5]" by (simp add: box_def)
  show ?thesis
    using p b broker_fifo [of newBroker post_req 5 ?b] broker_fifo [of ?b _ _ _ wait_req "post_msg post_req 5" "[]" 0]
    by (simp add: post_req_def wait_req_def newBroker_def box_def)
qed

text \<open>C30: a message answered as delivered to a waiter can be lost. In this run the waiter's timer
  fires between the post's unlock and its send; the drain finds the channel empty, so the waiter
  reports a timeout, and the message ends up in a channel no handler reads: nothing is queued, in
  flight, waiting or returned.\<close>

theorem broker_can_lose_message:
  "\<exists>c m. breach c \<and> acked c = [m] \<and> returned c = [] \<and> sending c = [] \<and> queued (bst c) = {#}
         \<and> (\<forall>ch. waiting c ch = None)"
  using breach_lost
  by (intro exI conjI)
    (assumption, simp_all add: handed_off_def init_config_def newBroker_def doWait_leave_def queued_def)

text \<open>the mailbox limit does not bound the number of mailboxes: fetching from names that do not
  exist creates an entry each, so any number of entries is reachable.\<close>

theorem broker_mailboxes_unbounded:
  "\<exists>c. breach c \<and> length (boxes (bst c)) = n"
  using fetch_reach [of n] by (metis length_map length_upt minus_nat.diff_0)

end
