(* ===== verification/Go_Bytes.thy ===== *)
theory Go_Bytes
  imports Go_Strings
begin

text \<open>
  The part of Go's standard library that deals with byte slices and numbers: the conversions
  between strings and bytes, \<open>encoding/binary\<close>'s two byte orders, \<open>strconv.ParseUint\<close> and
  \<open>strconv.ParseInt\<close> with their bases, bit sizes and underscores, the hexadecimal verbs of
  \<open>fmt\<close> and \<open>unicode/utf16\<close>. The lemmas give the round trips the clients rely on.
\<close>

type_synonym uint16 = "16 word"
type_synonym uint32 = "32 word"
type_synonym uint64 = "64 word"

subsection \<open>Strings and bytes\<close>

lemma unat_less: "unat (w :: 'a::len word) < 2 ^ LENGTH('a)"
  by (rule unsigned_less)

definition bytes_of :: "gostring \<Rightarrow> bytes" where
  "bytes_of s = map of_char s"

definition string_of_bytes :: "bytes \<Rightarrow> gostring" where
  "string_of_bytes bs = map (\<lambda>b. char_of (unat b)) bs"

lemma unat_of_char: "unat (of_char c :: 8 word) = (of_char c :: nat)"
proof -
  have "unat (of_nat (of_char c) :: 8 word) = (of_char c :: nat) mod 256" by (simp add: unat_of_nat)
  then show ?thesis by (simp add: of_nat_of_char)
qed

lemma string_of_bytes_of [simp, go_simps]: "string_of_bytes (bytes_of s) = s"
  by (simp add: string_of_bytes_def bytes_of_def comp_def unat_of_char)

lemma length_bytes_of [simp]: "length (bytes_of s) = length s"
  by (simp add: bytes_of_def)

subsection \<open>Fields\<close>

text \<open>\<open>strings.FieldsFunc\<close>; \<open>strings.Fields\<close> splits around white space.\<close>

function fields_loop :: "(rune \<Rightarrow> bool) \<Rightarrow> gostring \<Rightarrow> gostring \<Rightarrow> gostring list" where
  "fields_loop P cur s =
     (if s = [] then (if cur = [] then [] else [cur])
      else case decode_rune s of (r, w) \<Rightarrow>
        if P r then (if cur = [] then [] else [cur]) @ fields_loop P [] (drop w s)
        else fields_loop P (cur @ take w s) (drop w s))"
  by pat_completeness auto
termination
  by (relation "measure (\<lambda>(P, cur, s). length s)")
    (simp_all, (metis decode_rune_width_pos diff_less length_greater_0_conv snd_conv)+)

declare fields_loop.simps [simp del]

definition FieldsFunc :: "(rune \<Rightarrow> bool) \<Rightarrow> gostring \<Rightarrow> gostring list" where
  "FieldsFunc P s = fields_loop P [] s"

definition Fields :: "gostring \<Rightarrow> gostring list" where
  "Fields s = FieldsFunc is_space s"

text \<open>Words of plain ASCII characters.\<close>

definition plain_word :: "gostring \<Rightarrow> bool" where
  "plain_word w = (w \<noteq> [] \<and> list_all (\<lambda>c. (of_char c :: nat) < 128 \<and> \<not> is_space (of_char c)) w)"

definition plain_for :: "(rune \<Rightarrow> bool) \<Rightarrow> gostring \<Rightarrow> bool" where
  "plain_for P w = (w \<noteq> [] \<and> list_all (\<lambda>c. (of_char c :: nat) < 128 \<and> \<not> P (of_char c)) w)"

lemma fields_loop_word:
  "list_all (\<lambda>c. (of_char c :: nat) < 128 \<and> \<not> P (of_char c)) w \<Longrightarrow>
     fields_loop P cur (w @ s) = fields_loop P (cur @ w) s"
proof (induction w arbitrary: cur)
  case (Cons c w)
  then show ?case
    using fields_loop.simps [of P cur "c # w @ s"] by (simp add: decode_rune_ascii)
qed simp

lemma FieldsFunc_Join: "P 32 \<Longrightarrow> list_all (plain_for P) ws \<Longrightarrow> FieldsFunc P (Join ws [SP]) = ws"
proof (induction ws)
  case Nil
  then show ?case by (simp add: FieldsFunc_def fields_loop.simps)
next
  case (Cons w ws)
  have w: "fields_loop P [] (w @ s) = fields_loop P w s" "w \<noteq> []" for s
    using Cons.prems fields_loop_word [of P w "[]" s] by (auto simp: plain_for_def)
  show ?case
  proof (cases "ws = []")
    case True
    then show ?thesis
      using w(1) [of "[]"] w(2) by (simp add: FieldsFunc_def fields_loop.simps [of _ w])
  next
    case False
    have "decode_rune (SP # s) = (32, 1)" for s using decode_rune_ascii [of SP s] by simp
    then have "fields_loop P w (SP # s) = w # fields_loop P [] s" for s
      using w(2) Cons.prems(1) by (simp add: fields_loop.simps [of _ w])
    with False Cons w(1) [of "SP # Join ws [SP]"] show ?thesis
      by (simp add: FieldsFunc_def Join_Cons)
  qed
qed

lemma Fields_Join: "list_all plain_word ws \<Longrightarrow> Fields (Join ws [SP]) = ws"
  unfolding Fields_def
  by (rule FieldsFunc_Join) (auto simp: is_space_def plain_word_def plain_for_def list_all_iff)

lemma TrimSpace_id:
  assumes "s \<noteq> []" "(of_char (hd s) :: nat) < 128" "\<not> is_space (of_char (hd s))"
    and "(of_char (last s) :: nat) < 128" "\<not> is_space (of_char (last s))"
  shows "TrimSpace s = s"
proof -
  obtain c cs where s: "s = c # cs" using assms(1) by (cases s) auto
  have "TrimLeftSpace s = s"
    using assms s by (simp add: TrimLeftSpace.simps [of "c # cs"] decode_rune_ascii)
  moreover have "decode_last_rune s = (of_char (last s), 1)"
    using assms by (simp add: decode_last_rune_def byte_at_def last_conv_nth)
  ultimately show ?thesis
    using assms by (simp add: TrimSpace_def TrimRightSpace.simps [of s])
qed

subsection \<open>Byte orders\<close>

datatype ByteOrder = LittleEndian | BigEndian

fun le_digits :: "nat \<Rightarrow> nat \<Rightarrow> bytes" where
  "le_digits 0 v = []"
| "le_digits (Suc n) v = word_of_nat v # le_digits n (v div 256)"

fun le_value :: "bytes \<Rightarrow> nat" where
  "le_value [] = 0"
| "le_value (b # bs) = unat b + 256 * le_value bs"

definition put_uint :: "ByteOrder \<Rightarrow> nat \<Rightarrow> nat \<Rightarrow> bytes" where
  "put_uint bo n v =
     (case bo of LittleEndian \<Rightarrow> le_digits n v | BigEndian \<Rightarrow> rev (le_digits n v))"

definition get_uint :: "ByteOrder \<Rightarrow> nat \<Rightarrow> bytes \<Rightarrow> nat" where
  "get_uint bo n bs =
     (case bo of LittleEndian \<Rightarrow> le_value (take n bs) | BigEndian \<Rightarrow> le_value (rev (take n bs)))"

definition PutUint16 :: "ByteOrder \<Rightarrow> uint16 \<Rightarrow> bytes" where
  "PutUint16 bo w = put_uint bo 2 (unat w)"

definition PutUint32 :: "ByteOrder \<Rightarrow> uint32 \<Rightarrow> bytes" where
  "PutUint32 bo w = put_uint bo 4 (unat w)"

definition PutUint64 :: "ByteOrder \<Rightarrow> uint64 \<Rightarrow> bytes" where
  "PutUint64 bo w = put_uint bo 8 (unat w)"

definition Uint16 :: "ByteOrder \<Rightarrow> bytes \<Rightarrow> uint16" where
  "Uint16 bo bs = word_of_nat (get_uint bo 2 bs)"

definition Uint32 :: "ByteOrder \<Rightarrow> bytes \<Rightarrow> uint32" where
  "Uint32 bo bs = word_of_nat (get_uint bo 4 bs)"

definition Uint64 :: "ByteOrder \<Rightarrow> bytes \<Rightarrow> uint64" where
  "Uint64 bo bs = word_of_nat (get_uint bo 8 bs)"

lemma le_digits_numeral [simp]:
  "le_digits (numeral k) v = word_of_nat v # le_digits (pred_numeral k) (v div 256)"
  by (subst numeral_eq_Suc [of k]) (rule le_digits.simps)

lemma length_le_digits [simp]: "length (le_digits n v) = n"
  by (induction n arbitrary: v) auto

lemma length_put_uint [simp]: "length (put_uint bo n v) = n"
  by (simp add: put_uint_def split: ByteOrder.split)

lemma le_value_digits: "le_value (le_digits n v) = v mod 256 ^ n"
proof (induction n arbitrary: v)
  case (Suc n)
  have "v mod 256 + 256 * (v div 256 mod 256 ^ n) = v mod (256 * 256 ^ n)"
    by (metis mod_mult2_eq add.commute)
  then show ?case using Suc by (simp add: unat_of_nat)
qed simp

lemma le_digits_value: "le_digits (length bs) (le_value bs) = bs"
proof (induction bs)
  case (Cons b bs)
  have lt: "unat b < 256" using unat_less [of b] by simp
  then have "(unat b + 256 * le_value bs) div 256 = le_value bs" by simp
  moreover have "word_of_nat (unat b + 256 * le_value bs) = b"
    using lt by (intro word_unat_eq_iff [THEN iffD2]) (simp only: unat_of_nat, simp)
  ultimately show ?case using Cons by simp
qed simp

lemma le_value_less: "le_value bs < 256 ^ length bs"
  by (metis le_value_digits le_digits_value mod_less_divisor zero_less_numeral zero_less_power)

lemma get_put_uint [go_simps]: "get_uint bo n (put_uint bo n v @ rest) = v mod 256 ^ n"
  by (simp add: get_uint_def put_uint_def le_value_digits split: ByteOrder.split)

lemma put_get_uint: "length bs = n \<Longrightarrow> put_uint bo n (get_uint bo n bs) = bs"
  using le_digits_value [of bs] le_digits_value [of "rev bs"]
  by (auto simp: get_uint_def put_uint_def split: ByteOrder.split)

lemma get_uint_less: "get_uint bo n bs < 256 ^ n"
proof -
  have "le_value (take n bs) < 256 ^ n"
    using le_value_less [of "take n bs"] by (rule less_le_trans) (simp add: power_increasing)
  moreover have "le_value (rev (take n bs)) < 256 ^ n"
    using le_value_less [of "rev (take n bs)"] by (rule less_le_trans) (simp add: power_increasing)
  ultimately show ?thesis by (simp add: get_uint_def split: ByteOrder.split)
qed

lemma Uint16_Put [simp, go_simps]: "Uint16 bo (PutUint16 bo w @ rest) = w"
  using unat_less [of w] by (simp add: Uint16_def PutUint16_def get_put_uint)

lemma Uint32_Put [simp, go_simps]: "Uint32 bo (PutUint32 bo w @ rest) = w"
  using unat_less [of w] by (simp add: Uint32_def PutUint32_def get_put_uint)

lemma Uint64_Put [simp, go_simps]: "Uint64 bo (PutUint64 bo w @ rest) = w"
  using unat_less [of w] by (simp add: Uint64_def PutUint64_def get_put_uint)

lemmas Uint_Put0 [simp, go_simps] =
  Uint16_Put [where rest = "[]", simplified] Uint32_Put [where rest = "[]", simplified]
  Uint64_Put [where rest = "[]", simplified]

lemma length_Put [simp]:
  "length (PutUint16 bo w2) = 2" "length (PutUint32 bo w4) = 4" "length (PutUint64 bo w8) = 8"
  by (simp_all add: PutUint16_def PutUint32_def PutUint64_def)

lemma unat_Uint16: "unat (Uint16 bo bs) = get_uint bo 2 bs"
  using get_uint_less [of bo 2 bs] by (simp add: Uint16_def unat_of_nat)

lemma unat_Uint32: "unat (Uint32 bo bs) = get_uint bo 4 bs"
  using get_uint_less [of bo 4 bs] by (simp add: Uint32_def unat_of_nat)

lemma unat_Uint64: "unat (Uint64 bo bs) = get_uint bo 8 bs"
  using get_uint_less [of bo 8 bs] by (simp add: Uint64_def unat_of_nat)

lemma Put_Uint:
  "length bs = 2 \<Longrightarrow> PutUint16 bo (Uint16 bo bs) = bs"
  "length bs = 4 \<Longrightarrow> PutUint32 bo (Uint32 bo bs) = bs"
  "length bs = 8 \<Longrightarrow> PutUint64 bo (Uint64 bo bs) = bs"
  by (simp_all add: PutUint16_def PutUint32_def PutUint64_def unat_Uint16 unat_Uint32 unat_Uint64 put_get_uint)

subsection \<open>Parsing numbers\<close>

datatype num_error = ErrSyntax | ErrRange

definition digit_of :: "char \<Rightarrow> nat option" where
  "digit_of c =
     (let k = of_char c in
      if 48 \<le> k \<and> k \<le> 57 then Some (k - 48)
      else if 97 \<le> k \<and> k \<le> 122 then Some (k - 87)
      else if 65 \<le> k \<and> k \<le> 90 then Some (k - 55) else None)"

fun parse_digits :: "nat \<Rightarrow> bool \<Rightarrow> nat \<Rightarrow> nat \<Rightarrow> gostring \<Rightarrow> num_error + nat" where
  "parse_digits base base0 maxVal n [] = Inr n"
| "parse_digits base base0 maxVal n (c # cs) =
     (if c = CHR ''_'' \<and> base0 then parse_digits base base0 maxVal n cs
      else case digit_of c of
             None \<Rightarrow> Inl ErrSyntax
           | Some d \<Rightarrow>
               if base \<le> d then Inl ErrSyntax
               else if maxVal < n * base + d then Inl ErrRange
               else parse_digits base base0 maxVal (n * base + d) cs)"

datatype seen = SawStart | SawDigit | SawUnderscore | SawOther

fun underscore_loop :: "bool \<Rightarrow> seen \<Rightarrow> gostring \<Rightarrow> bool" where
  "underscore_loop hex saw [] = (saw \<noteq> SawUnderscore)"
| "underscore_loop hex saw (c # cs) =
     (if (case digit_of c of Some d \<Rightarrow> d < 10 \<or> hex \<and> d < 16 | None \<Rightarrow> False)
      then underscore_loop hex SawDigit cs
      else if c = CHR ''_'' then saw = SawDigit \<and> underscore_loop hex SawUnderscore cs
      else saw \<noteq> SawUnderscore \<and> underscore_loop hex SawOther cs)"

definition has_base_prefix :: "gostring \<Rightarrow> bool" where
  "has_base_prefix s = (2 \<le> length s \<and> s ! 0 = CHR ''0'' \<and> s ! 1 \<in> set ''bBoOxX'')"

definition underscoreOK :: "gostring \<Rightarrow> bool" where
  "underscoreOK s0 =
     (let s = (if s0 \<noteq> [] \<and> hd s0 \<in> set ''+-'' then tl s0 else s0) in
      if has_base_prefix s then underscore_loop (s ! 1 \<in> set ''xX'') SawDigit (drop 2 s)
      else underscore_loop False SawStart s)"

text \<open>Base and digits of a literal for base 0.\<close>

definition literal_base :: "gostring \<Rightarrow> nat \<times> gostring" where
  "literal_base s =
     (if hd s \<noteq> CHR ''0'' then (10, s)
      else if 3 \<le> length s \<and> s ! 1 \<in> set ''bB'' then (2, drop 2 s)
      else if 3 \<le> length s \<and> s ! 1 \<in> set ''oO'' then (8, drop 2 s)
      else if 3 \<le> length s \<and> s ! 1 \<in> set ''xX'' then (16, drop 2 s)
      else (8, drop 1 s))"

definition ParseUint :: "gostring \<Rightarrow> nat \<Rightarrow> nat \<Rightarrow> num_error + nat" where
  "ParseUint s base bits =
     (if s = [] then Inl ErrSyntax
      else case (if base = 0 then literal_base s else (base, s)) of (b, ds) \<Rightarrow>
        case parse_digits b (base = 0) (2 ^ bits - 1) 0 ds of
          Inl e \<Rightarrow> Inl e
        | Inr n \<Rightarrow> if base = 0 \<and> CHR ''_'' \<in> set ds \<and> \<not> underscoreOK s then Inl ErrSyntax else Inr n)"

definition ParseInt :: "gostring \<Rightarrow> nat \<Rightarrow> nat \<Rightarrow> num_error + int" where
  "ParseInt s base bits =
     (if s = [] then Inl ErrSyntax
      else let neg = (hd s = CHR ''-''); ds = (if hd s \<in> set ''+-'' then tl s else s) in
        case ParseUint ds base bits of
          Inl e \<Rightarrow> Inl e
        | Inr un \<Rightarrow>
            if \<not> neg \<and> 2 ^ (bits - 1) \<le> un then Inl ErrRange
            else if neg \<and> 2 ^ (bits - 1) < un then Inl ErrRange
            else Inr (if neg then - int un else int un))"

lemma parse_digits_bound: "parse_digits b b0 m n s = Inr r \<Longrightarrow> n \<le> m \<Longrightarrow> r \<le> m"
  by (induction b b0 m n s rule: parse_digits.induct) (auto split: if_splits option.splits)

lemma ParseUint_less:
  assumes "ParseUint s base bits = Inr n"
  shows "n < 2 ^ bits"
proof -
  obtain b ds where "parse_digits b (base = 0) (2 ^ bits - 1) 0 ds = Inr n"
    using assms by (auto simp: ParseUint_def split: if_splits prod.splits sum.splits)
  from parse_digits_bound [OF this] have "n \<le> 2 ^ bits - 1" by simp
  then show ?thesis by (metis Suc_pred' le_imp_less_Suc zero_less_numeral zero_less_power)
qed

lemma ParseInt_range:
  assumes "ParseInt s base bits = Inr v"
  shows "- (2 ^ (bits - 1)) \<le> v \<and> v < 2 ^ (bits - 1)"
proof -
  have pow: "int (2 ^ k) = 2 ^ k" for k by simp
  obtain un where "ParseUint (if hd s \<in> set ''+-'' then tl s else s) base bits = Inr un"
    using assms unfolding ParseInt_def Let_def by (auto split: if_splits sum.splits)
  then have un: "v = - int un \<and> un \<le> 2 ^ (bits - 1) \<or> v = int un \<and> un < 2 ^ (bits - 1)"
    using assms unfolding ParseInt_def Let_def by (auto split: if_splits)
  then show ?thesis
    using of_nat_le_iff [of un "2 ^ (bits - 1)", where 'a = int] of_nat_less_iff [of un "2 ^ (bits - 1)", where 'a = int]
    unfolding pow by (smt (verit) of_nat_0_le_iff zero_less_power)
qed

subsection \<open>Decimal numbers are read back\<close>

lemma char_of_48: "char_of (48 :: nat) = CHR ''0''"
  by code_simp

lemma digit_of_is_digit: "is_digit c \<Longrightarrow> digit_of c = Some (digit_val c)"
  by (simp add: is_digit_def digit_of_def digit_val_def Let_def)

lemma parse_digits_decimal:
  assumes "list_all is_digit ds" "foldl (\<lambda>n c. n * 10 + digit_val c) n ds \<le> m"
  shows "parse_digits 10 b0 m n ds = Inr (foldl (\<lambda>n c. n * 10 + digit_val c) n ds)"
  using assms
proof (induction ds arbitrary: n)
  case (Cons c ds)
  have mono: "k \<le> foldl (\<lambda>n c. n * 10 + digit_val c) k xs" for k xs
  proof (induction xs arbitrary: k)
    case (Cons x xs)
    have "k \<le> k * 10 + digit_val x" by simp
    also have "\<dots> \<le> foldl (\<lambda>n c. n * 10 + digit_val c) (k * 10 + digit_val x) xs" by (rule Cons)
    finally show ?case by simp
  qed simp
  have "n * 10 + digit_val c \<le> m" using Cons.prems mono [of "n * 10 + digit_val c" ds] by simp
  moreover have "digit_val c < 10" using Cons.prems by (auto simp: is_digit_def digit_val_def)
  moreover have "c \<noteq> CHR ''_''" using Cons.prems by (auto simp: is_digit_def)
  ultimately show ?case using Cons by (simp add: digit_of_is_digit)
qed simp

lemma show_nat_hd_nonzero: "0 < n \<Longrightarrow> hd (show_nat n) \<noteq> CHR ''0''"
proof (induction n rule: show_nat.induct)
  case (1 n)
  have d: "digit_char n \<noteq> CHR ''0''" if "n < 10" "0 < n" for n
    using digit_char_val [of n] that by (auto simp: digit_val_def)
  show ?case
  proof (cases "n < 10")
    case True
    then show ?thesis using d 1 by (subst show_nat.simps) simp
  next
    case False
    then show ?thesis using 1 by (subst show_nat.simps) simp
  qed
qed

lemma no_underscore: "list_all is_digit ds \<Longrightarrow> CHR ''_'' \<notin> set ds"
  by (auto simp: list_all_iff is_digit_def)

lemma ParseUint_show_nat:
  assumes "n < 2 ^ bits"
  shows "ParseUint (show_nat n) 0 bits = Inr n"
proof (cases "n = 0")
  case True
  have "show_nat 0 = ''0''" by (subst show_nat.simps) (simp add: digit_char_def char_of_48)
  then show ?thesis using True by (simp add: ParseUint_def literal_base_def)
next
  case False
  have "literal_base (show_nat n) = (10, show_nat n)"
    using show_nat_hd_nonzero [of n] False by (simp add: literal_base_def)
  moreover have "parse_digits 10 True (2 ^ bits - 1) 0 (show_nat n) = Inr n"
    using parse_digits_decimal [OF show_nat_digits, of 0 n "2 ^ bits - 1" True] assms
      digits_val_show_nat [of n] by (simp add: digits_val_def del: digits_val_show_nat)
  ultimately show ?thesis
    using no_underscore [OF show_nat_digits, of n] by (simp add: ParseUint_def)
qed

lemma ParseInt_show_int:
  assumes "- (2 ^ (bits - 1)) \<le> v" "v < 2 ^ (bits - 1)" "0 < bits"
  shows "ParseInt (show_int v) 0 bits = Inr v"
proof -
  have le: "(2::nat) ^ (bits - 1) < 2 ^ bits" using assms(3) by simp
  show ?thesis
  proof (cases "v < 0")
    case True
    then have n: "nat (- v) \<le> 2 ^ (bits - 1)" using assms(1) by (simp add: nat_le_iff)
    then have "ParseUint (show_nat (nat (- v))) 0 bits = Inr (nat (- v))"
      by (intro ParseUint_show_nat le_less_trans [OF _ le])
    then show ?thesis using True n by (simp add: ParseInt_def show_int_def)
  next
    case False
    then have n: "nat v < 2 ^ (bits - 1)" using assms(2) by (simp add: nat_less_iff)
    then have "ParseUint (show_nat (nat v)) 0 bits = Inr (nat v)"
      by (intro ParseUint_show_nat less_trans [OF _ le])
    then show ?thesis
      using False n is_digit_not_sign [OF hd_show_nat [of "nat v"]]
      by (simp add: ParseInt_def show_int_def Let_def)
  qed
qed

subsection \<open>Hexadecimal output\<close>

definition hex_digit :: "nat \<Rightarrow> char" where
  "hex_digit d = (if d < 10 then char_of (48 + d) else char_of (55 + d))"

fun show_hex :: "nat \<Rightarrow> gostring" where
  "show_hex n = (if n < 16 then [hex_digit n] else show_hex (n div 16) @ [hex_digit (n mod 16)])"

declare show_hex.simps [simp del]

text \<open>\<open>%0wX\<close>: padded with zeros on the left to \<open>w\<close> digits.\<close>

definition show_hex_pad :: "nat \<Rightarrow> nat \<Rightarrow> gostring" where
  "show_hex_pad w n = replicate (w - length (show_hex n)) (CHR ''0'') @ show_hex n"

lemma digit_of_hex [simp]: "d < 16 \<Longrightarrow> digit_of (hex_digit d) = Some d"
  by (simp add: digit_of_def hex_digit_def Let_def)

lemma hex_digit_not_underscore [simp]: "d < 16 \<Longrightarrow> hex_digit d \<noteq> CHR ''_''"
  using digit_of_hex [of d] by (auto simp: digit_of_def Let_def)

lemma parse_digits_append:
  "parse_digits b b0 m n (xs @ ys) =
     (case parse_digits b b0 m n xs of Inl e \<Rightarrow> Inl e | Inr k \<Rightarrow> parse_digits b b0 m k ys)"
  by (induction b b0 m n xs rule: parse_digits.induct) (auto split: option.split)

lemma parse_digits_hex: "n \<le> m \<Longrightarrow> parse_digits 16 b0 m 0 (show_hex n) = Inr n"
proof (induction n rule: show_hex.induct)
  case (1 n)
  show ?case
  proof (cases "n < 16")
    case True
    then show ?thesis using 1 by (subst show_hex.simps) simp
  next
    case False
    have "parse_digits 16 b0 m 0 (show_hex (n div 16)) = Inr (n div 16)" using 1 False by simp
    then show ?thesis
      using False 1 by (subst show_hex.simps) (simp add: parse_digits_append)
  qed
qed

lemma show_hex_digits: "c \<in> set (show_hex n) \<Longrightarrow> \<exists>d<16. c = hex_digit d"
proof (induction n rule: show_hex.induct)
  case (1 n)
  have "\<exists>d<16. hex_digit (n mod 16) = hex_digit d" by (rule exI [of _ "n mod 16"]) simp
  with 1 show ?case by (subst (asm) (2) show_hex.simps) (auto split: if_splits)
qed

lemma show_hex_not_Nil [simp]: "show_hex n \<noteq> []"
  by (subst show_hex.simps) simp

lemma show_hex_no_underscore: "CHR ''_'' \<notin> set (show_hex n)"
  using show_hex_digits hex_digit_not_underscore by metis

lemma ParseUint_show_hex: "n < 2 ^ bits \<Longrightarrow> ParseUint (show_hex n) 16 bits = Inr n"
  by (simp add: ParseUint_def parse_digits_hex show_hex_no_underscore)

lemma ParseUint_hex_literal:
  assumes "n < 2 ^ bits"
  shows "ParseUint (''0x'' @ show_hex n) 0 bits = Inr n"
proof -
  have "literal_base (''0x'' @ show_hex n) = (16, show_hex n)"
    by (cases "show_hex n") (simp_all add: literal_base_def)
  then show ?thesis
    using assms by (simp add: ParseUint_def parse_digits_hex show_hex_no_underscore)
qed

lemma show_hex_byte: "n < 256 \<Longrightarrow> show_hex_pad 2 n = [hex_digit (n div 16), hex_digit (n mod 16)]"
  using show_hex.simps [of n] show_hex.simps [of "n div 16"]
  by (auto simp: show_hex_pad_def hex_digit_def char_of_48)

lemma ParseUint_hex_byte:
  assumes "n < 256"
  shows "ParseUint (show_hex_pad 2 n) 16 8 = Inr n"
proof -
  have "n div 16 < 16" using assms by simp
  then show ?thesis
    using assms by (simp add: show_hex_byte ParseUint_def)
qed

subsection \<open>UTF-16\<close>

fun utf16_encode :: "rune list \<Rightarrow> nat list" where
  "utf16_encode [] = []"
| "utf16_encode (r # rs) =
     (if r < 0xD800 \<or> 0xE000 \<le> r \<and> r < 0x10000 then r # utf16_encode rs
      else if 0x10000 \<le> r \<and> r \<le> 0x10FFFF
      then (0xD800 + (r - 0x10000) div 1024) # (0xDC00 + (r - 0x10000) mod 1024) # utf16_encode rs
      else RuneError # utf16_encode rs)"

fun utf16_decode :: "nat list \<Rightarrow> rune list" where
  "utf16_decode [] = []"
| "utf16_decode [u] = [if 0xD800 \<le> u \<and> u < 0xE000 then RuneError else u]"
| "utf16_decode (u # v # us) =
     (if u < 0xD800 \<or> 0xE000 \<le> u then u # utf16_decode (v # us)
      else if u < 0xDC00 \<and> 0xDC00 \<le> v \<and> v < 0xE000
      then ((u - 0xD800) * 1024 + (v - 0xDC00) + 0x10000) # utf16_decode us
      else RuneError # utf16_decode (v # us))"

lemma utf16_decode_plain:
  "u < 0xD800 \<or> 0xE000 \<le> u \<Longrightarrow> utf16_decode (u # us) = u # utf16_decode us"
  by (cases us) auto

lemma utf16_decode_encode [go_simps]: "utf16_decode (utf16_encode rs) = map rune_norm rs"
proof (induction rs)
  case (Cons r rs)
  show ?case
  proof (cases "r < 0x10000")
    case True
    then show ?thesis
      using Cons by (auto simp: utf16_decode_plain rune_norm_def valid_rune_def)
  next
    case big: False
    show ?thesis
    proof (cases "r \<le> 0x10FFFF")
      case True
      have "(r - 0x10000) div 1024 < 1024" using True big by simp
      moreover have "(r - 0x10000) div 1024 * 1024 + (r - 0x10000) mod 1024 + 0x10000 = r"
        using big by simp
      ultimately show ?thesis
        using True big Cons by (simp add: rune_norm_def valid_rune_def del: div_mult_mod_eq)
    next
      case False
      then show ?thesis using Cons by (simp add: utf16_decode_plain rune_norm_def valid_rune_def)
    qed
  qed
qed simp

lemma utf16_encode_bound: "u \<in> set (utf16_encode rs) \<Longrightarrow> u < 65536"
  by (induction rs) (auto split: if_splits)

end
