(* ===== verification/Pools.thy ===== *)
theory Pools
  imports Go_Strings "HOL-Library.AList" "HOL-Library.Multiset"
begin

text \<open>
  Pools of connections, and the pool of ssh clients (tools/ssh/pool.go). A pool is a Go map, modelled
  as an association list with distinct keys whose order is the order the next \<open>range\<close> visits; the
  step relations may reorder it at any time. Each critical section is a function, and the step
  relation of the ssh pool interleaves the sections of any number of callers. The eviction contract
  that the bounded pools rely on is the locale \<open>lru_pool\<close>; the pool of ipc connections interprets
  it too.
\<close>

subsection \<open>Choosing the oldest entry\<close>

definition older :: "gostring \<times> int \<Rightarrow> gostring \<times> int \<Rightarrow> gostring \<times> int" where
  "older best e = (if fst best = [] \<or> snd e < snd best then e else best)"

definition oldest_key :: "(gostring \<times> int) list \<Rightarrow> gostring" where
  "oldest_key es = fst (foldl older ([], 0) es)"

lemma foldl_older:
  assumes "\<forall>e\<in>set es. fst e \<noteq> []" "fst b \<noteq> []"
  shows "foldl older b es \<in> insert b (set es) \<and> (\<forall>e\<in>insert b (set es). snd (foldl older b es) \<le> snd e)"
  using assms
proof (induction es arbitrary: b)
  case (Cons e es)
  have "fst (older b e) \<noteq> []" "older b e \<in> {b, e}" "snd (older b e) \<le> snd b" "snd (older b e) \<le> snd e"
    using Cons.prems by (auto simp: older_def)
  with Cons.IH [of "older b e"] Cons.prems show ?case by auto
qed simp

lemma oldest_key_min:
  assumes "\<forall>e\<in>set es. fst e \<noteq> []" "es \<noteq> []"
  obtains t where "(oldest_key es, t) \<in> set es" "\<forall>e\<in>set es. t \<le> snd e"
proof -
  obtain e es' where es: "es = e # es'" using assms(2) by (cases es) auto
  then have "foldl older ([], 0) es = foldl older e es'" by (simp add: older_def)
  with foldl_older [of es' e] assms(1) es have
    "foldl older ([], 0) es \<in> set es" "\<forall>x\<in>set es. snd (foldl older ([], 0) es) \<le> snd x" by auto
  with that [of "snd (foldl older ([], 0) es)"] show ?thesis by (simp add: oldest_key_def)
qed

subsection \<open>The eviction contract\<close>

text \<open>Evicting from a well-formed, non-empty pool removes something and adds nothing; with it, making
  room before an insertion keeps a pool within its capacity.\<close>

definition pool_wf :: "(gostring \<times> 'e) list \<Rightarrow> bool" where
  "pool_wf p = (distinct (map fst p) \<and> [] \<notin> fst ` set p)"

locale lru_pool =
  fixes evict :: "(gostring \<times> 'e) list \<Rightarrow> (gostring \<times> 'e) list" and cap :: nat
  assumes cap_pos: "0 < cap"
    and evict_wf: "pool_wf p \<Longrightarrow> pool_wf (evict p)"
    and evict_shrinks: "pool_wf p \<Longrightarrow> p \<noteq> [] \<Longrightarrow> length (evict p) < length p"
    and evict_subset: "pool_wf p \<Longrightarrow> set (evict p) \<subseteq> set p"
begin

lemma room: "pool_wf p \<Longrightarrow> length p \<le> cap \<Longrightarrow> length (if cap \<le> length p then evict p else p) < cap"
  using cap_pos evict_shrinks [of p] by (cases "p = []") auto

lemma room_wf: "pool_wf p \<Longrightarrow> pool_wf (if cap \<le> length p then evict p else p)"
  by (simp add: evict_wf)

lemma room_le: "pool_wf p \<Longrightarrow> length p \<le> cap \<Longrightarrow> length (if cap \<le> length p then evict p else p) \<le> cap"
  using room by (simp add: less_imp_le)

lemma insert_bound:
  assumes "pool_wf p" "length p \<le> cap"
  shows "length (AList.update k v (if cap \<le> length p then evict p else p)) \<le> cap"
proof -
  have "length (AList.update k v q) \<le> Suc (length q)" for q :: "(gostring \<times> 'e) list"
    by (induction q) auto
  from this [of "if cap \<le> length p then evict p else p"] room [OF assms] show ?thesis by simp
qed

end

lemma pool_wf_update: "pool_wf p \<Longrightarrow> k \<noteq> [] \<Longrightarrow> pool_wf (AList.update k v p)"
  unfolding pool_wf_def dom_update by (simp add: distinct_update)

lemma delete_conv_filter: "AList.delete k p = filter (\<lambda>e. fst e \<noteq> k) p"
  by (induction p) auto

lemma pool_wf_filter: "pool_wf p \<Longrightarrow> pool_wf (filter P p)"
  by (auto simp: pool_wf_def distinct_map intro: inj_on_subset)

lemma pool_wf_delete: "pool_wf p \<Longrightarrow> pool_wf (AList.delete k p)"
  by (simp add: delete_conv_filter pool_wf_filter)

lemma length_delete_less: "k \<in> fst ` set p \<Longrightarrow> length (AList.delete k p) < length p"
proof -
  assume "k \<in> fst ` set p"
  then obtain v where "(k, v) \<in> set p" by auto
  then show ?thesis
    unfolding delete_conv_filter by (intro length_filter_less [of "(k, v)"]) auto
qed

lemma oldest_key_in:
  fixes used :: "'e \<Rightarrow> int"
  assumes "pool_wf ss" "ss \<noteq> []"
  obtains e where "(oldest_key (map (\<lambda>(k, e). (k, used e)) ss), e) \<in> set ss"
    "oldest_key (map (\<lambda>(k, e). (k, used e)) ss) \<noteq> []" "\<forall>(k, e')\<in>set ss. used e \<le> used e'"
proof -
  let ?es = "map (\<lambda>(k, e). (k, used e)) ss"
  have ne: "\<forall>e\<in>set ?es. fst e \<noteq> []" using assms(1) by (force simp: pool_wf_def)
  obtain t where t: "(oldest_key ?es, t) \<in> set ?es" "\<forall>e\<in>set ?es. t \<le> snd e"
    using oldest_key_min [OF ne] assms(2) by auto
  then obtain e where e: "(oldest_key ?es, e) \<in> set ss" "used e = t" by auto
  moreover have "oldest_key ?es \<noteq> []" using e(1) assms(1) by (force simp: pool_wf_def)
  moreover have "\<forall>(k, e')\<in>set ss. used e \<le> used e'" using t(2) e(2) by force
  ultimately show ?thesis using that by blast
qed

text \<open>Pools whose entries may be busy: eviction leaves the busy entries alone and removes the one that
  was used longest ago among the others, if there is one.\<close>

locale idle_pool =
  fixes used :: "'e \<Rightarrow> int" and busy :: "'e \<Rightarrow> bool" and evict :: "(gostring \<times> 'e) list \<Rightarrow> (gostring \<times> 'e) list"
  assumes evict_none: "pool_wf p \<Longrightarrow> list_all (busy \<circ> snd) p \<Longrightarrow> evict p = p"
    and evict_some: "pool_wf p \<Longrightarrow> \<not> list_all (busy \<circ> snd) p \<Longrightarrow>
      \<exists>k e. (k, e) \<in> set p \<and> \<not> busy e \<and> evict p = AList.delete k p
        \<and> (\<forall>(k', e')\<in>set p. \<not> busy e' \<longrightarrow> used e \<le> used e')"
begin

lemma evict_cases:
  assumes "pool_wf p"
  obtains (all_busy) "list_all (busy \<circ> snd) p" "evict p = p"
  | (one) k e where "(k, e) \<in> set p" "\<not> busy e" "evict p = AList.delete k p"
      "\<forall>(k', e')\<in>set p. \<not> busy e' \<longrightarrow> used e \<le> used e'"
  using evict_none [OF assms] evict_some [OF assms] by blast

lemma evict_wf: "pool_wf p \<Longrightarrow> pool_wf (evict p)"
  by (rule evict_cases) (auto simp: pool_wf_delete)

lemma evict_subset: "pool_wf p \<Longrightarrow> set (evict p) \<subseteq> set p"
  by (rule evict_cases) (auto simp: delete_conv_filter)

lemma evict_keeps_busy: "pool_wf p \<Longrightarrow> (k, e) \<in> set p \<Longrightarrow> busy e \<Longrightarrow> (k, e) \<in> set (evict p)"
  by (rule evict_cases [of p]) (auto simp: delete_conv_filter pool_wf_def dest: eq_key_imp_eq_value)

lemma evict_shrinks: "pool_wf p \<Longrightarrow> \<not> list_all (busy \<circ> snd) p \<Longrightarrow> length (evict p) < length p"
  by (rule evict_cases [of p]) (force intro: length_delete_less)+

lemma evict_le: "pool_wf p \<Longrightarrow> length (evict p) \<le> length p"
  by (rule evict_cases [of p]) (auto simp: delete_conv_filter)

end

text \<open>With no entry ever busy this is the contract of a pool with a hard capacity.\<close>

locale never_busy_pool = idle_pool used busy evict
  for used :: "'e \<Rightarrow> int" and busy :: "'e \<Rightarrow> bool" and evict :: "(gostring \<times> 'e) list \<Rightarrow> (gostring \<times> 'e) list" +
  fixes cap :: nat
  assumes never_busy: "\<not> busy e" and cap_positive: "0 < cap"
begin

lemma not_all_busy: "p \<noteq> [] \<Longrightarrow> \<not> list_all (busy \<circ> snd) p"
  by (cases p) (simp_all add: never_busy)

lemma shrinks: "pool_wf p \<Longrightarrow> p \<noteq> [] \<Longrightarrow> length (evict p) < length p"
  by (rule evict_shrinks [OF _ not_all_busy])

end

sublocale never_busy_pool \<subseteq> lru: lru_pool evict cap
  by unfold_locales (simp_all add: cap_positive evict_wf shrinks evict_subset)


subsection \<open>The ssh session pool\<close>

text \<open>A client is named by a number. \<open>dialed\<close> and \<open>closed_clients\<close> record which clients were ever
  handed to the pool and which it closed.\<close>

record sessionEntry =
  client :: nat
  createdAt :: int
  lastUsed :: int
  privateWarningShown :: bool

record sessionPool =
  sessions :: "(gostring \<times> sessionEntry) list"
  closed_clients :: "nat list"
  dialed :: "nat list"

definition sshMaxSessions :: nat where
  "sshMaxSessions = 20"

definition defaultIdleTimeout :: int where
  "defaultIdleTimeout = 30 * 60 * 1000000000"

definition close_where :: "(gostring \<times> sessionEntry \<Rightarrow> bool) \<Rightarrow> sessionPool \<Rightarrow> sessionPool" where
  "close_where P p =
     p\<lparr>sessions := filter (\<lambda>e. \<not> P e) (sessions p),
       closed_clients := map (client \<circ> snd) (filter P (sessions p)) @ closed_clients p\<rparr>"

definition oldest_session :: "(gostring \<times> sessionEntry) list \<Rightarrow> gostring" where
  "oldest_session ss = oldest_key (map (\<lambda>(k, e). (k, lastUsed e)) ss)"

definition evict_session :: "(gostring \<times> sessionEntry) list \<Rightarrow> (gostring \<times> sessionEntry) list" where
  "evict_session ss =
     (if oldest_session ss \<noteq> [] then filter (\<lambda>e. fst e \<noteq> oldest_session ss) ss else ss)"

definition evictOldestLocked :: "sessionPool \<Rightarrow> sessionPool" where
  "evictOldestLocked p =
     (if oldest_session (sessions p) \<noteq> []
      then close_where (\<lambda>e. fst e = oldest_session (sessions p)) p else p)"

definition make_room :: "sessionPool \<Rightarrow> sessionPool" where
  "make_room p = (if sshMaxSessions \<le> length (sessions p) then evictOldestLocked p else p)"

definition touch :: "gostring \<Rightarrow> int \<Rightarrow> sessionPool \<Rightarrow> sessionPool" where
  "touch key now p =
     p\<lparr>sessions := map (\<lambda>(k, e). (k, if k = key then e\<lparr>lastUsed := now\<rparr> else e)) (sessions p)\<rparr>"

text \<open>The critical sections of \<open>getOrCreate\<close>: the lookup, the check after a successful keepalive,
  the cleanup of a dead connection, and the insertion after the dial.\<close>

definition get_lookup :: "sessionPool \<Rightarrow> gostring \<Rightarrow> sessionPool \<times> nat option" where
  "get_lookup p key =
     (case map_of (sessions p) key of
        Some e \<Rightarrow> (p, Some (client e))
      | None \<Rightarrow> (make_room p, None))"

definition get_keepalive :: "sessionPool \<Rightarrow> gostring \<Rightarrow> nat \<Rightarrow> int \<Rightarrow> sessionPool \<times> bool" where
  "get_keepalive p key c now =
     (case map_of (sessions p) key of
        Some e \<Rightarrow> if client e = c then (touch key now p, True) else (p, False)
      | None \<Rightarrow> (p, False))"

definition get_cleanup :: "sessionPool \<Rightarrow> gostring \<Rightarrow> nat \<Rightarrow> sessionPool" where
  "get_cleanup p key c =
     make_room (case map_of (sessions p) key of
        Some e \<Rightarrow> if client e = c then close_where (\<lambda>x. fst x = key) p else p
      | None \<Rightarrow> p)"

definition get_insert :: "sessionPool \<Rightarrow> gostring \<Rightarrow> nat \<Rightarrow> int \<Rightarrow> sessionPool \<times> nat \<times> bool" where
  "get_insert p key c now =
     (let p1 = p\<lparr>dialed := c # dialed p\<rparr> in
      case map_of (sessions p) key of
        Some e \<Rightarrow> (touch key now (p1\<lparr>closed_clients := c # closed_clients p1\<rparr>), client e, False)
      | None \<Rightarrow>
          (let p2 = make_room p1
           in (p2\<lparr>sessions := AList.update key
                    \<lparr>client = c, createdAt = now, lastUsed = now, privateWarningShown = False\<rparr> (sessions p2)\<rparr>,
               c, True)))"

text \<open>\<open>getOrCreate\<close> without interference: the keepalive result and the dialled client are inputs.\<close>

definition getOrCreate ::
  "sessionPool \<Rightarrow> gostring \<Rightarrow> bool \<Rightarrow> nat option \<Rightarrow> int \<Rightarrow> sessionPool \<times> (nat \<times> bool) option" where
  "getOrCreate p key alive dial now =
     (let dial_new = (\<lambda>q. case dial of None \<Rightarrow> (q, None)
                         | Some c \<Rightarrow> (case get_insert q key c now of (q', r) \<Rightarrow> (q', Some r)))
      in case get_lookup p key of
           (p1, None) \<Rightarrow> dial_new p1
         | (p1, Some c) \<Rightarrow>
             (case (if alive then get_keepalive p1 key c now else (p1, False)) of
                (p2, True) \<Rightarrow> (p2, Some (c, False))
              | (p2, False) \<Rightarrow> dial_new (get_cleanup p2 key c)))"

definition pool_remove :: "sessionPool \<Rightarrow> gostring \<Rightarrow> sessionPool \<times> bool" where
  "pool_remove p key =
     (case map_of (sessions p) key of
        None \<Rightarrow> (p, False) | Some e \<Rightarrow> (close_where (\<lambda>x. fst x = key) p, True))"

definition reap :: "sessionPool \<Rightarrow> int \<Rightarrow> sessionPool" where
  "reap p now = close_where (\<lambda>(k, e). defaultIdleTimeout < now - lastUsed e) p"

definition RemoveClient :: "sessionPool \<Rightarrow> gostring \<Rightarrow> sessionPool \<times> bool" where
  "RemoveClient p pre =
     (close_where (\<lambda>(k, e). HasPrefix k pre) p, list_ex (\<lambda>(k, e). HasPrefix k pre) (sessions p))"

definition TouchClient :: "sessionPool \<Rightarrow> gostring \<Rightarrow> int \<Rightarrow> sessionPool" where
  "TouchClient p pre now =
     p\<lparr>sessions := map (\<lambda>(k, e). (k, if HasPrefix k pre then e\<lparr>lastUsed := now\<rparr> else e)) (sessions p)\<rparr>"

definition consumePrivateWarning :: "sessionPool \<Rightarrow> gostring \<Rightarrow> sessionPool \<times> bool" where
  "consumePrivateWarning p key =
     (case map_of (sessions p) key of
        None \<Rightarrow> (p, False)
      | Some e \<Rightarrow> if privateWarningShown e then (p, False)
                   else (p\<lparr>sessions := map (\<lambda>(k, e). (k, if k = key then e\<lparr>privateWarningShown := True\<rparr> else e))
                                          (sessions p)\<rparr>, True))"

text \<open>Any interleaving of these sections, with every dialled client new and every key non-empty, and
  the map reordered at will.\<close>

inductive ssh_step :: "sessionPool \<Rightarrow> sessionPool \<Rightarrow> bool" where
  lookup: "ssh_step p (fst (get_lookup p key))"
| keepalive: "ssh_step p (fst (get_keepalive p key c now))"
| cleanup: "ssh_step p (get_cleanup p key c)"
| insert: "c \<notin> set (dialed p) \<Longrightarrow> key \<noteq> [] \<Longrightarrow> ssh_step p (fst (get_insert p key c now))"
| remove: "ssh_step p (fst (pool_remove p key))"
| reap: "ssh_step p (reap p now)"
| remove_client: "ssh_step p (fst (RemoveClient p pre))"
| touch_client: "ssh_step p (TouchClient p pre now)"
| warning: "ssh_step p (fst (consumePrivateWarning p key))"
| reorder: "mset ss = mset (sessions p) \<Longrightarrow> ssh_step p (p\<lparr>sessions := ss\<rparr>)"

inductive ssh_reach :: "sessionPool \<Rightarrow> bool" where
  start: "ssh_reach \<lparr>sessions = [], closed_clients = [], dialed = []\<rparr>"
| step: "ssh_reach p \<Longrightarrow> ssh_step p p' \<Longrightarrow> ssh_reach p'"

lemma oldest_session_in:
  assumes "pool_wf ss" "ss \<noteq> []"
  obtains e where "(oldest_session ss, e) \<in> set ss" "oldest_session ss \<noteq> []"
    "\<forall>(k, e')\<in>set ss. lastUsed e \<le> lastUsed e'"
  using oldest_key_in [OF assms, of lastUsed] unfolding oldest_session_def by blast

interpretation ssh: never_busy_pool lastUsed "\<lambda>_. False" evict_session sshMaxSessions
proof
  show "0 < sshMaxSessions" by (simp add: sshMaxSessions_def)
  fix p :: "(gostring \<times> sessionEntry) list"
  show "list_all ((\<lambda>_. False) \<circ> snd) p \<Longrightarrow> evict_session p = p"
    by (cases p) (simp_all add: evict_session_def oldest_session_def oldest_key_def)
  assume p: "pool_wf p" "\<not> list_all ((\<lambda>_. False) \<circ> snd) p"
  then have "p \<noteq> []" by auto
  with p(1) obtain e where "(oldest_session p, e) \<in> set p" "oldest_session p \<noteq> []"
    "\<forall>(k, e')\<in>set p. lastUsed e \<le> lastUsed e'" by (rule oldest_session_in)
  then show "\<exists>k e. (k, e) \<in> set p \<and> \<not> False \<and> evict_session p = AList.delete k p
      \<and> (\<forall>(k', e')\<in>set p. \<not> False \<longrightarrow> lastUsed e \<le> lastUsed e')"
    by (auto simp: evict_session_def delete_conv_filter)
qed simp


definition clients :: "(gostring \<times> sessionEntry) list \<Rightarrow> nat multiset" where
  "clients ss = mset (map (client \<circ> snd) ss)"

text \<open>Within capacity, and every client handed over is in the pool or closed, exactly once.\<close>

definition ssh_ok :: "sessionPool \<Rightarrow> bool" where
  "ssh_ok p =
     (pool_wf (sessions p) \<and> length (sessions p) \<le> sshMaxSessions \<and> distinct (dialed p)
      \<and> mset (dialed p) = clients (sessions p) + mset (closed_clients p))"

lemma clients_filter: "clients ss = clients (filter (\<lambda>e. \<not> P e) ss) + mset (map (client \<circ> snd) (filter P ss))"
  by (induction ss) (auto simp: clients_def)

lemma ssh_ok_close_where: "ssh_ok p \<Longrightarrow> ssh_ok (close_where P p)"
  using clients_filter [of "sessions p" P]
  by (auto simp: ssh_ok_def close_where_def pool_wf_filter intro: order_trans [OF length_filter_le])

lemma sessions_make_room: "sessions (make_room p) =
    (if sshMaxSessions \<le> length (sessions p) then evict_session (sessions p) else sessions p)"
  by (simp add: make_room_def evictOldestLocked_def evict_session_def close_where_def)

lemma ssh_ok_make_room: "ssh_ok p \<Longrightarrow> ssh_ok (make_room p)"
  by (simp add: make_room_def evictOldestLocked_def ssh_ok_close_where)

lemma pool_wf_map: "pool_wf (map (\<lambda>(k, e). (k, f k e)) ss) = pool_wf ss"
proof -
  have "map fst (map (\<lambda>(k, e). (k, f k e)) ss) = map fst ss" by (simp add: case_prod_beta comp_def)
  moreover from this have "fst ` set (map (\<lambda>(k, e). (k, f k e)) ss) = fst ` set ss" by (metis list.set_map)
  ultimately show ?thesis by (simp only: pool_wf_def)
qed

lemma clients_map: "(\<And>k e. client (f k e) = client e) \<Longrightarrow> clients (map (\<lambda>(k, e). (k, f k e)) ss) = clients ss"
  by (simp add: clients_def case_prod_beta comp_def)

lemma ssh_ok_map:
  "ssh_ok p \<Longrightarrow> (\<And>k e. client (f k e) = client e) \<Longrightarrow>
     ssh_ok (p\<lparr>sessions := map (\<lambda>(k, e). (k, f k e)) (sessions p)\<rparr>)"
  by (simp add: ssh_ok_def pool_wf_map clients_map)

lemma ssh_ok_touch: "ssh_ok p \<Longrightarrow> ssh_ok (touch key now p)"
  unfolding touch_def by (rule ssh_ok_map) auto

lemma clients_update_new: "k \<notin> fst ` set ss \<Longrightarrow> clients (AList.update k e ss) = add_mset (client e) (clients ss)"
  by (induction ss) (auto simp: clients_def)

lemma ssh_ok_insert:
  assumes ok: "ssh_ok p" and new: "c \<notin> set (dialed p)" "key \<noteq> []"
  shows "ssh_ok (fst (get_insert p key c now))"
proof (cases "map_of (sessions p) key")
  case (Some e)
  let ?q = "p\<lparr>dialed := c # dialed p, closed_clients := c # closed_clients p\<rparr>"
  have "ssh_ok ?q" using ok new by (simp add: ssh_ok_def)
  with Some show ?thesis by (simp add: get_insert_def Let_def ssh_ok_touch)
next
  case None
  let ?p1 = "p\<lparr>dialed := c # dialed p\<rparr>" and ?p2 = "make_room (p\<lparr>dialed := c # dialed p\<rparr>)"
  have p2: "sessions ?p2 = sessions (make_room p)" "closed_clients ?p2 = closed_clients (make_room p)"
    "dialed ?p2 = c # dialed (make_room p)" "dialed (make_room p) = dialed p"
    by (simp_all add: make_room_def evictOldestLocked_def close_where_def)
  have ok': "ssh_ok (make_room p)" by (rule ssh_ok_make_room [OF ok])
  have "key \<notin> fst ` set (sessions (make_room p))"
    using None ssh.evict_subset [of "sessions p"] ok by (auto simp: sessions_make_room map_of_eq_None_iff ssh_ok_def)
  moreover have "pool_wf (sessions p)" "length (sessions p) \<le> sshMaxSessions" using ok by (simp_all add: ssh_ok_def)
  note ssh.lru.insert_bound [OF this, of key]
  ultimately show ?thesis
    using ok' new None p2
    by (simp add: get_insert_def Let_def ssh_ok_def pool_wf_update clients_update_new sessions_make_room)
qed

lemma ssh_ok_step: "ssh_step p p' \<Longrightarrow> ssh_ok p \<Longrightarrow> ssh_ok p'"
proof (induction rule: ssh_step.induct)
  case (lookup p key)
  then show ?case by (simp add: get_lookup_def ssh_ok_make_room split: option.splits)
next
  case (keepalive p key c now)
  then show ?case by (simp add: get_keepalive_def ssh_ok_touch split: option.splits)
next
  case (cleanup p key c)
  then show ?case
    unfolding get_cleanup_def
    by (intro ssh_ok_make_room) (simp add: ssh_ok_close_where split: option.splits)
next
  case (warning p key)
  have "ssh_ok (p\<lparr>sessions := map (\<lambda>(k, e). (k, if k = key then e\<lparr>privateWarningShown := True\<rparr> else e)) (sessions p)\<rparr>)"
    by (rule ssh_ok_map [OF warning]) simp
  with warning show ?case by (simp add: consumePrivateWarning_def split: option.splits)
next
  case (touch_client p pre now)
  then show ?case unfolding TouchClient_def by (rule ssh_ok_map) simp
next
  case (reorder ss p)
  have "distinct (map fst ss)" "set ss = set (sessions p)" "length ss = length (sessions p)" "clients ss = clients (sessions p)"
    using reorder by (auto simp: ssh_ok_def pool_wf_def clients_def mset_map dest: mset_eq_setD mset_eq_length)
      (metis mset_eq_imp_distinct_iff mset_map)
  with reorder show ?case by (simp add: ssh_ok_def pool_wf_def)
qed (simp_all add: ssh_ok_insert pool_remove_def reap_def RemoveClient_def ssh_ok_close_where split: option.splits)

lemma ssh_reach_ok: "ssh_reach p \<Longrightarrow> ssh_ok p"
proof (induction rule: ssh_reach.induct)
  case start
  show ?case by (simp add: ssh_ok_def pool_wf_def clients_def)
qed (rule ssh_ok_step)

subsection \<open>Properties of the ssh pool\<close>

text \<open>C25: under any interleaving of lookups, keepalives, cleanups, insertions, removals and reaping,
  the ssh pool holds at most 20 sessions, and every client it was ever given is either in the pool
  and open or closed exactly once: no client leaks, none is closed twice, none in the pool is
  closed.\<close>

theorem ssh_pool_invariant:
  assumes "ssh_reach p"
  shows "length (sessions p) \<le> 20
    \<and> mset (dialed p) = mset (map (client \<circ> snd) (sessions p)) + mset (closed_clients p)
    \<and> distinct (closed_clients p)
    \<and> (\<forall>c\<in>set (map (client \<circ> snd) (sessions p)). c \<notin> set (closed_clients p))"
proof -
  have ok: "ssh_ok p" by (rule ssh_reach_ok [OF assms])
  then have d: "distinct (map (client \<circ> snd) (sessions p) @ closed_clients p)"
    unfolding ssh_ok_def clients_def by (metis mset_append mset_eq_imp_distinct_iff)
  with ok show ?thesis by (auto simp: ssh_ok_def clients_def sshMaxSessions_def)
qed

theorem ssh_pool_invariant_witness:
  "let p = fst (get_insert \<lparr>sessions = [], closed_clients = [], dialed = []\<rparr> ''h:22:u:'' 7 5)
   in length (sessions p) \<le> 20
    \<and> mset (dialed p) = mset (map (client \<circ> snd) (sessions p)) + mset (closed_clients p)
    \<and> distinct (closed_clients p)
    \<and> (\<forall>c\<in>set (map (client \<circ> snd) (sessions p)). c \<notin> set (closed_clients p))"
proof -
  have "ssh_reach (fst (get_insert \<lparr>sessions = [], closed_clients = [], dialed = []\<rparr> ''h:22:u:'' 7 5))"
    by (rule ssh_reach.step [OF ssh_reach.start ssh_step.insert]) simp_all
  from ssh_pool_invariant [OF this] show ?thesis unfolding Let_def .
qed

text \<open>a full pool evicts exactly one session, and no other session was used longer ago.\<close>

theorem ssh_evicts_least_recent:
  assumes "ssh_reach p" "sessions p \<noteq> []"
  shows "\<exists>e. (oldest_session (sessions p), e) \<in> set (sessions p)
    \<and> (\<forall>(k, e')\<in>set (sessions p). lastUsed e \<le> lastUsed e')
    \<and> sessions (evictOldestLocked p) = AList.delete (oldest_session (sessions p)) (sessions p)
    \<and> closed_clients (evictOldestLocked p) = client e # closed_clients p"
proof -
  have wf: "pool_wf (sessions p)" using ssh_reach_ok [OF assms(1)] by (simp add: ssh_ok_def)
  obtain e where e: "(oldest_session (sessions p), e) \<in> set (sessions p)" "oldest_session (sessions p) \<noteq> []"
    "\<forall>(k, e')\<in>set (sessions p). lastUsed e \<le> lastUsed e'"
    by (rule oldest_session_in [OF wf assms(2)])
  have "filter (\<lambda>x. fst x = k) ss = [(k, v)]" if "distinct (map fst ss)" "(k, v) \<in> set ss"
    for k v and ss :: "(gostring \<times> sessionEntry) list"
    using that by (induction ss) (auto simp: filter_empty_conv image_iff)
  from this [OF _ e(1)] wf e show ?thesis
    by (auto simp: evictOldestLocked_def close_where_def delete_conv_filter pool_wf_def)
qed

theorem ssh_evicts_least_recent_witness:
  "let p = fst (get_insert \<lparr>sessions = [], closed_clients = [], dialed = []\<rparr> ''h:22:u:'' 7 5)
   in \<exists>e. (oldest_session (sessions p), e) \<in> set (sessions p)
    \<and> (\<forall>(k, e')\<in>set (sessions p). lastUsed e \<le> lastUsed e')
    \<and> sessions (evictOldestLocked p) = AList.delete (oldest_session (sessions p)) (sessions p)
    \<and> closed_clients (evictOldestLocked p) = client e # closed_clients p"
proof -
  let ?p = "fst (get_insert \<lparr>sessions = [], closed_clients = [], dialed = []\<rparr> ''h:22:u:'' 7 5)"
  have "ssh_reach ?p"
    by (rule ssh_reach.step [OF ssh_reach.start ssh_step.insert]) simp_all
  moreover have "sessions ?p \<noteq> []" by code_simp
  ultimately show ?thesis unfolding Let_def by (rule ssh_evicts_least_recent)
qed

end
