(* ===== verification/Ipc_Net.thy ===== *)
theory Ipc_Net
  imports Go_Bytes Pools
begin

text \<open>
  Point-to-point messages of the ipc tool: the packet format of tools/ipc/protocol.go, the
  connection pool of tools/ipc/pool.go and the operations of tools/ipc/send.go and
  tools/ipc/receive.go on top of both. A connection is a number; what it delivers is the list of
  bytes that arrive before its deadline or its end. The network's answers (whether a dial, a write
  or a listen succeeds) are arguments. The theorems show that packets are framed without loss and
  read back, that a receiver returns the message a sender sent whatever pings precede it, and that
  no connection is lost or closed twice.
\<close>

subsection \<open>Packets\<close>

definition TypePing :: uint16 where
  "TypePing = 0"

definition TypePong :: uint16 where
  "TypePong = 1"

definition TypeMessage :: uint16 where
  "TypeMessage = 2"

definition headerSize :: nat where
  "headerSize = 6"

definition maxPayload :: nat where
  "maxPayload = 1024 * 1024"

datatype wire_error = PayloadTooLarge nat | WriteFailed | HeaderRead | PayloadRead | UnexpectedType uint16

text \<open>The bytes written; \<open>wok\<close> says whether the single write to the connection succeeds.\<close>

definition writePacket :: "bool \<Rightarrow> uint16 \<Rightarrow> bytes \<Rightarrow> wire_error + bytes" where
  "writePacket wok typ payload =
     (if maxPayload < length payload then Inl (PayloadTooLarge (length payload))
      else let buf = PutUint16 BigEndian typ @ PutUint32 BigEndian (word_of_nat (length payload)) @ payload
           in if wok then Inr buf else Inl WriteFailed)"

text \<open>\<open>io.ReadFull\<close>: the bytes asked for, or an error once the stream ends.\<close>

definition ReadFull :: "bytes \<Rightarrow> nat \<Rightarrow> bytes option \<times> bytes" where
  "ReadFull s n = (if length s < n then (None, []) else (Some (take n s), drop n s))"

definition readPacket :: "bytes \<Rightarrow> (wire_error + uint16 \<times> bytes) \<times> bytes" where
  "readPacket s =
     (case ReadFull s headerSize of
        (None, s1) \<Rightarrow> (Inl HeaderRead, s1)
      | (Some hdr, s1) \<Rightarrow>
          let typ = Uint16 BigEndian (slice hdr 0 2);
              len = Uint32 BigEndian (slice hdr 2 6)
          in if word_of_nat maxPayload < len then (Inl (PayloadTooLarge (unat len)), s1)
             else if len = 0 then (Inr (typ, []), s1)
             else case ReadFull s1 (unat len) of
                    (None, s2) \<Rightarrow> (Inl PayloadRead, s2)
                  | (Some payload, s2) \<Rightarrow> (Inr (typ, payload), s2))"

definition sendPing :: "bool \<Rightarrow> bytes \<Rightarrow> wire_error option" where
  "sendPing wok s =
     (case writePacket wok TypePing [] of
        Inl e \<Rightarrow> Some e
      | Inr pkt \<Rightarrow>
          (case fst (readPacket s) of
             Inl e \<Rightarrow> Some e
           | Inr (typ, payload) \<Rightarrow> if typ \<noteq> TypePong then Some (UnexpectedType typ) else None))"

lemma readPacket_write:
  assumes "writePacket wok typ payload = Inr pkt"
  shows "readPacket (pkt @ rest) = (Inr (typ, payload), rest)"
proof -
  define l where "l = (word_of_nat (length payload) :: uint32)"
  let ?t = "PutUint16 BigEndian typ" and ?l = "PutUint32 BigEndian l"
  have len: "length payload \<le> maxPayload" and pkt: "pkt = ?t @ ?l @ payload"
    using assms by (auto simp: writePacket_def Let_def l_def split: if_splits)
  have un: "unat l = length payload"
    using len by (simp add: l_def unat_of_nat maxPayload_def)
  have hdr: "ReadFull (pkt @ rest) headerSize = (Some (?t @ ?l), payload @ rest)"
    by (simp add: ReadFull_def headerSize_def pkt)
  have fits: "\<not> word_of_nat maxPayload < l"
    using len un by (simp add: word_less_nat_alt maxPayload_def)
  have none: "l = 0 \<longleftrightarrow> payload = []"
    using un by (metis length_0_conv unat_eq_zero)
  have body: "ReadFull (payload @ rest) (unat l) = (Some payload, rest)"
    by (simp add: ReadFull_def un)
  have fields: "Uint16 BigEndian (slice (?t @ ?l) 0 2) = typ" "Uint32 BigEndian (slice (?t @ ?l) 2 6) = l"
    by (simp_all add: slice_def)
  show ?thesis
    unfolding readPacket_def hdr using fits none body by (simp add: fields)
qed

text \<open>Reading packets one after another until \<open>n\<close> were read or one failed.\<close>

fun read_packets :: "nat \<Rightarrow> bytes \<Rightarrow> (uint16 \<times> bytes) list \<times> bytes" where
  "read_packets 0 s = ([], s)"
| "read_packets (Suc n) s =
     (case readPacket s of
        (Inl e, s1) \<Rightarrow> ([], s1)
      | (Inr p, s1) \<Rightarrow> (case read_packets n s1 of (ps, s2) \<Rightarrow> (p # ps, s2)))"

subsection \<open>The connection pool\<close>

record poolConn =
  pcConn :: nat
  pcCreatedAt :: int
  pcLastUsed :: int
  pcListener :: bool

text \<open>Besides the map, what the accounting needs: every connection ever opened, those a running
  operation owns, and those that were closed.\<close>

record connPool =
  conns :: "(gostring \<times> poolConn) list"
  opened :: "nat list"
  owned :: "nat list"
  closedConns :: "nat list"

definition poolIdleTimeout :: int where
  "poolIdleTimeout = 5 * 60 * 1000000000"

definition poolMaxConns :: nat where
  "poolMaxConns = 10"

definition close_conns :: "(gostring \<times> poolConn \<Rightarrow> bool) \<Rightarrow> connPool \<Rightarrow> connPool" where
  "close_conns P p =
     p\<lparr>conns := filter (\<lambda>e. \<not> P e) (conns p),
       closedConns := map (pcConn \<circ> snd) (filter P (conns p)) @ closedConns p\<rparr>"

definition sweepIdle :: "connPool \<Rightarrow> int \<Rightarrow> connPool" where
  "sweepIdle p now = close_conns (\<lambda>(k, pc). poolIdleTimeout < now - pcLastUsed pc) p"

definition checkoutConn :: "connPool \<Rightarrow> gostring \<Rightarrow> int \<Rightarrow> connPool \<times> nat option" where
  "checkoutConn p key now =
     (case map_of (conns p) key of
        None \<Rightarrow> (p, None)
      | Some pc \<Rightarrow>
          if poolIdleTimeout < now - pcLastUsed pc then (close_conns (\<lambda>e. fst e = key) p, None)
          else (p\<lparr>conns := filter (\<lambda>e. fst e \<noteq> key) (conns p), owned := pcConn pc # owned p\<rparr>, Some (pcConn pc)))"

definition oldest_conn :: "(gostring \<times> poolConn) list \<Rightarrow> gostring" where
  "oldest_conn cs = oldest_key (map (\<lambda>(k, pc). (k, pcLastUsed pc)) cs)"

definition evict_conn :: "(gostring \<times> poolConn) list \<Rightarrow> (gostring \<times> poolConn) list" where
  "evict_conn cs = (if oldest_conn cs \<noteq> [] then filter (\<lambda>e. fst e \<noteq> oldest_conn cs) cs else cs)"

definition make_conn_room :: "connPool \<Rightarrow> connPool" where
  "make_conn_room p =
     (if poolMaxConns \<le> length (conns p) \<and> oldest_conn (conns p) \<noteq> []
      then close_conns (\<lambda>e. fst e = oldest_conn (conns p)) p else p)"

definition putConn :: "connPool \<Rightarrow> gostring \<Rightarrow> nat \<Rightarrow> bool \<Rightarrow> int \<Rightarrow> connPool" where
  "putConn p key c listener now =
     (let p1 = close_conns (\<lambda>e. fst e = key) p;
          p2 = make_conn_room p1
      in p2\<lparr>conns := AList.update key
              \<lparr>pcConn = c, pcCreatedAt = now, pcLastUsed = now, pcListener = listener\<rparr> (conns p2),
            owned := remove1 c (owned p2)\<rparr>)"

definition removeConn :: "connPool \<Rightarrow> gostring \<Rightarrow> connPool" where
  "removeConn p key = close_conns (\<lambda>e. fst e = key) p"

definition recvPoolKey :: "int \<Rightarrow> gostring" where
  "recvPoolKey port = ''recv:'' @ show_int port"

definition sendPoolKey :: "gostring \<Rightarrow> gostring" where
  "sendPoolKey host = ''send:'' @ host"

text \<open>A dial or an accept hands a new connection to the operation; the operation may close it.\<close>

definition open_conn :: "nat \<Rightarrow> connPool \<Rightarrow> connPool" where
  "open_conn c p = p\<lparr>opened := c # opened p, owned := c # owned p\<rparr>"

definition close_owned :: "nat \<Rightarrow> connPool \<Rightarrow> connPool" where
  "close_owned c p = p\<lparr>owned := remove1 c (owned p), closedConns := c # closedConns p\<rparr>"

subsection \<open>Sending\<close>

datatype send_outcome =
    HostRequired | MessageRequired | DialFailed | SendFailed wire_error
  | Sent nat bytes bool

text \<open>\<open>wok1\<close>: the write on a pooled connection succeeds; \<open>dial\<close>: the dialled connection;
  \<open>wok2\<close>: the write on it succeeds. The outcome of a sent message carries the connection, the bytes
  written and whether the connection was reused.\<close>

definition opSend ::
  "connPool \<Rightarrow> gostring \<Rightarrow> gostring \<Rightarrow> bool \<Rightarrow> nat option \<Rightarrow> bool \<Rightarrow> int \<Rightarrow> connPool \<times> send_outcome" where
  "opSend p host message wok1 dial wok2 now =
     (if host = [] then (p, HostRequired)
      else if message = [] then (p, MessageRequired)
      else
        let key = sendPoolKey host;
            fresh = (\<lambda>q. case dial of
                 None \<Rightarrow> (q, DialFailed)
               | Some c \<Rightarrow>
                   (case writePacket wok2 TypeMessage (bytes_of message) of
                      Inl e \<Rightarrow> (close_owned c (open_conn c q), SendFailed e)
                    | Inr pkt \<Rightarrow> (putConn (open_conn c q) key c False now, Sent c pkt False)))
        in case checkoutConn p key now of
             (p1, None) \<Rightarrow> fresh p1
           | (p1, Some c) \<Rightarrow>
               (case writePacket wok1 TypeMessage (bytes_of message) of
                  Inr pkt \<Rightarrow> (putConn p1 key c False now, Sent c pkt True)
                | Inl e \<Rightarrow> fresh (close_owned c p1)))"

subsection \<open>Receiving\<close>

datatype recv_outcome =
    Cancelled | ReadFailed wire_error | PongFailed wire_error | TooManyPackets | Message bytes

definition maxNonMessage :: nat where
  "maxNonMessage = 100"

text \<open>The loop: how it ends, what is left of the stream and the number of PONGs sent. \<open>cancel n\<close> and
  \<open>wok n\<close> give the state of the context and the result of a write in round \<open>n\<close>; every round that
  does not end the loop counts one packet that is not a message.\<close>

function recv_loop :: "(nat \<Rightarrow> bool) \<Rightarrow> (nat \<Rightarrow> bool) \<Rightarrow> nat \<Rightarrow> bytes \<Rightarrow> nat \<Rightarrow> recv_outcome \<times> bytes \<times> nat" where
  "recv_loop cancel wok n s pongs =
     (if cancel n then (Cancelled, s, pongs)
      else case readPacket s of
             (Inl e, s1) \<Rightarrow> (ReadFailed e, s1, pongs)
           | (Inr (typ, payload), s1) \<Rightarrow>
               if typ = TypeMessage then (Message payload, s1, pongs)
               else if typ = TypePing \<and> \<not> wok n then (PongFailed WriteFailed, s1, pongs)
               else let pongs' = (if typ = TypePing then pongs + 1 else pongs) in
                 if maxNonMessage < n + 1 then (TooManyPackets, s1, pongs')
                 else recv_loop cancel wok (n + 1) s1 pongs')"
  by pat_completeness auto
termination
  by (relation "measure (\<lambda>(cancel, wok, n, s, pongs). Suc maxNonMessage - n)") auto

declare recv_loop.simps [simp del]

text \<open>A message puts the connection back in the pool, everything else closes it.\<close>

definition recvFromConn ::
  "connPool \<Rightarrow> nat \<Rightarrow> gostring \<Rightarrow> (nat \<Rightarrow> bool) \<Rightarrow> (nat \<Rightarrow> bool) \<Rightarrow> bytes \<Rightarrow> int \<Rightarrow> connPool \<times> recv_outcome" where
  "recvFromConn p c key cancel wok s now =
     (case recv_loop cancel wok 0 s 0 of
        (Message m, s1, k) \<Rightarrow> (putConn p key c False now, Message m)
      | (r, s1, k) \<Rightarrow> (close_owned c p, r))"

datatype accept_result = Accepted nat | AcceptCancelled | AcceptTimeout | AcceptFailed

datatype receive_outcome = BadPort | ListenFailed | NoConnection accept_result | Received recv_outcome

text \<open>\<open>listen\<close>: the result of listening and accepting; \<open>stream c\<close>: what connection \<open>c\<close> delivers.\<close>

definition opReceive ::
  "connPool \<Rightarrow> int \<Rightarrow> accept_result option \<Rightarrow> (nat \<Rightarrow> bytes) \<Rightarrow> (nat \<Rightarrow> bool) \<Rightarrow> (nat \<Rightarrow> bool) \<Rightarrow> int
   \<Rightarrow> connPool \<times> receive_outcome" where
  "opReceive p port listen stream cancel wok now =
     (if port \<le> 0 \<or> 65535 < port then (p, BadPort)
      else let key = recvPoolKey port in
        case checkoutConn p key now of
          (p1, Some c) \<Rightarrow> (case recvFromConn p1 c key cancel wok (stream c) now of (q, r) \<Rightarrow> (q, Received r))
        | (p1, None) \<Rightarrow>
            (case listen of
               None \<Rightarrow> (p1, ListenFailed)
             | Some (Accepted c) \<Rightarrow>
                 (case recvFromConn (open_conn c p1) c key cancel wok (stream c) now of (q, r) \<Rightarrow> (q, Received r))
             | Some a \<Rightarrow> (p1, NoConnection a)))"

definition opPing :: "gostring \<Rightarrow> bool \<Rightarrow> bool \<Rightarrow> bytes \<Rightarrow> (send_outcome + wire_error option)" where
  "opPing host dialed_ok wok s =
     (if host = [] then Inl HostRequired
      else if \<not> dialed_ok then Inl DialFailed
      else Inr (sendPing wok s))"

subsection \<open>Pool steps\<close>

text \<open>The critical sections of the pool in any order, for any number of callers; a caller only puts
  back or closes what it owns, and every opened connection is new.\<close>

inductive ipc_step :: "connPool \<Rightarrow> connPool \<Rightarrow> bool" where
  opened: "c \<notin> set (opened p) \<Longrightarrow> ipc_step p (open_conn c p)"
| put: "c \<in> set (owned p) \<Longrightarrow> key \<noteq> [] \<Longrightarrow> ipc_step p (putConn p key c l now)"
| checkout: "ipc_step p (fst (checkoutConn p key now))"
| closed: "c \<in> set (owned p) \<Longrightarrow> ipc_step p (close_owned c p)"
| sweep: "ipc_step p (sweepIdle p now)"
| removed: "ipc_step p (removeConn p key)"
| reorder: "mset cs = mset (conns p) \<Longrightarrow> ipc_step p (p\<lparr>conns := cs\<rparr>)"

abbreviation empty_pool :: connPool where
  "empty_pool \<equiv> \<lparr>conns = [], opened = [], owned = [], closedConns = []\<rparr>"

inductive ipc_reach :: "connPool \<Rightarrow> bool" where
  start: "ipc_reach empty_pool"
| step: "ipc_reach p \<Longrightarrow> ipc_step p p' \<Longrightarrow> ipc_reach p'"

lemma oldest_conn_in:
  assumes "pool_wf cs" "cs \<noteq> []"
  obtains e where "(oldest_conn cs, e) \<in> set cs" "oldest_conn cs \<noteq> []"
    "\<forall>(k, e')\<in>set cs. pcLastUsed e \<le> pcLastUsed e'"
  using oldest_key_in [OF assms, of pcLastUsed] unfolding oldest_conn_def by blast

interpretation ipc: never_busy_pool pcLastUsed "\<lambda>_. False" evict_conn poolMaxConns
proof
  show "0 < poolMaxConns" by (simp add: poolMaxConns_def)
  fix p :: "(gostring \<times> poolConn) list"
  show "list_all ((\<lambda>_. False) \<circ> snd) p \<Longrightarrow> evict_conn p = p"
    by (cases p) (simp_all add: evict_conn_def oldest_conn_def oldest_key_def)
  assume p: "pool_wf p" "\<not> list_all ((\<lambda>_. False) \<circ> snd) p"
  then have "p \<noteq> []" by auto
  with p(1) obtain e where "(oldest_conn p, e) \<in> set p" "oldest_conn p \<noteq> []"
    "\<forall>(k, e')\<in>set p. pcLastUsed e \<le> pcLastUsed e'" by (rule oldest_conn_in)
  then show "\<exists>k e. (k, e) \<in> set p \<and> \<not> False \<and> evict_conn p = AList.delete k p
      \<and> (\<forall>(k', e')\<in>set p. \<not> False \<longrightarrow> pcLastUsed e \<le> pcLastUsed e')"
    by (auto simp: evict_conn_def delete_conv_filter)
qed simp

definition pooled :: "(gostring \<times> poolConn) list \<Rightarrow> nat multiset" where
  "pooled cs = mset (map (pcConn \<circ> snd) cs)"

definition ipc_ok :: "connPool \<Rightarrow> bool" where
  "ipc_ok p =
     (pool_wf (conns p) \<and> length (conns p) \<le> poolMaxConns \<and> distinct (opened p)
      \<and> mset (opened p) = pooled (conns p) + mset (owned p) + mset (closedConns p))"

lemma pooled_filter: "pooled cs = pooled (filter (\<lambda>e. \<not> P e) cs) + pooled (filter P cs)"
  by (induction cs) (auto simp: pooled_def)

lemma close_conns_fields [simp]:
  "conns (close_conns P p) = filter (\<lambda>e. \<not> P e) (conns p)" "opened (close_conns P p) = opened p"
  "owned (close_conns P p) = owned p"
  by (simp_all add: close_conns_def)

lemma ipc_ok_close: "ipc_ok p \<Longrightarrow> ipc_ok (close_conns P p)"
  using pooled_filter [of "conns p" P]
  by (auto simp: ipc_ok_def close_conns_def pool_wf_filter pooled_def intro: order_trans [OF length_filter_le])

lemma conns_make_room: "conns (make_conn_room p) =
    (if poolMaxConns \<le> length (conns p) then evict_conn (conns p) else conns p)"
  by (simp add: make_conn_room_def evict_conn_def)

lemma owned_make_room [simp]: "owned (make_conn_room p) = owned p"
  by (simp add: make_conn_room_def)

lemma pooled_update_new: "k \<notin> fst ` set cs \<Longrightarrow> pooled (AList.update k e cs) = add_mset (pcConn e) (pooled cs)"
  by (induction cs) (auto simp: pooled_def)

lemma ipc_ok_insert:
  assumes "ipc_ok q" "c \<in> set (owned q)" "key \<noteq> []" "key \<notin> fst ` set (conns q)" "pcConn v = c"
    and "length (AList.update key v (conns q)) \<le> poolMaxConns"
  shows "ipc_ok (q\<lparr>conns := AList.update key v (conns q), owned := remove1 c (owned q)\<rparr>)"
  using assms by (simp add: ipc_ok_def pool_wf_update pooled_update_new)

lemma ipc_ok_put:
  assumes ok: "ipc_ok p" and "c \<in> set (owned p)" "key \<noteq> []"
  shows "ipc_ok (putConn p key c l now)"
proof -
  let ?p1 = "close_conns (\<lambda>e. fst e = key) p"
  let ?p2 = "make_conn_room ?p1"
  have ok1: "ipc_ok ?p1" by (rule ipc_ok_close [OF ok])
  have ok2: "ipc_ok ?p2" unfolding make_conn_room_def using ok1 by (simp add: ipc_ok_close del: close_conns_fields)
  have new: "key \<notin> fst ` set (conns ?p2)"
    using ipc.evict_subset [of "conns ?p1"] ok1 by (auto simp: conns_make_room ipc_ok_def split: if_splits)
  have bound: "length (AList.update key v (conns ?p2)) \<le> poolMaxConns" for v
    unfolding conns_make_room using ok1 by (intro ipc.lru.insert_bound) (simp_all add: ipc_ok_def)
  show ?thesis
    unfolding putConn_def Let_def using assms(2,3) by (intro ipc_ok_insert ok2 new bound) simp_all
qed

lemma filter_key: "distinct (map fst cs) \<Longrightarrow> map_of cs k = Some v \<Longrightarrow> filter (\<lambda>e. fst e = k) cs = [(k, v)]"
  by (induction cs) (auto simp: filter_empty_conv image_iff split: if_splits)

lemma ipc_ok_checkout:
  assumes "ipc_ok p"
  shows "ipc_ok (fst (checkoutConn p key now))"
proof (cases "map_of (conns p) key")
  case None
  with assms show ?thesis by (simp add: checkoutConn_def)
next
  case (Some pc)
  have "pooled (conns p) = add_mset (pcConn pc) (pooled (filter (\<lambda>e. fst e \<noteq> key) (conns p)))"
    using pooled_filter [of "conns p" "\<lambda>e. fst e = key"] filter_key [OF _ Some] assms
    by (simp add: ipc_ok_def pool_wf_def) (simp add: pooled_def)
  with assms have "ipc_ok (p\<lparr>conns := filter (\<lambda>e. fst e \<noteq> key) (conns p), owned := pcConn pc # owned p\<rparr>)"
    by (auto simp: ipc_ok_def pool_wf_filter intro: order_trans [OF length_filter_le])
  with Some show ?thesis by (simp add: checkoutConn_def ipc_ok_close [OF assms])
qed

lemma ipc_ok_step: "ipc_step p p' \<Longrightarrow> ipc_ok p \<Longrightarrow> ipc_ok p'"
proof (induction rule: ipc_step.induct)
  case (closed c p)
  then show ?case by (simp add: ipc_ok_def close_owned_def)
next
  case (reorder cs p)
  have "distinct (map fst cs)" "set cs = set (conns p)" "length cs = length (conns p)" "pooled cs = pooled (conns p)"
    using reorder by (auto simp: ipc_ok_def pool_wf_def pooled_def mset_map dest: mset_eq_setD mset_eq_length)
      (metis mset_eq_imp_distinct_iff mset_map)
  with reorder show ?case by (simp add: ipc_ok_def pool_wf_def)
qed (simp_all add: ipc_ok_put ipc_ok_checkout sweepIdle_def removeConn_def ipc_ok_close,
     simp add: ipc_ok_def open_conn_def)

lemma ipc_reach_ok: "ipc_reach p \<Longrightarrow> ipc_ok p"
proof (induction rule: ipc_reach.induct)
  case start
  show ?case by (simp add: ipc_ok_def pool_wf_def pooled_def)
qed (rule ipc_ok_step)

lemma pool_keys_ne [simp]: "recvPoolKey port \<noteq> []" "sendPoolKey host \<noteq> []"
  by (simp_all add: recvPoolKey_def sendPoolKey_def)

lemma checkout_owned: "checkoutConn p key now = (q, Some c) \<Longrightarrow> c \<in> set (owned q)"
  by (auto simp: checkoutConn_def split: option.splits if_splits)

lemma checkout_opened: "checkoutConn p key now = (q, r) \<Longrightarrow> opened q = opened p"
  by (auto simp: checkoutConn_def close_conns_def split: option.splits if_splits)

lemma reach_checkout: "ipc_reach p \<Longrightarrow> checkoutConn p key now = (q, r) \<Longrightarrow> ipc_reach q"
  using ipc_reach.step [OF _ ipc_step.checkout, of p key now] by simp

lemma reach_open: "ipc_reach p \<Longrightarrow> c \<notin> set (opened p) \<Longrightarrow> ipc_reach (open_conn c p) \<and> c \<in> set (owned (open_conn c p))"
  using ipc_reach.step ipc_step.opened by (auto simp: open_conn_def)

lemma reach_close: "ipc_reach p \<Longrightarrow> c \<in> set (owned p) \<Longrightarrow> ipc_reach (close_owned c p)"
  using ipc_reach.step ipc_step.closed by blast

lemma reach_put: "ipc_reach p \<Longrightarrow> c \<in> set (owned p) \<Longrightarrow> key \<noteq> [] \<Longrightarrow> ipc_reach (putConn p key c l now)"
  using ipc_reach.step ipc_step.put by blast

lemma opened_close_owned [simp]: "opened (close_owned c p) = opened p"
  by (simp add: close_owned_def)

text \<open>The operations are made of these steps.\<close>

lemma reach_opSend:
  assumes "ipc_reach p" "\<And>c. dial = Some c \<Longrightarrow> c \<notin> set (opened p)"
  shows "ipc_reach (fst (opSend p host message wok1 dial wok2 now))"
proof -
  obtain q r where q: "checkoutConn p (sendPoolKey host) now = (q, r)" by fastforce
  have rq: "ipc_reach q" and oq: "opened q = opened p"
    using reach_checkout [OF assms(1) q] checkout_opened [OF q] by auto
  have fresh: "ipc_reach (close_owned d (open_conn d q'))" "ipc_reach (putConn (open_conn d q') (sendPoolKey host) d False now)"
    if "dial = Some d" "ipc_reach q'" "opened q' = opened p" for d q'
    using reach_open [OF that(2), of d] that assms(2) by (auto intro: reach_close reach_put)
  have pooled: "ipc_reach (close_owned c q)" "ipc_reach (putConn q (sendPoolKey host) c False now)" if "r = Some c" for c
    using checkout_owned [of p "sendPoolKey host" now q c] q that rq by (auto intro: reach_close reach_put)
  show ?thesis
    using assms(1) rq oq fresh [OF _ rq] fresh [of _ "close_owned c q" for c] pooled
    by (auto simp: opSend_def Let_def q split: option.splits sum.splits)
qed

lemma reach_recvFromConn:
  assumes "ipc_reach p" "c \<in> set (owned p)" "key \<noteq> []"
  shows "ipc_reach (fst (recvFromConn p c key cancel wok s now))"
  using reach_put [OF assms, of False now] reach_close [OF assms(1,2)]
  by (simp add: recvFromConn_def split: prod.splits recv_outcome.splits)

lemma reach_opReceive:
  assumes "ipc_reach p" "\<And>c. listen = Some (Accepted c) \<Longrightarrow> c \<notin> set (opened p)"
  shows "ipc_reach (fst (opReceive p port listen stream cancel wok now))"
proof -
  obtain q r where q: "checkoutConn p (recvPoolKey port) now = (q, r)" by fastforce
  have rq: "ipc_reach q" and oq: "opened q = opened p"
    using reach_checkout [OF assms(1) q] checkout_opened [OF q] by auto
  have pooled: "ipc_reach (fst (recvFromConn q c (recvPoolKey port) cancel wok s now))" if "r = Some c" for c s
    using checkout_owned q that by (intro reach_recvFromConn rq) auto
  have fresh: "ipc_reach (fst (recvFromConn (open_conn c q) c (recvPoolKey port) cancel wok s now))"
    if "listen = Some (Accepted c)" for c s
    using reach_open [OF rq, of c] assms(2) [OF that] oq by (intro reach_recvFromConn) auto
  show ?thesis
    using assms(1) rq pooled fresh
    by (auto simp: opReceive_def Let_def q split: option.splits prod.splits accept_result.splits)
       (metis fst_conv)+
qed

subsection \<open>Facts on the loops\<close>

lemma read_packets_write:
  assumes "list_all2 (\<lambda>(t, p) w. writePacket True t p = Inr w) ps ws"
  shows "read_packets (length ps) (concat ws @ rest) = (ps, rest)"
  using assms
proof (induction ps ws rule: list_all2_induct)
  case (Cons tp ps w ws)
  then show ?case using readPacket_write [of True "fst tp" "snd tp" w "concat ws @ rest"] by (cases tp) simp
qed simp

lemma readPacket_short:
  assumes "writePacket wok typ payload = Inr pkt" "k < length pkt"
  shows "\<exists>e. readPacket (take k pkt) = (Inl e, [])"
proof -
  have full: "readPacket pkt = (Inr (typ, payload), [])" using readPacket_write [OF assms(1), of "[]"] by simp
  have lenp: "length pkt = 6 + length payload"
    using assms(1) by (auto simp: writePacket_def Let_def split: if_splits)
  show ?thesis
  proof (cases "k < 6")
    case True
    then show ?thesis by (simp add: readPacket_def ReadFull_def headerSize_def min_less_iff_disj)
  next
    case False
    then have hdr: "take 6 (take k pkt) = take 6 pkt" by (simp add: min_def)
    let ?len = "Uint32 BigEndian (slice (take 6 pkt) 2 6)"
    have pl: "\<not> word_of_nat maxPayload < ?len" "?len \<noteq> 0" "unat ?len = length payload"
      using full assms(2) lenp False
      by (auto simp: readPacket_def ReadFull_def headerSize_def Let_def split: if_splits option.splits)
    have "length (drop 6 (take k pkt)) < unat ?len" using assms(2) lenp False pl(3) by simp
    then show ?thesis
      using pl False lenp assms(2) by (simp add: readPacket_def ReadFull_def headerSize_def hdr Let_def)
  qed
qed

lemma recv_loop_pings:
  assumes "writePacket True TypePing [] = Inr ping" "writePacket w TypeMessage m = Inr pkt"
    and "n + k \<le> 100" "\<And>i. \<not> cancel i" "\<And>i. wok i"
  shows "recv_loop cancel wok k (concat (replicate n ping) @ pkt @ rest) pongs = (Message m, rest, pongs + n)"
  using assms(3)
proof (induction n arbitrary: k pongs)
  case 0
  show ?case using readPacket_write [OF assms(2), of rest] assms(4) by (simp add: recv_loop.simps)
next
  case (Suc n)
  let ?rest = "concat (replicate n ping) @ pkt @ rest"
  have "TypePing \<noteq> TypeMessage" by (simp add: TypePing_def TypeMessage_def)
  then have "recv_loop cancel wok k (concat (replicate (Suc n) ping) @ pkt @ rest) pongs
      = recv_loop cancel wok (k + 1) ?rest (pongs + 1)"
    using readPacket_write [OF assms(1), of ?rest] assms(4,5) Suc.prems
    by (simp add: recv_loop.simps [of _ _ k] maxNonMessage_def)
  also have "\<dots> = (Message m, rest, pongs + 1 + n)" using Suc.prems by (intro Suc.IH) simp
  finally show ?case by simp
qed

lemma recv_loop_pongs: "recv_loop cancel wok n s k = (r, s1, k1) \<Longrightarrow> n \<le> 100 \<Longrightarrow> k1 + n \<le> k + 101"
proof (induction cancel wok n s k arbitrary: r s1 k1 rule: recv_loop.induct)
  case (1 cancel wok n s pongs)
  show ?case
  proof (cases "cancel n")
    case True
    with 1(2,3) show ?thesis by (simp add: recv_loop.simps [of _ _ n])
  next
    case False
    show ?thesis
    proof (cases "readPacket s")
      case (Pair res s2)
      show ?thesis
      proof (cases res)
        case (Inl e)
        with 1(2,3) False Pair show ?thesis by (simp add: recv_loop.simps [of _ _ n])
      next
        case (Inr tp)
        obtain t payload where tp: "tp = (t, payload)" by fastforce
        show ?thesis
          using 1(2,3) False Pair Inr tp 1(1) [OF False Pair [symmetric] Inr tp [symmetric] _ _ refl]
          unfolding recv_loop.simps [of cancel wok n]
          by (simp add: maxNonMessage_def Let_def split: if_splits)
      qed
    qed
  qed
qed

lemma opSend_packet:
  assumes "opSend p host message wok1 dial wok2 now = (q, Sent c pkt reused)"
  shows "\<exists>w. writePacket w TypeMessage (bytes_of message) = Inr pkt"
  using assms by (auto simp: opSend_def Let_def split: if_splits prod.splits option.splits sum.splits)

subsection \<open>Properties\<close>

text \<open>C31: packets written one after another are read back one by one with their types and payloads,
  whatever follows them, and a packet cut short at any byte is an error, never a shorter packet.\<close>

theorem packets_roundtrip:
  assumes "list_all2 (\<lambda>(t, p) w. writePacket True t p = Inr w) ps ws"
  shows "read_packets (length ps) (concat ws @ rest) = (ps, rest)
    \<and> list_all (\<lambda>w. list_all (\<lambda>k. \<exists>e. readPacket (take k w) = (Inl e, [])) [0..<length w]) ws"
proof -
  have "\<exists>t p. writePacket True t p = Inr w" if "w \<in> set ws" for w
    using assms that by (induction ps ws rule: list_all2_induct) auto
  then show ?thesis
    using read_packets_write [OF assms] readPacket_short by (auto simp: list_all_iff) (metis (no_types, lifting))
qed

theorem packets_roundtrip_witness:
  "read_packets (length [(0::uint16, []), (2, [65 :: 8 word])]) (concat [[0, 0, 0, 0, 0, 0], [0, 2, 0, 0, 0, 1, 65]] @ [7]) = ([(0, []), (2, [65])], [7])"
proof -
  have "list_all2 (\<lambda>(t, p) w. writePacket True t p = Inr w) [(0, []), (2, [65])]
      [[0, 0, 0, 0, 0, 0], [0, 2, 0, 0, 0, 1, 65]]"
    by (simp add: writePacket_def maxPayload_def PutUint16_def PutUint32_def put_uint_def)
  from packets_roundtrip [OF this, of "[7]"] show ?thesis by (rule conjunct1)
qed

text \<open>a message that \<open>opSend\<close> reports as sent is what the receiving side returns, after answering
  each of up to 100 pings that come first, and the receiver leaves the stream right after it.\<close>

theorem sent_message_received:
  assumes "opSend p host message wok1 dial wok2 now = (q, Sent c pkt reused)"
    and "writePacket True TypePing [] = Inr ping" "n \<le> 100"
    and "\<And>i. \<not> cancel i" "\<And>i. wok i"
  shows "recv_loop cancel wok 0 (concat (replicate n ping) @ pkt @ rest) 0 = (Message (bytes_of message), rest, n)
    \<and> snd (recvFromConn p' d key cancel wok (concat (replicate n ping) @ pkt @ rest) now')
        = Message (bytes_of message)
    \<and> string_of_bytes (bytes_of message) = message"
proof -
  obtain w where "writePacket w TypeMessage (bytes_of message) = Inr pkt" using opSend_packet [OF assms(1)] ..
  from recv_loop_pings [OF assms(2) this, of n 0 cancel wok rest 0] assms(3-5)
  have "recv_loop cancel wok 0 (concat (replicate n ping) @ pkt @ rest) 0 = (Message (bytes_of message), rest, n)"
    by simp
  then show ?thesis by (simp add: recvFromConn_def)
qed

theorem sent_message_received_witness:
  "snd (recvFromConn empty_pool 9 ''recv:1'' (\<lambda>i. False) (\<lambda>i. True)
      (concat (replicate 1 [0, 0, 0, 0, 0, 0]) @ [0, 2, 0, 0, 0, 2, 104, 105] @ []) 6) = Message (bytes_of ''hi'')"
proof -
  let ?m = "writePacket True TypeMessage (bytes_of ''hi'')"
  have ping: "writePacket True TypePing [] = Inr [0, 0, 0, 0, 0, 0]"
    by (simp add: writePacket_def maxPayload_def PutUint16_def PutUint32_def put_uint_def TypePing_def)
  have "?m = Inr [0, 2, 0, 0, 0, 2, 104, 105]"
    by (simp add: writePacket_def maxPayload_def PutUint16_def PutUint32_def put_uint_def TypeMessage_def bytes_of_def)
  then have "opSend empty_pool ''h:1'' ''hi'' True (Some 7) True 5
      = (putConn (open_conn 7 empty_pool) (sendPoolKey ''h:1'') 7 False 5, Sent 7 [0, 2, 0, 0, 0, 2, 104, 105] False)"
    by (simp add: opSend_def checkoutConn_def)
  from sent_message_received [OF this ping, of 1 "\<lambda>i. False" "\<lambda>i. True" "[]" empty_pool 9 "''recv:1''" 6]
  show ?thesis by simp
qed

text \<open>whatever a peer sends, the receiving loop ends (it is total) after at most 101 packets and
  so at most 101 PONGs.\<close>

theorem recv_bounded:
  "\<exists>r s1 k. recv_loop cancel wok 0 s 0 = (r, s1, k) \<and> k \<le> 101"
  using recv_loop_pongs [of cancel wok 0 s 0] by (cases "recv_loop cancel wok 0 s 0") auto

text \<open>under any interleaving of sends, receives, sweeps and removals the pool holds at most 10
  connections, and every connection ever opened is in the pool, owned by one running operation, or
  closed, exactly one of these.\<close>

theorem ipc_pool_invariant:
  assumes "ipc_reach p"
  shows "length (conns p) \<le> 10
    \<and> mset (opened p) = mset (map (pcConn \<circ> snd) (conns p)) + mset (owned p) + mset (closedConns p)
    \<and> distinct (map (pcConn \<circ> snd) (conns p) @ owned p @ closedConns p)"
proof -
  have ok: "ipc_ok p" by (rule ipc_reach_ok [OF assms])
  then have "mset (opened p) = mset (map (pcConn \<circ> snd) (conns p) @ owned p @ closedConns p)" "distinct (opened p)"
    by (simp_all add: ipc_ok_def pooled_def)
  then have "distinct (map (pcConn \<circ> snd) (conns p) @ owned p @ closedConns p)"
    using mset_eq_imp_distinct_iff by blast
  with ok show ?thesis by (simp add: ipc_ok_def pooled_def poolMaxConns_def)
qed

theorem ipc_pool_invariant_witness:
  "let p = fst (opSend empty_pool ''h:1'' ''hi'' True (Some 7) True 5)
   in length (conns p) \<le> 10
    \<and> mset (opened p) = mset (map (pcConn \<circ> snd) (conns p)) + mset (owned p) + mset (closedConns p)
    \<and> distinct (map (pcConn \<circ> snd) (conns p) @ owned p @ closedConns p)"
  unfolding Let_def by (rule ipc_pool_invariant [OF reach_opSend [OF ipc_reach.start]]) simp

end
