(* ===== verification/Mem_Types.thy ===== *)
theory Mem_Types
  imports Go_Bytes
begin

text \<open>
  Values of the memory tool (tools/memtool/types.go): their types and sizes, how text becomes bytes
  and bytes become text, and how two values are compared. Decimal floating point conversion is an
  argument of the definitions; floats are compared on their bits as IEEE 754 orders them. The
  theorems show that what is encoded is shown again as the number that was given, that what is
  shown is encoded to the same bytes, and that comparing bytes compares the numbers.
\<close>

datatype ValueType =
    TypeInt8 | TypeInt16 | TypeInt32 | TypeInt64 | TypeUint8 | TypeUint16 | TypeUint32 | TypeUint64
  | TypeFloat32 | TypeFloat64 | TypeString | TypeUTF16 | TypeBytes

definition valueTypeNames :: "(gostring \<times> ValueType) list" where
  "valueTypeNames =
     [(''int8'', TypeInt8), (''int16'', TypeInt16), (''int32'', TypeInt32), (''int64'', TypeInt64),
      (''uint8'', TypeUint8), (''uint16'', TypeUint16), (''uint32'', TypeUint32), (''uint64'', TypeUint64),
      (''float32'', TypeFloat32), (''float64'', TypeFloat64),
      (''string'', TypeString), (''utf16'', TypeUTF16), (''bytes'', TypeBytes)]"

definition parseValueType :: "gostring \<Rightarrow> ValueType option" where
  "parseValueType s = map_of valueTypeNames (ToLower (TrimSpace s))"

definition valueTypeName :: "ValueType \<Rightarrow> gostring" where
  "valueTypeName vt =
     (case find (\<lambda>(name, t). t = vt) valueTypeNames of Some (name, t) \<Rightarrow> name | None \<Rightarrow> ''unknown'')"

fun valueSize :: "ValueType \<Rightarrow> nat" where
  "valueSize TypeInt8 = 1" | "valueSize TypeUint8 = 1"
| "valueSize TypeInt16 = 2" | "valueSize TypeUint16 = 2"
| "valueSize TypeInt32 = 4" | "valueSize TypeUint32 = 4" | "valueSize TypeFloat32 = 4"
| "valueSize TypeInt64 = 8" | "valueSize TypeUint64 = 8" | "valueSize TypeFloat64 = 8"
| "valueSize TypeString = 0" | "valueSize TypeUTF16 = 0" | "valueSize TypeBytes = 0"

definition pointerSize :: nat where
  "pointerSize = 8"

definition getByteOrder :: "gostring \<Rightarrow> ByteOrder" where
  "getByteOrder endian = (if ToLower (TrimSpace endian) = ''big'' then BigEndian else LittleEndian)"

definition endianName :: "ByteOrder \<Rightarrow> gostring" where
  "endianName bo = (if bo = BigEndian then ''big'' else ''little'')"

subsection \<open>Encoding\<close>

text \<open>\<open>strconv.ParseFloat\<close> and \<open>strconv.FormatFloat\<close> on the bits of a float.\<close>

record float_conv =
  ParseFloat32 :: "gostring \<Rightarrow> num_error + uint32"
  ParseFloat64 :: "gostring \<Rightarrow> num_error + uint64"
  FormatFloat32 :: "uint32 \<Rightarrow> gostring"
  FormatFloat64 :: "uint64 \<Rightarrow> gostring"

datatype enc_error = InvalidNumber num_error | EmptySearchString | EmptyBytePattern | InvalidHexByte nat num_error

fun parse_hex_parts :: "nat \<Rightarrow> gostring list \<Rightarrow> enc_error + bytes" where
  "parse_hex_parts i [] = Inr []"
| "parse_hex_parts i (p # ps) =
     (case ParseUint p 16 8 of
        Inl e \<Rightarrow> Inl (InvalidHexByte i e)
      | Inr v \<Rightarrow> (case parse_hex_parts (i + 1) ps of Inl e \<Rightarrow> Inl e | Inr bs \<Rightarrow> Inr (word_of_nat v # bs)))"

definition parseHexBytes :: "gostring \<Rightarrow> enc_error + bytes" where
  "parseHexBytes s0 =
     (let s = TrimSpace s0 in if s = [] then Inl EmptyBytePattern else parse_hex_parts 0 (Fields s))"

definition enc_int :: "ByteOrder \<Rightarrow> nat \<Rightarrow> gostring \<Rightarrow> enc_error + bytes" where
  "enc_int bo n value =
     (case ParseInt value 0 (8 * n) of
        Inl e \<Rightarrow> Inl (InvalidNumber e)
      | Inr v \<Rightarrow> Inr (put_uint bo n (nat (v mod 2 ^ (8 * n)))))"

definition enc_uint :: "ByteOrder \<Rightarrow> nat \<Rightarrow> gostring \<Rightarrow> enc_error + bytes" where
  "enc_uint bo n value =
     (case ParseUint value 0 (8 * n) of
        Inl e \<Rightarrow> Inl (InvalidNumber e)
      | Inr v \<Rightarrow> Inr (put_uint bo n v))"

definition enc_utf16 :: "ByteOrder \<Rightarrow> gostring \<Rightarrow> bytes" where
  "enc_utf16 bo value = concat (map (put_uint bo 2) (utf16_encode (runes value)))"

fun encodeValue :: "float_conv \<Rightarrow> ValueType \<Rightarrow> gostring \<Rightarrow> ByteOrder \<Rightarrow> enc_error + bytes" where
  "encodeValue fc TypeInt8 value bo = enc_int bo 1 value"
| "encodeValue fc TypeInt16 value bo = enc_int bo 2 value"
| "encodeValue fc TypeInt32 value bo = enc_int bo 4 value"
| "encodeValue fc TypeInt64 value bo = enc_int bo 8 value"
| "encodeValue fc TypeUint8 value bo = enc_uint bo 1 value"
| "encodeValue fc TypeUint16 value bo = enc_uint bo 2 value"
| "encodeValue fc TypeUint32 value bo = enc_uint bo 4 value"
| "encodeValue fc TypeUint64 value bo = enc_uint bo 8 value"
| "encodeValue fc TypeFloat32 value bo =
     (case ParseFloat32 fc value of Inl e \<Rightarrow> Inl (InvalidNumber e) | Inr v \<Rightarrow> Inr (PutUint32 bo v))"
| "encodeValue fc TypeFloat64 value bo =
     (case ParseFloat64 fc value of Inl e \<Rightarrow> Inl (InvalidNumber e) | Inr v \<Rightarrow> Inr (PutUint64 bo v))"
| "encodeValue fc TypeString value bo = (if value = [] then Inl EmptySearchString else Inr (bytes_of value))"
| "encodeValue fc TypeUTF16 value bo = (if value = [] then Inl EmptySearchString else Inr (enc_utf16 bo value))"
| "encodeValue fc TypeBytes value bo = parseHexBytes value"

subsection \<open>Decoding and comparing\<close>

text \<open>The number in the first \<open>n\<close> bytes, read as signed.\<close>

definition get_int :: "ByteOrder \<Rightarrow> nat \<Rightarrow> bytes \<Rightarrow> int" where
  "get_int bo n bs =
     (let v = int (get_uint bo n bs) in if 2 ^ (8 * n - 1) \<le> v then v - 2 ^ (8 * n) else v)"

definition cmpOrdered :: "int \<Rightarrow> int \<Rightarrow> int" where
  "cmpOrdered a b = (if a < b then -1 else if b < a then 1 else 0)"

text \<open>IEEE 754 order of \<open>w\<close>-bit floats with \<open>m\<close> fraction bits: sign and magnitude, and nothing is
  above or below a NaN.\<close>

definition float_mag :: "nat \<Rightarrow> nat \<Rightarrow> nat" where
  "float_mag w v = v mod 2 ^ (w - 1)"

definition float_nan :: "nat \<Rightarrow> nat \<Rightarrow> nat \<Rightarrow> bool" where
  "float_nan w m v = ((2 ^ (w - 1 - m) - 1) * 2 ^ m < float_mag w v)"

definition float_key :: "nat \<Rightarrow> nat \<Rightarrow> int" where
  "float_key w v = (if 2 ^ (w - 1) \<le> v then - int (float_mag w v) else int (float_mag w v))"

definition cmp_float :: "nat \<Rightarrow> nat \<Rightarrow> nat \<Rightarrow> nat \<Rightarrow> int" where
  "cmp_float w m a b =
     (if float_nan w m a \<or> float_nan w m b then 0 else cmpOrdered (float_key w a) (float_key w b))"

fun cmp_bytes :: "bytes \<Rightarrow> bytes \<Rightarrow> int" where
  "cmp_bytes (a # as) (b # bs) = (if a < b then -1 else if b < a then 1 else cmp_bytes as bs)"
| "cmp_bytes as bs = cmpOrdered (int (length as)) (int (length bs))"

definition compareValues :: "ValueType \<Rightarrow> bytes \<Rightarrow> bytes \<Rightarrow> ByteOrder \<Rightarrow> int" where
  "compareValues vt a b bo =
     (let need = valueSize vt in
      if 0 < need \<and> (length a < need \<or> length b < need) then 0
      else case vt of
          TypeInt8 \<Rightarrow> cmpOrdered (get_int bo 1 a) (get_int bo 1 b)
        | TypeInt16 \<Rightarrow> cmpOrdered (get_int bo 2 a) (get_int bo 2 b)
        | TypeInt32 \<Rightarrow> cmpOrdered (get_int bo 4 a) (get_int bo 4 b)
        | TypeInt64 \<Rightarrow> cmpOrdered (get_int bo 8 a) (get_int bo 8 b)
        | TypeUint8 \<Rightarrow> cmpOrdered (int (get_uint bo 1 a)) (int (get_uint bo 1 b))
        | TypeUint16 \<Rightarrow> cmpOrdered (int (get_uint bo 2 a)) (int (get_uint bo 2 b))
        | TypeUint32 \<Rightarrow> cmpOrdered (int (get_uint bo 4 a)) (int (get_uint bo 4 b))
        | TypeUint64 \<Rightarrow> cmpOrdered (int (get_uint bo 8 a)) (int (get_uint bo 8 b))
        | TypeFloat32 \<Rightarrow> cmp_float 32 23 (get_uint bo 4 a) (get_uint bo 4 b)
        | TypeFloat64 \<Rightarrow> cmp_float 64 52 (get_uint bo 8 a) (get_uint bo 8 b)
        | TypeString \<Rightarrow> cmp_bytes a b
        | TypeUTF16 \<Rightarrow> cmp_bytes a b
        | TypeBytes \<Rightarrow> cmp_bytes a b)"

definition fmtHexBytes :: "bytes \<Rightarrow> gostring" where
  "fmtHexBytes data = Join (map (\<lambda>b. show_hex_pad 2 (unat b)) data) [SP]"

fun get_units :: "ByteOrder \<Rightarrow> bytes \<Rightarrow> nat list" where
  "get_units bo (a # b # bs) = get_uint bo 2 [a, b] # get_units bo bs"
| "get_units bo bs = []"

definition formatValue :: "float_conv \<Rightarrow> ValueType \<Rightarrow> bytes \<Rightarrow> ByteOrder \<Rightarrow> gostring" where
  "formatValue fc vt data bo =
     (let checked = (\<lambda>n s. if length data < n then ''?'' else s) in
      case vt of
          TypeInt8 \<Rightarrow> checked 1 (show_int (get_int bo 1 data))
        | TypeInt16 \<Rightarrow> checked 2 (show_int (get_int bo 2 data))
        | TypeInt32 \<Rightarrow> checked 4 (show_int (get_int bo 4 data))
        | TypeInt64 \<Rightarrow> checked 8 (show_int (get_int bo 8 data))
        | TypeUint8 \<Rightarrow> checked 1 (show_nat (get_uint bo 1 data))
        | TypeUint16 \<Rightarrow> checked 2 (show_nat (get_uint bo 2 data))
        | TypeUint32 \<Rightarrow> checked 4 (show_nat (get_uint bo 4 data))
        | TypeUint64 \<Rightarrow> checked 8 (show_nat (get_uint bo 8 data))
        | TypeFloat32 \<Rightarrow> checked 4 (FormatFloat32 fc (Uint32 bo data))
        | TypeFloat64 \<Rightarrow> checked 8 (FormatFloat64 fc (Uint64 bo data))
        | TypeString \<Rightarrow> string_of_bytes data
        | TypeUTF16 \<Rightarrow> checked 2 (string_of_runes (utf16_decode (get_units bo data)))
        | TypeBytes \<Rightarrow> fmtHexBytes data)"

subsection \<open>Struct patterns\<close>

text \<open>A field after JSON decoding, and with its encoded value.\<close>

record rawField =
  rfOffset :: int
  rfType :: gostring
  rfValue :: gostring

record structField =
  sfOffset :: nat
  sfType :: ValueType
  sfEncoded :: bytes

datatype pattern_error =
    InvalidJSON | EmptyPattern | TooManyFields | NegativeOffset nat | BadFieldType nat | BadFieldValue nat enc_error

fun parse_fields :: "float_conv \<Rightarrow> ByteOrder \<Rightarrow> nat \<Rightarrow> rawField list \<Rightarrow> nat \<Rightarrow> pattern_error + structField list \<times> nat" where
  "parse_fields fc bo i [] maxEnd = Inr ([], maxEnd)"
| "parse_fields fc bo i (f # fs) maxEnd =
     (if rfOffset f < 0 then Inl (NegativeOffset i)
      else case parseValueType (rfType f) of
             None \<Rightarrow> Inl (BadFieldType i)
           | Some vt \<Rightarrow>
               (case encodeValue fc vt (rfValue f) bo of
                  Inl e \<Rightarrow> Inl (BadFieldValue i e)
                | Inr enc \<Rightarrow>
                    let off = nat (rfOffset f); m = max maxEnd (off + length enc) in
                    case parse_fields fc bo (i + 1) fs m of
                      Inl e \<Rightarrow> Inl e
                    | Inr (sfs, e) \<Rightarrow> Inr (\<lparr>sfOffset = off, sfType = vt, sfEncoded = enc\<rparr> # sfs, e)))"

text \<open>\<open>decoded\<close> is what \<open>json.Unmarshal\<close> gives for the pattern.\<close>

definition parseStructPattern ::
  "float_conv \<Rightarrow> rawField list option \<Rightarrow> ByteOrder \<Rightarrow> pattern_error + structField list \<times> nat" where
  "parseStructPattern fc decoded bo =
     (case decoded of
        None \<Rightarrow> Inl InvalidJSON
      | Some fs \<Rightarrow>
          if fs = [] then Inl EmptyPattern
          else if 32 < length fs then Inl TooManyFields
          else parse_fields fc bo 0 fs 0)"

subsection \<open>Facts on numbers\<close>

definition signed_type :: "ValueType \<Rightarrow> bool" where
  "signed_type vt = (vt \<in> {TypeInt8, TypeInt16, TypeInt32, TypeInt64})"

definition int_type :: "ValueType \<Rightarrow> bool" where
  "int_type vt = (signed_type vt \<or> vt \<in> {TypeUint8, TypeUint16, TypeUint32, TypeUint64})"

definition float_type :: "ValueType \<Rightarrow> bool" where
  "float_type vt = (vt \<in> {TypeFloat32, TypeFloat64})"

text \<open>The number that the bytes of an integer type stand for, and the one a text stands for.\<close>

definition int_value :: "ValueType \<Rightarrow> bytes \<Rightarrow> ByteOrder \<Rightarrow> int" where
  "int_value vt bs bo =
     (if signed_type vt then get_int bo (valueSize vt) bs else int (get_uint bo (valueSize vt) bs))"

definition parse_value :: "ValueType \<Rightarrow> gostring \<Rightarrow> num_error + int" where
  "parse_value vt s =
     (if signed_type vt then ParseInt s 0 (8 * valueSize vt)
      else map_sum id int (ParseUint s 0 (8 * valueSize vt)))"

lemma pow_half: "0 < n \<Longrightarrow> (2::int) ^ (8 * n) = 2 * 2 ^ (8 * n - 1)"
  by (simp add: power_eq_if [of _ "8 * n"])

lemma get_uint_int_less: "int (get_uint bo n bs) < 2 ^ (8 * n)"
proof -
  have "get_uint bo n bs < 2 ^ (8 * n)" using get_uint_less [of bo n bs] by (simp add: power_mult)
  then show ?thesis by (metis of_nat_less_iff of_nat_numeral of_nat_power)
qed

lemma get_put_int:
  assumes "- (2 ^ (8 * n - 1)) \<le> v" "v < 2 ^ (8 * n - 1)" "0 < n"
  shows "get_int bo n (put_uint bo n (nat (v mod 2 ^ (8 * n)))) = v"
proof -
  have two: "(2::int) ^ (8 * n) = 2 * 2 ^ (8 * n - 1)" by (rule pow_half [OF assms(3)])
  have pow: "(256::nat) ^ n = 2 ^ (8 * n)" by (simp add: power_mult)
  have "int (nat (v mod 2 ^ (8 * n)) mod 256 ^ n) = v mod 2 ^ (8 * n)"
    unfolding pow by (simp add: nat_mod_distrib)
  then have g: "int (get_uint bo n (put_uint bo n (nat (v mod 2 ^ (8 * n))))) = v mod 2 ^ (8 * n)"
    using get_put_uint [of bo n "nat (v mod 2 ^ (8 * n))" "[]"] by simp
  show ?thesis
  proof (cases "v < 0")
    case True
    have "v mod 2 ^ (8 * n) = (v + 2 ^ (8 * n)) mod 2 ^ (8 * n)" by simp
    also have "\<dots> = v + 2 ^ (8 * n)" using True assms two by (intro mod_pos_pos_trivial) auto
    finally show ?thesis using g True assms two by (simp add: get_int_def Let_def)
  next
    case False
    then have "v mod 2 ^ (8 * n) = v" using assms two by (intro mod_pos_pos_trivial) auto
    then show ?thesis using g False assms by (simp add: get_int_def Let_def)
  qed
qed

lemma get_int_range:
  assumes "0 < n"
  shows "- (2 ^ (8 * n - 1)) \<le> get_int bo n bs \<and> get_int bo n bs < 2 ^ (8 * n - 1)"
proof -
  have two: "(2::int) ^ (8 * n) = 2 * 2 ^ (8 * n - 1)" by (rule pow_half [OF assms])
  show ?thesis using two get_uint_int_less [of bo n bs] by (auto simp: get_int_def Let_def)
qed

lemma put_get_int:
  assumes "length bs = n" "0 < n"
  shows "put_uint bo n (nat (get_int bo n bs mod 2 ^ (8 * n))) = bs"
proof -
  have lt: "int (get_uint bo n bs) < 2 ^ (8 * n)" by (rule get_uint_int_less)
  have "get_int bo n bs mod 2 ^ (8 * n) = int (get_uint bo n bs) mod 2 ^ (8 * n)"
    by (simp add: get_int_def Let_def)
  also have "\<dots> = int (get_uint bo n bs)" using lt by simp
  finally show ?thesis using put_get_uint [OF assms(1), of bo] by simp
qed

lemma enc_int_value:
  assumes "enc_int bo n s = Inr bs" "0 < n"
  shows "length bs = n \<and> ParseInt s 0 (8 * n) = Inr (get_int bo n bs)"
proof -
  obtain v where v: "ParseInt s 0 (8 * n) = Inr v" "bs = put_uint bo n (nat (v mod 2 ^ (8 * n)))"
    using assms(1) by (auto simp: enc_int_def split: sum.splits)
  with get_put_int [of n v bo] ParseInt_range [OF v(1)] assms(2) show ?thesis by simp
qed

lemma enc_uint_value:
  assumes "enc_uint bo n s = Inr bs"
  shows "length bs = n \<and> ParseUint s 0 (8 * n) = Inr (get_uint bo n bs)"
proof -
  obtain v where v: "ParseUint s 0 (8 * n) = Inr v" "bs = put_uint bo n v"
    using assms(1) by (auto simp: enc_uint_def split: sum.splits)
  have "(256::nat) ^ n = 2 ^ (8 * n)" by (simp add: power_mult)
  with get_put_uint [of bo n v "[]"] ParseUint_less [OF v(1)] v show ?thesis by simp
qed

lemma enc_int_show:
  assumes "length bs = n" "0 < n"
  shows "enc_int bo n (show_int (get_int bo n bs)) = Inr bs"
  using ParseInt_show_int [of "8 * n" "get_int bo n bs"] get_int_range [OF assms(2), of bo bs] assms
  by (simp add: enc_int_def put_get_int)

lemma enc_uint_show:
  assumes "length bs = n"
  shows "enc_uint bo n (show_nat (get_uint bo n bs)) = Inr bs"
proof -
  have "get_uint bo n bs < 2 ^ (8 * n)" using get_uint_less [of bo n bs] by (simp add: power_mult)
  with ParseUint_show_nat [of "get_uint bo n bs" "8 * n"] assms show ?thesis
    by (simp add: enc_uint_def put_get_uint)
qed

lemma encode_int_type:
  assumes "int_type vt"
  shows "encodeValue fc vt s bo =
    (if signed_type vt then enc_int bo (valueSize vt) s else enc_uint bo (valueSize vt) s)"
  using assms by (cases vt) (simp_all add: int_type_def signed_type_def)

lemma format_int_type:
  assumes "int_type vt" "length bs = valueSize vt"
  shows "formatValue fc vt bs bo = show_int (int_value vt bs bo)"
  using assms by (cases vt) (simp_all add: int_type_def signed_type_def formatValue_def int_value_def show_int_def)

lemma valueSize_pos: "int_type vt \<Longrightarrow> 0 < valueSize vt"
  by (cases vt) (simp_all add: int_type_def signed_type_def)

lemma encode_int_value:
  assumes "encodeValue fc vt s bo = Inr bs" "int_type vt"
  shows "length bs = valueSize vt \<and> parse_value vt s = Inr (int_value vt bs bo)"
  using assms enc_int_value [of bo "valueSize vt" s bs] enc_uint_value [of bo "valueSize vt" s bs] valueSize_pos
  by (auto simp: encode_int_type parse_value_def int_value_def split: if_splits)

lemma encode_format_int:
  assumes "int_type vt" "length bs = valueSize vt"
  shows "encodeValue fc vt (formatValue fc vt bs bo) bo = Inr bs"
proof (cases "signed_type vt")
  case True
  then show ?thesis
    using assms enc_int_show [OF assms(2)] valueSize_pos by (simp add: encode_int_type format_int_type int_value_def)
next
  case False
  have "show_int (int n) = show_nat n" for n by (simp add: show_int_def)
  then show ?thesis
    using False assms enc_uint_show [OF assms(2)] by (simp add: encode_int_type format_int_type int_value_def)
qed

lemma compare_int_type:
  assumes "int_type vt" "length a = valueSize vt" "length b = valueSize vt"
  shows "compareValues vt a b bo = cmpOrdered (int_value vt a bo) (int_value vt b bo)"
  using assms by (cases vt) (simp_all add: int_type_def signed_type_def compareValues_def int_value_def)

lemma int_value_inj:
  assumes "int_type vt" "length a = valueSize vt" "length b = valueSize vt" "int_value vt a bo = int_value vt b bo"
  shows "a = b"
proof (cases "signed_type vt")
  case True
  then have "get_int bo (valueSize vt) a = get_int bo (valueSize vt) b" using assms(4) by (simp add: int_value_def)
  then show ?thesis
    using put_get_int [OF assms(2) valueSize_pos [OF assms(1)], of bo]
      put_get_int [OF assms(3) valueSize_pos [OF assms(1)], of bo] by metis
next
  case False
  then have "get_uint bo (valueSize vt) a = get_uint bo (valueSize vt) b" using assms(4) by (simp add: int_value_def)
  then show ?thesis
    using put_get_uint [OF assms(2), of bo] put_get_uint [OF assms(3), of bo] by metis
qed

subsection \<open>Facts on text and order\<close>

lemma hex_digit_plain: "d < 16 \<Longrightarrow> (of_char (hex_digit d) :: nat) < 128 \<and> \<not> is_space (of_char (hex_digit d))"
  by (simp add: hex_digit_def is_space_def)

lemma hex_byte_plain: "plain_word (show_hex_pad 2 (unat (b :: 8 word)))"
proof -
  have "unat b < 256" using unat_less [of b] by simp
  moreover from this have "unat b div 16 < 16" by simp
  ultimately show ?thesis using hex_digit_plain by (simp add: show_hex_byte plain_word_def)
qed

lemma parse_hex_parts_show: "parse_hex_parts i (map (\<lambda>b. show_hex_pad 2 (unat b)) bs) = Inr bs"
proof (induction bs arbitrary: i)
  case (Cons b bs)
  have "unat b < 256" using unat_less [of b] by simp
  then show ?case using Cons ParseUint_hex_byte [of "unat b"] by simp
qed simp

lemma Join_ends:
  assumes "ws \<noteq> []" "list_all plain_word ws"
  shows "Join ws [SP] \<noteq> [] \<and> hd (Join ws [SP]) \<in> \<Union> (set ` set ws) \<and> last (Join ws [SP]) \<in> \<Union> (set ` set ws)"
  using assms
proof (induction ws)
  case (Cons w ws)
  show ?case
  proof (cases "ws = []")
    case False
    with Cons show ?thesis by (auto simp: Join_Cons plain_word_def hd_append)
  qed (use Cons in \<open>auto simp: plain_word_def\<close>)
qed simp

lemma parseHexBytes_fmt:
  assumes "bs \<noteq> []"
  shows "parseHexBytes (fmtHexBytes bs) = Inr bs"
proof -
  let ?ws = "map (\<lambda>b. show_hex_pad 2 (unat b)) bs"
  have pl: "list_all plain_word ?ws" by (simp add: list_all_iff hex_byte_plain)
  have e: "Join ?ws [SP] \<noteq> []" "hd (Join ?ws [SP]) \<in> \<Union> (set ` set ?ws)" "last (Join ?ws [SP]) \<in> \<Union> (set ` set ?ws)"
    using Join_ends [OF _ pl] assms by auto
  have "(of_char c :: nat) < 128 \<and> \<not> is_space (of_char c)" if "c \<in> \<Union> (set ` set ?ws)" for c
    using that pl by (auto simp: list_all_iff plain_word_def)
  with e have "TrimSpace (Join ?ws [SP]) = Join ?ws [SP]" by (intro TrimSpace_id) auto
  with e(1) show ?thesis
    by (simp add: parseHexBytes_def fmtHexBytes_def Let_def Fields_Join [OF pl] parse_hex_parts_show)
qed

lemma cmpOrdered_swap: "cmpOrdered b a = - cmpOrdered a b"
  by (simp add: cmpOrdered_def)

lemma cmp_bytes_swap: "cmp_bytes b a = - cmp_bytes a b"
  by (induction a b rule: cmp_bytes.induct) (auto simp: cmpOrdered_def)

lemma cmp_bytes_eq: "cmp_bytes a b = 0 \<longleftrightarrow> a = b"
  by (induction a b rule: cmp_bytes.induct) (auto simp: cmpOrdered_def split: if_splits)

subsection \<open>Properties\<close>

text \<open>C39: the bytes \<open>encodeValue\<close> gives for an integer type have the size of the type, stand for the
  number the text stands for, are shown as that number in decimal, and the shown text is encoded to
  the same bytes; shown strings and byte patterns are encoded to the same bytes too.\<close>

theorem encodeValue_roundtrip:
  assumes "encodeValue fc vt s bo = Inr bs" "int_type vt \<or> vt = TypeString \<or> vt = TypeBytes" "bs \<noteq> []"
  shows "encodeValue fc vt (formatValue fc vt bs bo) bo = Inr bs
    \<and> (int_type vt \<longrightarrow> length bs = valueSize vt \<and> parse_value vt s = Inr (int_value vt bs bo)
        \<and> formatValue fc vt bs bo = show_int (int_value vt bs bo))"
proof (cases "int_type vt")
  case True
  with encode_int_value [OF assms(1)] encode_format_int [OF True, of bs fc bo] format_int_type [OF True, of bs fc bo]
  show ?thesis by blast
next
  case False
  then consider "vt = TypeString" | "vt = TypeBytes" using assms(2) by blast
  then show ?thesis
  proof cases
    case 1
    then show ?thesis
      using assms(1) False by (auto simp: formatValue_def split: if_splits)
  next
    case 2
    then show ?thesis using parseHexBytes_fmt [OF assms(3)] False by (simp add: formatValue_def)
  qed
qed

theorem encodeValue_roundtrip_witness:
  "let fc = \<lparr>ParseFloat32 = (\<lambda>s. Inl ErrSyntax), ParseFloat64 = (\<lambda>s. Inl ErrSyntax),
      FormatFloat32 = (\<lambda>w. []), FormatFloat64 = (\<lambda>w. [])\<rparr>
   in encodeValue fc TypeInt16 (formatValue fc TypeInt16 [0xFE, 0xFF] LittleEndian) LittleEndian = Inr [0xFE, 0xFF]
      \<and> parse_value TypeInt16 ''-2'' = Inr (int_value TypeInt16 [0xFE, 0xFF] LittleEndian)"
proof -
  let ?fc = "\<lparr>ParseFloat32 = (\<lambda>s. Inl ErrSyntax), ParseFloat64 = (\<lambda>s. Inl ErrSyntax),
      FormatFloat32 = (\<lambda>w. []), FormatFloat64 = (\<lambda>w. [])\<rparr>"
  have "ParseInt ''-2'' 0 16 = Inr (- 2)" by (simp add: ParseInt_def ParseUint_def literal_base_def digit_of_def)
  then have "encodeValue ?fc TypeInt16 ''-2'' LittleEndian = Inr [0xFE, 0xFF]"
    by (simp add: enc_int_def put_uint_def)
  moreover have "int_type TypeInt16" by (simp add: int_type_def signed_type_def)
  ultimately show ?thesis
    using encodeValue_roundtrip [of ?fc TypeInt16 "''-2''" LittleEndian "[0xFE, 0xFF]"] unfolding Let_def by blast
qed

text \<open>\<open>compareValues\<close> orders integer values by the numbers they stand for, and, for every type that
  is not a float, two values of equal length compare equal only when they are the same bytes;
  swapping the arguments negates the result, for floats too.\<close>

theorem compareValues_order:
  assumes "length a = length b" "\<not> float_type vt" "0 < valueSize vt \<Longrightarrow> length a = valueSize vt"
  shows "(compareValues vt a b bo = 0 \<longleftrightarrow> a = b)
    \<and> compareValues vt b a bo = - compareValues vt a b bo
    \<and> (int_type vt \<longrightarrow> compareValues vt a b bo = cmpOrdered (int_value vt a bo) (int_value vt b bo))"
proof (cases "int_type vt")
  case True
  have len: "length a = valueSize vt" "length b = valueSize vt" using assms valueSize_pos [OF True] by auto
  note c = compare_int_type [OF True]
  have "cmpOrdered (int_value vt a bo) (int_value vt b bo) = 0 \<longleftrightarrow> int_value vt a bo = int_value vt b bo"
    by (auto simp: cmpOrdered_def)
  then have "compareValues vt a b bo = 0 \<longleftrightarrow> a = b"
    unfolding c [OF len] using int_value_inj [OF True len, of bo] by blast
  moreover have "compareValues vt b a bo = - compareValues vt a b bo"
    unfolding c [OF len] c [OF len(2,1)] by (rule cmpOrdered_swap)
  ultimately show ?thesis using c [OF len] by blast
next
  case False
  then have eq: "compareValues vt x y bo = cmp_bytes x y" for x y
    using assms(2) by (cases vt) (simp_all add: int_type_def signed_type_def float_type_def compareValues_def)
  show ?thesis unfolding eq using False cmp_bytes_eq [of a b] cmp_bytes_swap [of b a] by blast
qed

theorem compareValues_order_witness:
  "compareValues TypeInt8 [0xFF] [1] BigEndian = cmpOrdered (int_value TypeInt8 [0xFF] BigEndian) (int_value TypeInt8 [1] BigEndian)
   \<and> compareValues TypeInt8 [0xFF] [1] BigEndian = - 1"
  using compareValues_order [of "[0xFF]" "[1]" TypeInt8 BigEndian]
  by (simp add: float_type_def int_type_def signed_type_def int_value_def get_int_def get_uint_def cmpOrdered_def)

lemma utf16_encode_ne: "rs \<noteq> [] \<Longrightarrow> utf16_encode rs \<noteq> []"
  by (cases rs) auto

lemma length_enc_utf16: "length (enc_utf16 bo s) = 2 * length (utf16_encode (runes s))"
  by (simp add: enc_utf16_def length_concat comp_def sum_list_triv)

lemma runes_ne: "s \<noteq> [] \<Longrightarrow> runes s \<noteq> []"
  by (simp add: runes_Cons_decode)

text \<open>encoded values are well typed: a value of a fixed-size type takes exactly the bytes of that type,
  a text is not empty, and UTF-16 text is whole code units.\<close>

theorem encodeValue_sized:
  assumes "encodeValue fc vt s bo = Inr bs"
  shows "(valueSize vt \<noteq> 0 \<longrightarrow> length bs = valueSize vt)
    \<and> (vt \<in> {TypeString, TypeUTF16} \<longrightarrow> bs \<noteq> []) \<and> (vt = TypeUTF16 \<longrightarrow> even (length bs))"
proof -
  have u: "enc_utf16 bo s \<noteq> []" if "s \<noteq> []"
    using length_enc_utf16 [of bo s] utf16_encode_ne [OF runes_ne [OF that]] by fastforce
  have b: "bytes_of s \<noteq> []" if "s \<noteq> []" using that length_bytes_of [of s] by fastforce
  show ?thesis
    using assms u b length_enc_utf16 [of bo s]
    by (cases vt) (auto simp: enc_int_def enc_uint_def PutUint32_def PutUint64_def split: sum.splits if_splits)
qed

theorem encodeValue_sized_witness:
  "\<exists>bs. encodeValue \<lparr>ParseFloat32 = (\<lambda>s. Inl ErrSyntax), ParseFloat64 = (\<lambda>s. Inl ErrSyntax),
      FormatFloat32 = (\<lambda>w. []), FormatFloat64 = (\<lambda>w. [])\<rparr> TypeUTF16 ''hp'' LittleEndian = Inr bs
    \<and> bs \<noteq> [] \<and> even (length bs)"
proof -
  let ?fc = "\<lparr>ParseFloat32 = (\<lambda>s. Inl ErrSyntax), ParseFloat64 = (\<lambda>s. Inl ErrSyntax),
      FormatFloat32 = (\<lambda>w. []), FormatFloat64 = (\<lambda>w. [])\<rparr>"
  have "encodeValue ?fc TypeUTF16 ''hp'' LittleEndian = Inr (enc_utf16 LittleEndian ''hp'')" by simp
  from encodeValue_sized [OF this] this show ?thesis by blast
qed

end
