(* ===== verification/Mem_Store.thy ===== *)
theory Mem_Store
  imports Mem_Types
begin

text \<open>
  The hybrid store of scan matches (tools/memtool/matchstore.go): a slice up to ten million matches,
  a file of fixed-size records above. A file is the list of its bytes; whether creating and writing
  it succeeds are arguments. The locale \<open>record_file\<close> states what fixed-size records in a file
  give back and is interpreted on the store's record format. The theorems show that the store
  behaves as a list of matches, whichever side of the threshold it is on, through every way of
  reading it.
\<close>

record scanMatch =
  Address :: uint64
  PrevData :: bytes

record matchStore =
  mem :: "scanMatch list"
  disk :: "bytes option"
  mcount :: nat
  vSize :: nat
  onDisk :: bool
  recSz :: nat

definition matchMemThreshold :: nat where
  "matchMemThreshold = 10000000"

definition matchAbsoluteMax :: nat where
  "matchAbsoluteMax = 100000000"

definition matchDiskBatchSize :: nat where
  "matchDiskBatchSize = 10000"

definition maxBatch :: nat where
  "maxBatch = 100000"

definition newMatchStore :: "nat \<Rightarrow> matchStore" where
  "newMatchStore vs = \<lparr>mem = [], disk = None, mcount = 0, vSize = vs, onDisk = False, recSz = 8 + vs\<rparr>"

definition promoteThreshold :: nat where
  "promoteThreshold = matchMemThreshold"

subsection \<open>Writing\<close>

datatype store_error = PromoteFailed | AppendFailed | IndexOutOfRange | DiskReadFailed

text \<open>A write that fails may have written some of its bytes.\<close>

datatype wresult = WOk | WFail nat

text \<open>The outcomes of the disk operations of an \<open>Add\<close>: whether promotion succeeds, and the append.\<close>

type_synonym io_result = "bool \<times> wresult"

definition record_bytes :: "nat \<Rightarrow> scanMatch \<Rightarrow> bytes" where
  "record_bytes vs m =
     PutUint64 LittleEndian (Address m)
     @ take vs (PrevData m @ replicate (vs - length (PrevData m)) 0)"

definition parse_record :: "nat \<Rightarrow> bytes \<Rightarrow> scanMatch" where
  "parse_record vs buf = \<lparr>Address = Uint64 LittleEndian (slice buf 0 8), PrevData = slice buf 8 (8 + vs)\<rparr>"

definition promoteToDisk :: "matchStore \<Rightarrow> bool \<Rightarrow> store_error + matchStore" where
  "promoteToDisk ms ok =
     (if ok then Inr (ms\<lparr>disk := Some (concat (map (record_bytes (vSize ms)) (mem ms))), onDisk := True, mem := []\<rparr>)
      else Inl PromoteFailed)"

definition appendDisk :: "matchStore \<Rightarrow> scanMatch \<Rightarrow> wresult \<Rightarrow> matchStore \<times> store_error option" where
  "appendDisk ms m w =
     (let buf = record_bytes (vSize ms) m in
      case w of
        WFail k \<Rightarrow> (ms\<lparr>disk := map_option (\<lambda>d. d @ take k buf) (disk ms)\<rparr>, Some AppendFailed)
      | WOk \<Rightarrow> (ms\<lparr>disk := map_option (\<lambda>d. d @ buf) (disk ms), mcount := mcount ms + 1\<rparr>, None))"

definition Add :: "io_result \<Rightarrow> matchStore \<Rightarrow> scanMatch \<Rightarrow> matchStore \<times> store_error option" where
  "Add io ms m =
     (if matchAbsoluteMax \<le> mcount ms then (ms, None)
      else case (if \<not> onDisk ms \<and> promoteThreshold \<le> mcount ms then promoteToDisk ms (fst io) else Inr ms) of
             Inl e \<Rightarrow> (ms, Some e)
           | Inr ms1 \<Rightarrow>
               if onDisk ms1 then appendDisk ms1 m (snd io)
               else (ms1\<lparr>mem := mem ms1 @ [m], mcount := mcount ms1 + 1\<rparr>, None))"

text \<open>\<open>io n\<close> is the outcome of the \<open>Add\<close> that finds \<open>n\<close> matches in the store; an error ends the loop.\<close>

fun AddBulk :: "(nat \<Rightarrow> io_result) \<Rightarrow> matchStore \<Rightarrow> scanMatch list \<Rightarrow> matchStore \<times> store_error option" where
  "AddBulk io ms [] = (ms, None)"
| "AddBulk io ms (m # matches) =
     (case Add (io (mcount ms)) ms m of
        (ms1, Some e) \<Rightarrow> (ms1, Some e)
      | (ms1, None) \<Rightarrow> AddBulk io ms1 matches)"

definition Close :: "matchStore \<Rightarrow> matchStore" where
  "Close ms = ms\<lparr>mem := [], disk := None, mcount := 0\<rparr>"

definition newMatchStoreFromSlice :: "scanMatch list \<Rightarrow> nat \<Rightarrow> matchStore" where
  "newMatchStoreFromSlice matches vs = (newMatchStore vs)\<lparr>mem := matches, mcount := length matches\<rparr>"

definition mergeMatchStores :: "(nat \<Rightarrow> io_result) \<Rightarrow> scanMatch list list \<Rightarrow> nat \<Rightarrow> matchStore" where
  "mergeMatchStores io slices vs =
     (if sum_list (map length slices) \<le> matchMemThreshold then newMatchStoreFromSlice (concat slices) vs
      else fst (AddBulk io (newMatchStore vs) (concat slices)))"

subsection \<open>Reading\<close>

definition readDisk :: "matchStore \<Rightarrow> nat \<Rightarrow> store_error + scanMatch" where
  "readDisk ms i =
     (case disk ms of
        None \<Rightarrow> Inl DiskReadFailed
      | Some d \<Rightarrow>
          let buf = take (recSz ms) (drop (i * recSz ms) d) in
          if length buf < recSz ms then Inl DiskReadFailed else Inr (parse_record (vSize ms) buf))"

definition readDiskBatch :: "matchStore \<Rightarrow> nat \<Rightarrow> nat \<Rightarrow> store_error + scanMatch list" where
  "readDiskBatch ms startIdx count0 =
     (case disk ms of
        None \<Rightarrow> Inl DiskReadFailed
      | Some d \<Rightarrow>
          let count = min count0 maxBatch;
              buf = take (count * recSz ms) (drop (startIdx * recSz ms) d);
              n = length buf
          in if n = 0 \<and> 0 < count * recSz ms then Inl DiskReadFailed
             else Inr (map (\<lambda>i. parse_record (vSize ms) (slice buf (i * recSz ms) (i * recSz ms + recSz ms)))
                        [0..<n div recSz ms]))"

definition Get :: "matchStore \<Rightarrow> int \<Rightarrow> store_error + scanMatch" where
  "Get ms i =
     (if i < 0 \<or> int (mcount ms) \<le> i then Inl IndexOutOfRange
      else if \<not> onDisk ms then Inr (mem ms ! nat i) else readDisk ms (nat i))"

definition GetBatch :: "matchStore \<Rightarrow> nat \<Rightarrow> nat \<Rightarrow> store_error + scanMatch list" where
  "GetBatch ms startIdx count0 =
     (if mcount ms \<le> startIdx then Inr []
      else let count = (if mcount ms < startIdx + count0 then mcount ms - startIdx else count0) in
        if \<not> onDisk ms then Inr (slice (mem ms) startIdx (startIdx + count))
        else readDiskBatch ms startIdx count)"

record matchIter =
  ipos :: nat
  ibatch :: "scanMatch list option"
  ibatchOff :: nat

definition Iter :: matchIter where
  "Iter = \<lparr>ipos = 0, ibatch = None, ibatchOff = 0\<rparr>"

definition Next :: "matchStore \<Rightarrow> matchIter \<Rightarrow> matchIter \<times> scanMatch option" where
  "Next ms it =
     (if mcount ms \<le> ipos it then (it, None)
      else if \<not> onDisk ms then (it\<lparr>ipos := ipos it + 1\<rparr>, Some (mem ms ! ipos it))
      else case (case ibatch it of
                   Some b \<Rightarrow> if ipos it - ibatchOff it < length b then Some (b ! (ipos it - ibatchOff it)) else None
                 | None \<Rightarrow> None) of
             Some m \<Rightarrow> (it\<lparr>ipos := ipos it + 1\<rparr>, Some m)
           | None \<Rightarrow>
               (case readDiskBatch ms (ipos it) (min matchDiskBatchSize (mcount ms - ipos it)) of
                  Inl e \<Rightarrow> (it\<lparr>ibatch := None\<rparr>, None)
                | Inr b \<Rightarrow>
                    if b = [] then (it\<lparr>ibatch := Some b\<rparr>, None)
                    else (\<lparr>ipos = ipos it + 1, ibatch = Some b, ibatchOff = ipos it\<rparr>, Some (b ! 0))))"

text \<open>Up to \<open>n\<close> matches of an iterator.\<close>

fun drain :: "matchStore \<Rightarrow> nat \<Rightarrow> matchIter \<Rightarrow> scanMatch list" where
  "drain ms 0 it = []"
| "drain ms (Suc n) it =
     (case Next ms it of (it1, Some m) \<Rightarrow> m # drain ms n it1 | (it1, None) \<Rightarrow> [])"

text \<open>The callback is a function on a state that may fail.\<close>

function foreach_loop ::
  "matchStore \<Rightarrow> nat \<Rightarrow> ('s \<Rightarrow> scanMatch list \<Rightarrow> nat \<Rightarrow> 'e + 's) \<Rightarrow> nat \<Rightarrow> 's \<Rightarrow> (store_error + 'e) + 's" where
  "foreach_loop ms bs fn i st =
     (if i < mcount ms \<and> 0 < bs then
        (let count = (if mcount ms < i + bs then mcount ms - i else bs) in
         case GetBatch ms i count of
           Inl e \<Rightarrow> Inl (Inl e)
         | Inr batch \<Rightarrow> (case fn st batch i of Inl e \<Rightarrow> Inl (Inr e) | Inr st1 \<Rightarrow> foreach_loop ms bs fn (i + bs) st1))
      else Inr st)"
  by pat_completeness auto
termination
  by (relation "measure (\<lambda>(ms, bs, fn, i, st). mcount ms - i)") auto

declare foreach_loop.simps [simp del]

definition ForEachBatch ::
  "matchStore \<Rightarrow> int \<Rightarrow> ('s \<Rightarrow> scanMatch list \<Rightarrow> nat \<Rightarrow> 'e + 's) \<Rightarrow> 's \<Rightarrow> (store_error + 'e) + 's" where
  "ForEachBatch ms batchSize fn st =
     foreach_loop ms (if batchSize \<le> 0 then matchDiskBatchSize else nat batchSize) fn 0 st"

subsection \<open>Files of fixed-size records\<close>

locale record_file =
  fixes enc :: "'a \<Rightarrow> bytes" and dec :: "bytes \<Rightarrow> 'a" and sz :: nat and ok :: "'a \<Rightarrow> bool"
  assumes sz_pos: "0 < sz"
    and enc_length: "length (enc x) = sz"
    and dec_enc: "ok x \<Longrightarrow> dec (enc x) = x"
begin

lemma length_records: "length (concat (map enc xs)) = length xs * sz"
  by (induction xs) (auto simp: enc_length)

lemma drop_records: "i \<le> length xs \<Longrightarrow> drop (i * sz) (concat (map enc xs) @ junk) = concat (map enc (drop i xs)) @ junk"
proof (induction i arbitrary: xs)
  case (Suc i)
  then obtain x xs' where "xs = x # xs'" by (cases xs) auto
  with Suc show ?case by (simp add: enc_length add.commute)
qed simp

lemma take_records: "n \<le> length xs \<Longrightarrow> take (n * sz) (concat (map enc xs) @ junk) = concat (map enc (take n xs))"
proof (induction n arbitrary: xs)
  case (Suc n)
  then obtain x xs' where "xs = x # xs'" by (cases xs) auto
  with Suc show ?case by (simp add: enc_length)
qed simp

lemma read_record:
  assumes "i < length xs" "ok (xs ! i)"
  shows "dec (take sz (drop (i * sz) (concat (map enc xs) @ junk))) = xs ! i"
    and "length (take sz (drop (i * sz) (concat (map enc xs) @ junk))) = sz"
proof -
  have "drop (i * sz) (concat (map enc xs) @ junk) = enc (xs ! i) @ concat (map enc (drop (Suc i) xs)) @ junk"
    using drop_records [of i xs junk] drop_Suc_conv [OF assms(1)] assms(1) by (simp del: drop_append)
  then show "dec (take sz (drop (i * sz) (concat (map enc xs) @ junk))) = xs ! i"
    "length (take sz (drop (i * sz) (concat (map enc xs) @ junk))) = sz"
    using assms(2) by (simp_all add: enc_length dec_enc)
qed

lemma read_batch:
  assumes "list_all ok xs" "s + n \<le> length xs"
    and buf: "buf = take (n * sz) (drop (s * sz) (concat (map enc xs) @ junk))"
  shows "length buf = n * sz" "map (\<lambda>i. dec (slice buf (i * sz) (i * sz + sz))) [0..<length buf div sz] = take n (drop s xs)"
proof -
  let ?ys = "take n (drop s xs)"
  have b: "buf = concat (map enc ?ys)" 
    unfolding buf using drop_records [of s xs junk] take_records [of n "drop s xs" junk] assms(2)
    by (simp del: drop_append take_append)
  then show len: "length buf = n * sz" using assms(2) length_records [of ?ys] by simp
  have "dec (slice buf (i * sz) (i * sz + sz)) = ?ys ! i" if "i < n" for i
  proof -
    have "?ys ! i \<in> set xs" using that assms(2) by simp
    then show ?thesis
      using read_record(1) [of i ?ys "[]"] that assms(1,2) by (simp add: b slice_def list_all_iff)
  qed
  then show "map (\<lambda>i. dec (slice buf (i * sz) (i * sz + sz))) [0..<length buf div sz] = take n (drop s xs)"
    using len sz_pos assms(2) by (intro nth_equalityI) simp_all
qed

end

lemma parse_record_bytes: "length (PrevData m) = vs \<Longrightarrow> parse_record vs (record_bytes vs m) = m"
  by (simp add: parse_record_def record_bytes_def slice_def)

interpretation rec: record_file "record_bytes vs" "parse_record vs" "8 + vs" "\<lambda>m. length (PrevData m) = vs" for vs
  by unfold_locales (simp_all add: parse_record_bytes, simp add: record_bytes_def)

subsection \<open>The store as a list\<close>

definition holds :: "matchStore \<Rightarrow> scanMatch list \<Rightarrow> bool" where
  "holds ms xs =
     (mcount ms = length xs \<and> recSz ms = 8 + vSize ms \<and> list_all (\<lambda>m. length (PrevData m) = vSize ms) xs
      \<and> (if onDisk ms
         then mem ms = [] \<and> (\<exists>junk. disk ms = Some (concat (map (record_bytes (vSize ms)) xs) @ junk))
         else mem ms = xs))"

text \<open>A failed append leaves junk at the end of the file; appends after it are lost, so a store is
  \<open>clean\<close> when the next append lands on a record boundary.\<close>

definition clean :: "matchStore \<Rightarrow> scanMatch list \<Rightarrow> bool" where
  "clean ms xs =
     (holds ms xs \<and> (onDisk ms \<longrightarrow> disk ms = Some (concat (map (record_bytes (vSize ms)) xs))))"

lemma clean_new: "clean (newMatchStore vs) []"
  by (simp add: clean_def holds_def newMatchStore_def)

lemma clean_promote: "clean ms xs \<Longrightarrow> \<not> onDisk ms \<Longrightarrow> promoteToDisk ms ok = Inr ms1 \<Longrightarrow>
    clean ms1 xs \<and> onDisk ms1 \<and> vSize ms1 = vSize ms"
  by (auto simp: promoteToDisk_def clean_def holds_def split: if_splits)

lemma clean_append:
  assumes "clean ms xs" "onDisk ms" "length (PrevData m) = vSize ms"
  shows "appendDisk ms m w = (ms1, r) \<Longrightarrow>
    vSize ms1 = vSize ms \<and> onDisk ms1 \<and> (if r = None then clean ms1 (xs @ [m]) else holds ms1 xs)"
  using assms by (auto simp: appendDisk_def clean_def holds_def Let_def split: wresult.splits)

lemma clean_Add:
  assumes "clean ms xs" "length (PrevData m) = vSize ms" "Add io ms m = (ms1, r)"
  shows "vSize ms1 = vSize ms
    \<and> (if r \<noteq> None then holds ms1 xs
       else clean ms1 (if matchAbsoluteMax \<le> length xs then xs else xs @ [m]))
    \<and> (onDisk ms1 \<longleftrightarrow> onDisk ms \<or> r \<noteq> Some PromoteFailed \<and> promoteThreshold \<le> length xs \<and> \<not> matchAbsoluteMax \<le> length xs)"
proof -
  have n: "mcount ms = length xs" using assms(1) by (simp add: clean_def holds_def)
  show ?thesis
  proof (cases "matchAbsoluteMax \<le> length xs")
    case True
    then show ?thesis using assms n by (auto simp: Add_def)
  next
    case False
    show ?thesis
    proof (cases "\<not> onDisk ms \<and> promoteThreshold \<le> length xs")
      case True
      show ?thesis
      proof (cases "promoteToDisk ms (fst io)")
        case (Inl e)
        then have "e = PromoteFailed" by (auto simp: promoteToDisk_def split: if_splits)
        then show ?thesis using assms(1,3) n False True Inl by (auto simp: Add_def clean_def)
      next
        case (Inr ms2)
        note c = clean_promote [OF assms(1) _ Inr]
        have a: "appendDisk ms2 m (snd io) = (ms1, r)" using assms(3) n False True Inr c by (auto simp: Add_def)
        have "r \<noteq> Some PromoteFailed" using a by (auto simp: appendDisk_def Let_def split: wresult.splits)
        with clean_append [OF _ _ _ a, of xs] c True assms(2) False show ?thesis by auto
      qed
    next
      case no: False
      show ?thesis
      proof (cases "onDisk ms")
        case True
        then have a: "appendDisk ms m (snd io) = (ms1, r)" using assms(3) n False by (auto simp: Add_def)
        with clean_append [OF assms(1) True assms(2) a] True False show ?thesis by auto
      next
        case mem: False
        then show ?thesis using assms n False no by (auto simp: Add_def clean_def holds_def)
      qed
    qed
  qed
qed

lemma clean_AddBulk:
  assumes "clean ms xs" "list_all (\<lambda>m. length (PrevData m) = vSize ms) ys" "AddBulk io ms ys = (ms1, None)"
    and "length xs \<le> matchAbsoluteMax"
  shows "clean ms1 (take matchAbsoluteMax (xs @ ys)) \<and> vSize ms1 = vSize ms"
  using assms
proof (induction ys arbitrary: ms xs)
  case (Cons y ys)
  obtain ms2 r where a: "Add (io (mcount ms)) ms y = (ms2, r)" by fastforce
  then have r: "r = None" using Cons.prems(3) by (cases r) auto
  let ?xs = "if matchAbsoluteMax \<le> length xs then xs else xs @ [y]"
  have c: "clean ms2 ?xs" "vSize ms2 = vSize ms"
    using clean_Add [OF Cons.prems(1) _ a] Cons.prems(2) r by auto
  have "take matchAbsoluteMax (?xs @ ys) = take matchAbsoluteMax (xs @ y # ys)" using Cons.prems(4) by (auto simp: take_Cons')
  with Cons.IH [OF c(1), folded c(2)] c Cons.prems a r show ?case by auto
qed simp

text \<open>An error leaves the matches that were stored before it readable.\<close>

lemma AddBulk_failed_prefix:
  assumes "clean ms xs" "list_all (\<lambda>m. length (PrevData m) = vSize ms) ys" "AddBulk io ms ys = (ms1, Some e)"
  shows "\<exists>k. holds ms1 (xs @ take k ys)"
  using assms
proof (induction ys arbitrary: ms xs)
  case (Cons y ys)
  obtain ms2 r where a: "Add (io (mcount ms)) ms y = (ms2, r)" by fastforce
  have v: "length (PrevData y) = vSize ms" using Cons.prems(2) by simp
  note c = clean_Add [OF Cons.prems(1) v a]
  show ?case
  proof (cases r)
    case (Some e')
    then show ?thesis using c Cons.prems(3) a by (intro exI [of _ 0]) auto
  next
    case None
    show ?thesis
    proof (cases "matchAbsoluteMax \<le> length xs")
      case True
      have "AddBulk io ms ys = (ms1, Some e)" using Cons.prems(1,3) True a None
        by (auto simp: Add_def clean_def holds_def)
      then have "AddBulk io ms zs = (ms, None)" for zs
        using Cons.prems(1) True by (induction zs) (auto simp: Add_def clean_def holds_def)
      with \<open>AddBulk io ms ys = (ms1, Some e)\<close> show ?thesis by simp
    next
      case False
      have "\<exists>k. holds ms1 ((xs @ [y]) @ take k ys)"
        using c None False Cons.prems(2,3) a by (intro Cons.IH [of ms2]) auto
      then obtain k where "holds ms1 (xs @ take (Suc k) (y # ys))" by auto
      then show ?thesis by blast
    qed
  qed
qed simp

lemma holds_readDiskBatch:
  assumes "holds ms xs" "onDisk ms" "s + n \<le> length xs" "n \<le> maxBatch"
  shows "readDiskBatch ms s n = Inr (take n (drop s xs))"
proof -
  obtain junk where d: "disk ms = Some (concat (map (record_bytes (vSize ms)) xs) @ junk)" and
      sz: "recSz ms = 8 + vSize ms" and ok: "list_all (\<lambda>m. length (PrevData m) = vSize ms) xs"
    using assms(1,2) by (auto simp: holds_def)
  define buf where "buf = take (n * recSz ms) (drop (s * recSz ms) (concat (map (record_bytes (vSize ms)) xs) @ junk))"
  note b = rec.read_batch [OF ok assms(3) buf_def [unfolded sz]]
  have "min n maxBatch = n" using assms(4) by simp
  then have "readDiskBatch ms s n = (if length buf = 0 \<and> 0 < n * recSz ms then Inl DiskReadFailed
      else Inr (map (\<lambda>i. parse_record (vSize ms) (slice buf (i * recSz ms) (i * recSz ms + recSz ms)))
                 [0..<length buf div recSz ms]))"
    unfolding readDiskBatch_def d option.case Let_def buf_def by (simp only: simp_thms)
  then show ?thesis using b by (cases "n = 0") (simp_all add: sz)
qed

lemma holds_Get:
  assumes "holds ms xs"
  shows "Get ms i = (if 0 \<le> i \<and> nat i < length xs then Inr (xs ! nat i) else Inl IndexOutOfRange)"
proof (cases "0 \<le> i \<and> nat i < length xs")
  case True
  have n: "mcount ms = length xs" using assms by (simp add: holds_def)
  show ?thesis
  proof (cases "onDisk ms")
    case on: True
    obtain junk where d: "disk ms = Some (concat (map (record_bytes (vSize ms)) xs) @ junk)"
        "recSz ms = 8 + vSize ms" "list_all (\<lambda>m. length (PrevData m) = vSize ms) xs"
      using assms on by (auto simp: holds_def)
    have "length (PrevData (xs ! nat i)) = vSize ms" using d(3) True by (simp add: list_all_length)
    note r = rec.read_record [OF conjunct2 [OF True], of "vSize ms", OF this, of junk]
    show ?thesis
      using True on n r unfolding Get_def readDisk_def d(1) by (auto simp: d(2) Let_def simp del: drop_append)
  next
    case False
    with True n assms show ?thesis by (auto simp: Get_def holds_def)
  qed
next
  case False
  with assms show ?thesis by (auto simp: Get_def holds_def)
qed

lemma holds_GetBatch:
  assumes "holds ms xs" "n \<le> maxBatch"
  shows "GetBatch ms s n = Inr (take n (drop s xs))"
proof -
  have c: "mcount ms = length xs" using assms(1) by (simp add: holds_def)
  have m: "mem ms = xs" if "\<not> onDisk ms" using assms(1) that by (simp add: holds_def)
  show ?thesis
  proof (cases "length xs \<le> s")
    case True
    then show ?thesis by (simp add: GetBatch_def c)
  next
    case False
    let ?n = "if length xs < s + n then length xs - s else n"
    have "take ?n (drop s xs) = take n (drop s xs)" by auto
    moreover have "readDiskBatch ms s ?n = Inr (take ?n (drop s xs))" if "onDisk ms"
      using False assms(2) by (intro holds_readDiskBatch [OF assms(1) that]) auto
    ultimately show ?thesis using False m by (auto simp: GetBatch_def c slice_def Let_def)
  qed
qed

text \<open>What a batch at a time gives is the whole list, cut into batches.\<close>

definition collect :: "scanMatch list \<Rightarrow> scanMatch list \<Rightarrow> nat \<Rightarrow> unit + scanMatch list" where
  "collect acc batch i = Inr (acc @ batch)"

lemma holds_foreach:
  assumes "holds ms xs" "0 < bs" "bs \<le> maxBatch"
  shows "foreach_loop ms bs collect i acc = Inr (acc @ drop i xs)"
proof -
  have c: "mcount ms = length xs" using assms(1) by (simp add: holds_def)
  show ?thesis
  proof (induction "length xs - i" arbitrary: i acc rule: less_induct)
    case less
    show ?case
    proof (cases "i < length xs")
      case True
      let ?n = "if length xs < i + bs then length xs - i else bs"
      define n where "n = ?n"
      have "GetBatch ms i n = Inr (take bs (drop i xs))"
        using holds_GetBatch [OF assms(1), of n i] assms(3) by (auto simp: n_def)
      moreover have "foreach_loop ms bs collect (i + bs) (acc @ take bs (drop i xs))
          = Inr ((acc @ take bs (drop i xs)) @ drop (i + bs) xs)"
        by (intro less) (use True assms(2) in auto)
      moreover have "take bs (drop i xs) @ drop (i + bs) xs = drop i xs"
        by (metis append_take_drop_id drop_drop add.commute)
      ultimately show ?thesis
        using True assms(2)
        by (subst foreach_loop.simps) (simp only: c n_def [symmetric] Let_def collect_def, simp)
    qed (simp add: foreach_loop.simps [of ms] c)
  qed
qed

text \<open>The iterator: its batch is a piece of the list.\<close>

definition iter_ok :: "scanMatch list \<Rightarrow> matchIter \<Rightarrow> bool" where
  "iter_ok xs it =
     (case ibatch it of None \<Rightarrow> True
      | Some b \<Rightarrow> ibatchOff it \<le> ipos it \<and> b = take (length b) (drop (ibatchOff it) xs))"

lemma Next_ok:
  assumes "holds ms xs" "iter_ok xs it" "ipos it < length xs"
  shows "\<exists>it1. Next ms it = (it1, Some (xs ! ipos it)) \<and> iter_ok xs it1 \<and> ipos it1 = Suc (ipos it)"
proof -
  have c: "mcount ms = length xs" using assms(1) by (simp add: holds_def)
  show ?thesis
  proof (cases "onDisk ms")
    case False
    then have "mem ms = xs" using assms(1) by (simp add: holds_def)
    with False assms c show ?thesis by (auto simp: Next_def iter_ok_def split: option.splits)
  next
    case on: True
    let ?n = "min matchDiskBatchSize (length xs - ipos it)"
    have r: "readDiskBatch ms (ipos it) ?n = Inr (take ?n (drop (ipos it) xs))"
      using assms(3) by (intro holds_readDiskBatch [OF assms(1) on]) (auto simp: matchDiskBatchSize_def maxBatch_def)
    have n0: "0 < ?n" using assms(3) by (simp add: matchDiskBatchSize_def)
    then have ne: "take ?n (drop (ipos it) xs) \<noteq> []" and hd: "take ?n (drop (ipos it) xs) ! 0 = xs ! ipos it"
      using assms(3) by simp_all
    have refill: "\<exists>it1. Next ms it = (it1, Some (xs ! ipos it)) \<and> iter_ok xs it1 \<and> ipos it1 = Suc (ipos it)"
      if "(case ibatch it of Some b \<Rightarrow> if ipos it - ibatchOff it < length b then Some (b ! (ipos it - ibatchOff it)) else None
                 | None \<Rightarrow> None) = None"
      unfolding Next_def that c r using ne hd assms(3) on by (simp add: iter_ok_def)
    show ?thesis
    proof (cases "ibatch it")
      case None
      then show ?thesis using refill by simp
    next
      case (Some b)
      show ?thesis
      proof (cases "ipos it - ibatchOff it < length b")
        case True
        have b: "b = take (length b) (drop (ibatchOff it) xs)" "ibatchOff it \<le> ipos it"
          using assms(2) Some by (simp_all add: iter_ok_def)
        have "b ! (ipos it - ibatchOff it) = drop (ibatchOff it) xs ! (ipos it - ibatchOff it)"
          using True b(1) by (metis nth_take)
        also have "\<dots> = xs ! ipos it" using b(2) assms(3) by simp
        finally show ?thesis
          using Some True on assms(2,3) c by (simp add: Next_def iter_ok_def)
      qed (use refill Some in simp)
    qed
  qed
qed

lemma holds_drain:
  assumes "holds ms xs"
  shows "iter_ok xs it \<Longrightarrow> ipos it + n = length xs \<Longrightarrow> drain ms n it = drop (ipos it) xs"
proof (induction n arbitrary: it)
  case (Suc n)
  obtain it1 where "Next ms it = (it1, Some (xs ! ipos it))" "iter_ok xs it1" "ipos it1 = Suc (ipos it)"
    using Next_ok [OF assms Suc.prems(1)] Suc.prems(2) by auto
  with Suc show ?case by (simp add: drop_Suc_conv)
qed simp

lemma holds_done: "holds ms xs \<Longrightarrow> length xs \<le> ipos it \<Longrightarrow> Next ms it = (it, None)"
  by (simp add: Next_def holds_def)

subsection \<open>Properties\<close>

text \<open>C32: after matches of the session's value size were added without an error, the store holds the
  first hundred million of them, and every way of reading it gives them in order: by index (with an
  error exactly outside the range), by batch, batch after batch and through the iterator; whether
  the matches are in memory or on disk makes no difference.\<close>

theorem matchStore_refines_list:
  assumes "list_all (\<lambda>m. length (PrevData m) = vs) ms" "AddBulk io (newMatchStore vs) ms = (st, None)"
  shows "let xs = take 100000000 ms
    in mcount st = length xs
      \<and> Get st i = (if 0 \<le> i \<and> nat i < length xs then Inr (xs ! nat i) else Inl IndexOutOfRange)
      \<and> (n \<le> 100000 \<longrightarrow> GetBatch st s n = Inr (take n (drop s xs)))
      \<and> (bs \<le> 100000 \<longrightarrow> ForEachBatch st bs collect [] = Inr xs)
      \<and> drain st (length xs) Iter = xs"
proof -
  define xs where "xs = take matchAbsoluteMax ms"
  have "clean st xs"
    using clean_AddBulk [OF clean_new _ assms(2)] assms(1) by (simp add: xs_def newMatchStore_def)
  then have h: "holds st xs" by (simp add: clean_def)
  have it: "iter_ok xs Iter" "ipos Iter = 0" by (simp_all add: Iter_def iter_ok_def)
  have c: "mcount st = length xs" using h by (simp add: holds_def)
  have fe: "ForEachBatch st bs collect [] = Inr xs" if "bs \<le> 100000"
    unfolding ForEachBatch_def using that
    by (subst holds_foreach [OF h]) (auto simp: matchDiskBatchSize_def maxBatch_def)
  have eq: "xs = take 100000000 ms" by (simp add: xs_def matchAbsoluteMax_def)
  show ?thesis
    unfolding Let_def eq [symmetric]
    using c holds_Get [OF h, of i] holds_GetBatch [OF h, of n s] fe holds_drain [OF h it(1), of "length xs"] it(2)
    by (simp add: maxBatch_def)
qed

theorem matchStore_refines_list_witness:
  "let m = \<lparr>Address = 4096, PrevData = [1]\<rparr>; st = (newMatchStore 1)\<lparr>mem := [m], mcount := 1\<rparr>
   in AddBulk (\<lambda>n. (True, WOk)) (newMatchStore 1) [m] = (st, None) \<and> drain st (length [m]) Iter = [m]"
proof -
  let ?m = "\<lparr>Address = 4096, PrevData = [1]\<rparr> :: scanMatch"
  let ?st = "(newMatchStore 1)\<lparr>mem := [?m], mcount := 1\<rparr>"
  have a: "AddBulk (\<lambda>n. (True, WOk)) (newMatchStore 1) [?m] = (?st, None)"
    by (simp add: Add_def newMatchStore_def matchAbsoluteMax_def promoteThreshold_def matchMemThreshold_def)
  have "take 100000000 [?m] = [?m]" by simp
  with matchStore_refines_list [OF _ a] a show ?thesis unfolding Let_def by simp
qed

end
