(* ===== verification/Mem_Scan.thy ===== *)
theory Mem_Scan
  imports Mem_Store "HOL-Library.Multiset"
begin

text \<open>
  Scanning the memory of a process (tools/memtool/scan.go): the chunked search for a value, the
  filter that re-reads the matches in batches, and the search for a struct pattern. The process is a
  \<open>reader\<close>, an argument: the bytes it returns for an address and a length, and whether it reports an
  error. The theorems compare the chunked and batched code with what one reads from the memory
  directly.
\<close>

record MemoryRegion =
  BaseAddress :: uint64
  Size :: uint64
  Protection :: gostring

type_synonym reader = "uint64 \<Rightarrow> nat \<Rightarrow> bytes \<times> bool"

definition matchProtection :: "gostring \<Rightarrow> gostring \<Rightarrow> bool" where
  "matchProtection prot flt =
     (if flt = ''r'' then 1 \<le> length prot \<and> prot ! 0 = CHR ''r''
      else if flt = ''rw'' then 2 \<le> length prot \<and> prot ! 0 = CHR ''r'' \<and> prot ! 1 = CHR ''w''
      else if flt = ''rx'' then 3 \<le> length prot \<and> prot ! 0 = CHR ''r'' \<and> prot ! 2 = CHR ''x''
      else True)"

definition scanChunkSize :: nat where
  "scanChunkSize = 4 * 1024 * 1024"

definition scan_candidates :: "MemoryRegion list \<Rightarrow> gostring \<Rightarrow> MemoryRegion list" where
  "scan_candidates regions protection =
     filter (\<lambda>r. \<not> (protection \<noteq> [] \<and> \<not> matchProtection (Protection r) protection)
                 \<and> \<not> 512 * 1024 * 1024 < Size r) regions"

subsection \<open>Searching\<close>

text \<open>The loop over one buffer: the positions found, the shared counter and whether the limit on
  matches was reached.\<close>

function scan_buf :: "bytes \<Rightarrow> nat \<Rightarrow> bytes \<Rightarrow> nat \<Rightarrow> nat \<Rightarrow> nat list \<times> nat \<times> bool" where
  "scan_buf pat step buf i cnt =
     (if i + length pat \<le> length buf then
        (if slice buf i (i + length pat) = pat then
           (if matchAbsoluteMax \<le> cnt + 1 then ([i], cnt + 1, True)
            else case scan_buf pat step buf (if 1 < step then i + step else i + 1) (cnt + 1) of
                   (ps, c, hit) \<Rightarrow> (i # ps, c, hit))
         else scan_buf pat step buf (i + 1) cnt)
      else ([], cnt, False))"
  by pat_completeness auto
termination
  by (relation "measure (\<lambda>(pat, step, buf, i, cnt). Suc (length buf) - i)") auto

declare scan_buf.simps [simp del]

definition next_overlap :: "bytes \<Rightarrow> bytes \<Rightarrow> bytes" where
  "next_overlap pat buf =
     (if length pat - 1 \<le> length buf then drop (length buf + 1 - length pat) buf else [])"

text \<open>One region, chunk by chunk, with the bytes carried over from the chunk before.\<close>

function scan_region ::
  "reader \<Rightarrow> bytes \<Rightarrow> nat \<Rightarrow> nat \<Rightarrow> uint64 \<Rightarrow> nat \<Rightarrow> nat \<Rightarrow> bytes \<Rightarrow> nat \<Rightarrow> scanMatch list \<times> nat \<times> bool" where
  "scan_region rd pat step chunk base sz offset overlap cnt =
     (if offset < sz \<and> 0 < chunk then
        (if matchAbsoluteMax \<le> cnt then ([], cnt, False)
         else case rd (base + of_nat offset) (min (sz - offset) chunk) of (data, err) \<Rightarrow>
           if err \<or> data = [] then scan_region rd pat step chunk base sz (offset + chunk) [] cnt
           else let buf = overlap @ data in
             case scan_buf pat step buf 0 cnt of (ps, cnt1, hit) \<Rightarrow>
             let ms = map (\<lambda>i. \<lparr>Address = base + of_nat offset - of_nat (length overlap) + of_nat i,
                                PrevData = slice buf i (i + length pat)\<rparr>) ps
             in if hit then (ms, cnt1, True)
                else case scan_region rd pat step chunk base sz (offset + chunk) (next_overlap pat buf) cnt1 of
                       (ms2, c, h) \<Rightarrow> (ms @ ms2, c, h))
      else ([], cnt, False))"
  by pat_completeness auto
termination
  by (relation "measure (\<lambda>(rd, pat, step, chunk, base, sz, offset, overlap, cnt). sz - offset)") auto

declare scan_region.simps [simp del]

fun scan_worker :: "reader \<Rightarrow> bytes \<Rightarrow> nat \<Rightarrow> MemoryRegion list \<Rightarrow> nat \<Rightarrow> scanMatch list \<times> nat" where
  "scan_worker rd pat step [] cnt = ([], cnt)"
| "scan_worker rd pat step (r # rs) cnt =
     (if matchAbsoluteMax \<le> cnt then ([], cnt)
      else case scan_region rd pat step scanChunkSize (BaseAddress r) (unat (Size r)) 0 [] cnt of
             (ms, c, hit) \<Rightarrow>
               if hit then (ms, c)
               else case scan_worker rd pat step rs c of (ms2, c2) \<Rightarrow> (ms @ ms2, c2))"

text \<open>The workers take the regions from a channel; \<open>ws\<close> is what each of them got. They are run one
  after the other here, with the counter they share.\<close>

fun scan_workers :: "reader \<Rightarrow> bytes \<Rightarrow> nat \<Rightarrow> MemoryRegion list list \<Rightarrow> nat \<Rightarrow> scanMatch list \<times> nat" where
  "scan_workers rd pat step [] cnt = ([], cnt)"
| "scan_workers rd pat step (w # ws) cnt =
     (case scan_worker rd pat step w cnt of
        (ms, c) \<Rightarrow> (case scan_workers rd pat step ws c of (ms2, c2) \<Rightarrow> (ms @ ms2, c2)))"

datatype scan_error =
    RegionsFailed | StoreFailed store_error | ReaderClosed | UnknownSize | ExactNeedsValue | UnknownFilter
  | SliceOutOfRange | NoSnapshot

definition step_size :: "ValueType \<Rightarrow> nat" where
  "step_size vt = (if valueSize vt = 0 then 1 else valueSize vt)"

definition searchMemory ::
  "reader \<Rightarrow> MemoryRegion list option \<Rightarrow> (MemoryRegion list \<Rightarrow> MemoryRegion list list) \<Rightarrow> (nat \<Rightarrow> io_result)
   \<Rightarrow> bytes \<Rightarrow> ValueType \<Rightarrow> nat \<Rightarrow> gostring \<Rightarrow> scan_error + matchStore" where
  "searchMemory rd regions assign io pat vt vs protection =
     (case regions of
        None \<Rightarrow> Inl RegionsFailed
      | Some rs \<Rightarrow>
          let scanRegions = scan_candidates rs protection in
          if scanRegions = [] then Inr (newMatchStore vs)
          else let found = sort_key Address (fst (scan_workers rd pat (step_size vt) (assign scanRegions) 0)) in
            if length found \<le> matchMemThreshold then Inr (newMatchStoreFromSlice found vs)
            else case AddBulk io (newMatchStore vs) found of
                   (st, None) \<Rightarrow> Inr st
                 | (st, Some e) \<Rightarrow> Inl (StoreFailed e))"

subsection \<open>Filtering\<close>

definition filterBatchSize :: nat where
  "filterBatchSize = 64 * 1024"

definition filter_keep ::
  "ValueType \<Rightarrow> ByteOrder \<Rightarrow> gostring \<Rightarrow> bytes option \<Rightarrow> bytes \<Rightarrow> bytes \<Rightarrow> scan_error + bool" where
  "filter_keep vt bo ftype newValue cur old =
     (if ftype = ''exact'' then (case newValue of None \<Rightarrow> Inl ExactNeedsValue | Some v \<Rightarrow> Inr (cur = v))
      else if ftype = ''changed'' then Inr (cur \<noteq> old)
      else if ftype = ''unchanged'' then Inr (cur = old)
      else if ftype = ''increased'' then Inr (0 < compareValues vt cur old bo)
      else if ftype = ''decreased'' then Inr (compareValues vt cur old bo < 0)
      else Inl UnknownFilter)"

text \<open>The matches of one batch against the bytes read for it.\<close>

fun filter_batch ::
  "(nat \<Rightarrow> io_result) \<Rightarrow> (bytes \<Rightarrow> bytes \<Rightarrow> scan_error + bool) \<Rightarrow> nat \<Rightarrow> uint64 \<Rightarrow> bytes \<Rightarrow> matchStore \<Rightarrow> scanMatch list
   \<Rightarrow> scan_error + matchStore" where
  "filter_batch io keep vs batchStart buf res [] = Inr res"
| "filter_batch io keep vs batchStart buf res (m # ms) =
     (let localOff = sint (Address m - batchStart) in
      if int (length buf) < localOff + int vs then filter_batch io keep vs batchStart buf res ms
      else if localOff < 0 then Inl SliceOutOfRange
      else let cur = slice buf (nat localOff) (nat localOff + vs) in
        case keep cur (PrevData m) of
          Inl e \<Rightarrow> Inl e
        | Inr False \<Rightarrow> filter_batch io keep vs batchStart buf res ms
        | Inr True \<Rightarrow>
            (case Add (io (mcount res)) res \<lparr>Address = Address m, PrevData = cur\<rparr> of
               (res1, Some e) \<Rightarrow> Inl (StoreFailed e)
             | (res1, None) \<Rightarrow> filter_batch io keep vs batchStart buf res1 ms))"

text \<open>\<open>flushPending\<close>: matches within 64 KB of the first one are read with one call.\<close>

function flushPending ::
  "reader \<Rightarrow> (nat \<Rightarrow> io_result) \<Rightarrow> (bytes \<Rightarrow> bytes \<Rightarrow> scan_error + bool) \<Rightarrow> nat \<Rightarrow> matchStore \<Rightarrow> scanMatch list
   \<Rightarrow> scan_error + matchStore" where
  "flushPending rd io keep vs res [] = Inr res"
| "flushPending rd io keep vs res (m # ms) =
     (let batchStart = Address m;
          near = takeWhile (\<lambda>x. unat (Address x + of_nat vs - batchStart) \<le> filterBatchSize) ms;
          rest = drop (length near) ms;
          rangeSize = unat (Address (last (m # near)) + of_nat vs - batchStart)
      in case rd batchStart rangeSize of (buf, err) \<Rightarrow>
         if err \<or> buf = [] then flushPending rd io keep vs res rest
         else case filter_batch io keep vs batchStart buf res (m # near) of
                Inl e \<Rightarrow> Inl e
              | Inr res1 \<Rightarrow> flushPending rd io keep vs res1 rest)"
  by pat_completeness auto
termination
  by (relation "measure (\<lambda>(rd, io, keep, vs, res, ms). length ms)") auto

definition iterBatch :: int where
  "iterBatch = 10000"

definition filterMatches ::
  "reader option \<Rightarrow> (nat \<Rightarrow> io_result) \<Rightarrow> ValueType \<Rightarrow> ByteOrder \<Rightarrow> nat \<Rightarrow> matchStore option \<Rightarrow> gostring \<Rightarrow> bytes option
   \<Rightarrow> scan_error + matchStore" where
  "filterMatches rdo io vt bo vs store ftype newValue =
     (case rdo of
        None \<Rightarrow> Inl ReaderClosed
      | Some rd \<Rightarrow>
          if vs = 0 then Inl UnknownSize
          else case store of
                 None \<Rightarrow> Inr (newMatchStore vs)
               | Some st \<Rightarrow>
                   if mcount st = 0 then Inr (newMatchStore vs)
                   else case ForEachBatch st iterBatch
                               (\<lambda>res batch i. flushPending rd io (filter_keep vt bo ftype newValue) vs res batch)
                               (newMatchStore vs) of
                          Inl (Inl e) \<Rightarrow> Inl (StoreFailed e)
                        | Inl (Inr e) \<Rightarrow> Inl e
                        | Inr res \<Rightarrow> Inr res)"

subsection \<open>Struct patterns\<close>

definition maxStructResults :: nat where
  "maxStructResults = 100000"

definition field_at :: "bytes \<Rightarrow> nat \<Rightarrow> structField \<Rightarrow> bool" where
  "field_at buf i f =
     (i + sfOffset f + length (sfEncoded f) \<le> length buf
      \<and> slice buf (i + sfOffset f) (i + sfOffset f + length (sfEncoded f)) = sfEncoded f)"

definition struct_at :: "bytes \<Rightarrow> nat \<Rightarrow> structField list \<Rightarrow> bool" where
  "struct_at buf i fs = list_all (field_at buf i) fs"

text \<open>Positions \<open>0..searchEnd\<close> of one buffer.\<close>

definition struct_positions :: "structField list \<Rightarrow> nat \<Rightarrow> bytes \<Rightarrow> nat list" where
  "struct_positions fs structSize buf =
     filter (\<lambda>i. struct_at buf i fs) [0..<length buf + 1 - structSize]"

function struct_region ::
  "reader \<Rightarrow> structField list \<Rightarrow> nat \<Rightarrow> nat \<Rightarrow> uint64 \<Rightarrow> nat \<Rightarrow> nat \<Rightarrow> uint64 list" where
  "struct_region rd fs structSize chunk base sz offset =
     (if offset < sz \<and> 0 < chunk then
        let readSize = min (sz - offset) chunk;
            extraSize = min (readSize + structSize) (sz - offset)
        in (case rd (base + of_nat offset) extraSize of (buf, err) \<Rightarrow>
              if err \<or> length buf < structSize then []
              else map (\<lambda>i. base + of_nat offset + of_nat i) (struct_positions fs structSize buf))
           @ struct_region rd fs structSize chunk base sz (offset + chunk)
      else [])"
  by pat_completeness auto
termination
  by (relation "measure (\<lambda>(rd, fs, structSize, chunk, base, sz, offset). sz - offset)") auto

declare struct_region.simps [simp del]

text \<open>The search stops at the result that fills the limit, so it returns the first hundred thousand.\<close>

definition structSearch ::
  "reader \<Rightarrow> MemoryRegion list option \<Rightarrow> structField list \<Rightarrow> nat \<Rightarrow> gostring \<Rightarrow> scan_error + uint64 list" where
  "structSearch rd regions fs structSize protection =
     (case regions of
        None \<Rightarrow> Inl RegionsFailed
      | Some rs \<Rightarrow>
          Inr (take maxStructResults
                (concat (map (\<lambda>r. struct_region rd fs structSize scanChunkSize (BaseAddress r) (unat (Size r)) 0)
                          (scan_candidates rs protection)))))"

subsection \<open>Facts on the search\<close>

definition occurs :: "bytes \<Rightarrow> bytes \<Rightarrow> nat \<Rightarrow> bool" where
  "occurs R pat p = (p + length pat \<le> length R \<and> slice R p (p + length pat) = pat)"

text \<open>The reader returns the bytes \<open>R\<close> for any part of the region at \<open>base\<close>.\<close>

definition reads :: "reader \<Rightarrow> uint64 \<Rightarrow> bytes \<Rightarrow> bool" where
  "reads rd base R =
     (\<forall>off n. off + n \<le> length R \<longrightarrow> rd (base + of_nat off) n = (take n (drop off R), False))"

text \<open>Positions \<open>ps\<close> cover the occurrences from \<open>i\<close> on: each is one of them or starts inside the
  stretch a hit skips.\<close>

definition covers :: "nat \<Rightarrow> nat list \<Rightarrow> nat \<Rightarrow> bool" where
  "covers step ps p = (\<exists>q\<in>set ps. q \<le> p \<and> p < q + max 1 step)"

lemma covers_append [simp]: "covers step (ps @ qs) p = (covers step ps p \<or> covers step qs p)"
  by (auto simp: covers_def)

lemma covers_shift: "covers step (map (\<lambda>i. k + i) ps) (k + p) = covers step ps p"
  by (auto simp: covers_def)

lemma covers_step1: "covers 1 ps p = (p \<in> set ps)"
  by (auto simp: covers_def less_Suc_eq_le dest: antisym)

lemma scan_buf_spec:
  assumes "scan_buf pat step buf i cnt = (ps, c, hit)"
  shows "c = cnt + length ps \<and> sorted_wrt (<) ps \<and> (\<forall>p\<in>set ps. i \<le> p \<and> occurs buf pat p)
    \<and> (hit \<longrightarrow> matchAbsoluteMax \<le> c)
    \<and> (\<not> hit \<longrightarrow> (\<forall>p. i \<le> p \<and> occurs buf pat p \<longrightarrow> covers step ps p))"
  using assms
proof (induction pat step buf i cnt arbitrary: ps c hit rule: scan_buf.induct)
  case (1 pat step buf i cnt)
  show ?case
  proof (cases "i + length pat \<le> length buf")
    case False
    with 1(3) show ?thesis by (auto simp: scan_buf.simps [of pat step buf i] occurs_def)
  next
    case inb: True
    show ?thesis
    proof (cases "slice buf i (i + length pat) = pat")
      case False
      then have r: "scan_buf pat step buf (i + 1) cnt = (ps, c, hit)"
        using 1(3) inb by (simp add: scan_buf.simps [of pat step buf i])
      have "i + 1 \<le> p" if "i \<le> p" "occurs buf pat p" for p
        using that False by (cases "p = i") (auto simp: occurs_def)
      with 1(2) [OF inb False r] show ?thesis by auto
    next
      case occ: True
      have here: "occurs buf pat i" using inb occ by (simp add: occurs_def)
      show ?thesis
      proof (cases "matchAbsoluteMax \<le> cnt + 1")
        case True
        with 1(3) inb occ here show ?thesis by (auto simp: scan_buf.simps [of pat step buf i])
      next
        case False
        let ?j = "if 1 < step then i + step else i + 1"
        obtain ps' where r: "scan_buf pat step buf ?j (cnt + 1) = (ps', c, hit)" "ps = i # ps'"
          using 1(3) inb occ False
          by (auto simp: scan_buf.simps [of pat step buf i] split: prod.splits)
        have j: "?j = i + max 1 step" by auto
        note IH = 1(1) [OF inb occ False r(1)]
        have "covers step ps p" if "\<not> hit" "i \<le> p" "occurs buf pat p" for p
        proof (cases "p < ?j")
          case True
          with that show ?thesis unfolding j covers_def r(2) by auto
        next
          case False
          then have "covers step ps' p" using IH that by (auto simp: not_less)
          then show ?thesis by (auto simp: covers_def r(2))
        qed
        moreover have "i < p" if "p \<in> set ps'" for p
        proof -
          have "i + max 1 step \<le> p" using IH that unfolding j by blast
          then show ?thesis by (simp add: max_def split: if_splits)
        qed
        then have "i < p \<and> i \<le> p" if "p \<in> set ps'" for p using that by (simp add: less_imp_le)
        ultimately show ?thesis using IH here r(2) by auto
      qed
    qed
  qed
qed

lemma occurs_slice:
  assumes "st \<le> e" "e \<le> length R"
  shows "occurs (slice R st e) pat i \<longleftrightarrow> occurs R pat (st + i) \<and> st + i + length pat \<le> e"
proof -
  have "slice (slice R st e) i (i + length pat) = slice R (st + i) (st + i + length pat)"
    if "st + i + length pat \<le> e"
  proof -
    have "take (length pat) (drop i (take (e - st) (drop st R))) = take (min (length pat) (e - st - i)) (drop (i + st) R)"
      by (simp add: drop_take)
    also have "min (length pat) (e - st - i) = length pat" using that by simp
    finally show ?thesis by (simp add: slice_def add.commute)
  qed
  moreover have "length (slice R st e) = e - st" using assms by simp
  ultimately show ?thesis using assms unfolding occurs_def by (cases "st + i + length pat \<le> e") auto
qed

text \<open>The matches of a region are the hits at increasing offsets \<open>qs\<close>; below the limit on matches
  they cover every occurrence from where the current buffer starts.\<close>

definition hits_at :: "uint64 \<Rightarrow> bytes \<Rightarrow> nat list \<Rightarrow> scanMatch list" where
  "hits_at base pat qs = map (\<lambda>q. \<lparr>Address = base + of_nat q, PrevData = pat\<rparr>) qs"

lemma scan_region_spec:
  assumes rd: "reads rd base R" and pat: "pat \<noteq> []" "length pat \<le> chunk"
    and ov: "overlap = slice R st offset" "st \<le> offset" "offset \<le> length R \<or> overlap = []"
    and st: "st = offset + 1 - length pat \<or> offset = 0"
    and run: "scan_region rd pat step chunk base (length R) offset overlap cnt = (ms, c, hit)"
  shows "\<exists>qs. ms = hits_at base pat qs \<and> c = cnt + length qs \<and> sorted_wrt (<) qs
    \<and> (\<forall>q\<in>set qs. st \<le> q \<and> occurs R pat q)
    \<and> (hit \<longrightarrow> matchAbsoluteMax \<le> c)
    \<and> (c < matchAbsoluteMax \<longrightarrow> (\<forall>p. st \<le> p \<and> occurs R pat p \<longrightarrow> covers step qs p))"
  using ov st run
proof (induction "length R - offset" arbitrary: offset overlap st cnt ms c hit rule: less_induct)
  case less
  have ch: "0 < chunk" using pat by (cases pat) auto
  show ?case
  proof (cases "offset < length R")
    case False
    then have "ms = []" "c = cnt" "\<not> hit" using less.prems(5) by (simp_all add: scan_region.simps)
    moreover have "\<not> (st \<le> p \<and> occurs R pat p)" for p
      using less.prems(4) False pat(1) by (cases pat) (auto simp: occurs_def)
    ultimately show ?thesis by (intro exI [of _ "[]"]) (auto simp: hits_at_def)
  next
    case in_range: True
    show ?thesis
    proof (cases "matchAbsoluteMax \<le> cnt")
      case True
      then have "ms = []" "c = cnt" "\<not> hit" using less.prems(5) ch in_range by (simp_all add: scan_region.simps)
      with True show ?thesis by (intro exI [of _ "[]"]) (auto simp: hits_at_def)
    next
      case below: False
      define e where "e = min (length R) (offset + chunk)"
      define buf where "buf = slice R st e"
      have e: "offset < e" "e \<le> length R" "st \<le> e" using in_range ch less.prems(2) by (auto simp: e_def)
      have rdata: "rd (base + of_nat offset) (min (length R - offset) chunk) = (slice R offset e, False)"
      proof -
        have "min (length R - offset) chunk = e - offset" using in_range by (auto simp: e_def)
        then show ?thesis using rd e unfolding reads_def slice_def by simp
      qed
      have ne: "slice R offset e \<noteq> []"
      proof -
        have "length (slice R offset e) = e - offset" using e by simp
        then show ?thesis using e(1) by (metis list.size(3) zero_less_diff nat_neq_iff)
      qed
      have ovl: "length overlap = offset - st" using less.prems(1,2) in_range by simp
      have cat: "overlap @ slice R offset e = buf"
        unfolding less.prems(1) buf_def using less.prems(2) e by (intro slice_append_slice) auto
      obtain ps cnt1 hit1 where sb: "scan_buf pat step buf 0 cnt = (ps, cnt1, hit1)" by (metis prod_cases3)
      note S = scan_buf_spec [OF sb]
      let ?qs = "map (\<lambda>i. st + i) ps"
      have occ: "occurs buf pat i \<longleftrightarrow> occurs R pat (st + i) \<and> st + i + length pat \<le> e" for i
        unfolding buf_def by (rule occurs_slice [OF e(3,2)])
      have addr: "base + of_nat offset - of_nat (length overlap) + of_nat i = base + of_nat (st + i)" for i :: nat
        using less.prems(2) unfolding ovl by (simp add: of_nat_diff)
      have ms1: "map (\<lambda>i. \<lparr>Address = base + of_nat offset - of_nat (length overlap) + of_nat i,
                  PrevData = slice buf i (i + length pat)\<rparr>) ps = hits_at base pat ?qs"
        unfolding hits_at_def addr using S by (auto simp: occurs_def)
      have sorted: "sorted_wrt (<) ?qs" using S by (simp add: sorted_wrt_map)
      have sound: "\<forall>q\<in>set ?qs. st \<le> q \<and> occurs R pat q \<and> q + length pat \<le> e" using S occ by auto
      have cover1: "covers step ?qs p" if "\<not> hit1" "st \<le> p" "occurs R pat p" "p + length pat \<le> e" for p
      proof -
        obtain i where i: "p = st + i" using \<open>st \<le> p\<close> le_iff_add by blast
        have "covers step ps i" using S that i occ by auto
        then show ?thesis unfolding i covers_shift .
      qed
      have unfold: "scan_region rd pat step chunk base (length R) offset overlap cnt =
          (if hit1 then (hits_at base pat ?qs, cnt1, True)
           else case scan_region rd pat step chunk base (length R) (offset + chunk) (next_overlap pat buf) cnt1 of
                  (ms2, c, h) \<Rightarrow> (hits_at base pat ?qs @ ms2, c, h))"
        using in_range ch below ne sb ms1
        by (simp add: scan_region.simps [of _ _ _ _ _ _ offset] rdata cat Let_def)
      show ?thesis
      proof (cases hit1)
        case True
        with less.prems(5) unfold S sorted sound show ?thesis by (intro exI [of _ ?qs]) auto
      next
        case no_hit: False
        obtain ms2 where r2: "scan_region rd pat step chunk base (length R) (offset + chunk) (next_overlap pat buf) cnt1
            = (ms2, c, hit)" and msx: "ms = hits_at base pat ?qs @ ms2"
          using less.prems(5) unfold no_hit by (auto split: prod.splits)
        define st2 where "st2 = offset + chunk + 1 - length pat"
        have pl: "0 < length pat" "Suc (offset + chunk) - length pat \<le> offset + chunk"
          using pat by (cases pat; simp)+
        show ?thesis
        proof (cases "offset + chunk \<le> length R")
          case True
          then have e2: "e = offset + chunk" by (simp add: e_def)
          have lb: "length buf = e - st" using e by (simp add: buf_def)
          have "length pat - 1 \<le> length buf" using lb e2 less.prems(2) pat(2) by simp
          then have nov: "next_overlap pat buf = slice R st2 (offset + chunk)"
            unfolding next_overlap_def st2_def buf_def slice_def
            using e e2 less.prems(2) pat(2) pl lb by (simp add: buf_def slice_def drop_take min_def) 
          have "length R - (offset + chunk) < length R - offset" using ch in_range by simp
          note IH = less.hyps [OF this nov _ _ _ r2]
          have IH': "\<exists>qs. ms2 = hits_at base pat qs \<and> c = cnt1 + length qs \<and> sorted_wrt (<) qs
              \<and> (\<forall>q\<in>set qs. st2 \<le> q \<and> occurs R pat q) \<and> (hit \<longrightarrow> matchAbsoluteMax \<le> c)
              \<and> (c < matchAbsoluteMax \<longrightarrow> (\<forall>p. st2 \<le> p \<and> occurs R pat p \<longrightarrow> covers step qs p))"
            by (intro IH) (use True pl in \<open>auto simp: st2_def\<close>)
          then obtain qs where q: "ms2 = hits_at base pat qs" "c = cnt1 + length qs" "sorted_wrt (<) qs"
              "\<forall>q\<in>set qs. st2 \<le> q \<and> occurs R pat q" "hit \<longrightarrow> matchAbsoluteMax \<le> c"
              "c < matchAbsoluteMax \<longrightarrow> (\<forall>p. st2 \<le> p \<and> occurs R pat p \<longrightarrow> covers step qs p)" by blast
          have lt: "a < b" if "a \<in> set ?qs" "b \<in> set qs" for a b
          proof -
            have "a + length pat \<le> offset + chunk" "st2 \<le> b" using that sound q(4) e2 by auto
            then show ?thesis using pl by (simp add: st2_def)
          qed
          have "st \<le> st2" using pat(2) less.prems(2) by (simp add: st2_def)
          moreover have "covers step (?qs @ qs) p" if "c < matchAbsoluteMax" "st \<le> p" "occurs R pat p" for p
            using cover1 [OF no_hit that(2,3)] q(6) that e2 pl by (cases "p + length pat \<le> e") (auto simp: st2_def)
          ultimately show ?thesis
            using S q sorted sound lt msx
            by (intro exI [of _ "?qs @ qs"]) (auto simp: hits_at_def sorted_wrt_append)
        next
          case False
          then have "ms2 = []" "c = cnt1" "\<not> hit" using r2 by (simp_all add: scan_region.simps)
          moreover have "e = length R" using False by (simp add: e_def)
          ultimately show ?thesis
            using S sorted sound cover1 [OF no_hit] msx
            by (intro exI [of _ ?qs]) (auto simp: hits_at_def occurs_def)
        qed
      qed
    qed
  qed
qed

text \<open>What a list of matches says of the contents \<open>C r\<close> of the regions.\<close>

definition found_sound :: "(MemoryRegion \<Rightarrow> bytes) \<Rightarrow> bytes \<Rightarrow> MemoryRegion list \<Rightarrow> scanMatch list \<Rightarrow> bool" where
  "found_sound C pat rs ms =
     (\<forall>m\<in>set ms. PrevData m = pat
        \<and> (\<exists>r\<in>set rs. \<exists>q. Address m = BaseAddress r + of_nat q \<and> occurs (C r) pat q))"

definition found_complete :: "(MemoryRegion \<Rightarrow> bytes) \<Rightarrow> bytes \<Rightarrow> nat \<Rightarrow> MemoryRegion list \<Rightarrow> scanMatch list \<Rightarrow> bool" where
  "found_complete C pat step rs ms =
     (\<forall>r\<in>set rs. \<forall>p. occurs (C r) pat p \<longrightarrow>
        (\<exists>q. q \<le> p \<and> p < q + max 1 step \<and> occurs (C r) pat q
             \<and> \<lparr>Address = BaseAddress r + of_nat q, PrevData = pat\<rparr> \<in> set ms))"

definition readable_regions :: "reader \<Rightarrow> (MemoryRegion \<Rightarrow> bytes) \<Rightarrow> MemoryRegion list \<Rightarrow> bool" where
  "readable_regions rd C rs =
     (\<forall>r\<in>set rs. reads rd (BaseAddress r) (C r) \<and> length (C r) = unat (Size r))"

lemma found_sound_append:
  "found_sound C pat rs ms \<Longrightarrow> found_sound C pat rs' ms' \<Longrightarrow> found_sound C pat (rs @ rs') (ms @ ms')"
  unfolding found_sound_def by (auto; blast)

lemma found_complete_append:
  "found_complete C pat step rs ms \<Longrightarrow> found_complete C pat step rs' ms' \<Longrightarrow>
     found_complete C pat step (rs @ rs') (ms @ ms')"
  unfolding found_complete_def by (auto; blast)

lemma region_found:
  assumes "readable_regions rd C [r]" "pat \<noteq> []" "length pat \<le> scanChunkSize"
    and "scan_region rd pat step scanChunkSize (BaseAddress r) (unat (Size r)) 0 [] cnt = (ms, c, hit)"
  shows "c = cnt + length ms \<and> found_sound C pat [r] ms \<and> (hit \<longrightarrow> matchAbsoluteMax \<le> c)
    \<and> (c < matchAbsoluteMax \<longrightarrow> found_complete C pat step [r] ms)"
proof -
  have R: "reads rd (BaseAddress r) (C r)" "unat (Size r) = length (C r)"
    using assms(1) by (auto simp: readable_regions_def)
  obtain qs where q: "ms = hits_at (BaseAddress r) pat qs" "c = cnt + length qs" "\<forall>q\<in>set qs. occurs (C r) pat q"
      "hit \<longrightarrow> matchAbsoluteMax \<le> c" "c < matchAbsoluteMax \<longrightarrow> (\<forall>p. occurs (C r) pat p \<longrightarrow> covers step qs p)"
    using scan_region_spec [OF R(1) assms(2,3), of "[]" 0 0 step cnt ms c hit] assms(4) unfolding R(2) by auto
  have "found_sound C pat [r] ms" using q(1,3) by (auto simp: found_sound_def hits_at_def)
  moreover have "found_complete C pat step [r] ms" if "c < matchAbsoluteMax"
    using q(1,3,5) that unfolding found_complete_def covers_def hits_at_def by fastforce
  moreover have "length ms = length qs" using q(1) by (simp add: hits_at_def)
  ultimately show ?thesis using q(2,4) by auto
qed

lemma worker_found:
  assumes "scan_worker rd pat step rs cnt = (ms, c)" "readable_regions rd C rs" "pat \<noteq> []" "length pat \<le> scanChunkSize"
  shows "c = cnt + length ms \<and> found_sound C pat rs ms \<and> (c < matchAbsoluteMax \<longrightarrow> found_complete C pat step rs ms)"
  using assms(1,2)
proof (induction rs arbitrary: cnt ms c)
  case Nil
  then show ?case by (simp add: found_sound_def found_complete_def)
next
  case (Cons r rs)
  show ?case
  proof (cases "matchAbsoluteMax \<le> cnt")
    case True
    with Cons.prems(1) show ?thesis by (auto simp: found_sound_def)
  next
    case False
    obtain ms1 c1 hit where r1: "scan_region rd pat step scanChunkSize (BaseAddress r) (unat (Size r)) 0 [] cnt = (ms1, c1, hit)"
      by (metis prod_cases3)
    have f1: "c1 = cnt + length ms1 \<and> found_sound C pat [r] ms1 \<and> (hit \<longrightarrow> matchAbsoluteMax \<le> c1)
        \<and> (c1 < matchAbsoluteMax \<longrightarrow> found_complete C pat step [r] ms1)"
      using Cons.prems(2) by (intro region_found [OF _ assms(3,4) r1]) (simp add: readable_regions_def)
    show ?thesis
    proof (cases hit)
      case True
      then have "ms = ms1" "c = c1" using Cons.prems(1) False r1 by simp_all
      with f1 True show ?thesis by (auto simp: found_sound_def)
    next
      case no_hit: False
      obtain ms2 c2 where r2: "scan_worker rd pat step rs c1 = (ms2, c2)" by fastforce
      then have m: "ms = ms1 @ ms2" "c = c2" using Cons.prems(1) False r1 no_hit by simp_all
      have f2: "c2 = c1 + length ms2 \<and> found_sound C pat rs ms2 \<and> (c2 < matchAbsoluteMax \<longrightarrow> found_complete C pat step rs ms2)"
        using Cons.prems(2) by (intro Cons.IH [OF r2]) (simp add: readable_regions_def)
      have "found_sound C pat ([r] @ rs) (ms1 @ ms2)" using f1 f2 by (intro found_sound_append) auto
      moreover have "found_complete C pat step ([r] @ rs) (ms1 @ ms2)" if "c < matchAbsoluteMax"
        using f1 f2 that m by (intro found_complete_append) auto
      ultimately show ?thesis using f1 f2 m by simp
    qed
  qed
qed

lemma workers_found:
  assumes "scan_workers rd pat step ws cnt = (ms, c)" "readable_regions rd C (concat ws)" "pat \<noteq> []" "length pat \<le> scanChunkSize"
  shows "c = cnt + length ms \<and> found_sound C pat (concat ws) ms
    \<and> (c < matchAbsoluteMax \<longrightarrow> found_complete C pat step (concat ws) ms)"
  using assms(1,2)
proof (induction ws arbitrary: cnt ms c)
  case Nil
  then show ?case by (simp add: found_sound_def found_complete_def)
next
  case (Cons w ws)
  obtain ms1 c1 where r1: "scan_worker rd pat step w cnt = (ms1, c1)" by fastforce
  obtain ms2 c2 where r2: "scan_workers rd pat step ws c1 = (ms2, c2)" by fastforce
  have m: "ms = ms1 @ ms2" "c = c2" using Cons.prems(1) r1 r2 by simp_all
  have rr: "readable_regions rd C w" "readable_regions rd C (concat ws)"
    using Cons.prems(2) by (simp_all add: readable_regions_def)
  note f1 = worker_found [OF r1 rr(1) assms(3,4)] and f2 = Cons.IH [OF r2 rr(2)]
  have "found_sound C pat (w @ concat ws) (ms1 @ ms2)" using f1 f2 by (intro found_sound_append) auto
  moreover have "found_complete C pat step (w @ concat ws) (ms1 @ ms2)" if "c < matchAbsoluteMax"
    using f1 f2 that m by (intro found_complete_append) auto
  ultimately show ?case using f1 f2 m by simp
qed

lemma found_set_cong:
  assumes "set rs = set rs'" "set ms = set ms'"
  shows "found_sound C pat rs ms = found_sound C pat rs' ms'"
    "found_complete C pat step rs ms = found_complete C pat step rs' ms'"
  using assms by (simp_all add: found_sound_def found_complete_def)

lemma holds_from_slice:
  "list_all (\<lambda>m. length (PrevData m) = vs) xs \<Longrightarrow> holds (newMatchStoreFromSlice xs vs) xs"
  by (simp add: holds_def newMatchStoreFromSlice_def newMatchStore_def)

subsection \<open>Properties of the search\<close>

text \<open>C33: with every scanned region readable in full (no short reads), a value of at most 4 MiB and fewer
  matches than the limit of 100 million, a search returns matches sorted by address; each is an occurrence of the value in a scanned region, and each
  occurrence is reported or starts inside one that is (within the size of a fixed-size value), also
  across chunk boundaries and whichever worker scans which region.\<close>

theorem searchMemory_correct:
  assumes "searchMemory rd (Some rs) assign io pat vt (length pat) protection = Inr st"
    and "mset (concat (assign (scan_candidates rs protection))) = mset (scan_candidates rs protection)"
    and "readable_regions rd C (scan_candidates rs protection)"
    and "pat \<noteq> []" "length pat \<le> 4194304" "mcount st < 100000000"
  shows "\<exists>xs. holds st xs \<and> sorted (map Address xs)
    \<and> found_sound C pat (scan_candidates rs protection) xs
    \<and> found_complete C pat (step_size vt) (scan_candidates rs protection) xs"
proof (cases "scan_candidates rs protection = []")
  case True
  then have "st = newMatchStore (length pat)" using assms(1) by (simp add: searchMemory_def)
  then show ?thesis
    using clean_new True by (intro exI [of _ "[]"]) (auto simp: clean_def found_sound_def found_complete_def)
next
  case False
  let ?rs = "scan_candidates rs protection"
  let ?ws = "assign ?rs"
  obtain ms c where r: "scan_workers rd pat (step_size vt) ?ws 0 = (ms, c)" by fastforce
  have cs: "set (concat ?ws) = set ?rs" using assms(2) by (metis set_mset_mset)
  have rr: "readable_regions rd C (concat ?ws)" using assms(3) cs unfolding readable_regions_def by blast
  have pl: "length pat \<le> scanChunkSize" using assms(5) by (simp add: scanChunkSize_def)
  note W = workers_found [OF r rr assms(4) pl]
  let ?xs = "sort_key Address ms"
  have snd: "found_sound C pat ?rs ?xs" using W found_set_cong(1) [OF cs, of ms ?xs C pat] by simp
  then have ok: "list_all (\<lambda>m. length (PrevData m) = length pat) ?xs" by (auto simp: found_sound_def list_all_iff)
  have h: "holds st ?xs"
  proof (cases "length ms \<le> matchMemThreshold")
    case True
    then have "st = newMatchStoreFromSlice ?xs (length pat)"
      using assms(1) False r by (simp add: searchMemory_def Let_def)
    then show ?thesis using holds_from_slice [OF ok] by simp
  next
    case big: False
    then have a: "AddBulk io (newMatchStore (length pat)) ?xs = (st, None)"
      using assms(1) False r by (auto simp: searchMemory_def Let_def split: prod.splits option.splits)
    have "clean st (take matchAbsoluteMax ?xs)"
      using clean_AddBulk [OF clean_new _ a] ok by (simp add: newMatchStore_def)
    then have h: "holds st (take matchAbsoluteMax ?xs)" by (simp add: clean_def)
    then have "length (take matchAbsoluteMax ?xs) < matchAbsoluteMax"
      using assms(6) by (simp add: holds_def matchAbsoluteMax_def)
    then have "take matchAbsoluteMax ?xs = ?xs" by simp
    with h show ?thesis by simp
  qed
  then have "c < matchAbsoluteMax" using W assms(6) by (simp add: holds_def matchAbsoluteMax_def)
  then have "found_complete C pat (step_size vt) ?rs ?xs"
    using W found_set_cong(2) [OF cs, of ms ?xs C pat "step_size vt"] by simp
  then show ?thesis using h snd by (intro exI [of _ ?xs]) (simp add: sorted_sort_key)
qed

text \<open>A process with a single region holding \<open>R\<close>.\<close>

definition list_reader :: "uint64 \<Rightarrow> bytes \<Rightarrow> reader" where
  "list_reader base R a n =
     (let off = unat (a - base) in if off + n \<le> length R then (take n (drop off R), False) else ([], True))"

lemma reads_list_reader: "length R < 2 ^ 64 \<Longrightarrow> reads (list_reader base R) base R"
proof -
  assume "length R < 2 ^ 64"
  then have "unat (of_nat off :: uint64) = off" if "off \<le> length R" for off
    using that by (simp add: unat_of_nat)
  then show ?thesis unfolding reads_def list_reader_def Let_def by auto
qed

abbreviation one_region :: "uint64 \<Rightarrow> uint64 \<Rightarrow> MemoryRegion" where
  "one_region base n \<equiv> \<lparr>BaseAddress = base, Size = n, Protection = ''rw-''\<rparr>"

lemma candidates_one: "\<not> 512 * 1024 * 1024 < n \<Longrightarrow> scan_candidates [one_region base n] [] = [one_region base n]"
  by (simp add: scan_candidates_def)

lemma skip_example:
  "searchMemory (list_reader 0x1000 [1, 0, 0, 0, 0, 0, 0, 0]) (Some [one_region 0x1000 8]) (\<lambda>rs. [rs])
       (\<lambda>n. (True, WOk)) [0, 0, 0, 0] TypeInt32 4 []
     = Inr (newMatchStoreFromSlice [\<lparr>Address = 0x1001, PrevData = [0, 0, 0, 0]\<rparr>] 4)"
  by (simp add: searchMemory_def candidates_one scan_region.simps scan_buf.simps list_reader_def slice_def
      matchAbsoluteMax_def scanChunkSize_def matchMemThreshold_def step_size_def next_overlap_def Let_def)

theorem searchMemory_correct_witness:
  "\<exists>xs. holds (newMatchStoreFromSlice [\<lparr>Address = 0x1001, PrevData = [0, 0, 0, 0]\<rparr>] 4) xs
    \<and> sorted (map Address xs)
    \<and> found_sound (\<lambda>r. [1, 0, 0, 0, 0, 0, 0, 0]) [0, 0, 0, 0] (scan_candidates [one_region 0x1000 8] []) xs
    \<and> found_complete (\<lambda>r. [1, 0, 0, 0, 0, 0, 0, 0]) [0, 0, 0, 0] (step_size TypeInt32)
        (scan_candidates [one_region 0x1000 8] []) xs"
proof (rule searchMemory_correct)
  have len: "length [0 :: 8 word, 0, 0, 0] = 4" by simp
  show "searchMemory (list_reader 0x1000 [1, 0, 0, 0, 0, 0, 0, 0]) (Some [one_region 0x1000 8]) (\<lambda>rs. [rs])
       (\<lambda>n. (True, WOk)) [0, 0, 0, 0] TypeInt32 (length [0 :: 8 word, 0, 0, 0]) []
     = Inr (newMatchStoreFromSlice [\<lparr>Address = 0x1001, PrevData = [0, 0, 0, 0]\<rparr>] 4)"
    unfolding len by (rule skip_example)
  show "readable_regions (list_reader 0x1000 [1, 0, 0, 0, 0, 0, 0, 0]) (\<lambda>r. [1, 0, 0, 0, 0, 0, 0, 0])
      (scan_candidates [one_region 0x1000 8] [])"
    by (simp add: readable_regions_def candidates_one reads_list_reader)
qed (simp_all add: newMatchStoreFromSlice_def)

text \<open>because a hit of a fixed-size type makes the search skip the bytes of the hit, an occurrence
  that overlaps an earlier one is not reported: a 32-bit zero at the aligned address 0x1004 is
  missed when the three bytes before it are zero too.\<close>

theorem search_misses_aligned_value:
  "let R = [1, 0, 0, 0, 0, 0, 0, 0]; rd = list_reader 0x1000 R
   in rd 0x1004 4 = ([0, 0, 0, 0], False)
      \<and> searchMemory rd (Some [one_region 0x1000 8]) (\<lambda>rs. [rs]) (\<lambda>n. (True, WOk)) [0, 0, 0, 0] TypeInt32 4 []
          = Inr (newMatchStoreFromSlice [\<lparr>Address = 0x1001, PrevData = [0, 0, 0, 0]\<rparr>] 4)"
  using skip_example by (simp add: list_reader_def)

text \<open>after a short read without an error the bytes carried over to the next chunk are not the ones
  before it: the search reports a match at an address that cannot even be read.\<close>

theorem search_short_read_misplaced:
  "let rd = (\<lambda>a n. if a = 0x1000 then ([1], False) else if a = 0x401000 then ([2], False) else ([], True))
   in searchMemory rd (Some [one_region 0x1000 0x800000]) (\<lambda>rs. [rs]) (\<lambda>n. (True, WOk)) [1, 2] TypeBytes 2 []
        = Inr (newMatchStoreFromSlice [\<lparr>Address = 0x400FFF, PrevData = [1, 2]\<rparr>] 2)
      \<and> rd 0x400FFF 2 = ([], True)"
  by (simp add: searchMemory_def candidates_one scan_region.simps scan_buf.simps slice_def
      matchAbsoluteMax_def scanChunkSize_def matchMemThreshold_def step_size_def next_overlap_def Let_def)

end
