(* ===== verification/Mem_Filter.thy ===== *)
theory Mem_Filter
  imports Mem_Scan
begin

text \<open>
  The batched filter of the memory tool against its specification: one decision per match on the
  bytes now at its address. The model is in \<open>Mem_Scan\<close>.
\<close>

subsection \<open>Reading memory\<close>

definition cur_bytes :: "(uint64 \<Rightarrow> 8 word) \<Rightarrow> uint64 \<Rightarrow> nat \<Rightarrow> bytes" where
  "cur_bytes M a n = map (\<lambda>i. M (a + of_nat i)) [0..<n]"

text \<open>
  What the reader has to return of the memory \<open>M\<close>: the value at each match, and the whole span
  between two matches that end within 64 KB of the start of the first. Memory between matches that
  are further apart (the gap between two regions) need not be mapped.
\<close>

definition spans_readable :: "reader \<Rightarrow> (uint64 \<Rightarrow> 8 word) \<Rightarrow> nat \<Rightarrow> scanMatch list \<Rightarrow> bool" where
  "spans_readable rd M vs xs =
     (\<forall>x \<in> set xs. \<forall>y \<in> set xs.
        let n = unat (Address y) + vs - unat (Address x) in
        Address x = Address y \<or> Address x \<le> Address y \<and> n \<le> filterBatchSize \<longrightarrow>
          rd (Address x) n = (cur_bytes M (Address x) n, False))"

lemma spans_readableD:
  assumes "spans_readable rd M vs xs" "x \<in> set xs" "y \<in> set xs"
    and "Address x = Address y \<or> Address x \<le> Address y \<and> unat (Address y) + vs - unat (Address x) \<le> filterBatchSize"
  shows "rd (Address x) (unat (Address y) + vs - unat (Address x)) =
    (cur_bytes M (Address x) (unat (Address y) + vs - unat (Address x)), False)"
  using assms unfolding spans_readable_def Let_def by blast

lemma spans_readable_subset:
  "\<lbrakk>spans_readable rd M vs xs; set ys \<subseteq> set xs\<rbrakk> \<Longrightarrow> spans_readable rd M vs ys"
  unfolding spans_readable_def Let_def by blast

lemma length_cur_bytes [simp]: "length (cur_bytes M a n) = n"
  by (simp add: cur_bytes_def)

lemma slice_cur_bytes:
  assumes "off + n \<le> k"
  shows "slice (cur_bytes M a k) off (off + n) = cur_bytes M (a + of_nat off) n"
proof (rule nth_equalityI)
  show "length (slice (cur_bytes M a k) off (off + n)) = length (cur_bytes M (a + of_nat off) n)"
    using assms by simp
  fix i
  assume "i < length (slice (cur_bytes M a k) off (off + n))"
  then have "i < n" by simp
  then show "slice (cur_bytes M a k) off (off + n) ! i = cur_bytes M (a + of_nat off) n ! i"
    using assms by (simp add: slice_def cur_bytes_def add.assoc)
qed

lemma sint_small:
  assumes "unat (w :: uint64) < 2 ^ 63"
  shows "sint w = int (unat w)"
proof -
  have "int (unat w) < int (2 ^ 63)" using assms by (simp only: of_nat_less_iff)
  then have "uint w < 2 ^ 63" by simp
  then have "signed_take_bit 63 (uint w) = uint w" by (intro signed_take_bit_int_eq_self) (simp_all add: order_trans [OF _ uint_ge_0])
  then show ?thesis by (simp add: sint_uint)
qed

lemma unat_sub_ge: "(a :: uint64) \<le> b \<Longrightarrow> unat (b - a) = unat b - unat a"
  by (rule unat_sub)

lemma unat_add_sub:
  assumes "(a :: uint64) \<le> b" "unat b + n < 2 ^ 64"
  shows "unat (b + of_nat n - a) = unat b + n - unat a"
proof -
  have "unat (b + of_nat n) = unat b + n"
    using assms(2) by (simp add: unat_word_ariths unat_of_nat)
  moreover from this have "a \<le> b + of_nat n"
    using assms(1) by (simp add: word_le_nat_alt)
  ultimately show ?thesis by (simp add: unat_sub_ge)
qed

subsection \<open>The specification\<close>

definition filter_one :: "(uint64 \<Rightarrow> 8 word) \<Rightarrow> nat \<Rightarrow> (bytes \<Rightarrow> bytes \<Rightarrow> bool) \<Rightarrow> scanMatch \<Rightarrow> scanMatch list" where
  "filter_one M vs keep m =
     (let cur = cur_bytes M (Address m) vs
      in if keep cur (PrevData m) then [\<lparr>Address = Address m, PrevData = cur\<rparr>] else [])"

definition filter_spec :: "(uint64 \<Rightarrow> 8 word) \<Rightarrow> nat \<Rightarrow> (bytes \<Rightarrow> bytes \<Rightarrow> bool) \<Rightarrow> scanMatch list \<Rightarrow> scanMatch list" where
  "filter_spec M vs keep xs = concat (map (filter_one M vs keep) xs)"

definition stored :: "(nat \<Rightarrow> io_result) \<Rightarrow> matchStore \<Rightarrow> scanMatch list \<Rightarrow> scan_error + matchStore" where
  "stored io res ys =
     (case AddBulk io res ys of (r, None) \<Rightarrow> Inr r | (r, Some e) \<Rightarrow> Inl (StoreFailed e))"

lemma stored_append:
  "stored io res (xs @ ys) = (case stored io res xs of Inl e \<Rightarrow> Inl e | Inr r \<Rightarrow> stored io r ys)"
proof (induction xs arbitrary: res)
  case (Cons x xs)
  obtain r e where "Add (io (mcount res)) res x = (r, e)" by fastforce
  then show ?case using Cons [of r] by (cases e) (simp_all add: stored_def)
qed (simp add: stored_def)

lemma filter_spec_simps [simp]:
  "filter_spec M vs keep [] = []"
  "filter_spec M vs keep (m # ms) = filter_one M vs keep m @ filter_spec M vs keep ms"
  "filter_spec M vs keep (xs @ ys) = filter_spec M vs keep xs @ filter_spec M vs keep ys"
  by (simp_all add: filter_spec_def)

subsection \<open>The batched code\<close>

lemma filter_batch_stored:
  assumes keep: "\<And>c p. keep c p = Inr (keepb c p)" and k: "k < 2 ^ 63"
    and "list_all (\<lambda>m. start \<le> Address m \<and> unat (Address m) + vs \<le> unat start + k) ms"
  shows "filter_batch io keep vs start (cur_bytes M start k) res ms = stored io res (filter_spec M vs keepb ms)"
  using assms(3)
proof (induction ms arbitrary: res)
  case Nil
  then show ?case by (simp add: stored_def)
next
  case (Cons m ms)
  define off where "off = unat (Address m - start)"
  have le: "start \<le> Address m" and fit: "unat (Address m) + vs \<le> unat start + k" using Cons.prems by auto
  have off: "off = unat (Address m) - unat start" using unat_sub_ge [OF le] by (simp add: off_def)
  then have ofk: "off + vs \<le> k" using le fit by (simp add: word_le_nat_alt)
  then have loc: "sint (Address m - start) = int off" using k sint_small [of "Address m - start"] by (simp add: off_def)
  have "start + of_nat off = Address m" by (simp add: off_def)
  then have cur: "slice (cur_bytes M start k) off (off + vs) = cur_bytes M (Address m) vs"
    using slice_cur_bytes [OF ofk] by simp
  have IH: "filter_batch io keep vs start (cur_bytes M start k) r ms = stored io r (filter_spec M vs keepb ms)" for r
    using Cons.prems by (intro Cons.IH) simp
  let ?m = "\<lparr>Address = Address m, PrevData = cur_bytes M (Address m) vs\<rparr>"
  have step: "filter_batch io keep vs start (cur_bytes M start k) res (m # ms) =
      (if keepb (cur_bytes M (Address m) vs) (PrevData m)
       then (case Add (io (mcount res)) res ?m of
               (res1, Some e) \<Rightarrow> Inl (StoreFailed e)
             | (res1, None) \<Rightarrow> stored io res1 (filter_spec M vs keepb ms))
       else stored io res (filter_spec M vs keepb ms))"
    using ofk by (simp add: loc cur keep IH Let_def)
  obtain r e where "Add (io (mcount res)) res ?m = (r, e)" by fastforce
  then show ?case
    unfolding step by (cases e) (simp_all add: stored_def filter_one_def Let_def)
qed

lemma near_sorted:
  assumes "sorted (map Address (m # ms))"
  shows "sorted (map Address (m # takeWhile P ms))" "sorted (map Address (drop k ms))"
proof -
  have "map Address (takeWhile P ms) = take (length (takeWhile P ms)) (map Address ms)"
    by (metis takeWhile_eq_take take_map)
  moreover have "sorted (map Address ms)" using assms by simp
  ultimately have "sorted (map Address (takeWhile P ms))" by (simp add: sorted_wrt_take)
  with assms show "sorted (map Address (m # takeWhile P ms))" by (auto dest: set_takeWhileD)
  show "sorted (map Address (drop k ms))" using assms by (simp add: sorted_wrt_drop flip: drop_map)
qed

lemma last_is_max:
  assumes "sorted (map Address (m # ms))" "x \<in> set (m # ms)"
  shows "Address x \<le> Address (last (m # ms))"
  using assms
proof (induction ms arbitrary: m x)
  case (Cons a ms)
  have "Address a \<le> Address (last (a # ms))" using Cons.prems(1) by (intro Cons.IH) auto
  moreover have "Address x \<le> Address (last (a # ms))" if "x \<in> set (a # ms)"
    using Cons.prems(1) that by (intro Cons.IH) auto
  moreover have "Address m \<le> Address a" using Cons.prems(1) by simp
  ultimately show ?case using Cons.prems(2) by auto
qed simp

text \<open>One batch: every match of it is inside the range that is read.\<close>

lemma flush_step:
  assumes keep: "\<And>c p. keep c p = Inr (keepb c p)" and vs: "0 < vs" "vs < 2 ^ 63"
    and rd: "spans_readable rd M vs (m # ms)"
    and srt: "sorted (map Address (m # ms))"
    and bounds: "list_all (\<lambda>x. unat (Address x) + vs < 2 ^ 64) (m # ms)"
    and near: "near = takeWhile (\<lambda>x. unat (Address x + of_nat vs - Address m) \<le> filterBatchSize) ms"
  shows "flushPending rd io keep vs res (m # ms) =
    (case stored io res (filter_spec M vs keepb (m # near)) of
       Inl e \<Rightarrow> Inl e | Inr r \<Rightarrow> flushPending rd io keep vs r (drop (length near) ms))"
proof -
  let ?l = "last (m # near)"
  define k where "k = unat (Address ?l + of_nat vs - Address m)"
  have sn: "sorted (map Address (m # near))" unfolding near by (rule near_sorted(1) [OF srt])
  have sub: "set (m # near) \<subseteq> set (m # ms)" unfolding near by (auto dest: set_takeWhileD)
  have lmem: "?l \<in> set (m # near)" by simp
  have lb: "unat (Address ?l) + vs < 2 ^ 64"
    using bounds sub lmem unfolding list_all_iff by blast
  have ml: "Address m \<le> Address ?l" by (rule last_is_max [OF sn]) simp
  have k: "k = unat (Address ?l) + vs - unat (Address m)"
    unfolding k_def using lb by (intro unat_add_sub [OF ml])
  have ku: "unat (Address m) + k = unat (Address ?l) + vs" using ml k by (simp add: word_le_nat_alt)
  have kb: "?l = m \<or> k \<le> filterBatchSize"
  proof (cases "near = []")
    case False
    then have "?l \<in> set near" by simp
    then show ?thesis unfolding k_def near by (auto dest!: set_takeWhileD)
  qed simp
  then have k63: "k < 2 ^ 63"
    using k vs by (auto simp: filterBatchSize_def)
  have "Address m = Address ?l \<or> Address m \<le> Address ?l \<and> k \<le> filterBatchSize"
    using kb ml by auto
  then have read: "rd (Address m) k = (cur_bytes M (Address m) k, False)"
    unfolding k using sub lmem by (intro spans_readableD [OF rd]) (simp_all only: list.set_intros subsetD)
  have "0 < k" using ku ml vs(1) by (simp add: word_le_nat_alt)
  then have ne: "cur_bytes M (Address m) k \<noteq> []" by (metis length_cur_bytes list.size(3) less_irrefl)
  have "list_all (\<lambda>x. Address m \<le> Address x \<and> unat (Address x) + vs \<le> unat (Address m) + k) (m # near)"
  proof -
    have "Address m \<le> Address x" "unat (Address x) + vs \<le> unat (Address m) + k" if "x \<in> set (m # near)" for x
      using that sn last_is_max [OF sn that] ku by (auto simp: word_le_nat_alt)
    then show ?thesis by (simp add: list_all_iff)
  qed
  note fb = filter_batch_stored [OF keep k63 this, where M = M and io = io and res = res]
  show ?thesis
    unfolding flushPending.simps near [symmetric] Let_def k_def [symmetric] read prod.case fb
    using ne by (simp only: simp_thms if_False)
qed

lemma flushPending_stored:
  assumes keep: "\<And>c p. keep c p = Inr (keepb c p)" and vs: "0 < vs" "vs < 2 ^ 63"
    and "spans_readable rd M vs xs"
    and "sorted (map Address xs)" "list_all (\<lambda>x. unat (Address x) + vs < 2 ^ 64) xs"
  shows "flushPending rd io keep vs res xs = stored io res (filter_spec M vs keepb xs)"
  using assms(4-6)
proof (induction "length xs" arbitrary: xs res rule: less_induct)
  case less
  show ?case
  proof (cases xs)
    case Nil
    then show ?thesis by (simp add: stored_def)
  next
    case (Cons m ms)
    define near where "near = takeWhile (\<lambda>x. unat (Address x + of_nat vs - Address m) \<le> filterBatchSize) ms"
    have split: "near @ drop (length near) ms = ms"
      unfolding near_def by (metis append_take_drop_id takeWhile_eq_take)
    have IH: "flushPending rd io keep vs r (drop (length near) ms) = stored io r (filter_spec M vs keepb (drop (length near) ms))" for r
      using less.prems Cons near_sorted(2) [of m ms]
      by (intro less.hyps spans_readable_subset [OF less.prems(1)]) (auto simp: list_all_iff dest: in_set_dropD)
    have "filter_spec M vs keepb xs = filter_spec M vs keepb (m # near) @ filter_spec M vs keepb (drop (length near) ms)"
      unfolding Cons by (metis append_Cons filter_spec_simps(3) split)
    moreover have "flushPending rd io keep vs res xs = (case stored io res (filter_spec M vs keepb (m # near)) of
        Inl e \<Rightarrow> Inl e | Inr r \<Rightarrow> flushPending rd io keep vs r (drop (length near) ms))"
      unfolding Cons using less.prems Cons by (intro flush_step [OF keep vs _ _ _ near_def]) auto
    ultimately show ?thesis by (simp only: stored_append IH)
  qed
qed

text \<open>All batches of the store.\<close>

lemma foreach_stored:
  assumes h: "holds ms xs" and bs: "0 < bs" "bs \<le> maxBatch"
    and fn: "\<And>res batch i. set batch \<subseteq> set xs \<Longrightarrow> sorted (map Address batch) \<Longrightarrow>
               fn res batch i = stored io res (filter_spec M vs keepb batch)"
    and srt: "sorted (map Address xs)"
  shows "foreach_loop ms bs fn i res =
    (case stored io res (filter_spec M vs keepb (drop i xs)) of Inl e \<Rightarrow> Inl (Inr e) | Inr r \<Rightarrow> Inr r)"
proof -
  have c: "mcount ms = length xs" using h by (simp add: holds_def)
  show ?thesis
  proof (induction "length xs - i" arbitrary: i res rule: less_induct)
    case less
    show ?case
    proof (cases "i < length xs")
      case True
      define n where "n = (if length xs < i + bs then length xs - i else bs)"
      let ?b = "take bs (drop i xs)"
      have g: "GetBatch ms i n = Inr ?b"
        using holds_GetBatch [OF h, of n i] bs(2) by (auto simp: n_def)
      have f: "fn res ?b i = stored io res (filter_spec M vs keepb ?b)"
        using srt by (intro fn) (auto simp: sorted_wrt_take sorted_wrt_drop dest: in_set_takeD in_set_dropD
            simp flip: take_map drop_map)
      have IH: "foreach_loop ms bs fn (i + bs) r =
          (case stored io r (filter_spec M vs keepb (drop (i + bs) xs)) of Inl e \<Rightarrow> Inl (Inr e) | Inr r \<Rightarrow> Inr r)" for r
        by (intro less) (use True bs in auto)
      have "?b @ drop (i + bs) xs = drop i xs" by (metis append_take_drop_id drop_drop add.commute)
      then have sp: "filter_spec M vs keepb (drop i xs) = filter_spec M vs keepb ?b @ filter_spec M vs keepb (drop (i + bs) xs)"
        by (metis filter_spec_simps(3))
      have "foreach_loop ms bs fn i res = (case stored io res (filter_spec M vs keepb ?b) of
          Inl e \<Rightarrow> Inl (Inr e) | Inr r \<Rightarrow> foreach_loop ms bs fn (i + bs) r)"
        using True bs by (subst foreach_loop.simps) (simp only: c n_def [symmetric] Let_def g f, simp add: f)
      then show ?thesis unfolding sp stored_append IH by (simp split: sum.split)
    next
      case False
      then show ?thesis by (simp add: foreach_loop.simps [of ms] c stored_def)
    qed
  qed
qed

subsection \<open>A gap inside a batch\<close>

text \<open>
  Two byte values 4 KB apart with an unmapped page between them: each can be read alone, both still
  hold their value, but the one read over both fails and the filter drops both. This is why
  \<open>spans_readable\<close> asks for the span between close matches.
\<close>

definition gap_reader :: reader where
  "gap_reader a n = (if (a = 0x1fff \<or> a = 0x3000) \<and> n = 1 then ([7], False) else ([], True))"

lemma gap_in_batch_drops_matches:
  "flushPending gap_reader io (filter_keep TypeUint8 LittleEndian ''unchanged'' None) 1 res
     [\<lparr>Address = 0x1fff, PrevData = [7]\<rparr>, \<lparr>Address = 0x3000, PrevData = [7]\<rparr>] = Inr res"
  "flushPending gap_reader io (filter_keep TypeUint8 LittleEndian ''unchanged'' None) 1 res
     [\<lparr>Address = 0x1fff, PrevData = [7]\<rparr>] = stored io res [\<lparr>Address = 0x1fff, PrevData = [7]\<rparr>]"
  "flushPending gap_reader io (filter_keep TypeUint8 LittleEndian ''unchanged'' None) 1 res
     [\<lparr>Address = 0x3000, PrevData = [7]\<rparr>] = stored io res [\<lparr>Address = 0x3000, PrevData = [7]\<rparr>]"
  by (simp_all add: gap_reader_def filterBatchSize_def filter_keep_def stored_def slice_def
      split: prod.split option.split)

subsection \<open>Property\<close>

text \<open>C34: when the value at every match can be read, and so can the span between any two matches that
  lie within one 64 KB read, the batched filter makes exactly one decision per match, on the bytes
  now at its address: the result is the store of the kept matches with their new bytes, in order;
  only storing them can fail. The matches may lie in regions with unmapped memory between them.\<close>

theorem filterMatches_spec:
  assumes "holds st xs" "xs \<noteq> []" "sorted (map Address xs)" "0 < vs" "vs < 2 ^ 63"
    and "spans_readable rd M vs xs"
    and "list_all (\<lambda>x. unat (Address x) + vs < 2 ^ 64) xs"
    and "\<And>c p. filter_keep vt bo ftype newValue c p = Inr (keepb c p)"
  shows "filterMatches (Some rd) io vt bo vs (Some st) ftype newValue =
    (case AddBulk io (newMatchStore vs) (filter_spec M vs keepb xs) of
       (r, None) \<Rightarrow> Inr r | (r, Some e) \<Rightarrow> Inl (StoreFailed e))"
proof -
  let ?fn = "\<lambda>res batch i. flushPending rd io (filter_keep vt bo ftype newValue) vs res batch"
  have "?fn res batch i = stored io res (filter_spec M vs keepb batch)"
    if "set batch \<subseteq> set xs" "sorted (map Address batch)" for res batch and i :: nat
    using that assms(7)
    by (intro flushPending_stored [OF assms(8,4,5)] spans_readable_subset [OF assms(6)]) (auto simp: list_all_iff)
  then have fe: "ForEachBatch st iterBatch ?fn (newMatchStore vs) =
      (case stored io (newMatchStore vs) (filter_spec M vs keepb (drop 0 xs)) of Inl e \<Rightarrow> Inl (Inr e) | Inr r \<Rightarrow> Inr r)"
    unfolding ForEachBatch_def iterBatch_def using assms(3)
    by (intro foreach_stored [OF assms(1)]) (auto simp: maxBatch_def)
  have "mcount st \<noteq> 0" using assms(1,2) by (simp add: holds_def)
  then have "filterMatches (Some rd) io vt bo vs (Some st) ftype newValue =
      (case ForEachBatch st iterBatch ?fn (newMatchStore vs) of
         Inl (Inl e) \<Rightarrow> Inl (StoreFailed e) | Inl (Inr e) \<Rightarrow> Inl e | Inr res \<Rightarrow> Inr res)"
    using assms(4) by (simp add: filterMatches_def)
  then show ?thesis
    unfolding fe by (auto simp: stored_def split: prod.split option.split)
qed

text \<open>Two regions with unmapped memory between them, and two matches in the first: one changed, one kept
  its value; the match of the second region changed.\<close>

definition two_regions :: reader where
  "two_regions a n =
     (if 0x1000 \<le> unat a \<and> unat a + n \<le> 0x2000 \<or> 0x700000 \<le> unat a \<and> unat a + n \<le> 0x701000
      then (cur_bytes (\<lambda>b. if b = 0x1010 then 1 else 2) a n, False) else ([], True))"

theorem filterMatches_spec_witness:
  "filterMatches (Some two_regions) (\<lambda>n. (True, WOk)) TypeUint8 LittleEndian 1
     (Some (newMatchStoreFromSlice
        [\<lparr>Address = 0x1000, PrevData = [1]\<rparr>, \<lparr>Address = 0x1010, PrevData = [1]\<rparr>, \<lparr>Address = 0x700ff0, PrevData = [1]\<rparr>] 1))
     ''changed'' None =
   Inr (newMatchStoreFromSlice
          [\<lparr>Address = 0x1000, PrevData = [2]\<rparr>, \<lparr>Address = 0x700ff0, PrevData = [2]\<rparr>] 1)"
  (is "filterMatches _ _ _ _ _ (Some (newMatchStoreFromSlice ?xs 1)) _ _ = _")
proof -
  let ?M = "\<lambda>b :: uint64. if b = 0x1010 then 1 else 2 :: 8 word"
  have "filterMatches (Some two_regions) (\<lambda>n. (True, WOk)) TypeUint8 LittleEndian 1
        (Some (newMatchStoreFromSlice ?xs 1)) ''changed'' None =
      (case AddBulk (\<lambda>n. (True, WOk)) (newMatchStore 1) (filter_spec ?M 1 (\<lambda>c p. c \<noteq> p) ?xs) of
         (r, None) \<Rightarrow> Inr r | (r, Some e) \<Rightarrow> Inl (StoreFailed e))"
  proof (rule filterMatches_spec)
    show "holds (newMatchStoreFromSlice ?xs 1) ?xs"
      by (simp add: holds_from_slice)
    show "spans_readable two_regions ?M 1 ?xs"
      by (simp add: spans_readable_def two_regions_def filterBatchSize_def)
  qed (simp_all add: filter_keep_def)
  also have "\<dots> = Inr (newMatchStoreFromSlice
          [\<lparr>Address = 0x1000, PrevData = [2]\<rparr>, \<lparr>Address = 0x700ff0, PrevData = [2]\<rparr>] 1)"
    by (simp add: filter_one_def cur_bytes_def newMatchStore_def newMatchStoreFromSlice_def Add_def
        matchAbsoluteMax_def promoteThreshold_def matchMemThreshold_def)
  finally show ?thesis .
qed

end
