(* ===== verification/Mem_Session.thy ===== *)
theory Mem_Session
  imports Mem_Scan
begin

text \<open>
  Sessions of the memory tool: the disk-backed snapshot with its index (tools/memtool/snapshot.go),
  the filter and the comparison that run on it (tools/memtool/scan.go and handler.go), and the undo
  stack of a session (tools/memtool/session.go) with the handlers that filter and undo. Match stores
  are shared by reference between a session and its undo stack, so the model keeps them in a heap
  and passes references; closing a store is then seen through every reference to it.
\<close>

subsection \<open>Snapshots\<close>

record snapRegion =
  srBase :: uint64
  srSize :: uint64
  srFileOffset :: nat

record memorySnapshot =
  sfile :: bytes
  sindex :: "snapRegion list"
  stotal :: nat

datatype snap_error = SnapshotLimit | SnapshotWriteFailed

definition maxSnapshotSize :: nat where
  "maxSnapshotSize = 2 * 1024 * 1024 * 1024"

definition newSnapshot :: memorySnapshot where
  "newSnapshot = \<lparr>sfile = [], sindex = [], stotal = 0\<rparr>"

text \<open>\<open>os.File.WriteAt\<close>.\<close>

definition write_at :: "bytes \<Rightarrow> nat \<Rightarrow> bytes \<Rightarrow> bytes" where
  "write_at f off data = take off f @ replicate (off - length f) 0 @ data @ drop (off + length data) f"

definition WriteRegion :: "bool \<Rightarrow> memorySnapshot \<Rightarrow> uint64 \<Rightarrow> bytes \<Rightarrow> snap_error + memorySnapshot" where
  "WriteRegion wok s addr data =
     (if maxSnapshotSize < stotal s + length data then Inl SnapshotLimit
      else if \<not> wok then Inl SnapshotWriteFailed
      else Inr \<lparr>sfile = write_at (sfile s) (stotal s) data,
                sindex = sindex s @ [\<lparr>srBase = addr, srSize = of_nat (length data), srFileOffset = stotal s\<rparr>],
                stotal = stotal s + length data\<rparr>)"

text \<open>\<open>sort.Search\<close>.\<close>

function search_loop :: "(nat \<Rightarrow> bool) \<Rightarrow> nat \<Rightarrow> nat \<Rightarrow> nat" where
  "search_loop f i j =
     (if i < j then let h = (i + j) div 2 in if \<not> f h then search_loop f (h + 1) j else search_loop f i h
      else i)"
  by pat_completeness auto
termination
  by (relation "measure (\<lambda>(f, i, j). j - i)") auto

declare search_loop.simps [simp del]

definition sort_search :: "nat \<Rightarrow> (nat \<Rightarrow> bool) \<Rightarrow> nat" where
  "sort_search n f = search_loop f 0 n"

text \<open>The bytes read and whether there was an error.\<close>

definition readAtUnlocked :: "memorySnapshot \<Rightarrow> uint64 \<Rightarrow> nat \<Rightarrow> bytes \<times> bool" where
  "readAtUnlocked s addr n =
     (let idx = sort_search (length (sindex s)) (\<lambda>i. addr < srBase (sindex s ! i) + srSize (sindex s ! i)) in
      if length (sindex s) \<le> idx then ([], True)
      else let reg = sindex s ! idx in
        if addr < srBase reg \<or> srBase reg + srSize reg \<le> addr then ([], True)
        else let inRegionOffset = addr - srBase reg;
                 available = srSize reg - inRegionOffset;
                 readLen = min n (unat available);
                 data = take readLen (drop (srFileOffset reg + unat inRegionOffset) (sfile s))
             in (data, length data < readLen))"

definition snap_ReadAt :: "memorySnapshot \<Rightarrow> uint64 \<Rightarrow> nat \<Rightarrow> bytes \<times> bool" where
  "snap_ReadAt s addr n = readAtUnlocked s addr n"

definition snap_Close :: "memorySnapshot \<Rightarrow> memorySnapshot" where
  "snap_Close s = s\<lparr>sfile := [], sindex := []\<rparr>"

definition snap_Size :: "memorySnapshot \<Rightarrow> nat" where
  "snap_Size s = stotal s"

text \<open>The chunks of one region; what cannot be read is written as zeros.\<close>

function snap_region ::
  "reader \<Rightarrow> (nat \<Rightarrow> bool) \<Rightarrow> nat \<Rightarrow> uint64 \<Rightarrow> nat \<Rightarrow> nat \<Rightarrow> memorySnapshot \<Rightarrow> snap_error + memorySnapshot" where
  "snap_region rd wok chunk base sz offset s =
     (if offset < sz \<and> 0 < chunk then
        (let readSize = min (sz - offset) chunk in
         case rd (base + of_nat offset) readSize of (buf, err) \<Rightarrow>
           case WriteRegion (wok (stotal s)) s (base + of_nat offset)
                  (if err \<or> buf = [] then replicate readSize 0 else buf) of
             Inl e \<Rightarrow> Inl e
           | Inr s1 \<Rightarrow> snap_region rd wok chunk base sz (offset + chunk) s1)
      else Inr s)"
  by pat_completeness auto
termination
  by (relation "measure (\<lambda>(rd, wok, chunk, base, sz, offset, s). sz - offset)") auto

declare snap_region.simps [simp del]

fun snap_regions :: "reader \<Rightarrow> (nat \<Rightarrow> bool) \<Rightarrow> MemoryRegion list \<Rightarrow> memorySnapshot \<Rightarrow> snap_error + memorySnapshot" where
  "snap_regions rd wok [] s = Inr s"
| "snap_regions rd wok (r # rs) s =
     (case snap_region rd wok scanChunkSize (BaseAddress r) (unat (Size r)) 0 s of
        Inl e \<Rightarrow> Inl e | Inr s1 \<Rightarrow> snap_regions rd wok rs s1)"

definition takeSnapshot ::
  "reader \<Rightarrow> (nat \<Rightarrow> bool) \<Rightarrow> MemoryRegion list \<Rightarrow> gostring \<Rightarrow> snap_error + memorySnapshot \<times> MemoryRegion list" where
  "takeSnapshot rd wok regions protection =
     (let included = scan_candidates regions protection in
      case snap_regions rd wok included newSnapshot of
        Inl e \<Rightarrow> Inl e
      | Inr s \<Rightarrow> Inr (s\<lparr>sindex := sort_key srBase (sindex s)\<rparr>, included))"

subsection \<open>Comparing with a snapshot\<close>

definition snap_keep :: "ValueType \<Rightarrow> ByteOrder \<Rightarrow> gostring \<Rightarrow> bytes \<Rightarrow> bytes \<Rightarrow> bytes \<Rightarrow> bool" where
  "snap_keep vt bo ftype newValue cur old =
     (if ftype = ''exact'' then cur = newValue
      else if ftype = ''changed'' then cur \<noteq> old
      else if ftype = ''unchanged'' then cur = old
      else if ftype = ''increased'' then 0 < compareValues vt cur old bo
      else if ftype = ''decreased'' then compareValues vt cur old bo < 0
      else False)"

text \<open>The aligned offsets of one chunk.\<close>

function snap_values ::
  "(nat \<Rightarrow> io_result) \<Rightarrow> (bytes \<Rightarrow> bytes \<Rightarrow> bool) \<Rightarrow> nat \<Rightarrow> uint64 \<Rightarrow> bytes \<Rightarrow> bytes \<Rightarrow> nat \<Rightarrow> nat \<Rightarrow> matchStore
   \<Rightarrow> scan_error + matchStore" where
  "snap_values io keep vs addr oldBuf newBuf minN i res =
     (if i + vs \<le> minN \<and> 0 < vs then
        (let old = slice oldBuf i (i + vs); cur = slice newBuf i (i + vs) in
         if keep cur old then
           (case Add (io (mcount res)) res \<lparr>Address = addr + of_nat i, PrevData = cur\<rparr> of
              (r, Some e) \<Rightarrow> Inl (StoreFailed e)
            | (r, None) \<Rightarrow> snap_values io keep vs addr oldBuf newBuf minN (i + vs) r)
         else snap_values io keep vs addr oldBuf newBuf minN (i + vs) res)
      else Inr res)"
  by pat_completeness auto
termination
  by (relation "measure (\<lambda>(io, keep, vs, addr, oldBuf, newBuf, minN, i, res). minN - i)") auto

declare snap_values.simps [simp del]

definition snapChunk :: nat where
  "snapChunk = 64 * 1024"

function snap_filter_region ::
  "reader \<Rightarrow> (nat \<Rightarrow> io_result) \<Rightarrow> (bytes \<Rightarrow> bytes \<Rightarrow> bool) \<Rightarrow> nat \<Rightarrow> memorySnapshot \<Rightarrow> uint64 \<Rightarrow> nat \<Rightarrow> nat
   \<Rightarrow> matchStore \<Rightarrow> scan_error + matchStore" where
  "snap_filter_region rd io keep vs snap base sz offset res =
     (if offset < sz then
        (let readLen = min (sz - offset) snapChunk;
             addr = base + of_nat offset;
             (oldBuf, oldErr) = readAtUnlocked snap addr readLen;
             (newBuf, newErr) = rd addr readLen
         in case (if oldErr \<or> length oldBuf < vs then Inr res
                  else if newErr \<or> length newBuf < vs then Inr res
                  else snap_values io keep vs addr oldBuf newBuf (min (length oldBuf) (length newBuf)) 0 res) of
              Inl e \<Rightarrow> Inl e
            | Inr r \<Rightarrow> snap_filter_region rd io keep vs snap base sz (offset + snapChunk) r)
      else Inr res)"
  by pat_completeness auto
termination
  by (relation "measure (\<lambda>(rd, io, keep, vs, snap, base, sz, offset, res). sz - offset)")
    (auto simp: snapChunk_def)

declare snap_filter_region.simps [simp del]

fun snap_filter_regions ::
  "reader \<Rightarrow> (nat \<Rightarrow> io_result) \<Rightarrow> (bytes \<Rightarrow> bytes \<Rightarrow> bool) \<Rightarrow> nat \<Rightarrow> memorySnapshot \<Rightarrow> snapRegion list
   \<Rightarrow> matchStore \<Rightarrow> scan_error + matchStore" where
  "snap_filter_regions rd io keep vs snap [] res = Inr res"
| "snap_filter_regions rd io keep vs snap (r # rs) res =
     (case snap_filter_region rd io keep vs snap (srBase r) (unat (srSize r)) 0 res of
        Inl e \<Rightarrow> Inl e | Inr res1 \<Rightarrow> snap_filter_regions rd io keep vs snap rs res1)"

definition filterFromSnapshot ::
  "reader option \<Rightarrow> (nat \<Rightarrow> io_result) \<Rightarrow> memorySnapshot option \<Rightarrow> ValueType \<Rightarrow> nat \<Rightarrow> ByteOrder \<Rightarrow> gostring \<Rightarrow> bytes
   \<Rightarrow> scan_error + matchStore" where
  "filterFromSnapshot rdo io snap vt vs bo ftype newValue =
     (case rdo of
        None \<Rightarrow> Inl ReaderClosed
      | Some rd \<Rightarrow>
          (case snap of
             None \<Rightarrow> Inl NoSnapshot
           | Some sn \<Rightarrow> snap_filter_regions rd io (snap_keep vt bo ftype newValue) vs sn (sindex sn) (newMatchStore vs)))"

record diffEntry =
  dAddress :: uint64
  OldData :: bytes
  NewData :: bytes

definition compareChunk :: nat where
  "compareChunk = 4096"

text \<open>Differences of one chunk, four bytes at a time.\<close>

definition chunk_diffs :: "uint64 \<Rightarrow> bytes \<Rightarrow> bytes \<Rightarrow> diffEntry list" where
  "chunk_diffs addr oldBuf newBuf =
     (let minN = min (length oldBuf) (length newBuf) in
      map (\<lambda>k. \<lparr>dAddress = addr + of_nat (4 * k), OldData = slice oldBuf (4 * k) (4 * k + 4),
               NewData = slice newBuf (4 * k) (4 * k + 4)\<rparr>)
        (filter (\<lambda>k. slice oldBuf (4 * k) (4 * k + 4) \<noteq> slice newBuf (4 * k) (4 * k + 4)) [0..<minN div 4]))"

function region_diffs :: "reader \<Rightarrow> memorySnapshot \<Rightarrow> uint64 \<Rightarrow> nat \<Rightarrow> nat \<Rightarrow> diffEntry list" where
  "region_diffs rd snap base sz offset =
     (if offset < sz then
        (let readLen = min (sz - offset) compareChunk;
             addr = base + of_nat offset;
             (oldBuf, oldErr) = snap_ReadAt snap addr readLen;
             (newBuf, newErr) = rd addr readLen
         in if oldErr \<or> oldBuf = [] \<or> newErr \<or> newBuf = [] then [] else chunk_diffs addr oldBuf newBuf)
        @ region_diffs rd snap base sz (offset + compareChunk)
      else [])"
  by pat_completeness auto
termination
  by (relation "measure (\<lambda>(rd, snap, base, sz, offset). sz - offset)") (auto simp: compareChunk_def)

declare region_diffs.simps [simp del]

definition compareWithSnapshot :: "reader \<Rightarrow> memorySnapshot \<Rightarrow> int \<Rightarrow> diffEntry list" where
  "compareWithSnapshot rd snap maxDiffs =
     take (if maxDiffs \<le> 0 then 1000 else nat maxDiffs)
       (concat (map (\<lambda>r. region_diffs rd snap (srBase r) (unat (srSize r)) 0) (sindex snap)))"

subsection \<open>Sessions and the undo stack\<close>

type_synonym heap = "nat \<Rightarrow> matchStore"

record undoState =
  uStore :: "nat option"
  uSnapshot :: "memorySnapshot option"
  uUnknownScan :: bool

record scanSession =
  sValueType :: ValueType
  sValueSize :: nat
  sEndian :: ByteOrder
  sReader :: "reader option"
  sStore :: "nat option"
  sSnapshot :: "memorySnapshot option"
  sUnknownScan :: bool
  undoStack :: "undoState list"
  matchCount :: nat

definition close_store :: "nat option \<Rightarrow> heap \<Rightarrow> heap" where
  "close_store p h = (case p of None \<Rightarrow> h | Some a \<Rightarrow> h(a := Close (h a)))"

definition maxUndo :: nat where
  "maxUndo = 5"

definition pushUndo :: "heap \<Rightarrow> scanSession \<Rightarrow> heap \<times> scanSession" where
  "pushUndo h s =
     (let stack = undoStack s @ [\<lparr>uStore = sStore s, uSnapshot = None, uUnknownScan = sUnknownScan s\<rparr>] in
      if maxUndo < length stack
      then (close_store (uStore (hd stack)) h, s\<lparr>undoStack := tl stack\<rparr>)
      else (h, s\<lparr>undoStack := stack\<rparr>))"

definition popUndo :: "heap \<Rightarrow> scanSession \<Rightarrow> (heap \<times> scanSession) \<times> bool" where
  "popUndo h s =
     (if undoStack s = [] then ((h, s), False)
      else let last_state = last (undoStack s);
               h1 = close_store (sStore s) h
           in ((h1, s\<lparr>undoStack := butlast (undoStack s), sStore := uStore last_state,
                      sUnknownScan := uUnknownScan last_state,
                      matchCount := (case uStore last_state of None \<Rightarrow> 0 | Some a \<Rightarrow> mcount (h1 a)),
                      sSnapshot := (case uSnapshot last_state of None \<Rightarrow> sSnapshot s | Some sn \<Rightarrow> Some sn)\<rparr>), True))"

definition close_session :: "heap \<Rightarrow> scanSession \<Rightarrow> heap \<times> scanSession" where
  "close_session h s =
     (foldl (\<lambda>h u. close_store (uStore u) h) (close_store (sStore s) h) (undoStack s),
      s\<lparr>sReader := None, sStore := None, sSnapshot := None, undoStack := []\<rparr>)"

datatype filter_outcome =
    FilterTypeRequired | SessionReaderClosed | ValueRequired | InvalidValue enc_error | FilterFailed scan_error
  | Filtered nat nat

text \<open>\<open>opFilter\<close> once the session is found and locked; \<open>a\<close> is the reference of the new store, and the
  outcome of a filter that ran has the counts after and before.\<close>

definition opFilter ::
  "float_conv \<Rightarrow> (nat \<Rightarrow> io_result) \<Rightarrow> nat \<Rightarrow> gostring \<Rightarrow> gostring \<Rightarrow> heap \<Rightarrow> scanSession
   \<Rightarrow> (heap \<times> scanSession) \<times> filter_outcome" where
  "opFilter fc io a ftype val h s =
     (if ftype = [] then ((h, s), FilterTypeRequired)
      else if sReader s = None then ((h, s), SessionReaderClosed)
      else if ftype = ''exact'' \<and> val = [] then ((h, s), ValueRequired)
      else case (if ftype = ''exact'' then map_sum id Some (encodeValue fc (sValueType s) val (sEndian s))
                 else Inr None) of
             Inl e \<Rightarrow> ((h, s), InvalidValue e)
           | Inr newValue \<Rightarrow>
               (case pushUndo h s of (h1, s1) \<Rightarrow>
                let prevCount = matchCount s;
                    fromSnapshot = (sUnknownScan s \<and> sSnapshot s \<noteq> None);
                    r = (if fromSnapshot
                         then filterFromSnapshot (sReader s) io (sSnapshot s) (sValueType s) (sValueSize s) (sEndian s)
                                ftype (case newValue of None \<Rightarrow> [] | Some v \<Rightarrow> v)
                         else filterMatches (sReader s) io (sValueType s) (sEndian s) (sValueSize s)
                                (map_option h1 (sStore s1)) ftype newValue)
                in case r of
                     Inl e \<Rightarrow> (fst (popUndo h1 s1), FilterFailed e)
                   | Inr st \<Rightarrow>
                       ((h1(a := st), s1\<lparr>sStore := Some a, matchCount := mcount st,
                                         sUnknownScan := (if fromSnapshot then False else sUnknownScan s1)\<rparr>),
                        Filtered (mcount st) prevCount)))"

definition opUndo :: "heap \<Rightarrow> scanSession \<Rightarrow> (heap \<times> scanSession) \<times> bool" where
  "opUndo h s = popUndo h s"

subsection \<open>Binary search\<close>

lemma search_loop_least:
  assumes "\<And>x y. x \<le> y \<Longrightarrow> y < n \<Longrightarrow> f x \<Longrightarrow> f y"
    and "i \<le> j" "j \<le> n" "\<forall>x<i. \<not> f x" "\<forall>x. j \<le> x \<and> x < n \<longrightarrow> f x"
  shows "search_loop f i j \<le> n \<and> (\<forall>x < search_loop f i j. \<not> f x) \<and> (search_loop f i j < n \<longrightarrow> f (search_loop f i j))"
  using assms
proof (induction f i j rule: search_loop.induct)
  case (1 f i j)
  show ?case
  proof (cases "i < j")
    case True
    define h where "h = (i + j) div 2"
    have h: "i \<le> h" "h < j" using True by (auto simp: h_def)
    show ?thesis
    proof (cases "f h")
      case fh: True
      have eq: "search_loop f i j = search_loop f i h"
        by (subst search_loop.simps) (simp add: True fh h_def [symmetric])
      have "\<forall>x. h \<le> x \<and> x < n \<longrightarrow> f x" using 1(3) fh by blast
      then show ?thesis
        unfolding eq using fh h 1(3,5,6) by (intro 1(2) [OF True h_def]) auto
    next
      case fh: False
      have eq: "search_loop f i j = search_loop f (h + 1) j"
        by (subst search_loop.simps) (simp add: True fh h_def [symmetric])
      have "h < n" using h 1(5) by simp
      then have "\<not> f x" if "x < h + 1" for x
        using 1(3) [of x h] fh that by auto
      then show ?thesis
        unfolding eq using fh h 1(3,5,7) by (intro 1(1) [OF True h_def]) auto
    qed
  next
    case False
    then have "i = j" using 1(4) by simp
    with 1(5-) show ?thesis by (simp add: search_loop.simps)
  qed
qed

lemma sort_search_unique:
  assumes "\<And>x y. x \<le> y \<Longrightarrow> y < n \<Longrightarrow> f x \<Longrightarrow> f y" "k < n" "f k" "\<forall>x<k. \<not> f x"
  shows "sort_search n f = k"
proof -
  have "sort_search n f \<le> n \<and> (\<forall>x < sort_search n f. \<not> f x) \<and> (sort_search n f < n \<longrightarrow> f (sort_search n f))"
    unfolding sort_search_def by (rule search_loop_least [OF assms(1)]) auto
  then have "\<not> k < sort_search n f" "sort_search n f < k \<Longrightarrow> f (sort_search n f)" using assms(2,3) by auto
  then show ?thesis using assms(4) by (meson linorder_neqE_nat)
qed

subsection \<open>Facts on snapshots\<close>

fun write_all :: "(nat \<Rightarrow> bool) \<Rightarrow> memorySnapshot \<Rightarrow> (uint64 \<times> bytes) list \<Rightarrow> snap_error + memorySnapshot" where
  "write_all wok s [] = Inr s"
| "write_all wok s ((a, d) # ws) =
     (case WriteRegion (wok (stotal s)) s a d of Inl e \<Rightarrow> Inl e | Inr s1 \<Rightarrow> write_all wok s1 ws)"

definition apart :: "uint64 \<times> nat \<Rightarrow> uint64 \<times> nat \<Rightarrow> bool" where
  "apart x y = (unat (fst x) + snd x \<le> unat (fst y) \<or> unat (fst y) + snd y \<le> unat (fst x))"

definition extent :: "snapRegion \<Rightarrow> uint64 \<times> nat" where
  "extent r = (srBase r, unat (srSize r))"

text \<open>The regions written do not overlap and do not reach the end of the address space.\<close>

definition regions_apart :: "(uint64 \<times> bytes) list \<Rightarrow> bool" where
  "regions_apart ws =
     ((\<forall>(a, d)\<in>set ws. d \<noteq> [] \<and> unat a + length d < 2 ^ 64)
      \<and> sorted_wrt (\<lambda>x y. apart (fst x, length (snd x)) (fst y, length (snd y))) ws)"

definition snap_has :: "memorySnapshot \<Rightarrow> uint64 \<Rightarrow> bytes \<Rightarrow> bool" where
  "snap_has s a d =
     (\<exists>r\<in>set (sindex s). extent r = (a, length d) \<and> take (length d) (drop (srFileOffset r) (sfile s)) = d)"

lemma WriteRegion_has:
  assumes "WriteRegion wok s a d = Inr s1" "stotal s = length (sfile s)"
  shows "stotal s1 = length (sfile s1) \<and> map extent (sindex s1) = map extent (sindex s) @ [(a, length d)]
    \<and> snap_has s1 a d \<and> (\<forall>b e. snap_has s b e \<longrightarrow> snap_has s1 b e)"
proof -
  have lim: "length d < 2 ^ 64" and s1: "s1 = \<lparr>sfile = sfile s @ d,
      sindex = sindex s @ [\<lparr>srBase = a, srSize = of_nat (length d), srFileOffset = length (sfile s)\<rparr>],
      stotal = length (sfile s) + length d\<rparr>"
    using assms by (auto simp: WriteRegion_def write_at_def maxSnapshotSize_def split: if_splits)
  have un: "unat (of_nat (length d) :: uint64) = length d" using lim by (simp add: unat_of_nat)
  have keep: "take n (drop o1 (f @ d)) = e" if "take n (drop o1 f) = e" "n = length e" for n o1 e and f :: bytes
  proof (cases "e = []")
    case False
    then have "o1 + n \<le> length f" using that by (metis add.commute drop_eq_Nil le_add_diff_inverse2 le_diff_conv
          length_drop length_take min.absorb_iff2 min_def nat_le_linear take_eq_Nil2 diff_is_0_eq')
    with that show ?thesis by simp
  qed (use that in simp)
  have old: "snap_has s1 b e" if "snap_has s b e" for b e
    using that keep by (fastforce simp: snap_has_def s1)
  show ?thesis
    using old by (simp add: s1 snap_has_def extent_def un)
qed

lemma write_all_has:
  assumes "write_all wok s ws = Inr s1" "stotal s = length (sfile s)"
  shows "stotal s1 = length (sfile s1) \<and> map extent (sindex s1) = map extent (sindex s) @ map (\<lambda>(a, d). (a, length d)) ws
    \<and> (\<forall>(a, d)\<in>set ws. snap_has s1 a d) \<and> (\<forall>b e. snap_has s b e \<longrightarrow> snap_has s1 b e)"
  using assms
proof (induction ws arbitrary: s)
  case (Cons w ws)
  obtain a d where w: "w = (a, d)" by fastforce
  obtain s2 where s2: "WriteRegion (wok (stotal s)) s a d = Inr s2" "write_all wok s2 ws = Inr s1"
    using Cons.prems(1) w by (auto split: sum.splits)
  note W = WriteRegion_has [OF s2(1) Cons.prems(2)]
  from Cons.IH [OF s2(2)] W w show ?case by auto
qed simp

text \<open>In an index sorted by address the entry that holds an address is the one the search finds.\<close>

lemma readAt_entry:
  assumes srt: "sorted (map srBase L)" and dist: "distinct (map srBase L)"
    and ok: "\<And>r. r \<in> set L \<Longrightarrow> 0 < unat (srSize r) \<and> unat (srBase r) + unat (srSize r) < 2 ^ 64"
    and ap: "\<And>r r'. r \<in> set L \<Longrightarrow> r' \<in> set L \<Longrightarrow> r \<noteq> r' \<Longrightarrow> apart (extent r) (extent r')"
    and k: "k < length L" and off: "off < unat (srSize (L ! k))"
  shows "sort_search (length L) (\<lambda>i. srBase (L ! k) + of_nat off < srBase (L ! i) + srSize (L ! i)) = k"
proof -
  have fin: "unat (srBase (L ! i) + srSize (L ! i)) = unat (srBase (L ! i)) + unat (srSize (L ! i))" if "i < length L" for i
    using ok [OF nth_mem [OF that]] by (simp add: unat_word_ariths)
  have adr: "unat (srBase (L ! k) + of_nat off) = unat (srBase (L ! k)) + off"
    using ok [OF nth_mem [OF k]] off by (simp add: unat_word_ariths unat_of_nat)
  have before: "unat (srBase (L ! i)) + unat (srSize (L ! i)) \<le> unat (srBase (L ! j))" if "i < j" "j < length L" for i j
  proof -
    have "srBase (L ! i) \<le> srBase (L ! j)" using srt that by (simp add: sorted_iff_nth_mono)
    moreover have "srBase (L ! i) \<noteq> srBase (L ! j)"
      using nth_eq_iff_index_eq [OF dist, of i j] that by simp
    ultimately have "unat (srBase (L ! i)) < unat (srBase (L ! j))" 
      by (metis order.not_eq_order_implies_strict word_less_nat_alt)
    moreover have "apart (extent (L ! i)) (extent (L ! j))"
      using that \<open>srBase (L ! i) \<noteq> srBase (L ! j)\<close> by (intro ap) auto
    ultimately show ?thesis using ok [of "L ! j"] that by (auto simp: apart_def extent_def)
  qed
  have le: "f i \<longleftrightarrow> unat (srBase (L ! k)) + off < unat (srBase (L ! i)) + unat (srSize (L ! i))"
    if "f = (\<lambda>i. srBase (L ! k) + of_nat off < srBase (L ! i) + srSize (L ! i))" "i < length L" for f i
    using that fin adr by (simp add: word_less_nat_alt)
  show ?thesis
  proof (rule sort_search_unique)
    show "srBase (L ! k) + of_nat off < srBase (L ! k) + srSize (L ! k)" using le [OF refl k] off by simp
    show "\<forall>x<k. \<not> srBase (L ! k) + of_nat off < srBase (L ! x) + srSize (L ! x)"
      using le [OF refl] before k by fastforce
    fix x y
    assume "x \<le> y" "y < length L" "srBase (L ! k) + of_nat off < srBase (L ! x) + srSize (L ! x)"
    then show "srBase (L ! k) + of_nat off < srBase (L ! y) + srSize (L ! y)"
      using le [OF refl, of x] le [OF refl, of y] before [of x y] by (cases "x = y") auto
  qed (rule k)
qed

subsection \<open>A snapshot as the chunks it writes\<close>

function chunk_writes :: "nat \<Rightarrow> uint64 \<Rightarrow> bytes \<Rightarrow> nat \<Rightarrow> (uint64 \<times> bytes) list" where
  "chunk_writes c base R off =
     (if off < length R \<and> 0 < c then (base + of_nat off, take c (drop off R)) # chunk_writes c base R (off + c) else [])"
  by pat_completeness auto
termination
  by (relation "measure (\<lambda>(c, base, R, off). length R - off)") auto

declare chunk_writes.simps [simp del]

lemma chunk_writes_Nil: "\<not> (off < length R \<and> 0 < c) \<Longrightarrow> chunk_writes c base R off = []"
  by (subst chunk_writes.simps) (simp only: if_False)

lemma write_all_append:
  "write_all wok s (xs @ ys) = (case write_all wok s xs of Inl e \<Rightarrow> Inl e | Inr s1 \<Rightarrow> write_all wok s1 ys)"
  by (induction xs arbitrary: s) (auto split: sum.splits)

lemma snap_region_writes:
  assumes "reads rd base R"
  shows "snap_region rd wok c base (length R) off s = write_all wok s (chunk_writes c base R off)"
  using assms
proof (induction c base R off arbitrary: s rule: chunk_writes.induct)
  case (1 c base R off)
  show ?case
  proof (cases "off < length R \<and> 0 < c")
    case True
    let ?n = "min (length R - off) c"
    have r: "rd (base + of_nat off) ?n = (take c (drop off R), False)"
      using 1(2) True by (auto simp: reads_def min_def)
    have ne: "take c (drop off R) \<noteq> []" using True by simp
    show ?thesis
      using True 1 ne by (subst snap_region.simps, subst chunk_writes.simps) (simp add: r Let_def split: sum.splits)
  next
    case False
    then show ?thesis by (auto simp: snap_region.simps chunk_writes.simps)
  qed
qed

definition region_writes :: "(MemoryRegion \<Rightarrow> bytes) \<Rightarrow> MemoryRegion list \<Rightarrow> (uint64 \<times> bytes) list" where
  "region_writes C rs = concat (map (\<lambda>r. chunk_writes scanChunkSize (BaseAddress r) (C r) 0) rs)"

lemma snap_regions_writes:
  "readable_regions rd C rs \<Longrightarrow> snap_regions rd wok rs s = write_all wok s (region_writes C rs)"
proof (induction rs arbitrary: s)
  case (Cons r rs)
  then have "reads rd (BaseAddress r) (C r)" "length (C r) = unat (Size r)" "readable_regions rd C rs"
    by (auto simp: readable_regions_def)
  with Cons.IH snap_region_writes [of rd "BaseAddress r" "C r" wok scanChunkSize 0 s] show ?case
    by (simp add: region_writes_def write_all_append split: sum.splits)
qed (simp add: region_writes_def)

lemma chunk_writes_inside:
  assumes "unat base + length R < 2 ^ 64" "(a, d) \<in> set (chunk_writes c base R off)"
  shows "d \<noteq> [] \<and> unat base + off \<le> unat a \<and> unat a + length d \<le> unat base + length R"
  using assms
proof (induction c base R off rule: chunk_writes.induct)
  case (1 c base R off)
  show ?case
  proof (cases "off < length R \<and> 0 < c")
    case True
    then have "unat (base + of_nat off) = unat base + off"
      using 1(2) by (simp add: unat_word_ariths unat_of_nat)
    moreover have "(a, d) = (base + of_nat off, take c (drop off R)) \<or> (a, d) \<in> set (chunk_writes c base R (off + c))"
      using 1(3) True by (subst (asm) chunk_writes.simps) simp
    ultimately show ?thesis using 1(1) [OF True 1(2)] True by auto
  qed (use 1(3) chunk_writes_Nil in simp)
qed

abbreviation write_apart :: "uint64 \<times> bytes \<Rightarrow> uint64 \<times> bytes \<Rightarrow> bool" where
  "write_apart x y \<equiv> apart (fst x, length (snd x)) (fst y, length (snd y))"

lemma chunk_writes_apart:
  assumes "unat base + length R < 2 ^ 64"
  shows "sorted_wrt write_apart (chunk_writes c base R off)"
  using assms
proof (induction c base R off rule: chunk_writes.induct)
  case (1 c base R off)
  show ?case
  proof (cases "off < length R \<and> 0 < c")
    case True
    have b: "unat (base + of_nat off) = unat base + off"
      using 1(2) True by (simp add: unat_word_ariths unat_of_nat)
    have "write_apart (base + of_nat off, take c (drop off R)) x" if "x \<in> set (chunk_writes c base R (off + c))" for x
      using chunk_writes_inside [OF 1(2), of "fst x" "snd x" c "off + c"] that b by (auto simp: apart_def)
    then show ?thesis using 1(1) [OF True 1(2)] True by (subst chunk_writes.simps) simp
  qed (simp add: chunk_writes_Nil)
qed

lemma chunk_writes_at:
  assumes "0 < c" "k * c \<le> p" "p < length R"
  shows "(base + of_nat (p div c * c), take c (drop (p div c * c) R)) \<in> set (chunk_writes c base R (k * c))"
  using assms(2,3)
proof (induction "p div c - k" arbitrary: k)
  case 0
  then have "p div c = k" using assms(1) by (simp add: div_le_mono less_eq_div_iff_mult_less_eq order_antisym)
  then show ?case using 0 assms(1) by (subst chunk_writes.simps) auto
next
  case (Suc n)
  then have lt: "k < p div c" by simp
  then have kc: "Suc k * c \<le> p" using assms(1) by (simp only: less_eq_div_iff_mult_less_eq [symmetric] Suc_le_eq)
  have "n = p div c - Suc k" using Suc(2) by simp
  from Suc.hyps(1) [OF this kc Suc.prems(2)] show ?case
    using Suc.prems assms(1) by (subst chunk_writes.simps) (simp add: add.commute)
qed

text \<open>The regions of a process: they do not overlap and do not reach the end of the address space.\<close>

definition disjoint_regions :: "MemoryRegion list \<Rightarrow> bool" where
  "disjoint_regions rs =
     ((\<forall>r\<in>set rs. unat (BaseAddress r) + unat (Size r) < 2 ^ 64)
      \<and> sorted_wrt (\<lambda>x y. apart (BaseAddress x, unat (Size x)) (BaseAddress y, unat (Size y))) rs)"

lemma region_writes_apart:
  assumes "disjoint_regions rs" "\<And>r. r \<in> set rs \<Longrightarrow> length (C r) = unat (Size r)"
  shows "regions_apart (region_writes C rs)"
  using assms
proof (induction rs)
  case (Cons r rs)
  let ?cw = "\<lambda>r. chunk_writes scanChunkSize (BaseAddress r) (C r) 0"
  have lim: "unat (BaseAddress q) + length (C q) < 2 ^ 64" if "q \<in> set (r # rs)" for q
    using Cons.prems that by (auto simp: disjoint_regions_def)
  note ins = chunk_writes_inside [OF lim]
  have ap: "write_apart x y" if "x \<in> set (?cw r)" "q \<in> set rs" "y \<in> set (?cw q)" for x y q
  proof -
    have "apart (BaseAddress r, length (C r)) (BaseAddress q, length (C q))"
      using Cons.prems that(2) by (simp add: disjoint_regions_def)
    then show ?thesis
      using ins [of r "fst x" "snd x" scanChunkSize 0] ins [of q "fst y" "snd y" scanChunkSize 0] that
      by (auto simp: apart_def)
  qed
  have "regions_apart (region_writes C rs)" using Cons by (simp add: disjoint_regions_def)
  then show ?case
    using ins [of r] lim [of r] chunk_writes_apart [OF lim [of r]] ap
    by (fastforce simp: regions_apart_def region_writes_def sorted_wrt_append)
qed (simp add: regions_apart_def region_writes_def)

lemma apart_sym: "apart x y \<Longrightarrow> apart y x"
  by (auto simp: apart_def)

lemma index_apart:
  assumes "write_all wok newSnapshot ws = Inr s" "regions_apart ws"
  shows "sorted_wrt apart (map extent (sindex s))"
    and "r \<in> set (sindex s) \<Longrightarrow> 0 < unat (srSize r) \<and> unat (srBase r) + unat (srSize r) < 2 ^ 64"
proof -
  have e: "map extent (sindex s) = map (\<lambda>(a, d). (a, length d)) ws"
    using write_all_has [OF assms(1)] by (simp add: newSnapshot_def)
  have "(\<lambda>x y. apart (fst x, length (snd x)) (fst y, length (snd y)))
      = (\<lambda>x y. apart (case x of (a, d) \<Rightarrow> (a, length d)) (case y of (a, d) \<Rightarrow> (a, length d)))"
    by (simp add: case_prod_beta)
  then show "sorted_wrt apart (map extent (sindex s))"
    unfolding e using assms(2) by (simp add: regions_apart_def sorted_wrt_map case_prod_beta)
  assume "r \<in> set (sindex s)"
  then have "extent r \<in> set (map (\<lambda>(a, d). (a, length d)) ws)" unfolding e [symmetric] by simp
  then show "0 < unat (srSize r) \<and> unat (srBase r) + unat (srSize r) < 2 ^ 64"
    using assms(2) by (force simp: regions_apart_def extent_def)
qed

lemma apart_distinct:
  assumes "sorted_wrt apart (map extent L)" "\<And>r. r \<in> set L \<Longrightarrow> 0 < unat (srSize r)"
  shows "distinct (map srBase L)" and "r \<in> set L \<Longrightarrow> r' \<in> set L \<Longrightarrow> r \<noteq> r' \<Longrightarrow> apart (extent r) (extent r')"
proof -
  show "distinct (map srBase L)"
    using assms
  proof (induction L)
    case (Cons r L)
    have "srBase r \<noteq> srBase x" if "x \<in> set L" for x
      using Cons.prems(1) Cons.prems(2) [of r] Cons.prems(2) [of x] that by (auto simp: apart_def extent_def)
    with Cons show ?case by auto
  qed simp
  show "apart (extent r) (extent r')" if "r \<in> set L" "r' \<in> set L" "r \<noteq> r'"
    using assms(1) that by (induction L) (auto intro: apart_sym)
qed

lemma written_readable:
  assumes w: "write_all wok newSnapshot ws = Inr s" and ap: "regions_apart ws"
    and ad: "(a, d) \<in> set ws" and off: "off < length d"
  shows "readAtUnlocked (s\<lparr>sindex := sort_key srBase (sindex s)\<rparr>) (a + of_nat off) n = (take n (drop off d), False)"
proof -
  let ?L = "sort_key srBase (sindex s)"
  note idx = index_apart [OF w ap]
  have pos: "0 < unat (srSize q)" if "q \<in> set (sindex s)" for q using idx(2) [OF that] by simp
  obtain r where r: "r \<in> set ?L" "extent r = (a, length d)" "take (length d) (drop (srFileOffset r) (sfile s)) = d"
    using write_all_has [OF w] ad by (fastforce simp: snap_has_def newSnapshot_def)
  obtain k where k: "k < length ?L" "?L ! k = r" using r(1) by (metis in_set_conv_nth)
  have a: "srBase r = a" "unat (srSize r) = length d" using r(2) by (auto simp: extent_def)
  have dist: "distinct (map srBase ?L)"
    using apart_distinct(1) [OF idx(1) pos] by (metis mset_eq_imp_distinct_iff mset_map mset_sort)
  have f: "sort_search (length ?L) (\<lambda>i. srBase (?L ! k) + of_nat off < srBase (?L ! i) + srSize (?L ! i)) = k"
  proof (rule readAt_entry [OF _ dist _ _ k(1)])
    show "apart (extent q) (extent q')" if "q \<in> set ?L" "q' \<in> set ?L" "q \<noteq> q'" for q q'
      using apart_distinct(2) [OF idx(1) pos] that by simp
  qed (use idx(2) k a off in auto)
  have lim: "unat a + length d < 2 ^ 64" using idx(2) [of r] r(1) a by simp
  then have u: "unat (a + of_nat off) = unat a + off" "unat (of_nat off :: uint64) = off"
    "unat (a + srSize r) = unat a + length d"
    using off a by (simp_all add: unat_word_ariths unat_of_nat)
  have av: "unat (srSize r - of_nat off) = length d - off"
    using off a u by (simp add: unat_sub word_le_nat_alt)
  have dat: "take (min n (length d - off)) (drop (srFileOffset r + off) (sfile s)) = take n (drop off d)"
  proof -
    have "take n (drop off d) = take n (drop off (take (length d) (drop (srFileOffset r) (sfile s))))" using r(3) by simp
    also have "\<dots> = take (min n (length d - off)) (drop (srFileOffset r + off) (sfile s))"
      by (simp add: drop_take add.commute)
    finally show ?thesis by simp
  qed
  have in_reg: "\<not> (a + of_nat off < a \<or> a + srSize r \<le> a + of_nat off)"
    using u off by (simp add: word_less_nat_alt word_le_nat_alt)
  have fl: "srFileOffset r + length d \<le> length (sfile s)"
    using r(3) off by (metis length_drop length_take min.absorb_iff1 min.commute less_imp_le add.commute
        le_diff_conv2 le_diff_conv diff_is_0_eq' less_zeroE linorder_le_cases nat_less_le)
  show ?thesis
    using f k a in_reg dat av u(2) fl by (simp add: readAtUnlocked_def Let_def not_le)
qed

subsection \<open>Properties of snapshots\<close>

text \<open>C35: whatever the order in which the regions were taken, a snapshot answers a read at any address of
  them with the bytes the process had there, up to the end of the 4 MB chunk the address lies in.\<close>

theorem snapshot_reads_back:
  assumes "takeSnapshot rd wok rs prot = Inr (s, inc)"
    and "readable_regions rd C inc" "disjoint_regions inc" "r \<in> set inc" "p < length (C r)"
  shows "snap_ReadAt s (BaseAddress r + of_nat p) n
    = (take (min n (scanChunkSize - p mod scanChunkSize)) (drop p (C r)), False)"
proof -
  let ?c = scanChunkSize
  let ?k = "p div ?c * ?c"
  have c: "0 < ?c" by (simp add: scanChunkSize_def)
  obtain s0 where s0: "write_all wok newSnapshot (region_writes C inc) = Inr s0"
    "s = s0\<lparr>sindex := sort_key srBase (sindex s0)\<rparr>"
    using assms(1) snap_regions_writes [OF assms(2)]
    by (auto simp: takeSnapshot_def Let_def split: sum.splits)
  have ap: "regions_apart (region_writes C inc)"
    using region_writes_apart [OF assms(3)] assms(2) by (simp add: readable_regions_def)
  have "(BaseAddress r + of_nat ?k, take ?c (drop ?k (C r))) \<in> set (region_writes C inc)"
    using chunk_writes_at [OF c, of 0 p "C r" "BaseAddress r"] assms(4,5) by (auto simp: region_writes_def)
  moreover have pk: "?k + p mod ?c = p" by simp
  moreover have "p mod ?c < length (take ?c (drop ?k (C r)))"
    using assms(5) c pk by (metis drop_drop add.commute length_drop length_greater_0_conv length_take
        min_less_iff_conj mod_less_divisor zero_less_diff)
  ultimately have "readAtUnlocked s (BaseAddress r + of_nat ?k + of_nat (p mod ?c)) n
      = (take n (drop (p mod ?c) (take ?c (drop ?k (C r)))), False)"
    unfolding s0(2) by (intro written_readable [OF s0(1) ap])
  moreover have "BaseAddress r + of_nat ?k + of_nat (p mod ?c) = BaseAddress r + of_nat p"
    using pk by (metis add.assoc of_nat_add)
  ultimately have "readAtUnlocked s (BaseAddress r + of_nat p) n
      = (take n (drop (p mod ?c) (take ?c (drop ?k (C r)))), False)"
    by (simp only:)
  then show ?thesis using pk by (simp add: snap_ReadAt_def drop_take add.commute)
qed

lemma snapshot_example:
  "takeSnapshot (list_reader 0x1000 [1, 2, 3, 4, 5, 6, 7, 8]) (\<lambda>n. True) [one_region 0x1000 8] []
     = Inr (\<lparr>sfile = [1, 2, 3, 4, 5, 6, 7, 8], sindex = [\<lparr>srBase = 0x1000, srSize = 8, srFileOffset = 0\<rparr>], stotal = 8\<rparr>,
            [one_region 0x1000 8])"
  by (simp add: takeSnapshot_def candidates_one snap_region.simps list_reader_def WriteRegion_def newSnapshot_def
      maxSnapshotSize_def scanChunkSize_def write_at_def Let_def)

theorem snapshot_reads_back_witness:
  "snap_ReadAt \<lparr>sfile = [1, 2, 3, 4, 5, 6, 7, 8], sindex = [\<lparr>srBase = 0x1000, srSize = 8, srFileOffset = 0\<rparr>], stotal = 8\<rparr>
     0x1003 4 = ([4, 5, 6, 7], False)"
  using snapshot_reads_back [OF snapshot_example, of "\<lambda>r. [1, 2, 3, 4, 5, 6, 7, 8]" "one_region 0x1000 8" 3 4]
  by (simp add: readable_regions_def reads_list_reader disjoint_regions_def scanChunkSize_def)

subsection \<open>Properties of the undo stack\<close>

text \<open>The stores a session can reach, and the state that its operations keep: no store is reached twice,
  the stack is within its bound and the count is that of the current store.\<close>

definition ref_list :: "nat option \<Rightarrow> nat list" where
  "ref_list p = (case p of None \<Rightarrow> [] | Some a \<Rightarrow> [a])"

definition session_refs :: "scanSession \<Rightarrow> nat list" where
  "session_refs s = ref_list (sStore s) @ concat (map (ref_list \<circ> uStore) (undoStack s))"

definition store_count :: "heap \<Rightarrow> nat option \<Rightarrow> nat" where
  "store_count h p = (case p of None \<Rightarrow> 0 | Some a \<Rightarrow> mcount (h a))"

definition session_ok :: "heap \<Rightarrow> scanSession \<Rightarrow> bool" where
  "session_ok h s =
     (distinct (session_refs s) \<and> length (undoStack s) \<le> maxUndo \<and> matchCount s = store_count h (sStore s)
      \<and> list_all (\<lambda>u. uSnapshot u = None) (undoStack s))"

lemma ref_list_simps [simp]: "ref_list None = []" "ref_list (Some a) = [a]"
  by (simp_all add: ref_list_def)

lemma store_count_simps [simp]: "store_count h None = 0" "store_count h (Some a) = mcount (h a)"
  by (simp_all add: store_count_def)

lemma close_store_frame: "p \<noteq> Some b \<Longrightarrow> close_store p h b = h b"
  by (auto simp: close_store_def split: option.splits)

lemma in_ref_list [simp]: "a \<in> set (ref_list p) \<longleftrightarrow> p = Some a"
  by (cases p) auto

lemma pushUndo_top:
  assumes "session_ok h s" "pushUndo h s = (h1, s1)"
  shows "undoStack s1 = (if length (undoStack s) < maxUndo then undoStack s else tl (undoStack s))
      @ [\<lparr>uStore = sStore s, uSnapshot = None, uUnknownScan = sUnknownScan s\<rparr>]"
    and "s1 = s\<lparr>undoStack := undoStack s1\<rparr>" "sStore s1 = sStore s" "sSnapshot s1 = sSnapshot s"
    and "\<And>p. sStore s = Some p \<Longrightarrow> h1 p = h p"
    and "\<And>u p. u \<in> set (undoStack s1) \<Longrightarrow> uStore u = Some p \<Longrightarrow> h1 p = h p"
proof -
  let ?top = "\<lparr>uStore = sStore s, uSnapshot = None, uUnknownScan = sUnknownScan s\<rparr>"
  have len: "length (undoStack s) \<le> maxUndo" and dist: "distinct (session_refs s)"
    using assms(1) by (auto simp: session_ok_def)
  show st: "undoStack s1 = (if length (undoStack s) < maxUndo then undoStack s else tl (undoStack s)) @ [?top]"
    using assms(2) len by (cases "undoStack s") (auto simp: pushUndo_def Let_def maxUndo_def split: if_splits)
  show "s1 = s\<lparr>undoStack := undoStack s1\<rparr>" "sStore s1 = sStore s" "sSnapshot s1 = sSnapshot s"
    using assms(2) by (auto simp: pushUndo_def Let_def split: if_splits)
  have h1: "h1 = (if length (undoStack s) < maxUndo then h else close_store (uStore (hd (undoStack s))) h)"
    using assms(2) len by (cases "undoStack s") (auto simp: pushUndo_def Let_def maxUndo_def split: if_splits)
  show top: "h1 p = h p" if "sStore s = Some p" for p
  proof (cases "length (undoStack s) < maxUndo")
    case False
    then obtain u us where u: "undoStack s = u # us" by (cases "undoStack s") (auto simp: maxUndo_def)
    then have "uStore u \<noteq> Some p" using dist that by (auto simp: session_refs_def)
    with False u h1 show ?thesis by (simp add: close_store_frame)
  qed (simp add: h1)
  show "h1 p = h p" if "u \<in> set (undoStack s1)" "uStore u = Some p" for u p
  proof (cases "length (undoStack s) < maxUndo \<or> u = ?top")
    case False
    then obtain v us where v: "undoStack s = v # us" by (cases "undoStack s") (auto simp: maxUndo_def)
    with False st that(1) have "u \<in> set us" by simp
    with v dist that(2) have "uStore v \<noteq> Some p" by (force simp: session_refs_def)
    with False v h1 show ?thesis by (simp add: close_store_frame)
  qed (use top that h1 in auto)
qed

lemma opFilter_filtered:
  assumes "opFilter fc io a ftype val h s = ((h1, s1), Filtered n prev)"
  obtains h0 s0 st where "pushUndo h s = (h0, s0)" "h1 = h0(a := st)" "mcount st = n"
    "sStore s1 = Some a" "matchCount s1 = mcount st" "undoStack s1 = undoStack s0" "sSnapshot s1 = sSnapshot s0"
    "prev = matchCount s"
  using assms
  by (cases "pushUndo h s")
    (auto simp: opFilter_def Let_def split: if_splits sum.splits)

lemma refs_distinct_push:
  assumes "distinct (session_refs s)" "a \<notin> set (session_refs s)" "us = undoStack s \<or> us = tl (undoStack s)"
  shows "distinct (a # concat (map (ref_list \<circ> uStore) us) @ ref_list (sStore s))"
proof -
  let ?c = "\<lambda>us. concat (map (ref_list \<circ> uStore) us)"
  have "distinct (a # ?c (undoStack s) @ ref_list (sStore s))"
    using assms(1,2) by (auto simp: session_refs_def)
  then show ?thesis using assms(3) by (cases "undoStack s") auto
qed

text \<open>C36: a filter that succeeds keeps the session well formed, and undoing it gives back the session as
  it was: the matches, their number, the kind of scan and the older undo states, less the oldest one
  when the stack was full; no store that can still be reached was closed or changed on the way.\<close>

theorem undo_restores_filter:
  assumes "opFilter fc io a ftype val h s = ((h1, s1), Filtered n prev)"
    and "session_ok h s" "a \<notin> set (session_refs s)" "opUndo h1 s1 = ((h2, s2), ok)"
  shows "session_ok h1 s1 \<and> prev = matchCount s \<and> ok \<and> session_ok h2 s2
    \<and> sStore s2 = sStore s \<and> matchCount s2 = matchCount s \<and> sUnknownScan s2 = sUnknownScan s \<and> sSnapshot s2 = sSnapshot s
    \<and> undoStack s2 = (if length (undoStack s) < maxUndo then undoStack s else tl (undoStack s))
    \<and> map h2 (session_refs s2) = map h (session_refs s2)"
proof -
  obtain h0 s0 st where o: "pushUndo h s = (h0, s0)" "h1 = h0(a := st)" "mcount st = n"
    "sStore s1 = Some a" "matchCount s1 = mcount st" "undoStack s1 = undoStack s0" "sSnapshot s1 = sSnapshot s0"
    "prev = matchCount s"
    using opFilter_filtered [OF assms(1)] by metis
  note P = pushUndo_top [OF assms(2) o(1)]
  let ?us = "if length (undoStack s) < maxUndo then undoStack s else tl (undoStack s)"
  let ?top = "\<lparr>uStore = sStore s, uSnapshot = None, uUnknownScan = sUnknownScan s\<rparr>"
  have ok: "distinct (session_refs s)" "length (undoStack s) \<le> maxUndo" "matchCount s = store_count h (sStore s)"
    "list_all (\<lambda>u. uSnapshot u = None) (undoStack s)"
    using assms(2) by (auto simp: session_ok_def)
  have stack: "undoStack s1 = ?us @ [?top]" using P(1) o(6) by simp
  have snap: "sSnapshot s1 = sSnapshot s" using P(4) o(7) by simp
  have dist: "distinct (a # concat (map (ref_list \<circ> uStore) ?us) @ ref_list (sStore s))"
    by (rule refs_distinct_push [OF ok(1) assms(3)]) simp
  have lus: "list_all (\<lambda>u. uSnapshot u = None) ?us" using ok(4) by (cases "undoStack s") auto
  have len: "length ?us < maxUndo" using ok(2) by (auto simp: maxUndo_def)
  have one: "session_ok h1 s1"
    using dist lus len o(2,4,5) stack by (simp add: session_ok_def session_refs_def)
  have h2: "h2 = close_store (Some a) h1" "ok" "sStore s2 = sStore s" "undoStack s2 = ?us"
    "sUnknownScan s2 = sUnknownScan s" "matchCount s2 = store_count h2 (sStore s)" "sSnapshot s2 = sSnapshot s"
    using assms(4) stack o(4) snap by (auto simp: opUndo_def popUndo_def Let_def store_count_def)
  have same: "h2 p = h p" if p: "p \<in> set (concat (map (ref_list \<circ> uStore) (?us @ [?top])))" for p
  proof -
    have "p \<noteq> a" using dist p by auto
    then have "h2 p = h0 p" using h2(1) o(2) by (simp add: close_store_frame)
    moreover have "\<exists>u\<in>set (undoStack s0). uStore u = Some p" using p P(1) by auto
    ultimately show ?thesis using P(6) by metis
  qed
  have cnt: "store_count h2 (sStore s) = store_count h (sStore s)" using same by (cases "sStore s") auto
  have refs: "session_refs s2 = ref_list (sStore s) @ concat (map (ref_list \<circ> uStore) ?us)"
    using h2 by (simp add: session_refs_def)
  have "session_ok h2 s2"
    using dist lus len h2 refs by (auto simp: session_ok_def)
  moreover have "map h2 (session_refs s2) = map h (session_refs s2)"
    unfolding refs using same by auto
  ultimately show ?thesis using one o(8) h2 cnt ok(3) by simp
qed

lemma failed_filter_rollback:
  assumes "opFilter fc io a ftype val h s = ((h1, s1), FilterFailed e)"
  obtains h0 s0 where "pushUndo h s = (h0, s0)" "fst (popUndo h0 s0) = (h1, s1)"
  using assms
  by (cases "pushUndo h s") (auto simp: opFilter_def Let_def split: if_splits sum.splits)

text \<open>a filter that fails does not leave the session as it was: rolling back closes the store it then
  restores, so the matches of the session are gone and their number is zero.\<close>

theorem failed_filter_discards_matches:
  assumes "opFilter fc io a ftype val h s = ((h1, s1), FilterFailed e)" "session_ok h s" "sStore s = Some p"
  shows "sStore s1 = Some p \<and> h1 p = Close (h p) \<and> matchCount s1 = 0"
proof -
  obtain h0 s0 where o: "pushUndo h s = (h0, s0)" "fst (popUndo h0 s0) = (h1, s1)"
    using failed_filter_rollback [OF assms(1)] by metis
  note P = pushUndo_top [OF assms(2) o(1)]
  show ?thesis
    using o(2) P(1) P(3) P(5) [OF assms(3)] assms(3)
    by (auto simp: popUndo_def Let_def close_store_def Close_def)
qed

subsection \<open>A session on one byte\<close>

definition no_floats :: float_conv where
  "no_floats = \<lparr>ParseFloat32 = (\<lambda>s. Inl ErrSyntax), ParseFloat64 = (\<lambda>s. Inl ErrSyntax),
      FormatFloat32 = (\<lambda>w. []), FormatFloat64 = (\<lambda>w. [])\<rparr>"

definition byte_session :: scanSession where
  "byte_session = \<lparr>sValueType = TypeUint8, sValueSize = 1, sEndian = LittleEndian,
      sReader = Some (list_reader 0x1000 [2]), sStore = Some 0, sSnapshot = None, sUnknownScan = False,
      undoStack = [], matchCount = 1\<rparr>"

definition byte_heap :: heap where
  "byte_heap p = newMatchStoreFromSlice [\<lparr>Address = 0x1000, PrevData = [1]\<rparr>] 1"

lemma byte_session_ok: "session_ok byte_heap byte_session"
  by (simp add: session_ok_def session_refs_def byte_session_def byte_heap_def newMatchStoreFromSlice_def)

lemmas filter_eval = filterMatches_def ForEachBatch_def foreach_loop.simps GetBatch_def newMatchStoreFromSlice_def
  newMatchStore_def iterBatch_def maxBatch_def list_reader_def filter_keep_def slice_def Add_def matchAbsoluteMax_def
  promoteThreshold_def matchMemThreshold_def

lemma byte_filter:
  "filterMatches (Some (list_reader 0x1000 [2])) (\<lambda>n. (True, WOk)) TypeUint8 LittleEndian 1 (Some (byte_heap 0)) ''changed'' None
     = Inr (newMatchStoreFromSlice [\<lparr>Address = 0x1000, PrevData = [2]\<rparr>] 1)"
  "filterMatches (Some (list_reader 0x1000 [2])) (\<lambda>n. (True, WOk)) TypeUint8 LittleEndian 1 (Some (byte_heap 0)) ''bigger'' None
     = Inl UnknownFilter"
  by (simp_all add: byte_heap_def filter_eval Let_def)

lemma byte_opFilter:
  "opFilter no_floats (\<lambda>n. (True, WOk)) 1 ''changed'' [] byte_heap byte_session
     = ((byte_heap(1 := newMatchStoreFromSlice [\<lparr>Address = 0x1000, PrevData = [2]\<rparr>] 1),
         byte_session\<lparr>sStore := Some 1, matchCount := 1,
           undoStack := [\<lparr>uStore = Some 0, uSnapshot = None, uUnknownScan = False\<rparr>]\<rparr>), Filtered 1 1)"
  "snd (opFilter no_floats (\<lambda>n. (True, WOk)) 1 ''bigger'' [] byte_heap byte_session) = FilterFailed UnknownFilter"
  using byte_filter
  by (simp_all add: opFilter_def byte_session_def pushUndo_def maxUndo_def Let_def newMatchStoreFromSlice_def)

theorem undo_restores_filter_witness:
  "let s1 = byte_session\<lparr>sStore := Some 1, matchCount := 1,
              undoStack := [\<lparr>uStore = Some 0, uSnapshot = None, uUnknownScan = False\<rparr>]\<rparr>;
       h1 = byte_heap(1 := newMatchStoreFromSlice [\<lparr>Address = 0x1000, PrevData = [2]\<rparr>] 1);
       ((h2, s2), ok) = opUndo h1 s1
   in ok \<and> sStore s2 = Some 0 \<and> h2 0 = byte_heap 0 \<and> matchCount s2 = 1 \<and> undoStack s2 = []"
proof -
  let ?s1 = "byte_session\<lparr>sStore := Some 1, matchCount := 1,
              undoStack := [\<lparr>uStore = Some 0, uSnapshot = None, uUnknownScan = False\<rparr>]\<rparr>"
  let ?h1 = "byte_heap(1 := newMatchStoreFromSlice [\<lparr>Address = 0x1000, PrevData = [2]\<rparr>] 1)"
  obtain h2 s2 ok where u: "opUndo ?h1 ?s1 = ((h2, s2), ok)" by (metis surj_pair)
  have r: "sStore byte_session = Some 0" "undoStack byte_session = []" "matchCount byte_session = 1"
    by (simp_all add: byte_session_def)
  have fresh: "1 \<notin> set (session_refs byte_session)" by (simp add: session_refs_def r)
  note U = undo_restores_filter [OF byte_opFilter(1) byte_session_ok fresh u]
  then have "session_refs s2 = [0]" by (simp add: session_refs_def r maxUndo_def)
  with U r show ?thesis unfolding Let_def u prod.case by (simp add: maxUndo_def)
qed

theorem failed_filter_discards_matches_witness:
  "let ((h1, s1), res) = opFilter no_floats (\<lambda>n. (True, WOk)) 1 ''bigger'' [] byte_heap byte_session
   in res = FilterFailed UnknownFilter \<and> mcount (byte_heap 0) = 1 \<and> mcount (h1 0) = 0 \<and> matchCount s1 = 0"
proof -
  obtain h1 s1 where o: "opFilter no_floats (\<lambda>n. (True, WOk)) 1 ''bigger'' [] byte_heap byte_session
      = ((h1, s1), FilterFailed UnknownFilter)"
    using byte_opFilter(2) by (metis prod.exhaust_sel)
  have "sStore byte_session = Some 0" by (simp add: byte_session_def)
  from failed_filter_discards_matches [OF o byte_session_ok this] show ?thesis
    unfolding Let_def o prod.case by (simp add: Close_def byte_heap_def newMatchStoreFromSlice_def)
qed

end
