(* ===== verification/Mem_Chain.thy ===== *)
theory Mem_Chain
  imports Mem_Scan
begin

text \<open>
  Pointers of a process: scanning for pointers to an address (tools/memtool/pointer.go) and resolving
  chains of pointers and offsets (tools/memtool/readchain.go), with the parsing and printing of
  addresses and offsets both share. An \<open>int64\<close> offset is a 64-bit word read as a signed number. The
  lemmas show that a chain resolves as the plain recursion over its offsets says, that the scan
  finds exactly the aligned pointers in range, that what it reports resolves to the target, and that
  printed offsets are read back.
\<close>

type_synonym int64 = "64 word"

subsection \<open>Scanning for pointers\<close>

definition pointerScanMaxDepth :: int where
  "pointerScanMaxDepth = 5"

definition pointerScanMaxOffset :: int where
  "pointerScanMaxOffset = 0x1000"

definition pointerScanMaxResults :: nat where
  "pointerScanMaxResults = 10000"

definition pointerScanMaxPerLevel :: nat where
  "pointerScanMaxPerLevel = 500000"

record pointerChain =
  pcBase :: uint64
  pcOffsets :: "int64 list"

record pointerHit =
  sourceAddr :: uint64
  pointedValue :: uint64

definition get_ptr :: "ByteOrder \<Rightarrow> nat \<Rightarrow> bytes \<Rightarrow> uint64" where
  "get_ptr bo ptrSize buf = (if ptrSize = 8 then Uint64 bo buf else ucast (Uint32 bo buf))"

text \<open>The pointer-sized values of one chunk that lie between the bounds.\<close>

definition chunk_hits :: "uint64 \<Rightarrow> uint64 \<Rightarrow> nat \<Rightarrow> uint64 \<Rightarrow> bytes \<Rightarrow> pointerHit list" where
  "chunk_hits low high ptrSize addr buf =
     map (\<lambda>k. \<lparr>sourceAddr = addr + of_nat (k * ptrSize),
               pointedValue = get_ptr LittleEndian ptrSize (drop (k * ptrSize) buf)\<rparr>)
       (filter (\<lambda>k. let val = get_ptr LittleEndian ptrSize (drop (k * ptrSize) buf)
                    in low \<le> val \<and> val \<le> high \<and> val \<noteq> 0) [0..<length buf div ptrSize])"

function ptr_region :: "reader \<Rightarrow> uint64 \<Rightarrow> uint64 \<Rightarrow> nat \<Rightarrow> uint64 \<Rightarrow> nat \<Rightarrow> nat \<Rightarrow> pointerHit list" where
  "ptr_region rd low high ptrSize base sz offset =
     (if offset < sz then
        (let readSize = min (sz - offset) scanChunkSize in
         case rd (base + of_nat offset) readSize of (buf, err) \<Rightarrow>
           if err \<or> length buf < ptrSize then [] else chunk_hits low high ptrSize (base + of_nat offset) buf)
        @ ptr_region rd low high ptrSize base sz (offset + scanChunkSize)
      else [])"
  by pat_completeness auto
termination
  by (relation "measure (\<lambda>(rd, low, high, ptrSize, base, sz, offset). sz - offset)") (auto simp: scanChunkSize_def)

declare ptr_region.simps [simp del]

definition scanForPointers :: "reader \<Rightarrow> MemoryRegion list \<Rightarrow> uint64 \<Rightarrow> uint64 \<Rightarrow> nat \<Rightarrow> pointerHit list" where
  "scanForPointers rd regions low high ptrSize =
     take pointerScanMaxPerLevel
       (concat (map (\<lambda>r. ptr_region rd low high ptrSize (BaseAddress r) (unat (Size r)) 0) regions))"

definition norm_offset :: "int \<Rightarrow> int" where
  "norm_offset maxOffset =
     (if maxOffset \<le> 0 \<or> pointerScanMaxOffset < maxOffset then pointerScanMaxOffset else maxOffset)"

definition norm_ptr :: "nat \<Rightarrow> nat" where
  "norm_ptr ptrSize = (if ptrSize \<noteq> 4 \<and> ptrSize \<noteq> 8 then 8 else ptrSize)"

definition low_bound :: "uint64 \<Rightarrow> uint64 \<Rightarrow> uint64" where
  "low_bound target maxOff = (if maxOff \<le> target then target - maxOff else 0)"

definition pointerScan ::
  "reader \<Rightarrow> MemoryRegion list option \<Rightarrow> uint64 \<Rightarrow> int \<Rightarrow> int \<Rightarrow> nat \<Rightarrow> gostring \<Rightarrow> scan_error + pointerChain list" where
  "pointerScan rd regions targetAddr maxDepth maxOffset ptrSize protection =
     (case regions of
        None \<Rightarrow> Inl RegionsFailed
      | Some rs \<Rightarrow>
          (let maxOff = word_of_int (norm_offset maxOffset);
               found = scanForPointers rd (scan_candidates rs protection) (low_bound targetAddr maxOff)
                         (targetAddr + maxOff) (norm_ptr ptrSize)
           in Inr (take pointerScanMaxResults
                (map (\<lambda>f. \<lparr>pcBase = sourceAddr f, pcOffsets = [targetAddr - pointedValue f]\<rparr>) found))))"

subsection \<open>Addresses and offsets as text\<close>

definition parseAddress :: "gostring \<Rightarrow> num_error + uint64" where
  "parseAddress s =
     (let s1 = TrimPrefix (TrimPrefix (TrimSpace s) ''0x'') ''0X'' in
      case ParseUint s1 16 64 of Inl e \<Rightarrow> Inl e | Inr n \<Rightarrow> Inr (of_nat n))"

text \<open>Go's conversion of a \<open>float64\<close>, given by its bits, to \<open>int64\<close> on amd64: the fraction is dropped, and
  what does not fit becomes the least integer.\<close>

definition float64_to_int64 :: "uint64 \<Rightarrow> int64" where
  "float64_to_int64 bits =
     (let v = unat bits; e = v div 2 ^ 52 mod 2 ^ 11; m = 2 ^ 52 + v mod 2 ^ 52;
          mag = (if e < 1023 then 0 else if e < 1075 then m div 2 ^ (1075 - e) else m * 2 ^ (e - 1075))
      in if 1086 \<le> e then word_of_int (- (2 ^ 63))
         else if 2 ^ 63 \<le> v then - of_nat mag else of_nat mag)"

datatype offset_value =
    OffFloat uint64
  | OffInt int64
  | OffNumber gostring
  | OffString gostring
  | OffOther

datatype offset_error = EmptyOffset | InvalidOffset gostring | NotANumber | BadNumber num_error

fun parseOffset :: "offset_value \<Rightarrow> offset_error + int64" where
  "parseOffset (OffFloat t) = Inr (float64_to_int64 t)"
| "parseOffset (OffInt t) = Inr t"
| "parseOffset (OffNumber t) =
     (case ParseInt t 10 64 of Inl e \<Rightarrow> Inl (BadNumber e) | Inr n \<Rightarrow> Inr (word_of_int n))"
| "parseOffset (OffString t) =
     (let s = TrimSpace t in
      if s = [] then Inl EmptyOffset
      else case ParseInt s 0 64 of Inl e \<Rightarrow> Inl (InvalidOffset s) | Inr n \<Rightarrow> Inr (word_of_int n))"
| "parseOffset OffOther = Inl NotANumber"

text \<open>Offsets given as one string; \<open>decode\<close> is the JSON decoder for a list.\<close>

definition parseFlatOffsets ::
  "(gostring \<Rightarrow> offset_value list option) \<Rightarrow> gostring \<Rightarrow> offset_value list option" where
  "parseFlatOffsets decode s0 =
     (let s = TrimSpace s0 in
      if s = [] then Some []
      else if HasPrefix s ''['' then decode s
      else Some (map OffString (FieldsFunc (\<lambda>r. r = 44 \<or> r = 32 \<or> r = 9) s)))"

text \<open>\<open>%X\<close> of an \<open>int64\<close>.\<close>

definition show_hex_int :: "int64 \<Rightarrow> gostring" where
  "show_hex_int w = (if sint w < 0 then CHR ''-'' # show_hex (nat (- sint w)) else show_hex (nat (sint w)))"

definition formatOffset :: "int64 \<Rightarrow> gostring" where
  "formatOffset off = (if sint off < 0 then ''-0x'' @ show_hex_int (- off) else ''+0x'' @ show_hex_int off)"

definition formatOffsets :: "int64 list \<Rightarrow> gostring" where
  "formatOffsets offs = (if offs = [] then ''(no offsets)'' else Join (map formatOffset offs) '' '')"

definition traceStr :: "uint64 list \<Rightarrow> gostring" where
  "traceStr addrs = Join (map (\<lambda>a. ''0x'' @ show_hex (unat a)) addrs) '' -> ''"

subsection \<open>Resolving a chain\<close>

definition maxChains :: nat where
  "maxChains = 64"

definition maxChainOffsets :: nat where
  "maxChainOffsets = 16"

definition defaultChainDumpLen :: int where
  "defaultChainDumpLen = 32"

record chainSpec =
  csBase :: gostring
  csOffsets :: "offset_value list"
  csType :: gostring
  csLabel :: gostring
  csLength :: int
  csEndian :: gostring

datatype broken =
    InvalidBase num_error
  | InvalidOffsetAt nat offset_error
  | DerefBase uint64
  | DerefStep uint64 nat
  | ReadFinal uint64
  | UnknownType gostring

record chainResult =
  crLabel :: gostring
  crBase :: uint64
  crOffsets :: "int64 list"
  crSteps :: "uint64 list"
  crFinalAddr :: uint64
  crBroken :: "(nat \<times> broken) option"
  crValueType :: gostring
  crValueStr :: gostring
  crRawHex :: gostring

definition derefPtr :: "reader \<Rightarrow> uint64 \<Rightarrow> nat \<Rightarrow> ByteOrder \<Rightarrow> uint64 option" where
  "derefPtr rd addr ptrSize bo =
     (let buf = fst (rd addr ptrSize) in
      if length buf < ptrSize then None else Some (get_ptr bo ptrSize buf))"

fun parse_offsets :: "nat \<Rightarrow> offset_value list \<Rightarrow> (nat \<times> offset_error) + int64 list" where
  "parse_offsets i [] = Inr []"
| "parse_offsets i (v # vs) =
     (case parseOffset v of
        Inl e \<Rightarrow> Inl (i, e)
      | Inr off \<Rightarrow> (case parse_offsets (i + 1) vs of Inl e \<Rightarrow> Inl e | Inr os \<Rightarrow> Inr (off # os)))"

text \<open>The loop over the offsets from the pointer \<open>p\<close> on: the pointers read, and either the final address
  or where the chain broke.\<close>

fun deref_loop ::
  "reader \<Rightarrow> nat \<Rightarrow> ByteOrder \<Rightarrow> uint64 \<Rightarrow> nat \<Rightarrow> int64 list \<Rightarrow> uint64 list \<times> ((nat \<times> broken) + uint64)" where
  "deref_loop rd ptrSize bo p i [] = ([], Inr p)"
| "deref_loop rd ptrSize bo p i [off] = ([], Inr (p + off))"
| "deref_loop rd ptrSize bo p i (off # off2 # offs) =
     (case derefPtr rd (p + off) ptrSize bo of
        None \<Rightarrow> ([], Inl (i + 2, DerefStep (p + off) (i + 2)))
      | Some np \<Rightarrow> (case deref_loop rd ptrSize bo np (i + 1) (off2 # offs) of (st, r) \<Rightarrow> (np # st, r)))"

definition walk_chain ::
  "reader \<Rightarrow> nat \<Rightarrow> ByteOrder \<Rightarrow> uint64 \<Rightarrow> int64 list \<Rightarrow> uint64 list \<times> ((nat \<times> broken) + uint64)" where
  "walk_chain rd ptrSize bo base offs =
     (if offs = [] then ([base], Inr base)
      else case derefPtr rd base ptrSize bo of
             None \<Rightarrow> ([base], Inl (1, DerefBase base))
           | Some p \<Rightarrow> (case deref_loop rd ptrSize bo p 0 offs of (st, r) \<Rightarrow> (base # p # st, r)))"

definition clamp_len :: "int \<Rightarrow> int \<Rightarrow> nat" where
  "clamp_len def n = nat (min 4096 (if n \<le> 0 then def else n))"

text \<open>The read at the final address.\<close>

definition read_final :: "float_conv \<Rightarrow> reader \<Rightarrow> chainSpec \<Rightarrow> ByteOrder \<Rightarrow> chainResult \<Rightarrow> chainResult" where
  "read_final fc rd spec bo res =
     (let vtStr = ToLower (TrimSpace (csType spec)); broken_at = length (crSteps res) + 1 in
      if vtStr = [] then
        (case rd (crFinalAddr res) (clamp_len defaultChainDumpLen (csLength spec)) of (buf, err) \<Rightarrow>
           if err \<and> buf = [] then res\<lparr>crBroken := Some (broken_at, ReadFinal (crFinalAddr res))\<rparr>
           else res\<lparr>crValueType := ''bytes'', crRawHex := fmtHexBytes buf\<rparr>)
      else case parseValueType vtStr of
             None \<Rightarrow> res\<lparr>crBroken := Some (broken_at, UnknownType vtStr)\<rparr>
           | Some vt \<Rightarrow>
               (case rd (crFinalAddr res) (if valueSize vt = 0 then clamp_len 64 (csLength spec) else valueSize vt) of
                  (buf, err) \<Rightarrow>
                    if err \<and> buf = [] then res\<lparr>crBroken := Some (broken_at, ReadFinal (crFinalAddr res))\<rparr>
                    else res\<lparr>crValueType := valueTypeName vt, crValueStr := formatValue fc vt buf bo,
                             crRawHex := fmtHexBytes buf\<rparr>))"

definition resolveChain ::
  "float_conv \<Rightarrow> reader \<Rightarrow> chainSpec \<Rightarrow> ByteOrder \<Rightarrow> nat \<Rightarrow> chainResult" where
  "resolveChain fc rd spec defBO ptrSize =
     (let res = \<lparr>crLabel = csLabel spec, crBase = 0, crOffsets = [], crSteps = [], crFinalAddr = 0, crBroken = None,
                 crValueType = [], crValueStr = [], crRawHex = []\<rparr> in
      case parseAddress (csBase spec) of
        Inl e \<Rightarrow> res\<lparr>crBroken := Some (0, InvalidBase e)\<rparr>
      | Inr base \<Rightarrow>
          (let res1 = res\<lparr>crBase := base\<rparr>;
               bo = (if TrimSpace (csEndian spec) \<noteq> [] then getByteOrder (csEndian spec) else defBO) in
           case parse_offsets 0 (csOffsets spec) of
             Inl (i, e) \<Rightarrow> res1\<lparr>crBroken := Some (0, InvalidOffsetAt i e)\<rparr>
           | Inr offs \<Rightarrow>
               (case walk_chain rd ptrSize bo base offs of
                  (steps, Inl b) \<Rightarrow> res1\<lparr>crOffsets := offs, crSteps := steps, crBroken := Some b\<rparr>
                | (steps, Inr fin) \<Rightarrow>
                    read_final fc rd spec bo (res1\<lparr>crOffsets := offs, crSteps := steps, crFinalAddr := fin\<rparr>))))"

datatype chain_error = NoChainArgs | BadChainsJSON | BadOffsetsJSON | NoChains | TooManyChains | TooManyOffsets nat | OpenFailed
  | PidRequired

text \<open>\<open>opReadChain\<close>: the pointer size given, the decoded JSON and the reader that opening the process gives
  are inputs; the result is the list that is printed.\<close>

definition opReadChain ::
  "float_conv \<Rightarrow> (gostring \<Rightarrow> chainSpec list option) \<Rightarrow> (gostring \<Rightarrow> offset_value list option) \<Rightarrow> reader option
   \<Rightarrow> int \<Rightarrow> int option \<Rightarrow> gostring \<Rightarrow> gostring \<Rightarrow> gostring \<Rightarrow> gostring \<Rightarrow> gostring \<Rightarrow> int \<Rightarrow> chain_error + chainResult list" where
  "opReadChain fc decode_specs decode_offs opened pid ptr endian chains_arg address offsets vtype len =
     (if pid \<le> 0 then Inl PidRequired
      else let ptrSize = (case ptr of Some v \<Rightarrow> if v = 4 \<or> v = 8 then nat v else 8 | None \<Rightarrow> 8);
               bo = getByteOrder endian;
               specs = (if TrimSpace chains_arg \<noteq> [] then
                          (case decode_specs chains_arg of None \<Rightarrow> Inl BadChainsJSON | Some sp \<Rightarrow> Inr sp)
                        else if TrimSpace address \<noteq> [] then
                          (case parseFlatOffsets decode_offs offsets of
                             None \<Rightarrow> Inl BadOffsetsJSON
                           | Some offs \<Rightarrow> Inr [\<lparr>csBase = address, csOffsets = offs, csType = vtype, csLabel = [],
                                               csLength = len, csEndian = []\<rparr>])
                        else Inl NoChainArgs)
           in case specs of
                Inl e \<Rightarrow> Inl e
              | Inr sp \<Rightarrow>
                  if sp = [] then Inl NoChains
                  else if maxChains < length sp then Inl TooManyChains
                  else case find (\<lambda>(i, s). maxChainOffsets < length (csOffsets s)) (enumerate 0 sp) of
                         Some (i, s) \<Rightarrow> Inl (TooManyOffsets i)
                       | None \<Rightarrow>
                           (case opened of
                              None \<Rightarrow> Inl OpenFailed
                            | Some rd \<Rightarrow> Inr (map (\<lambda>s. resolveChain fc rd s bo ptrSize) sp)))"

subsection \<open>The plain reading of a chain\<close>

fun follow :: "reader \<Rightarrow> nat \<Rightarrow> ByteOrder \<Rightarrow> uint64 \<Rightarrow> int64 list \<Rightarrow> uint64 option" where
  "follow rd ptrSize bo a [] = Some a"
| "follow rd ptrSize bo a (off # offs) =
     (case derefPtr rd a ptrSize bo of None \<Rightarrow> None | Some p \<Rightarrow> follow rd ptrSize bo (p + off) offs)"

lemma deref_loop_ok:
  assumes "deref_loop rd ps bo p i offs = (st, Inr a)" "offs \<noteq> []"
  shows "follow rd ps bo (p + hd offs) (tl offs) = Some a \<and> length st = length offs - 1"
  using assms
  by (induction rd ps bo p i offs arbitrary: st rule: deref_loop.induct) (auto split: option.splits prod.splits)

lemma deref_loop_broken:
  assumes "deref_loop rd ps bo p i offs = (st, Inl (k, m))"
  shows "k = i + length st + 2 \<and> length st + 1 < length offs \<and>
    (\<exists>a. follow rd ps bo (p + hd offs) (take (length st) (tl offs)) = Some a
         \<and> derefPtr rd a ps bo = None \<and> m = DerefStep a k \<and> follow rd ps bo (p + hd offs) (tl offs) = None)"
  using assms
proof (induction rd ps bo p i offs arbitrary: st rule: deref_loop.induct)
  case (3 rd ps bo p i off off2 offs)
  show ?case
  proof (cases "derefPtr rd (p + off) ps bo")
    case None
    with 3 show ?thesis by auto
  next
    case (Some np)
    then obtain st' where st': "deref_loop rd ps bo np (i + 1) (off2 # offs) = (st', Inl (k, m))" "st = np # st'"
      using 3(2) by (auto split: prod.splits)
    from 3(1) [OF Some st'(1)] Some st'(2) show ?thesis by auto
  qed
qed auto

lemma walk_chain_follow:
  "case walk_chain rd ps bo base offs of
     (steps, Inr a) \<Rightarrow> follow rd ps bo base offs = Some a \<and> length steps = length offs + 1
   | (steps, Inl (k, m)) \<Rightarrow> follow rd ps bo base offs = None \<and> k = length steps \<and> k \<le> length offs
       \<and> (\<exists>a. follow rd ps bo base (take (k - 1) offs) = Some a \<and> derefPtr rd a ps bo = None
            \<and> m = (if k = 1 then DerefBase a else DerefStep a k))"
proof (cases offs)
  case (Cons off offs')
  show ?thesis
  proof (cases "derefPtr rd base ps bo")
    case None
    then show ?thesis by (simp add: walk_chain_def Cons)
  next
    case (Some p)
    obtain st r where d: "deref_loop rd ps bo p 0 offs = (st, r)" by fastforce
    show ?thesis
    proof (cases r)
      case (Inl km)
      obtain k m where km: "km = (k, m)" by fastforce
      from deref_loop_broken [of rd ps bo p 0 offs st k m] d Inl km Some show ?thesis
        by (auto simp: walk_chain_def Cons)
    next
      case (Inr a)
      from deref_loop_ok [of rd ps bo p 0 offs st a] d Inr Some show ?thesis
        by (auto simp: walk_chain_def Cons)
    qed
  qed
qed (simp add: walk_chain_def)

lemma resolve_follow_Some:
  assumes "parseAddress (csBase spec) = Inr base" "parse_offsets 0 (csOffsets spec) = Inr offs"
    and "TrimSpace (csEndian spec) = []" "follow rd ps bo base offs = Some a"
  shows "crFinalAddr (resolveChain fc rd spec bo ps) = a
    \<and> crSteps (resolveChain fc rd spec bo ps) = fst (walk_chain rd ps bo base offs)
    \<and> (case crBroken (resolveChain fc rd spec bo ps) of None \<Rightarrow> True | Some (k, m) \<Rightarrow> k = length offs + 2)"
proof -
  obtain steps where "walk_chain rd ps bo base offs = (steps, Inr a)" "length steps = length offs + 1"
    using walk_chain_follow [of rd ps bo base offs] assms(4)
    by (cases "walk_chain rd ps bo base offs") (auto split: sum.splits)
  then show ?thesis
    by (auto simp: resolveChain_def assms Let_def read_final_def split: option.splits prod.splits)
qed

text \<open>C37: resolving a chain is following it: the recorded final address is the one reached by reading a
  pointer and adding an offset for each offset in turn; a chain that breaks reports as its step the
  number of the first pointer that cannot be read, and the address where it was looked for.\<close>

theorem resolveChain_follow:
  assumes "parseAddress (csBase spec) = Inr base" "parse_offsets 0 (csOffsets spec) = Inr offs"
    and "TrimSpace (csEndian spec) = []"
  shows "case follow rd ps bo base offs of
      Some a \<Rightarrow> crFinalAddr (resolveChain fc rd spec bo ps) = a
        \<and> crSteps (resolveChain fc rd spec bo ps) = fst (walk_chain rd ps bo base offs)
        \<and> (case crBroken (resolveChain fc rd spec bo ps) of None \<Rightarrow> True | Some (k, m) \<Rightarrow> k = length offs + 2)
    | None \<Rightarrow> (\<exists>k a. 1 \<le> k \<and> k \<le> length offs \<and> follow rd ps bo base (take (k - 1) offs) = Some a
        \<and> derefPtr rd a ps bo = None
        \<and> crBroken (resolveChain fc rd spec bo ps) = Some (k, if k = 1 then DerefBase a else DerefStep a k))"
proof (cases "follow rd ps bo base offs")
  case None
  obtain steps k m where w: "walk_chain rd ps bo base offs = (steps, Inl (k, m))"
    using walk_chain_follow [of rd ps bo base offs] None
    by (cases "walk_chain rd ps bo base offs") (auto split: sum.splits)
  have "steps \<noteq> []" using w by (auto simp: walk_chain_def split: if_splits option.splits prod.splits)
  then have "1 \<le> length steps" by (cases steps) auto
  with walk_chain_follow [of rd ps bo base offs] w None show ?thesis
    by (auto simp: resolveChain_def assms Let_def)
next
  case (Some a)
  with resolve_follow_Some [OF assms Some, of fc] show ?thesis by simp
qed

subsection \<open>The chunked scan for pointers\<close>

lemma get_uint_take: "n \<le> m \<Longrightarrow> get_uint bo n (take m bs) = get_uint bo n bs"
  by (simp add: get_uint_def min_absorb1 split: ByteOrder.split)

lemma get_ptr_take: "ps \<in> {4, 8} \<Longrightarrow> get_ptr bo ps (take ps bs) = get_ptr bo ps bs"
  by (auto simp: get_ptr_def Uint64_def Uint32_def get_uint_take)

lemma get_ptr_append:
  assumes "ps \<in> {4, 8}" "k * ps + ps \<le> length xs"
  shows "get_ptr bo ps (drop (k * ps) (xs @ ys)) = get_ptr bo ps (drop (k * ps) xs)"
  using get_ptr_take [OF assms(1), of bo "drop (k * ps) (xs @ ys)"]
    get_ptr_take [OF assms(1), of bo "drop (k * ps) xs"] assms(2) by simp

lemma chunk_hits_append:
  assumes ps: "ps \<in> {4, 8}" and len: "length xs = m * ps"
  shows "chunk_hits low high ps a (xs @ ys) = chunk_hits low high ps a xs @ chunk_hits low high ps (a + of_nat (m * ps)) ys"
proof -
  let ?v = "\<lambda>bs k. get_ptr LittleEndian ps (drop (k * ps) bs)"
  let ?P = "\<lambda>bs k. low \<le> ?v bs k \<and> ?v bs k \<le> high \<and> ?v bs k \<noteq> 0"
  let ?h = "\<lambda>a bs k. \<lparr>sourceAddr = a + of_nat (k * ps), pointedValue = ?v bs k\<rparr>"
  let ?H = "\<lambda>a bs is. map (?h a bs) (filter (?P bs) is)"
  have pos: "0 < ps" using ps by auto
  have n: "length (xs @ ys) div ps = m + length ys div ps" using len pos by (simp add: mult.commute)
  have "k * ps + ps \<le> length xs" if "k < m" for k
    using that mult_le_mono1 [of "Suc k" m ps] len by simp
  then have v1: "?v (xs @ ys) k = ?v xs k" if "k < m" for k using get_ptr_append [OF ps] that by blast
  have "filter (?P (xs @ ys)) [0..<m] = filter (?P xs) [0..<m]" by (rule filter_cong) (use v1 in auto)
  then have 1: "?H a (xs @ ys) [0..<m] = ?H a xs [0..<m]" using v1 by simp
  have d: "drop ((k + m) * ps) (xs @ ys) = drop (k * ps) ys" for k
    using len by (simp add: add_mult_distrib)
  have "?H a (xs @ ys) [m..<m + j] = ?H (a + of_nat (m * ps)) ys [0..<j]" for j
  proof -
    have "[m..<m + j] = map (\<lambda>k. k + m) [0..<j]" by (simp add: map_add_upt add.commute)
    moreover have "a + of_nat ((k + m) * ps) = a + of_nat (m * ps) + of_nat (k * ps)" for k
      by (simp add: add_mult_distrib)
    ultimately show ?thesis by (simp only: filter_map map_map comp_def d)
  qed
  then have 2: "?H a (xs @ ys) [m..<m + length ys div ps] = ?H (a + of_nat (m * ps)) ys [0..<length ys div ps]" .
  have "[0..<m + length ys div ps] = [0..<m] @ [m..<m + length ys div ps]" using upt_add_eq_append [of 0 m] by simp
  then have "?H a (xs @ ys) [0..<m + length ys div ps] = ?H a xs [0..<m] @ ?H (a + of_nat (m * ps)) ys [0..<length ys div ps]"
    using 1 2 by (simp only: filter_append map_append)
  moreover have "length xs div ps = m" using len pos by simp
  ultimately show ?thesis using n by (simp only: chunk_hits_def Let_def)
qed

lemma ptr_region_unchunked:
  assumes "reads rd base R" "ps \<in> {4, 8}" "ps dvd offset"
  shows "ptr_region rd low high ps base (length R) offset = chunk_hits low high ps (base + of_nat offset) (drop offset R)"
  using assms(3)
proof (induction "length R - offset" arbitrary: offset rule: less_induct)
  case less
  show ?case
  proof (cases "offset < length R")
    case False
    then show ?thesis by (simp add: ptr_region.simps chunk_hits_def)
  next
    case True
    let ?c = scanChunkSize
    let ?buf = "take ?c (drop offset R)"
    have c: "?c = ps * (?c div ps)" "0 < ?c" using assms(2) by (auto simp: scanChunkSize_def)
    have r: "rd (base + of_nat offset) (min (length R - offset) ?c) = (?buf, False)"
      using assms(1) True by (auto simp: reads_def min_def)
    have short: "chunk_hits low high ps a bs = []" if "length bs < ps" for a bs
      using that by (simp add: chunk_hits_def)
    have eq: "ptr_region rd low high ps base (length R) offset
        = chunk_hits low high ps (base + of_nat offset) ?buf @ ptr_region rd low high ps base (length R) (offset + ?c)"
      using True short by (subst ptr_region.simps) (simp add: r Let_def)
    have "ps dvd offset + ?c" using less(2) c(1) by (metis dvd_add dvd_triv_left)
    then have IH: "ptr_region rd low high ps base (length R) (offset + ?c)
        = chunk_hits low high ps (base + of_nat (offset + ?c)) (drop (offset + ?c) R)"
      using True c(2) by (intro less(1)) auto
    show ?thesis
    proof (cases "offset + ?c \<le> length R")
      case le: True
      have "length ?buf = ?c div ps * ps" using le c(1) by (simp add: mult.commute)
      from chunk_hits_append [OF assms(2) this, of low high "base + of_nat offset" "drop ?c (drop offset R)"]
      have "chunk_hits low high ps (base + of_nat offset) (drop offset R)
          = chunk_hits low high ps (base + of_nat offset) ?buf
            @ chunk_hits low high ps (base + of_nat offset + of_nat (?c div ps * ps)) (drop ?c (drop offset R))"
        by (simp only: append_take_drop_id)
      then show ?thesis using eq IH c(1) by (simp add: mult.commute add.commute add.left_commute)
    next
      case False
      then have "?buf = drop offset R" "drop (offset + ?c) R = []" by auto
      then show ?thesis using eq IH short [of "[]"] assms(2) by auto
    qed
  qed
qed

text \<open>The chains of length one a scan is after: aligned, non-zero pointer values near the target.\<close>

definition pointers_to ::
  "(MemoryRegion \<Rightarrow> bytes) \<Rightarrow> MemoryRegion list \<Rightarrow> uint64 \<Rightarrow> int \<Rightarrow> nat \<Rightarrow> pointerChain set" where
  "pointers_to C rs target maxOff ps =
     {\<lparr>pcBase = BaseAddress r + of_nat (k * ps), pcOffsets = [target - v]\<rparr> | r k v.
        r \<in> set rs \<and> k * ps + ps \<le> length (C r) \<and> v = get_ptr LittleEndian ps (drop (k * ps) (C r))
        \<and> v \<noteq> 0 \<and> \<bar>int (unat v) - int (unat target)\<bar> \<le> maxOff}"

lemma norm_offset_range: "0 < norm_offset m \<and> norm_offset m \<le> 0x1000"
  by (auto simp: norm_offset_def pointerScanMaxOffset_def)

lemma in_bounds:
  assumes "0 < m" "m \<le> 0x1000" "unat target + 0x1000 < 2 ^ 64"
  shows "low_bound target (word_of_int m) \<le> v \<and> v \<le> target + word_of_int m
    \<longleftrightarrow> \<bar>int (unat v) - int (unat target)\<bar> \<le> m"
proof -
  obtain n where n: "m = int n" "n \<le> 0x1000" using assms(1,2) by (metis nat_le_iff nonneg_int_cases less_imp_le nat_int of_nat_numeral)
  then have u: "unat (of_nat n :: uint64) = n" by (simp add: unat_of_nat)
  have hi: "unat (target + of_nat n) = unat target + n" using assms(3) n u by (simp add: unat_word_ariths)
  have lo: "unat (low_bound target (of_nat n)) = unat target - n"
    using u by (auto simp: low_bound_def word_le_nat_alt unat_sub not_le)
  have "(t - n \<le> x \<and> x \<le> t + n) = (\<bar>int x - int t\<bar> \<le> int n)" for x t :: nat by arith
  with n hi lo show ?thesis by (simp only: of_int_of_nat_eq word_le_nat_alt)
qed

lemma chunk_hits_set:
  assumes "ps \<in> {4, 8}"
  shows "set (chunk_hits low high ps a R) =
    {\<lparr>sourceAddr = a + of_nat (k * ps), pointedValue = v\<rparr> | k v. k * ps + ps \<le> length R
       \<and> v = get_ptr LittleEndian ps (drop (k * ps) R) \<and> v \<noteq> 0 \<and> low \<le> v \<and> v \<le> high}"
proof -
  have "k < length R div ps \<longleftrightarrow> k * ps + ps \<le> length R" for k
    using assms less_eq_div_iff_mult_less_eq [of ps "Suc k" "length R"] by (auto simp: Suc_le_eq add.commute)
  then show ?thesis unfolding chunk_hits_def Let_def by auto
qed

lemma derefPtr_reads:
  assumes "reads rd base R" "ps \<in> {4, 8}" "p + ps \<le> length R"
  shows "derefPtr rd (base + of_nat p) ps bo = Some (get_ptr bo ps (drop p R))"
  using assms get_ptr_take [OF assms(2), of bo "drop p R"] by (simp add: reads_def derefPtr_def Let_def)

lemma scan_hits_chains:
  assumes "readable_regions rd C rs" "ps \<in> {4, 8}" "0 < m" "m \<le> 0x1000" "unat target + 0x1000 < 2 ^ 64"
  shows "set (map (\<lambda>f. \<lparr>pcBase = sourceAddr f, pcOffsets = [target - pointedValue f]\<rparr>)
      (concat (map (\<lambda>r. ptr_region rd (low_bound target (word_of_int m)) (target + word_of_int m) ps (BaseAddress r)
        (unat (Size r)) 0) rs))) = pointers_to C rs target m ps"
proof -
  have "ptr_region rd low high ps (BaseAddress r) (unat (Size r)) 0 = chunk_hits low high ps (BaseAddress r) (C r)"
    if "r \<in> set rs" for r low high
    using ptr_region_unchunked [of rd "BaseAddress r" "C r" ps 0 low high] assms(1,2) that
    by (auto simp: readable_regions_def)
  then show ?thesis
    using in_bounds [OF assms(3-5)] by (fastforce simp: chunk_hits_set [OF assms(2)] pointers_to_def image_iff)
qed

lemma pointerScan_sound:
  assumes "pointerScan rd (Some rs) target maxDepth maxOffset ptrSize protection = Inr cs"
    and "readable_regions rd C (scan_candidates rs protection)" "unat target + 0x1000 < 2 ^ 64"
  shows "set cs \<subseteq> pointers_to C (scan_candidates rs protection) target (norm_offset maxOffset) (norm_ptr ptrSize)"
    and "length cs < 10000 \<Longrightarrow>
      set cs = pointers_to C (scan_candidates rs protection) target (norm_offset maxOffset) (norm_ptr ptrSize)"
    and "list_all (\<lambda>c. follow rd (norm_ptr ptrSize) LittleEndian (pcBase c) (pcOffsets c) = Some target) cs"
proof -
  let ?rs = "scan_candidates rs protection" and ?ps = "norm_ptr ptrSize" and ?m = "norm_offset maxOffset"
  let ?P = "pointers_to C ?rs target ?m ?ps"
  define L where "L = concat (map (\<lambda>r. ptr_region rd (low_bound target (word_of_int ?m)) (target + word_of_int ?m) ?ps
      (BaseAddress r) (unat (Size r)) 0) ?rs)"
  let ?f = "\<lambda>f. \<lparr>pcBase = sourceAddr f, pcOffsets = [target - pointedValue f]\<rparr>"
  have ps: "?ps \<in> {4, 8}" by (auto simp: norm_ptr_def)
  have all: "set (map ?f L) = ?P"
    unfolding L_def using scan_hits_chains [OF assms(2) ps _ _ assms(3)] norm_offset_range by blast
  have ch: "cs = take 10000 (take 500000 (map ?f L))"
    using assms(1) by (simp add: pointerScan_def scanForPointers_def Let_def L_def take_map
        pointerScanMaxResults_def pointerScanMaxPerLevel_def)
  then have "cs = take 10000 (map ?f L)" by simp
  then have sub: "set cs \<subseteq> ?P" and full: "length cs < 10000 \<Longrightarrow> set cs = ?P"
    using all set_take_subset [of 10000 "map ?f L"] by (auto simp: min_def split: if_splits)
  have "follow rd ?ps LittleEndian (pcBase c) (pcOffsets c) = Some target" if c: "c \<in> set cs" for c
  proof -
    obtain r k where r: "r \<in> set ?rs" "k * ?ps + ?ps \<le> length (C r)" "pcBase c = BaseAddress r + of_nat (k * ?ps)"
      "pcOffsets c = [target - get_ptr LittleEndian ?ps (drop (k * ?ps) (C r))]"
      using subsetD [OF sub c] unfolding pointers_to_def by auto
    have "reads rd (BaseAddress r) (C r)" using assms(2) r(1) by (simp add: readable_regions_def)
    from derefPtr_reads [OF this ps r(2), of LittleEndian] show ?thesis by (simp add: r)
  qed
  then show "list_all (\<lambda>c. follow rd ?ps LittleEndian (pcBase c) (pcOffsets c) = Some target) cs"
    by (simp add: list_all_iff)
  show "set cs \<subseteq> ?P" by (rule sub)
  show "set cs = ?P" if "length cs < 10000" using full that by simp
qed

text \<open>The depth a caller asks for is not used.\<close>

lemma pointerScan_depth: "pointerScan rd rso target d maxOffset ptrSize protection
    = pointerScan rd rso target d' maxOffset ptrSize protection"
  by (simp add: pointerScan_def)

text \<open>C38: whatever depth is asked for, a scan reports single-level chains only: each has one offset,
  starts at an aligned pointer of the scanned regions whose value is within the offset limit of the
  target, and leads to the target when followed; all such pointers are reported unless 10000 are.
  Every scanned region is readable and the target is not in the last 4 KB of the address space.
  (The tool description promises multi-level chains up to the requested depth.)\<close>

theorem pointerScan_single_level:
  assumes "pointerScan rd (Some rs) target maxDepth maxOffset ptrSize protection = Inr cs"
    and "readable_regions rd C (scan_candidates rs protection)" "unat target + 0x1000 < 2 ^ 64"
  shows "(let P = pointers_to C (scan_candidates rs protection) target (norm_offset maxOffset) (norm_ptr ptrSize)
      in set cs \<subseteq> P \<and> (length cs < 10000 \<longrightarrow> set cs = P))
    \<and> list_all (\<lambda>c. length (pcOffsets c) = 1
         \<and> follow rd (norm_ptr ptrSize) LittleEndian (pcBase c) (pcOffsets c) = Some target) cs
    \<and> pointerScan rd (Some rs) target depth maxOffset ptrSize protection = Inr cs"
proof -
  note sound = pointerScan_sound [OF assms]
  have "length (pcOffsets c) = 1" if "c \<in> set cs" for c
    using sound(1) that unfolding pointers_to_def by auto
  then have "list_all (\<lambda>c. length (pcOffsets c) = 1
         \<and> follow rd (norm_ptr ptrSize) LittleEndian (pcBase c) (pcOffsets c) = Some target) cs"
    using sound(3) unfolding list_all_iff by blast
  moreover have "pointerScan rd (Some rs) target depth maxOffset ptrSize protection = Inr cs"
    using assms(1) pointerScan_depth [where d = depth and d' = maxDepth] by simp
  ultimately show ?thesis
    unfolding Let_def using sound(1,2) by blast
qed

subsection \<open>Addresses and offsets are read back\<close>

lemma hex_digit_range: "d < 16 \<Longrightarrow> 48 \<le> (of_char (hex_digit d) :: nat) \<and> (of_char (hex_digit d) :: nat) < 71"
  by (auto simp: hex_digit_def)

lemma show_hex_plain: "c \<in> set (show_hex n) \<Longrightarrow> 48 \<le> (of_char c :: nat) \<and> (of_char c :: nat) < 71"
  using show_hex_digits hex_digit_range by blast

lemma not_space_printable: "48 \<le> c \<Longrightarrow> c < 128 \<Longrightarrow> \<not> is_space c"
  by (auto simp: is_space_def)

lemma parseAddress_hex: "parseAddress (''0x'' @ show_hex (unat a)) = Inr a"
proof -
  let ?h = "show_hex (unat a)"
  have l: "last ?h \<in> set ?h" by simp
  have "TrimSpace (''0x'' @ ?h) = ''0x'' @ ?h"
    using show_hex_plain [OF l] by (intro TrimSpace_id) (simp_all add: not_space_printable)
  moreover have "\<not> prefix ''0X'' ?h"
  proof
    assume "prefix ''0X'' ?h"
    then have "CHR ''X'' \<in> set ?h" by (auto simp: prefix_def)
    from show_hex_plain [OF this] show False by simp
  qed
  ultimately show ?thesis
    using ParseUint_show_hex [of "unat a" 64] unat_less [of a] by (simp add: parseAddress_def TrimPrefix_def)
qed

lemma formatOffset_cases:
  assumes "w \<noteq> word_of_int (- (2 ^ 63))"
  shows "formatOffset w = (if sint w < 0 then ''-0x'' @ show_hex (nat (- sint w)) else ''+0x'' @ show_hex (nat (sint w)))"
    and "\<bar>sint w\<bar> < 2 ^ 63"
proof -
  have r: "- (2 ^ 63) \<le> sint w" "sint w < 2 ^ 63"
    using sint_ge [of w] sint_lt [of w] by simp_all
  have ne: "sint w \<noteq> - (2 ^ 63)" 
  proof
    assume "sint w = - (2 ^ 63)"
    then have "of_int (sint w) = (of_int (- (2 ^ 63)) :: int64)" by (rule arg_cong)
    with assms show False by (simp only: of_int_sint scast_id)
  qed
  with r show "\<bar>sint w\<bar> < 2 ^ 63" by simp
  have "sint (- w) = - sint w" using r ne by (simp add: sint_word_ariths signed_take_bit_int_eq_self)
  then show "formatOffset w = (if sint w < 0 then ''-0x'' @ show_hex (nat (- sint w)) else ''+0x'' @ show_hex (nat (sint w)))"
    by (simp add: formatOffset_def show_hex_int_def)
qed

lemma formatOffset_chars: "w \<noteq> word_of_int (- (2 ^ 63)) \<Longrightarrow> c \<in> set (formatOffset w) \<Longrightarrow>
    c = CHR ''+'' \<or> c = CHR ''-'' \<or> c = CHR ''x'' \<or> 48 \<le> (of_char c :: nat) \<and> (of_char c :: nat) < 71"
  using show_hex_plain by (auto simp: formatOffset_cases(1) split: if_splits)

lemma parseOffset_format:
  assumes "w \<noteq> word_of_int (- (2 ^ 63))"
  shows "parseOffset (OffString (formatOffset w)) = Inr w"
proof -
  note f = formatOffset_cases [OF assms]
  define sg where "sg = (if sint w < 0 then CHR ''-'' else CHR ''+'')"
  define n where "n = nat \<bar>sint w\<bar>"
  have fmt: "formatOffset w = sg # ''0x'' @ show_hex n" using f(1) by (simp add: sg_def n_def)
  have n: "n < 2 ^ 63" using f(2) by (simp add: n_def nat_less_iff)
  have l: "last (show_hex n) \<in> set (show_hex n)" by simp
  have "TrimSpace (formatOffset w) = formatOffset w"
    unfolding fmt using show_hex_plain [OF l]
    by (intro TrimSpace_id) (simp_all add: sg_def not_space_printable is_space_def)
  moreover have "ParseInt (formatOffset w) 0 64 = Inr (sint w)"
    using ParseUint_hex_literal [of n 64] n unfolding fmt
    by (auto simp: ParseInt_def Let_def sg_def n_def)
  ultimately show ?thesis by (simp add: fmt [symmetric] fmt)
qed

lemma formatOffset_not_Nil [simp]: "formatOffset w \<noteq> []"
  by (simp add: formatOffset_def)

lemma parse_offsets_format:
  "list_all (\<lambda>w. w \<noteq> word_of_int (- (2 ^ 63))) offs \<Longrightarrow>
     parse_offsets i (map (\<lambda>w. OffString (formatOffset w)) offs) = Inr offs"
  by (induction offs arbitrary: i) (simp_all del: parseOffset.simps add: parseOffset_format)

lemma Join_hd_last:
  "list_all (\<lambda>w. w \<noteq> []) ws \<Longrightarrow> ws \<noteq> [] \<Longrightarrow>
     Join ws sep \<noteq> [] \<and> hd (Join ws sep) = hd (hd ws) \<and> last (Join ws sep) = last (last ws)"
proof (induction ws)
  case (Cons w ws)
  show ?case
  proof (cases "ws = []")
    case False
    with Cons show ?thesis by (simp add: Join_Cons)
  qed (use Cons in simp)
qed simp

lemma formatOffset_ends:
  assumes "w \<noteq> word_of_int (- (2 ^ 63))"
  shows "hd (formatOffset w) \<in> {CHR ''+'', CHR ''-''}"
    and "48 \<le> (of_char (last (formatOffset w)) :: nat) \<and> (of_char (last (formatOffset w)) :: nat) < 71"
proof -
  have "last (show_hex n) \<in> set (show_hex n)" for n by simp
  from show_hex_plain [OF this]
  show "48 \<le> (of_char (last (formatOffset w)) :: nat) \<and> (of_char (last (formatOffset w)) :: nat) < 71"
    by (simp add: formatOffset_cases [OF assms])
qed (simp add: formatOffset_def)

lemma offsets_roundtrip:
  assumes "list_all (\<lambda>w. w \<noteq> word_of_int (- (2 ^ 63))) offs" "offs \<noteq> []"
  shows "parseFlatOffsets dec (formatOffsets offs) = Some (map (\<lambda>w. OffString (formatOffset w)) offs)"
proof -
  let ?P = "\<lambda>r :: nat. r = 44 \<or> r = 32 \<or> r = 9"
  let ?ws = "map formatOffset offs"
  let ?J = "Join ?ws [SP]"
  have ne: "w \<noteq> word_of_int (- (2 ^ 63))" if "w \<in> set offs" for w using assms(1) that by (auto simp: list_all_iff)
  have hl: "?J \<noteq> [] \<and> hd ?J = hd (hd ?ws) \<and> last ?J = last (last ?ws)"
    using assms(2) by (intro Join_hd_last) (auto simp: list_all_iff)
  have h: "hd ?J \<in> {CHR ''+'', CHR ''-''}"
    using hl formatOffset_ends(1) [OF ne, of "hd offs"] assms(2) by (simp add: hd_map)
  have l: "48 \<le> (of_char (last ?J) :: nat) \<and> (of_char (last ?J) :: nat) < 71"
    using hl formatOffset_ends(2) [OF ne, of "last offs"] assms(2) by (simp add: last_map)
  have t: "TrimSpace ?J = ?J"
    using hl h l by (intro TrimSpace_id) (auto simp: not_space_printable is_space_def)
  have "plain_for ?P (formatOffset w)" if "w \<in> set offs" for w
    using formatOffset_chars [OF ne [OF that]] by (fastforce simp: plain_for_def list_all_iff)
  then have "FieldsFunc ?P ?J = ?ws" by (intro FieldsFunc_Join) (auto simp: list_all_iff)
  moreover have "\<not> prefix ''['' ?J" using h by (cases ?J) auto
  ultimately show ?thesis
    using hl t assms(2) by (simp add: parseFlatOffsets_def formatOffsets_def Let_def comp_def)
qed

lemma near_not_min:
  assumes "\<bar>int (unat v) - int (unat target)\<bar> \<le> 0x1000"
  shows "target - v \<noteq> (word_of_int (- (2 ^ 63)) :: int64)"
proof
  assume a: "target - v = (word_of_int (- (2 ^ 63)) :: int64)"
  define d where "d = int (unat target) - int (unat v)"
  have "(word_of_int d :: int64) = word_of_int (- (2 ^ 63))" unfolding d_def using a by simp
  then have "uint (word_of_int d :: int64) = uint (word_of_int (- (2 ^ 63)) :: int64)" by (rule arg_cong)
  then have m: "d mod 2 ^ 64 = (- (2 ^ 63)) mod 2 ^ 64" by (simp only: uint_word_of_int) simp
  have d: "- 0x1000 \<le> d \<and> d \<le> 0x1000" unfolding d_def using assms by arith
  have "d mod 2 ^ 64 = (if 0 \<le> d then d else d + 2 ^ 64)"
  proof (cases "0 \<le> d")
    case True
    with d show ?thesis by (simp add: mod_pos_pos_trivial)
  next
    case False
    have "d mod 2 ^ 64 = (d + 2 ^ 64) mod 2 ^ 64" by simp
    also have "\<dots> = d + 2 ^ 64" using False d by (intro mod_pos_pos_trivial) simp_all
    finally show ?thesis using False by simp
  qed
  moreover have "(- (2 ^ 63)) mod 2 ^ 64 = (2 ^ 63 :: int)" by simp
  ultimately show False using m d by (simp split: if_splits)
qed

lemma pointers_to_offsets:
  assumes "c \<in> pointers_to C rs target m ps" "m \<le> 0x1000"
  shows "pcOffsets c \<noteq> [] \<and> list_all (\<lambda>w. w \<noteq> word_of_int (- (2 ^ 63))) (pcOffsets c)"
proof -
  obtain v where v: "pcOffsets c = [target - v]" "\<bar>int (unat v) - int (unat target)\<bar> \<le> m"
    using assms(1) unfolding pointers_to_def by auto
  from order_trans [OF v(2) assms(2)] have "target - v \<noteq> word_of_int (- (2 ^ 63))" by (rule near_not_min)
  with v(1) show ?thesis by simp
qed

definition chain_spec_of :: "(gostring \<Rightarrow> offset_value list option) \<Rightarrow> pointerChain \<Rightarrow> chainSpec option" where
  "chain_spec_of dec c =
     map_option (\<lambda>offs. \<lparr>csBase = ''0x'' @ show_hex (unat (pcBase c)), csOffsets = offs, csType = [], csLabel = [],
                         csLength = 0, csEndian = []\<rparr>)
       (parseFlatOffsets dec (formatOffsets (pcOffsets c)))"

text \<open>a chain found by a scan can be typed back in: its printed base and offsets are accepted, whatever
  the JSON decoder does, and resolving them arrives at the target of the scan.\<close>

theorem scanned_chain_resolves:
  assumes "pointerScan rd (Some rs) target maxDepth maxOffset ptrSize protection = Inr cs"
    and "readable_regions rd C (scan_candidates rs protection)" "unat target + 0x1000 < 2 ^ 64" "c \<in> set cs"
  shows "map_option (\<lambda>spec. crFinalAddr (resolveChain fc rd spec LittleEndian (norm_ptr ptrSize))) (chain_spec_of dec c)
    = Some target"
proof -
  have P: "c \<in> pointers_to C (scan_candidates rs protection) target (norm_offset maxOffset) (norm_ptr ptrSize)"
    and F: "follow rd (norm_ptr ptrSize) LittleEndian (pcBase c) (pcOffsets c) = Some target"
    using pointerScan_sound [OF assms(1-3)] assms(4) by (auto simp: list_all_iff)
  have offs: "pcOffsets c \<noteq> []" "list_all (\<lambda>w. w \<noteq> word_of_int (- (2 ^ 63))) (pcOffsets c)"
    using pointers_to_offsets [OF P] norm_offset_range by auto
  note flat = offsets_roundtrip [OF offs(2,1), of dec]
  let ?spec = "\<lparr>csBase = ''0x'' @ show_hex (unat (pcBase c)),
      csOffsets = map (\<lambda>w. OffString (formatOffset w)) (pcOffsets c), csType = [], csLabel = [], csLength = 0, csEndian = []\<rparr>"
  have "chain_spec_of dec c = Some ?spec" by (simp add: chain_spec_of_def flat)
  moreover have "TrimSpace [] = []" by code_simp
  then have "crFinalAddr (resolveChain fc rd ?spec LittleEndian (norm_ptr ptrSize)) = target"
    using resolve_follow_Some [of ?spec "pcBase c" "pcOffsets c" rd "norm_ptr ptrSize" LittleEndian target fc]
      F parse_offsets_format [OF offs(2)] parseAddress_hex [of "pcBase c"] by simp
  ultimately show ?thesis by simp
qed

subsection \<open>A process with one pointer\<close>

abbreviation ptr_bytes :: bytes where
  "ptr_bytes \<equiv> [0x08, 0x10, 0, 0, 0, 0, 0, 0, 0, 0, 0, 0, 0, 0, 0, 0]"

lemma ptr_readable: "readable_regions (list_reader 0x1000 ptr_bytes) (\<lambda>r. ptr_bytes) (scan_candidates [one_region 0x1000 16] [])"
  by (simp add: readable_regions_def candidates_one reads_list_reader)

lemma ptr_hits: "chunk_hits low high 8 0x1000 ptr_bytes
    = (if low \<le> 0x1008 \<and> 0x1008 \<le> high then [\<lparr>sourceAddr = 0x1000, pointedValue = 0x1008\<rparr>] else [])"
proof -
  have u: "[0..<length ptr_bytes div 8] = [0, 1]" by (simp add: upt_conv_Cons)
  show ?thesis unfolding chunk_hits_def u by (simp add: get_ptr_def Uint64_def get_uint_def)
qed

lemma ptr_scan:
  "pointerScan (list_reader 0x1000 ptr_bytes) (Some [one_region 0x1000 16]) 0x1010 3 0 8 [] = Inr [\<lparr>pcBase = 0x1000, pcOffsets = [8]\<rparr>]"
proof -
  have len: "length ptr_bytes = 16" by simp
  have "ptr_region (list_reader 0x1000 ptr_bytes) low high 8 0x1000 16 0 = chunk_hits low high 8 0x1000 ptr_bytes" for low high
    using ptr_region_unchunked [of "list_reader 0x1000 ptr_bytes" "0x1000" ptr_bytes 8 0 low high] unfolding len
    by (simp add: reads_list_reader)
  then show ?thesis
    by (simp add: pointerScan_def scanForPointers_def candidates_one norm_ptr_def norm_offset_def pointerScanMaxOffset_def
        low_bound_def ptr_hits pointerScanMaxResults_def pointerScanMaxPerLevel_def Let_def)
qed

theorem pointerScan_single_level_witness:
  "let cs = [\<lparr>pcBase = 0x1000, pcOffsets = [8]\<rparr>] in
   set cs = pointers_to (\<lambda>r. ptr_bytes) [one_region 0x1000 16] 0x1010 0x1000 8
   \<and> follow (list_reader 0x1000 ptr_bytes) 8 LittleEndian 0x1000 [8] = Some 0x1010
   \<and> pointerScan (list_reader 0x1000 ptr_bytes) (Some [one_region 0x1000 16]) 0x1010 5 0 8 [] = Inr cs"
  using pointerScan_single_level [OF ptr_scan ptr_readable, of 5]
  by (simp add: candidates_one norm_ptr_def norm_offset_def pointerScanMaxOffset_def Let_def)

theorem scanned_chain_resolves_witness:
  "map_option (\<lambda>spec. crFinalAddr (resolveChain \<lparr>ParseFloat32 = (\<lambda>s. Inl ErrSyntax), ParseFloat64 = (\<lambda>s. Inl ErrSyntax),
        FormatFloat32 = (\<lambda>w. []), FormatFloat64 = (\<lambda>w. [])\<rparr> (list_reader 0x1000 ptr_bytes) spec LittleEndian 8))
     (chain_spec_of (\<lambda>s. None) \<lparr>pcBase = 0x1000, pcOffsets = [8]\<rparr>) = Some 0x1010"
  using scanned_chain_resolves [OF ptr_scan ptr_readable, of "\<lparr>pcBase = 0x1000, pcOffsets = [8]\<rparr>"]
  by (simp add: norm_ptr_def)

abbreviation ptr_spec :: chainSpec where
  "ptr_spec \<equiv> \<lparr>csBase = ''1000'', csOffsets = [OffInt 8], csType = [], csLabel = [], csLength = 0, csEndian = []\<rparr>"

theorem resolveChain_follow_witness:
  "crFinalAddr (resolveChain \<lparr>ParseFloat32 = (\<lambda>s. Inl ErrSyntax), ParseFloat64 = (\<lambda>s. Inl ErrSyntax),
      FormatFloat32 = (\<lambda>w. []), FormatFloat64 = (\<lambda>w. [])\<rparr> (list_reader 0x1000 ptr_bytes) ptr_spec LittleEndian 8) = 0x1010"
proof -
  have t: "TrimSpace [] = []" by code_simp
  have t2: "TrimSpace ''1000'' = ''1000''" by (rule TrimSpace_id) (simp_all add: is_space_def)
  have a: "parseAddress (csBase ptr_spec) = Inr 0x1000"
    by (simp add: parseAddress_def t2 TrimPrefix_def ParseUint_def digit_of_def)
  have o: "parse_offsets 0 (csOffsets ptr_spec) = Inr [8]" by simp
  have "derefPtr (list_reader 0x1000 ptr_bytes) 0x1000 8 LittleEndian = Some 0x1008"
    by (simp add: derefPtr_def list_reader_def get_ptr_def Uint64_def get_uint_def)
  then have f: "follow (list_reader 0x1000 ptr_bytes) 8 LittleEndian 0x1000 [8] = Some 0x1010" by simp
  show ?thesis
    using resolveChain_follow [OF a o, where rd = "list_reader 0x1000 ptr_bytes" and ps = 8 and bo = LittleEndian] f
    by (simp add: t)
qed

end
