(* ===== verification/Mem_Pool.thy ===== *)
theory Mem_Pool
  imports Pools
begin

text \<open>
  The pool of memory scan sessions (the second half of tools/memtool/session.go): lookups count the
  operations in progress on a session, and eviction and reaping pass over sessions in use. Sessions
  are numbered; the step relation interleaves the pool operations with the operations on sessions,
  which release their session when they end.
\<close>

record scanEntry =
  seRefs :: int
  seLastUsed :: int
  seClosed :: bool

text \<open>\<open>spAdded\<close> records every session the pool was given.\<close>

record scanPool =
  spSessions :: "(gostring \<times> nat) list"
  spEntry :: "nat \<Rightarrow> scanEntry"
  spAdded :: "nat list"

definition scanMaxSessions :: nat where
  "scanMaxSessions = 3"

definition scanIdleTimeout :: int where
  "scanIdleTimeout = 10 * 60 * 1000000000"

definition inUse :: "scanEntry \<Rightarrow> bool" where
  "inUse e = (0 < seRefs e)"

definition upd_entry :: "nat \<Rightarrow> (scanEntry \<Rightarrow> scanEntry) \<Rightarrow> scanPool \<Rightarrow> scanPool" where
  "upd_entry s f p = p\<lparr>spEntry := (spEntry p)(s := f (spEntry p s))\<rparr>"

definition acquire :: "nat \<Rightarrow> scanPool \<Rightarrow> scanPool" where
  "acquire s p = upd_entry s (\<lambda>e. e\<lparr>seRefs := seRefs e + 1\<rparr>) p"

definition release :: "nat \<Rightarrow> scanPool \<Rightarrow> scanPool" where
  "release s p = upd_entry s (\<lambda>e. e\<lparr>seRefs := seRefs e - 1\<rparr>) p"

definition scan_get :: "scanPool \<Rightarrow> gostring \<Rightarrow> int \<Rightarrow> scanPool \<times> nat option" where
  "scan_get p sid now =
     (case map_of (spSessions p) sid of
        None \<Rightarrow> (p, None)
      | Some s \<Rightarrow> (acquire s (upd_entry s (\<lambda>e. e\<lparr>seLastUsed := now\<rparr>) p), Some s))"

definition scan_close_where :: "(gostring \<times> nat \<Rightarrow> bool) \<Rightarrow> scanPool \<Rightarrow> scanPool" where
  "scan_close_where P p =
     p\<lparr>spSessions := filter (\<lambda>c. \<not> P c) (spSessions p),
       spEntry := (\<lambda>s. if \<exists>c\<in>set (spSessions p). P c \<and> snd c = s then (spEntry p s)\<lparr>seClosed := True\<rparr> else spEntry p s)\<rparr>"

definition scan_oldest :: "(nat \<Rightarrow> scanEntry) \<Rightarrow> (gostring \<times> nat) list \<Rightarrow> gostring" where
  "scan_oldest en ss = oldest_key (map (\<lambda>(k, s). (k, seLastUsed (en s))) (filter (\<lambda>c. \<not> inUse (en (snd c))) ss))"

definition scan_evict :: "(nat \<Rightarrow> scanEntry) \<Rightarrow> (gostring \<times> nat) list \<Rightarrow> (gostring \<times> nat) list" where
  "scan_evict en ss = (if scan_oldest en ss \<noteq> [] then AList.delete (scan_oldest en ss) ss else ss)"

definition scan_evictOldestLocked :: "scanPool \<Rightarrow> scanPool" where
  "scan_evictOldestLocked p =
     (if scan_oldest (spEntry p) (spSessions p) \<noteq> []
      then scan_close_where (\<lambda>c. fst c = scan_oldest (spEntry p) (spSessions p)) p else p)"

text \<open>A session enters with no operation on it.\<close>

definition scan_add :: "scanPool \<Rightarrow> gostring \<Rightarrow> nat \<Rightarrow> int \<Rightarrow> scanPool option" where
  "scan_add p sid s now =
     (if map_of (spSessions p) sid \<noteq> None then None
      else let p1 = (if scanMaxSessions \<le> length (spSessions p) then scan_evictOldestLocked p else p)
           in Some (p1\<lparr>spSessions := AList.update sid s (spSessions p1),
                       spEntry := (spEntry p1)(s := \<lparr>seRefs = 0, seLastUsed = now, seClosed = False\<rparr>),
                       spAdded := s # spAdded p1\<rparr>))"

definition scan_remove :: "scanPool \<Rightarrow> gostring \<Rightarrow> scanPool \<times> bool" where
  "scan_remove p sid =
     (case map_of (spSessions p) sid of None \<Rightarrow> (p, False) | Some s \<Rightarrow> (scan_close_where (\<lambda>c. fst c = sid) p, True))"

definition scan_reap :: "scanPool \<Rightarrow> int \<Rightarrow> scanPool" where
  "scan_reap p now =
     scan_close_where (\<lambda>c. scanIdleTimeout < now - seLastUsed (spEntry p (snd c)) \<and> \<not> inUse (spEntry p (snd c))) p"

text \<open>\<open>newSessionID\<close> maps 12 random bytes to its alphabet.\<close>

definition session_chars :: gostring where
  "session_chars = ''abcdefghijklmnopqrstuvwxyz0123456789''"

definition newSessionID :: "nat list \<Rightarrow> gostring" where
  "newSessionID rnd = map (\<lambda>b. session_chars ! (b mod length session_chars)) rnd"

inductive scan_step :: "scanPool \<Rightarrow> scanPool \<Rightarrow> bool" where
  get: "scan_step p (fst (scan_get p sid now))"
| release: "inUse (spEntry p s) \<Longrightarrow> scan_step p (release s p)"
| add: "scan_add p sid s now = Some p' \<Longrightarrow> s \<notin> set (spAdded p) \<Longrightarrow> sid \<noteq> [] \<Longrightarrow> scan_step p p'"
| remove: "scan_step p (fst (scan_remove p sid))"
| reap: "scan_step p (scan_reap p now)"
| reorder: "mset ss = mset (spSessions p) \<Longrightarrow> scan_step p (p\<lparr>spSessions := ss\<rparr>)"

definition empty_scans :: scanPool where
  "empty_scans = \<lparr>spSessions = [], spEntry = (\<lambda>_. \<lparr>seRefs = 0, seLastUsed = 0, seClosed = False\<rparr>), spAdded = []\<rparr>"

inductive scan_reach :: "scanPool \<Rightarrow> bool" where
  start: "scan_reach empty_scans"
| step: "scan_reach p \<Longrightarrow> scan_step p p' \<Longrightarrow> scan_reach p'"

subsection \<open>Eviction passes over sessions in use\<close>

interpretation scans: idle_pool "\<lambda>s. seLastUsed (en s)" "\<lambda>s. inUse (en s)" "scan_evict en" for en
proof
  fix p :: "(gostring \<times> nat) list" assume "list_all ((\<lambda>s. inUse (en s)) \<circ> snd) p"
  then have "filter (\<lambda>c. \<not> inUse (en (snd c))) p = []" by (simp add: list_all_iff filter_empty_conv)
  then show "scan_evict en p = p" by (simp add: scan_evict_def scan_oldest_def oldest_key_def)
next
  fix p :: "(gostring \<times> nat) list" assume p: "pool_wf p" "\<not> list_all ((\<lambda>s. inUse (en s)) \<circ> snd) p"
  let ?f = "filter (\<lambda>c. \<not> inUse (en (snd c))) p"
  have "?f \<noteq> []" using p(2) by (auto simp: list_all_iff filter_empty_conv)
  then obtain e where "(scan_oldest en p, e) \<in> set ?f" "scan_oldest en p \<noteq> []"
    "\<forall>(k, e')\<in>set ?f. seLastUsed (en e) \<le> seLastUsed (en e')"
    using oldest_key_in [OF pool_wf_filter [OF p(1)], of "\<lambda>c. \<not> inUse (en (snd c))" "\<lambda>s. seLastUsed (en s)"]
    unfolding scan_oldest_def by blast
  then show "\<exists>k e. (k, e) \<in> set p \<and> \<not> inUse (en e) \<and> scan_evict en p = AList.delete k p
      \<and> (\<forall>(k', e')\<in>set p. \<not> inUse (en e') \<longrightarrow> seLastUsed (en e) \<le> seLastUsed (en e'))"
    by (intro exI [of _ "scan_oldest en p"] exI [of _ e]) (auto simp: scan_evict_def)
qed

subsection \<open>The invariant\<close>

text \<open>Every session given to the pool is either pooled and open or closed.\<close>

definition scan_ok :: "scanPool \<Rightarrow> bool" where
  "scan_ok p =
     (pool_wf (spSessions p) \<and> distinct (map snd (spSessions p)) \<and> distinct (spAdded p)
      \<and> snd ` set (spSessions p) \<subseteq> set (spAdded p)
      \<and> (\<forall>s\<in>set (spAdded p). seClosed (spEntry p s) \<longleftrightarrow> s \<notin> snd ` set (spSessions p))
      \<and> (\<forall>s. 0 \<le> seRefs (spEntry p s)))"

lemma distinct_snd_filter: "distinct (map snd ss) \<Longrightarrow> distinct (map snd (filter P ss))"
  by (auto simp: distinct_map intro: inj_on_subset)

lemma scan_ok_close_where: "scan_ok p \<Longrightarrow> scan_ok (scan_close_where P p)"
proof -
  assume ok: "scan_ok p"
  let ?q = "scan_close_where P p"
  have inj: "c = c'" if "c \<in> set (spSessions p)" "c' \<in> set (spSessions p)" "snd c = snd c'" for c c'
    using ok that by (auto simp: scan_ok_def distinct_map dest: inj_onD)
  have "seClosed (spEntry ?q s) \<longleftrightarrow> s \<notin> snd ` set (spSessions ?q)" if "s \<in> set (spAdded p)" for s
    using ok that inj by (auto simp: scan_ok_def scan_close_where_def image_iff) (metis snd_conv)+
  with ok show ?thesis
    by (auto simp: scan_ok_def scan_close_where_def pool_wf_filter distinct_snd_filter)
qed

lemma scan_ok_upd:
  "scan_ok p \<Longrightarrow> (\<And>e. seClosed (f e) = seClosed e) \<Longrightarrow> 0 \<le> seRefs (f (spEntry p s)) \<Longrightarrow> scan_ok (upd_entry s f p)"
  by (auto simp: scan_ok_def upd_entry_def)

lemma scan_make_room_sessions:
  "spSessions (if scanMaxSessions \<le> length (spSessions p) then scan_evictOldestLocked p else p)
   = (if scanMaxSessions \<le> length (spSessions p) then scan_evict (spEntry p) (spSessions p) else spSessions p)"
  by (simp add: scan_evictOldestLocked_def scan_evict_def scan_close_where_def delete_conv_filter)

lemma mset_snd_update_new: "k \<notin> fst ` set ss \<Longrightarrow> mset (map snd (AList.update k v ss)) = add_mset v (mset (map snd ss))"
  by (induction ss) auto

lemma scan_ok_add:
  assumes ok: "scan_ok p" and add: "scan_add p sid s now = Some p'" "s \<notin> set (spAdded p)" "sid \<noteq> []"
  shows "scan_ok p'"
proof -
  define q where "q = (if scanMaxSessions \<le> length (spSessions p) then scan_evictOldestLocked p else p)"
  have okq: "scan_ok q" using ok by (simp add: q_def scan_evictOldestLocked_def scan_ok_close_where)
  have addq: "spAdded q = spAdded p" by (simp add: q_def scan_evictOldestLocked_def scan_close_where_def)
  have none: "sid \<notin> fst ` set (spSessions p)" using add(1) by (auto simp: scan_add_def map_of_eq_None_iff split: if_splits)
  have wf: "pool_wf (spSessions p)" using ok by (simp add: scan_ok_def)
  have new: "sid \<notin> fst ` set (spSessions q)"
    using none scans.evict_subset [OF wf, of "spEntry p"] unfolding q_def scan_make_room_sessions by auto
  have p': "p' = q\<lparr>spSessions := AList.update sid s (spSessions q),
      spEntry := (spEntry q)(s := \<lparr>seRefs = 0, seLastUsed = now, seClosed = False\<rparr>), spAdded := s # spAdded q\<rparr>"
    using add(1) unfolding scan_add_def q_def [symmetric] Let_def by (simp split: if_splits)
  have snew: "s \<notin> snd ` set (spSessions q)" using okq add(2) addq by (auto simp: scan_ok_def)
  have ms: "mset (map snd (AList.update sid s (spSessions q))) = add_mset s (mset (map snd (spSessions q)))"
    by (rule mset_snd_update_new [OF new])
  then have set': "snd ` set (AList.update sid s (spSessions q)) = insert s (snd ` set (spSessions q))"
    by (metis list.set_map set_mset_add_mset_insert set_mset_mset)
  have "distinct (s # map snd (spSessions q))" using okq snew by (simp add: scan_ok_def)
  then have "distinct (map snd (AList.update sid s (spSessions q)))"
    using ms by (metis mset.simps(2) mset_eq_imp_distinct_iff)
  then show ?thesis
    using okq set' add(2,3) addq by (auto simp: p' scan_ok_def pool_wf_update)
qed

lemma scan_ok_step: "scan_step p p' \<Longrightarrow> scan_ok p \<Longrightarrow> scan_ok p'"
proof (induction rule: scan_step.induct)
  case (get p sid now)
  show ?case
  proof (cases "map_of (spSessions p) sid")
    case (Some s)
    have l: "scan_ok (upd_entry s (\<lambda>e. e\<lparr>seLastUsed := now\<rparr>) p)"
      using get by (intro scan_ok_upd) (auto simp: scan_ok_def)
    moreover have "0 \<le> seRefs (spEntry p s)" using get by (simp add: scan_ok_def)
    ultimately have "scan_ok (acquire s (upd_entry s (\<lambda>e. e\<lparr>seLastUsed := now\<rparr>) p))"
      unfolding acquire_def by (intro scan_ok_upd [OF l]) (simp_all add: upd_entry_def)
    with Some show ?thesis by (simp add: scan_get_def)
  qed (simp add: scan_get_def get)
next
  case (release p s)
  then show ?case unfolding release_def by (intro scan_ok_upd) (auto simp: inUse_def)
next
  case (reorder ss p)
  have "mset (map fst ss) = mset (map fst (spSessions p))" "mset (map snd ss) = mset (map snd (spSessions p))"
    using reorder(1) by (simp_all add: mset_map)
  then have "distinct (map fst ss) = distinct (map fst (spSessions p))" "distinct (map snd ss) = distinct (map snd (spSessions p))"
    by (metis mset_eq_imp_distinct_iff)+
  with reorder mset_eq_setD [OF reorder(1)] show ?case by (simp add: scan_ok_def pool_wf_def)
qed (simp_all add: scan_ok_add scan_remove_def scan_reap_def scan_ok_close_where split: option.splits)

lemma scan_reach_ok: "scan_reach p \<Longrightarrow> scan_ok p"
proof (induction rule: scan_reach.induct)
  case start
  show ?case by (simp add: scan_ok_def pool_wf_def empty_scans_def)
qed (rule scan_ok_step)

lemma close_where_open:
  "\<not> seClosed (spEntry p s) \<Longrightarrow> (\<And>c. c \<in> set (spSessions p) \<Longrightarrow> P c \<Longrightarrow> snd c = s \<Longrightarrow> False) \<Longrightarrow>
    \<not> seClosed (spEntry (scan_close_where P p) s)"
  by (auto simp: scan_close_where_def)

lemma scan_victim_idle:
  assumes "pool_wf (spSessions p)" "c \<in> set (spSessions p)" "fst c = scan_oldest (spEntry p) (spSessions p)"
    "scan_oldest (spEntry p) (spSessions p) \<noteq> []"
  shows "\<not> inUse (spEntry p (snd c))"
proof
  assume busy: "inUse (spEntry p (snd c))"
  have "c \<in> set (scan_evict (spEntry p) (spSessions p))"
    using scans.evict_keeps_busy [OF assms(1), of "fst c" "snd c" "spEntry p"] assms(2) busy by simp
  then show False using assms(3,4) by (simp add: scan_evict_def delete_conv_filter)
qed

text \<open>under any interleaving every session given to the scan pool is either pooled and open or closed,
  never both and never lost. A session on which an operation is in progress is closed by no eviction
  and no reaping: only an explicit close of that session does it.\<close>

theorem scan_pool_invariant:
  assumes "scan_reach p"
  shows "(\<forall>s\<in>set (spAdded p). seClosed (spEntry p s) \<longleftrightarrow> s \<notin> snd ` set (spSessions p))
    \<and> (\<forall>s\<in>set (spAdded p). inUse (spEntry p s) \<longrightarrow> \<not> seClosed (spEntry p s) \<longrightarrow>
         (\<forall>p'. scan_step p p' \<longrightarrow> seClosed (spEntry p' s) \<longrightarrow>
            (\<exists>sid. map_of (spSessions p) sid = Some s \<and> p' = fst (scan_remove p sid))))"
proof -
  have ok: "scan_ok p" by (rule scan_reach_ok [OF assms])
  then have wf: "pool_wf (spSessions p)" by (simp add: scan_ok_def)
  have "\<exists>sid. map_of (spSessions p) sid = Some s \<and> p' = fst (scan_remove p sid)"
    if s: "s \<in> set (spAdded p)" "inUse (spEntry p s)" "\<not> seClosed (spEntry p s)"
      and step: "scan_step p p'" and closed: "seClosed (spEntry p' s)" for s p'
    using step
  proof (cases rule: scan_step.cases)
    case (remove sid)
    then have "map_of (spSessions p) sid = Some s"
      using closed s(3) wf by (auto simp: scan_remove_def scan_close_where_def pool_wf_def split: option.splits if_splits)
    with remove show ?thesis by blast
  next
    case (get sid now)
    then show ?thesis using closed s(3)
      by (auto simp: scan_get_def acquire_def upd_entry_def split: option.splits if_splits)
  next
    case (release s')
    then show ?thesis using closed s(3) by (auto simp: release_def upd_entry_def split: if_splits)
  next
    case (add sid s' now)
    define q where "q = (if scanMaxSessions \<le> length (spSessions p) then scan_evictOldestLocked p else p)"
    have "\<not> seClosed (spEntry q s)"
    proof (cases "scan_oldest (spEntry p) (spSessions p) = []")
      case True
      then show ?thesis using s(3) by (simp add: q_def scan_evictOldestLocked_def)
    next
      case False
      have "\<not> seClosed (spEntry (scan_close_where (\<lambda>c. fst c = scan_oldest (spEntry p) (spSessions p)) p) s)"
        by (rule close_where_open [OF s(3)]) (use scan_victim_idle [OF wf _ _ False] s(2) in blast)
      then show ?thesis using s(3) False by (simp add: q_def scan_evictOldestLocked_def)
    qed
    moreover have "spEntry p' s = (if s = s' then \<lparr>seRefs = 0, seLastUsed = now, seClosed = False\<rparr> else spEntry q s)"
      using add(1) unfolding scan_add_def q_def [symmetric] Let_def by (auto split: if_splits)
    ultimately show ?thesis using closed by (simp split: if_splits)
  next
    case (reap now)
    have "\<not> seClosed (spEntry p' s)" unfolding reap scan_reap_def by (rule close_where_open [OF s(3)]) (use s(2) in auto)
    with closed show ?thesis by contradiction
  qed (use closed s in simp)
  with ok show ?thesis by (simp add: scan_ok_def)
qed

definition one_scan :: scanPool where
  "one_scan = fst (scan_get (the (scan_add empty_scans ''a'' 0 1)) ''a'' 2)"

lemma one_scan_reach: "scan_reach one_scan"
proof -
  have "scan_add empty_scans ''a'' 0 1 = Some (the (scan_add empty_scans ''a'' 0 1))"
    by (simp add: scan_add_def empty_scans_def Let_def)
  then have "scan_reach (the (scan_add empty_scans ''a'' 0 1))"
    by (rule scan_reach.step [OF scan_reach.start scan_step.add]) (simp_all add: empty_scans_def)
  then show ?thesis unfolding one_scan_def by (rule scan_reach.step [OF _ scan_step.get])
qed

theorem scan_pool_invariant_witness:
  "let q = fst (scan_remove one_scan ''a'')
   in scan_reach one_scan \<and> inUse (spEntry one_scan 0) \<and> \<not> seClosed (spEntry one_scan 0)
      \<and> \<not> seClosed (spEntry (scan_reap one_scan (3 * scanIdleTimeout)) 0) \<and> inUse (spEntry q 0) \<and> seClosed (spEntry q 0)"
proof -
  have e: "spAdded one_scan = [0]" "inUse (spEntry one_scan 0)" "spSessions one_scan = [(''a'', 0)]"
    by (simp_all add: one_scan_def scan_add_def empty_scans_def Let_def scan_get_def acquire_def upd_entry_def inUse_def scanMaxSessions_def)
  have o: "\<not> seClosed (spEntry one_scan 0)" using scan_pool_invariant [OF one_scan_reach] e by simp
  moreover have "\<not> seClosed (spEntry (scan_reap one_scan (3 * scanIdleTimeout)) 0)"
  proof
    assume c: "seClosed (spEntry (scan_reap one_scan (3 * scanIdleTimeout)) 0)"
    then obtain sid where "map_of (spSessions one_scan) sid = Some 0"
      "scan_reap one_scan (3 * scanIdleTimeout) = fst (scan_remove one_scan sid)"
      using scan_pool_invariant [OF one_scan_reach] e o scan_step.reap [of one_scan "3 * scanIdleTimeout"] by auto
    then have "spSessions (scan_reap one_scan (3 * scanIdleTimeout)) = []"
      using e by (auto simp: scan_remove_def scan_close_where_def split: if_splits)
    then show False using e by (simp add: scan_reap_def scan_close_where_def)
  qed
  moreover have "inUse (spEntry (fst (scan_remove one_scan ''a'')) 0)" "seClosed (spEntry (fst (scan_remove one_scan ''a'')) 0)"
    using e by (simp_all add: scan_remove_def scan_close_where_def inUse_def)
  ultimately show ?thesis using one_scan_reach e by simp
qed

end
