(* ===== verification/Bash_Chain.thy ===== *)
theory Bash_Chain
  imports Go_Bytes
begin

text \<open>
  Shell commands as text: the splitter for the operators \<open>&&\<close> and \<open>||\<close> (tools/bash/chainops.go) and the
  rewriting of commands for the shell that runs them (tools/bash/shell_windows.go and shell_unix.go).
  The lemmas show that the splitter recovers the segments of any chain whose segments follow the grammar
  of quotes, escapes and parentheses, that quoted and nested operators do not split, and that the quoting
  and the encoding for PowerShell lose nothing.
\<close>

subsection \<open>Splitting\<close>

record chainSegment =
  segText :: gostring
  segOp :: gostring

record chainParse =
  Segments :: "chainSegment list"
  HasNestedOps :: bool

definition HasChainOps :: "chainParse \<Rightarrow> bool" where
  "HasChainOps p = (1 < length (Segments p))"

definition NeedsDelegation :: "chainParse \<Rightarrow> bool" where
  "NeedsDelegation p = HasNestedOps p"

definition HasEmptySegment :: "chainParse \<Rightarrow> bool" where
  "HasEmptySegment p = list_ex (\<lambda>s. segText s = []) (Segments p)"

text \<open>The variables of the loop in \<open>parseChainOps\<close>.\<close>

record lexState =
  lexSegs :: "chainSegment list"
  lexBuf :: gostring
  lexNested :: bool
  inSingle :: bool
  inDouble :: bool
  parenDepth :: nat

definition lex_init :: lexState where
  "lex_init = \<lparr>lexSegs = [], lexBuf = [], lexNested = False, inSingle = False, inDouble = False, parenDepth = 0\<rparr>"

definition write_buf :: "gostring \<Rightarrow> lexState \<Rightarrow> lexState" where
  "write_buf s st = st\<lparr>lexBuf := lexBuf st @ s\<rparr>"

definition toggle_quotes :: "char \<Rightarrow> lexState \<Rightarrow> lexState" where
  "toggle_quotes ch st =
     (let s1 = (if ch = CHR 0x27 \<and> \<not> inDouble st then st\<lparr>inSingle := \<not> inSingle st\<rparr> else st)
      in if ch = CHR 0x22 \<and> \<not> inSingle s1 then s1\<lparr>inDouble := \<not> inDouble s1\<rparr> else s1)"

definition track_parens :: "char \<Rightarrow> lexState \<Rightarrow> lexState" where
  "track_parens ch st =
     (let s1 = (if ch = CHR ''('' then st\<lparr>parenDepth := parenDepth st + 1\<rparr> else st)
      in if ch = CHR '')'' \<and> 0 < parenDepth s1 then s1\<lparr>parenDepth := parenDepth s1 - 1\<rparr> else s1)"

definition chain_op :: "char \<Rightarrow> gostring \<Rightarrow> bool" where
  "chain_op ch cs = (cs \<noteq> [] \<and> (ch = CHR ''&'' \<and> hd cs = CHR ''&'' \<or> ch = CHR ''|'' \<and> hd cs = CHR ''|''))"

definition end_segment :: "gostring \<Rightarrow> lexState \<Rightarrow> lexState" where
  "end_segment opr st =
     st\<lparr>lexSegs := lexSegs st @ [\<lparr>segText = TrimSpace (lexBuf st), segOp = opr\<rparr>], lexBuf := []\<rparr>"

function chain_loop :: "lexState \<Rightarrow> gostring \<Rightarrow> lexState" where
  "chain_loop st [] = st"
| "chain_loop st (ch # cs) =
     (if ch = CHR 0x5C \<and> \<not> inSingle st \<and> cs \<noteq> [] then chain_loop (write_buf [ch, hd cs] st) (tl cs)
      else let s1 = toggle_quotes ch st in
        if inSingle s1 \<or> inDouble s1 then chain_loop (write_buf [ch] s1) cs
        else let s2 = track_parens ch s1 in
          if chain_op ch cs
          then if parenDepth s2 = 0 then chain_loop (end_segment [ch, hd cs] s2) (tl cs)
               else chain_loop (write_buf [ch] (s2\<lparr>lexNested := True\<rparr>)) cs
          else chain_loop (write_buf [ch] s2) cs)"
  by pat_completeness auto
termination
  by (relation "measure (\<lambda>(st, s). length s)") auto

definition parseChainOps :: "gostring \<Rightarrow> chainParse" where
  "parseChainOps cmd =
     (let st = chain_loop lex_init cmd
      in \<lparr>Segments = lexSegs st @ [\<lparr>segText = TrimSpace (lexBuf st), segOp = []\<rparr>], HasNestedOps = lexNested st\<rparr>)"

definition hasChainOps :: "gostring \<Rightarrow> bool" where
  "hasChainOps cmd = HasChainOps (parseChainOps cmd)"

subsection \<open>Commands for a shell\<close>

datatype shellKind = kindDefault | kindPowerShell | kindGitBash | kindCmd | kindPwsh

fun shellKind_String :: "shellKind \<Rightarrow> gostring" where
  "shellKind_String kindPowerShell = ''powershell''"
| "shellKind_String kindPwsh = ''pwsh''"
| "shellKind_String kindGitBash = ''git-bash''"
| "shellKind_String kindCmd = ''cmd''"
| "shellKind_String kindDefault = ''bash''"

fun ps_rest :: "chainSegment list \<Rightarrow> gostring" where
  "ps_rest (s # t # ss) =
     (if segOp s = ''&&'' then ''; if($global:LASTEXITCODE -eq 0){ '' else ''; if($global:LASTEXITCODE -ne 0){ '')
     @ segText t @ '' }'' @ ps_rest (t # ss)"
| "ps_rest ss = []"

definition buildPSChainOps :: "chainParse \<Rightarrow> gostring" where
  "buildPSChainOps parsed =
     ''$global:LASTEXITCODE=0; '' @ segText (hd (Segments parsed)) @ ps_rest (Segments parsed)"

definition ps_quote :: "gostring \<Rightarrow> gostring" where
  "ps_quote command = ReplaceAll command [CHR 0x27] [CHR 0x27, CHR 0x27]"

definition delegateToGitBash :: "gostring \<Rightarrow> gostring \<Rightarrow> gostring" where
  "delegateToGitBash command gbPath =
     ''& '' @ [CHR 0x27] @ gbPath @ [CHR 0x27] @ '' -c '' @ [CHR 0x27] @ ps_quote command @ [CHR 0x27]"

definition delegateToCmdExe :: "gostring \<Rightarrow> gostring" where
  "delegateToCmdExe command = ''& cmd /c '' @ [CHR 0x27] @ ps_quote command @ [CHR 0x27]"

text \<open>\<open>gb\<close> is the path \<open>findGitBash\<close> returns, empty when there is none.\<close>

definition delegateToExternalShell :: "gostring \<Rightarrow> gostring \<Rightarrow> gostring" where
  "delegateToExternalShell gb command =
     (if gb \<noteq> [] then delegateToGitBash command gb else delegateToCmdExe command)"

text \<open>\<open>base64.StdEncoding\<close>.\<close>

definition b64_alphabet :: gostring where
  "b64_alphabet = ''ABCDEFGHIJKLMNOPQRSTUVWXYZabcdefghijklmnopqrstuvwxyz0123456789+/''"

definition b64_char :: "nat \<Rightarrow> char" where
  "b64_char n = b64_alphabet ! n"

fun b64_encode :: "nat list \<Rightarrow> gostring" where
  "b64_encode [] = []"
| "b64_encode [a] = [b64_char (a div 4), b64_char (a mod 4 * 16), CHR ''='', CHR ''='']"
| "b64_encode [a, b] =
     [b64_char (a div 4), b64_char (a mod 4 * 16 + b div 16), b64_char (b mod 16 * 4), CHR ''='']"
| "b64_encode (a # b # c # rest) =
     [b64_char (a div 4), b64_char (a mod 4 * 16 + b div 16), b64_char (b mod 16 * 4 + c div 64), b64_char (c mod 64)]
     @ b64_encode rest"

definition EncodeToString :: "gostring \<Rightarrow> gostring" where
  "EncodeToString s = b64_encode (map of_char s)"

definition wrapWithTokenize :: "gostring \<Rightarrow> gostring" where
  "wrapWithTokenize command =
     ''$__b64='' @ [CHR 0x27] @ EncodeToString command @ [CHR 0x27] @ ''; ''
     @ ''$__cmd=[System.Text.Encoding]::UTF8.GetString([Convert]::FromBase64String($__b64)); ''
     @ ''$__e=$null; ''
     @ ''[void][System.Management.Automation.PSParser]::Tokenize($__cmd,[ref]$__e); ''
     @ ''if($__e.Count -gt 0){ ''
     @ ''Write-Host ('' @ [CHR 0x27] @ ''PS syntax error: '' @ [CHR 0x27] @ '' + $__e[0].Message); ''
     @ ''$global:LASTEXITCODE=1 ''
     @ ''}else{ $global:LASTEXITCODE=$null; Invoke-Expression $__cmd }''"

definition sentinelPrefix :: gostring where
  "sentinelPrefix = ''___SENTINEL_''"

definition sentinelSuffix :: gostring where
  "sentinelSuffix = ''___''"

definition ps_sentinel :: "gostring \<Rightarrow> gostring" where
  "ps_sentinel sentinel =
     [LF] @ ''$__ec = $LASTEXITCODE; if ($null -eq $__ec) { $__ec = if ($?) {0} else {1} }; Write-Host ''
     @ [CHR 0x22, CHR 0x22] @ ''; Write-Host '' @ [CHR 0x22] @ sentinel @ ''$__ec'' @ sentinelSuffix @ [CHR 0x22]"

definition sh_sentinel :: "gostring \<Rightarrow> gostring" where
  "sh_sentinel sentinel =
     [LF] @ ''EXIT_CODE=$?; echo '' @ [CHR 0x22, CHR 0x22] @ ''; echo '' @ [CHR 0x22] @ sentinel @ ''${EXIT_CODE}''
     @ sentinelSuffix @ [CHR 0x22]"

definition ps51_command :: "gostring \<Rightarrow> gostring \<Rightarrow> gostring" where
  "ps51_command gb command =
     (let parsed = parseChainOps command in
      if NeedsDelegation parsed then delegateToExternalShell gb command
      else if HasChainOps parsed then
        (if HasEmptySegment parsed then delegateToExternalShell gb command else buildPSChainOps parsed)
      else command)"

text \<open>The version for Windows; \<open>buildSentinelCmd_unix\<close> is the one for the other systems.\<close>

fun buildSentinelCmd :: "gostring \<Rightarrow> shellKind \<Rightarrow> gostring \<Rightarrow> gostring \<Rightarrow> gostring" where
  "buildSentinelCmd gb kindPwsh command sentinel = command @ ps_sentinel sentinel"
| "buildSentinelCmd gb kindPowerShell command sentinel =
     wrapWithTokenize (ps51_command gb command) @ ps_sentinel sentinel"
| "buildSentinelCmd gb kindGitBash command sentinel = command @ sh_sentinel sentinel"
| "buildSentinelCmd gb _ command sentinel =
     command @ '' & set __ec=%ERRORLEVEL% & echo. & echo '' @ sentinel @ ''%__ec%'' @ sentinelSuffix"

definition buildSentinelCmd_unix :: "gostring \<Rightarrow> gostring \<Rightarrow> gostring" where
  "buildSentinelCmd_unix command sentinel = command @ sh_sentinel sentinel"

subsection \<open>Commands as text\<close>

text \<open>
  The grammar of the comment on \<open>parseChainOps\<close>, independent of the splitter: a command is a sequence of
  plain characters, escaped characters, a pipe or an ampersand that is not doubled, single-quoted text (where
  a backslash is literal), double-quoted text (where it escapes), and parentheses around such a sequence, in
  which chain operators may occur.
\<close>

datatype dqPiece = DChar char | DEsc char

datatype piece =
    Plain char
  | Esc char
  | Lone char char
  | SingleQ gostring
  | DoubleQ "dqPiece list"
  | Paren "piece list"
  | NestedOp char

fun show_dq :: "dqPiece \<Rightarrow> gostring" where
  "show_dq (DChar c) = [c]"
| "show_dq (DEsc c) = [CHR 0x5C, c]"

fun show_piece :: "piece \<Rightarrow> gostring" where
  "show_piece (Plain c) = [c]"
| "show_piece (Esc c) = [CHR 0x5C, c]"
| "show_piece (Lone c d) = [c, d]"
| "show_piece (SingleQ s) = CHR 0x27 # s @ [CHR 0x27]"
| "show_piece (DoubleQ ds) = CHR 0x22 # concat (map show_dq ds) @ [CHR 0x22]"
| "show_piece (Paren ps) = CHR ''('' # concat (map show_piece ps) @ [CHR '')'']"
| "show_piece (NestedOp c) = [c, c]"

abbreviation show_pieces :: "piece list \<Rightarrow> gostring" where
  "show_pieces ps \<equiv> concat (map show_piece ps)"

definition op_char :: "char \<Rightarrow> bool" where
  "op_char c \<longleftrightarrow> c = CHR ''&'' \<or> c = CHR ''|''"

definition plain_char :: "char \<Rightarrow> bool" where
  "plain_char c \<longleftrightarrow> c \<notin> {CHR 0x5C, CHR 0x27, CHR 0x22, CHR ''('', CHR '')'', CHR ''&'', CHR ''|''}"

fun dq_ok :: "dqPiece \<Rightarrow> bool" where
  "dq_ok (DChar c) \<longleftrightarrow> c \<noteq> CHR 0x22 \<and> c \<noteq> CHR 0x5C"
| "dq_ok (DEsc c) \<longleftrightarrow> True"

text \<open>\<open>nested\<close>: whether the piece stands inside parentheses.\<close>

fun piece_ok :: "bool \<Rightarrow> piece \<Rightarrow> bool" where
  "piece_ok nested (Plain c) \<longleftrightarrow> plain_char c"
| "piece_ok nested (Esc c) \<longleftrightarrow> True"
| "piece_ok nested (Lone c d) \<longleftrightarrow> op_char c \<and> plain_char d"
| "piece_ok nested (SingleQ s) \<longleftrightarrow> CHR 0x27 \<notin> set s"
| "piece_ok nested (DoubleQ ds) \<longleftrightarrow> list_all dq_ok ds"
| "piece_ok nested (Paren ps) \<longleftrightarrow> list_all (piece_ok True) ps"
| "piece_ok nested (NestedOp c) \<longleftrightarrow> nested \<and> op_char c"

fun has_op :: "piece \<Rightarrow> bool" where
  "has_op (Paren ps) \<longleftrightarrow> list_ex has_op ps"
| "has_op (NestedOp c) \<longleftrightarrow> True"
| "has_op _ \<longleftrightarrow> False"

text \<open>A segment: pieces outside parentheses, with no space at its ends.\<close>

definition ascii_visible :: "char \<Rightarrow> bool" where
  "ascii_visible c \<longleftrightarrow> (of_char c :: nat) < 128 \<and> \<not> is_space (of_char c)"

definition segment_ok :: "piece list \<Rightarrow> bool" where
  "segment_ok ps \<longleftrightarrow> list_all (piece_ok False) ps \<and> show_pieces ps \<noteq> []
     \<and> ascii_visible (hd (show_pieces ps)) \<and> ascii_visible (last (show_pieces ps))"

text \<open>A chain is its segments, each with the operator behind it.\<close>

fun render :: "(piece list \<times> gostring) list \<Rightarrow> gostring" where
  "render [] = []"
| "render [(ps, opr)] = show_pieces ps"
| "render ((ps, opr) # s # ss) = show_pieces ps @ SP # opr @ SP # render (s # ss)"

fun chain_ok :: "(piece list \<times> gostring) list \<Rightarrow> bool" where
  "chain_ok [] = False"
| "chain_ok [(ps, opr)] \<longleftrightarrow> segment_ok ps \<and> opr = []"
| "chain_ok ((ps, opr) # s # ss) \<longleftrightarrow> segment_ok ps \<and> opr \<in> {''&&'', ''||''} \<and> chain_ok (s # ss)"

definition chain_segments :: "(piece list \<times> gostring) list \<Rightarrow> chainSegment list" where
  "chain_segments = map (\<lambda>(ps, opr). \<lparr>segText = show_pieces ps, segOp = opr\<rparr>)"

subsection \<open>Facts on the splitter\<close>

text \<open>The state after text that leaves quotes and depth as they were.\<close>

definition passed :: "gostring \<Rightarrow> bool \<Rightarrow> lexState \<Rightarrow> lexState" where
  "passed s nested st = st\<lparr>lexBuf := lexBuf st @ s, lexNested := lexNested st \<or> nested\<rparr>"

lemma passed_simps [simp]:
  "inSingle (passed s n st) = inSingle st" "inDouble (passed s n st) = inDouble st"
  "parenDepth (passed s n st) = parenDepth st" "passed s n (passed t m st) = passed (t @ s) (m \<or> n) st"
  "passed [] False st = st"
  by (simp_all add: passed_def disj_assoc)

lemma write_buf_passed: "write_buf s st = passed s False st"
  by (simp add: write_buf_def passed_def)

lemma write_buf_nested: "write_buf s (st\<lparr>lexNested := True\<rparr>) = passed s True st"
  by (cases st) (simp add: write_buf_def passed_def)

lemma passed_nested: "(passed s True st)\<lparr>lexNested := True\<rparr> = passed s True st"
  by (cases st) (simp add: passed_def)

lemma chain_loop_char:
  assumes "plain_char c" "\<not> inSingle st" "\<not> inDouble st"
  shows "chain_loop st (c # rest) = chain_loop (passed [c] False st) rest"
  using assms by (auto simp: plain_char_def toggle_quotes_def track_parens_def chain_op_def write_buf_passed Let_def)

lemma chain_loop_escape:
  assumes "\<not> inSingle st"
  shows "chain_loop st (CHR 0x5C # c # rest) = chain_loop (passed [CHR 0x5C, c] False st) rest"
  using assms by (simp add: write_buf_passed)

lemma chain_loop_lone:
  assumes "op_char c" "plain_char d" "\<not> inSingle st" "\<not> inDouble st"
  shows "chain_loop st (c # d # rest) = chain_loop (passed [c, d] False st) rest"
proof -
  have "chain_loop st (c # d # rest) = chain_loop (passed [c] False st) (d # rest)"
    using assms by (auto simp: op_char_def plain_char_def toggle_quotes_def track_parens_def chain_op_def write_buf_passed Let_def)
  then show ?thesis using chain_loop_char [of d "passed [c] False st"] assms by simp
qed

lemma chain_loop_single:
  "CHR 0x27 \<notin> set s \<Longrightarrow> inSingle st \<Longrightarrow> \<not> inDouble st \<Longrightarrow>
     chain_loop st (s @ CHR 0x27 # rest) = chain_loop (passed (s @ [CHR 0x27]) False (st\<lparr>inSingle := False\<rparr>)) rest"
proof (induction s arbitrary: st)
  case Nil
  then show ?case by (simp add: toggle_quotes_def track_parens_def chain_op_def write_buf_passed)
next
  case (Cons c s)
  have "chain_loop st ((c # s) @ CHR 0x27 # rest) = chain_loop (passed [c] False st) (s @ CHR 0x27 # rest)"
    using Cons.prems by (auto simp: toggle_quotes_def write_buf_passed Let_def)
  with Cons show ?case by (simp add: passed_def)
qed

lemma chain_loop_double:
  "list_all dq_ok ds \<Longrightarrow> \<not> inSingle st \<Longrightarrow> inDouble st \<Longrightarrow>
     chain_loop st (concat (map show_dq ds) @ CHR 0x22 # rest) =
     chain_loop (passed (concat (map show_dq ds) @ [CHR 0x22]) False (st\<lparr>inDouble := False\<rparr>)) rest"
proof (induction ds arbitrary: st)
  case Nil
  then show ?case by (simp add: toggle_quotes_def track_parens_def chain_op_def write_buf_passed)
next
  case (Cons d ds)
  have "chain_loop st (show_dq d @ ys) = chain_loop (passed (show_dq d) False st) ys" for ys
    using Cons.prems by (cases d) (auto simp: toggle_quotes_def write_buf_passed Let_def)
  with Cons show ?case by (simp add: passed_def)
qed

lemma chain_loop_nested_op:
  assumes "op_char c" "\<not> inSingle st" "\<not> inDouble st" "0 < parenDepth st"
  shows "chain_loop st (c # c # rest) = chain_loop (passed [c, c] True st) rest"
proof -
  have ch: "c \<noteq> CHR 0x5C" "toggle_quotes c s = s" "track_parens c s = s" for s
    using assms(1) by (auto simp: op_char_def toggle_quotes_def track_parens_def)
  have "chain_loop st (c # c # rest) = chain_loop (passed [c] True st) (c # rest)"
    using assms ch by (auto simp: op_char_def chain_op_def write_buf_nested Let_def)
  also have "\<dots> = chain_loop (passed [c] True (passed [c] True st)) rest"
  proof -
    have "passed [c] False (passed [c] True st) = passed [c] True (passed [c] True st)" by simp
    then show ?thesis
      using assms ch by (cases "chain_op c rest") (simp_all add: write_buf_nested write_buf_passed passed_nested Let_def del: passed_simps(4))
  qed
  finally show ?thesis by simp
qed

text \<open>The splitter passes over well-formed pieces: it copies them and notes the operators in parentheses.\<close>

lemma chain_loop_piece:
  "piece_ok (0 < parenDepth st) p \<Longrightarrow> \<not> inSingle st \<Longrightarrow> \<not> inDouble st \<Longrightarrow>
     chain_loop st (show_piece p @ rest) = chain_loop (passed (show_piece p) (has_op p) st) rest"
proof (induction p arbitrary: st rest)
  case (SingleQ s)
  have "chain_loop st (CHR 0x27 # ys) = chain_loop (passed [CHR 0x27] False (st\<lparr>inSingle := True\<rparr>)) ys" for ys
    using SingleQ by (simp add: toggle_quotes_def write_buf_passed)
  then show ?case
    using SingleQ chain_loop_single [of s "passed [CHR 0x27] False (st\<lparr>inSingle := True\<rparr>)" rest]
    by (simp add: passed_def del: chain_loop.simps) (cases st; simp)
next
  case (DoubleQ ds)
  have "chain_loop st (CHR 0x22 # ys) = chain_loop (passed [CHR 0x22] False (st\<lparr>inDouble := True\<rparr>)) ys" for ys
    using DoubleQ by (simp add: toggle_quotes_def write_buf_passed)
  then show ?case
    using DoubleQ chain_loop_double [of ds "passed [CHR 0x22] False (st\<lparr>inDouble := True\<rparr>)" rest]
    by (simp add: passed_def del: chain_loop.simps) (cases st; simp)
next
  case (Paren ps)
  have inner: "chain_loop st' (concat (map show_piece ps) @ ys) =
      chain_loop (passed (concat (map show_piece ps)) (list_ex has_op ps) st') ys"
    if "0 < parenDepth st'" "\<not> inSingle st'" "\<not> inDouble st'" for st' ys
    using Paren(1,2) that
  proof (induction ps arbitrary: st')
    case (Cons p ps)
    have "chain_loop st' (show_piece p @ concat (map show_piece ps) @ ys) =
        chain_loop (passed (show_piece p) (has_op p) st') (concat (map show_piece ps) @ ys)"
      by (rule Cons.prems(1)) (use Cons.prems in simp_all)
    moreover have "chain_loop (passed (show_piece p) (has_op p) st') (concat (map show_piece ps) @ ys) =
        chain_loop (passed (concat (map show_piece ps)) (list_ex has_op ps) (passed (show_piece p) (has_op p) st')) ys"
      by (rule Cons.IH) (use Cons.prems in auto)
    ultimately show ?case by simp
  qed simp
  let ?st = "passed [CHR ''(''] False (st\<lparr>parenDepth := Suc (parenDepth st)\<rparr>)"
  have o: "chain_loop st (CHR ''('' # ys) = chain_loop ?st ys" for ys
    using Paren by (simp add: toggle_quotes_def track_parens_def chain_op_def write_buf_passed)
  have c: "chain_loop st' (CHR '')'' # ys) = chain_loop (passed ['')'' ! 0] False (st'\<lparr>parenDepth := parenDepth st' - 1\<rparr>)) ys"
    if "0 < parenDepth st'" "\<not> inSingle st'" "\<not> inDouble st'" for st' ys
    using that by (simp add: toggle_quotes_def track_parens_def chain_op_def write_buf_passed)
  let ?st1 = "passed (concat (map show_piece ps)) (list_ex has_op ps) ?st"
  have "chain_loop st (show_piece (Paren ps) @ rest) = chain_loop ?st (concat (map show_piece ps) @ CHR '')'' # rest)"
    by (simp add: o del: chain_loop.simps)
  also have "\<dots> = chain_loop ?st1 (CHR '')'' # rest)"
    by (rule inner) (use Paren in \<open>simp_all add: passed_def\<close>)
  also have "\<dots> = chain_loop (passed ['')'' ! 0] False (?st1\<lparr>parenDepth := parenDepth ?st1 - 1\<rparr>)) rest"
    by (rule c) (use Paren in \<open>simp_all add: passed_def\<close>)
  also have "passed ['')'' ! 0] False (?st1\<lparr>parenDepth := parenDepth ?st1 - 1\<rparr>) = passed (show_piece (Paren ps)) (has_op (Paren ps)) st"
    by (cases st) (simp add: passed_def)
  finally show ?case .
next
  case (NestedOp c)
  then show ?case using chain_loop_nested_op [of c st rest] by simp
qed (simp_all add: chain_loop_char chain_loop_escape chain_loop_lone del: chain_loop.simps)

lemma chain_loop_pieces:
  "list_all (piece_ok (0 < parenDepth st)) ps \<Longrightarrow> \<not> inSingle st \<Longrightarrow> \<not> inDouble st \<Longrightarrow>
     chain_loop st (show_pieces ps @ rest) = chain_loop (passed (show_pieces ps) (list_ex has_op ps) st) rest"
proof (induction ps arbitrary: st)
  case (Cons p ps)
  then show ?case
    using chain_loop_piece [of st p "show_pieces ps @ rest"] Cons.IH [of "passed (show_piece p) (has_op p) st"]
    by (simp del: chain_loop.simps)
qed simp

abbreviation at_seg :: "chainSegment list \<Rightarrow> bool \<Rightarrow> gostring \<Rightarrow> lexState" where
  "at_seg S n B \<equiv> lex_init\<lparr>lexSegs := S, lexNested := n, lexBuf := B\<rparr>"

lemma trim_segment:
  assumes "segment_ok ps" "B \<in> {[], [SP]}"
  shows "TrimSpace (B @ show_pieces ps) = show_pieces ps" "TrimSpace (B @ show_pieces ps @ [SP]) = show_pieces ps"
proof -
  let ?t = "show_pieces ps"
  have v: "?t \<noteq> []" "(of_char (hd ?t) :: nat) < 128" "\<not> is_space (of_char (hd ?t))" "(of_char (last ?t) :: nat) < 128"
    "\<not> is_space (of_char (last ?t))"
    using assms(1) by (auto simp: segment_ok_def ascii_visible_def)
  obtain c cs where t: "?t = c # cs" using v(1) by (cases ?t) auto
  have l: "TrimLeftSpace (?t @ x) = ?t @ x" for x
    using v(2,3) t by (simp add: TrimLeftSpace.simps [of "c # cs @ x"] decode_rune_ascii)
  have id: "TrimRightSpace ?t = ?t"
    using TrimSpace_id [of ?t] v l [of "[]"] by (simp add: TrimSpace_def)
  have sp: "TrimLeftSpace (SP # x) = TrimLeftSpace x" for x
    using decode_rune_ascii [of SP x] by (simp add: TrimLeftSpace.simps [of "SP # x"] is_space_def)
  have lB: "TrimLeftSpace (B @ ?t @ x) = ?t @ x" for x using assms(2) l sp by auto
  have "decode_last_rune (?t @ [SP]) = (32, 1)" by (simp add: decode_last_rune_def byte_at_def nth_append)
  then have "TrimRightSpace (?t @ [SP]) = TrimRightSpace ?t"
    by (simp add: TrimRightSpace.simps [of "?t @ [SP]"] is_space_def)
  with id lB [of "[]"] lB [of "[SP]"] show "TrimSpace (B @ ?t) = ?t" "TrimSpace (B @ ?t @ [SP]) = ?t"
    by (simp_all add: TrimSpace_def)
qed

lemma run_segment:
  assumes "segment_ok ps"
  shows "chain_loop (at_seg S n B) (show_pieces ps @ rest) = chain_loop (at_seg S (n \<or> list_ex has_op ps) (B @ show_pieces ps)) rest"
proof -
  have "passed (show_pieces ps) (list_ex has_op ps) (at_seg S n B) = at_seg S (n \<or> list_ex has_op ps) (B @ show_pieces ps)"
    by (simp add: passed_def lex_init_def)
  then show ?thesis
    using chain_loop_pieces [of "at_seg S n B" ps rest] assms by (simp add: segment_ok_def lex_init_def del: chain_loop.simps)
qed

lemma run_space: "chain_loop (at_seg S n B) (SP # rest) = chain_loop (at_seg S n (B @ [SP])) rest"
  by (simp add: lex_init_def chain_op_def track_parens_def toggle_quotes_def write_buf_def)

lemma run_op:
  assumes "opr \<in> {''&&'', ''||''}"
  shows "chain_loop (at_seg S n B) (opr @ rest) = chain_loop (at_seg (S @ [\<lparr>segText = TrimSpace B, segOp = opr\<rparr>]) n []) rest"
  using assms
  by (auto simp: lex_init_def toggle_quotes_def track_parens_def chain_op_def end_segment_def)

lemma run_render:
  "chain_ok segs \<Longrightarrow> B \<in> {[], [SP]} \<Longrightarrow>
     \<exists>B' \<in> {[], [SP]}. chain_loop (at_seg S n B) (render segs) =
       at_seg (S @ chain_segments (butlast segs)) (n \<or> list_ex (\<lambda>s. list_ex has_op (fst s)) segs) (B' @ show_pieces (fst (last segs)))"
proof (induction segs arbitrary: S n B rule: render.induct)
  case (2 ps opr)
  then show ?case using run_segment [where ps = ps and S = S and n = n and B = B and rest = "[]"] by (auto simp: chain_segments_def)
next
  case (3 ps opr s ss)
  have c: "segment_ok ps" "opr \<in> {''&&'', ''||''}" "chain_ok (s # ss)" using 3(2) by auto
  let ?n = "n \<or> list_ex has_op ps" and ?S = "S @ chain_segments [(ps, opr)]"
  have "chain_loop (at_seg S n B) (render ((ps, opr) # s # ss)) =
      chain_loop (at_seg S ?n (B @ show_pieces ps @ [SP])) (opr @ SP # render (s # ss))"
    using run_segment [OF c(1)] run_space by (simp del: chain_loop.simps)
  also have "\<dots> = chain_loop (at_seg ?S ?n []) (SP # render (s # ss))"
    unfolding run_op [OF c(2)] trim_segment(2) [OF c(1) 3(3)] by (simp add: chain_segments_def)
  also have "\<dots> = chain_loop (at_seg ?S ?n [SP]) (render (s # ss))"
    using run_space by (simp del: chain_loop.simps)
  finally show ?case
    using 3(1) [OF c(3), where B = "[SP]" and S = ?S and n = ?n] by (simp add: chain_segments_def disj_assoc del: render.simps chain_loop.simps)
qed simp

text \<open>C20: A chain of commands is split into exactly its segments and operators, whatever plain text, escapes,
  quoted text and parentheses the segments are made of, and operators inside parentheses do not split
  but are noted: segments are given by the grammar of pieces above, are separated by a space, an
  operator and a space, and begin and end with a visible ASCII character.\<close>

theorem chain_roundtrip:
  assumes "chain_ok segs"
  shows "parseChainOps (render segs) =
    \<lparr>Segments = chain_segments segs, HasNestedOps = list_ex (\<lambda>s. list_ex has_op (fst s)) segs\<rparr>"
proof -
  have init: "at_seg [] False [] = lex_init" by (simp add: lex_init_def)
  let ?n = "list_ex (\<lambda>s. list_ex has_op (fst s)) segs"
  obtain B' where B': "B' \<in> {[], [SP]}"
    "chain_loop lex_init (render segs) = at_seg (chain_segments (butlast segs)) ?n (B' @ show_pieces (fst (last segs)))"
    using run_render [OF assms insertI1, where S = "[]" and n = False] unfolding init append_Nil simp_thms by (elim bexE)
  have l: "segment_ok (fst (last segs))" "snd (last segs) = []" "segs \<noteq> []"
    using assms by (induction segs rule: chain_ok.induct) auto
  then have "chain_segments segs = chain_segments (butlast segs) @ [\<lparr>segText = show_pieces (fst (last segs)), segOp = []\<rparr>]"
    by (cases segs rule: rev_cases) (auto simp: chain_segments_def split: prod.splits)
  with B' trim_segment(1) [OF l(1) B'(1)] show ?thesis by (simp add: parseChainOps_def lex_init_def)
qed

theorem chain_roundtrip_witness:
  "parseChainOps (''make && (a || b) && echo '' @ [CHR 0x27] @ ''a || b'' @ [CHR 0x27] @ '' || true'')
     = \<lparr>Segments = [\<lparr>segText = ''make'', segOp = ''&&''\<rparr>, \<lparr>segText = ''(a || b)'', segOp = ''&&''\<rparr>,
                    \<lparr>segText = ''echo '' @ [CHR 0x27] @ ''a || b'' @ [CHR 0x27], segOp = ''||''\<rparr>,
                    \<lparr>segText = ''true'', segOp = []\<rparr>], HasNestedOps = True\<rparr>"
proof -
  let ?segs = "[(map Plain ''make'', ''&&''), ([Paren (map Plain ''a '' @ [NestedOp (CHR ''|'')] @ map Plain '' b'')], ''&&''),
      (map Plain ''echo '' @ [SingleQ ''a || b''], ''||''), (map Plain ''true'', [])]"
  have "chain_ok ?segs"
    by (simp add: segment_ok_def ascii_visible_def is_space_def plain_char_def op_char_def)
  from chain_roundtrip [OF this] show ?thesis by (simp add: chain_segments_def)
qed

subsection \<open>Quoting and encoding for PowerShell\<close>

lemma ps_quote_Cons:
  "ps_quote (c # cs) = (if c = CHR 0x27 then [CHR 0x27, CHR 0x27] else [c]) @ ps_quote cs"
  by (auto simp: ps_quote_def ReplaceAll_miss)

text \<open>Doubling the quotes loses nothing: halving them again gives the command back.\<close>

fun halve_quotes :: "gostring \<Rightarrow> gostring" where
  "halve_quotes (c # d # s) =
     (if c = CHR 0x27 \<and> d = CHR 0x27 then c # halve_quotes s else c # halve_quotes (d # s))"
| "halve_quotes s = s"

lemma halve_quotes_quote: "halve_quotes (ps_quote s) = s"
proof (induction s)
  case Nil
  then show ?case by (simp add: ps_quote_def)
next
  case (Cons c s)
  then show ?case by (cases "ps_quote s") (auto simp: ps_quote_Cons)
qed

text \<open>
  Only the ASCII apostrophe is doubled. PowerShell documents that it takes the typographic single quotes
  (U+2018 to U+201B) for the same quote, and these pass through unchanged.
\<close>

lemma typographic_quote_unescaped: "ps_quote [char_of (0xE2 :: nat), char_of (0x80 :: nat), char_of (0x99 :: nat)] =
    [char_of (0xE2 :: nat), char_of (0x80 :: nat), char_of (0x99 :: nat)]"
  by code_simp

definition b64_val :: "char \<Rightarrow> nat" where
  "b64_val c = length (takeWhile (\<lambda>d. d \<noteq> c) b64_alphabet)"

fun b64_decode :: "gostring \<Rightarrow> nat list" where
  "b64_decode (w # x # y # z # rest) =
     [b64_val w * 4 + b64_val x div 16]
     @ (if y = CHR ''='' then [] else [b64_val x mod 16 * 16 + b64_val y div 4])
     @ (if z = CHR ''='' then [] else [b64_val y mod 4 * 64 + b64_val z])
     @ b64_decode rest"
| "b64_decode _ = []"

lemma takeWhile_nth_distinct: "distinct xs \<Longrightarrow> n < length xs \<Longrightarrow> length (takeWhile (\<lambda>d. d \<noteq> xs ! n) xs) = n"
proof (induction xs arbitrary: n)
  case (Cons x xs)
  then show ?case by (cases n) auto
qed simp

lemma b64_alphabet_facts: "length b64_alphabet = 64" "distinct b64_alphabet" "CHR ''='' \<notin> set b64_alphabet"
  "CHR 0x27 \<notin> set b64_alphabet"
  by (simp_all add: b64_alphabet_def)

lemma b64_char_val: "n < 64 \<Longrightarrow> b64_val (b64_char n) = n"
  unfolding b64_char_def b64_val_def by (rule takeWhile_nth_distinct) (simp_all add: b64_alphabet_facts)

lemma b64_char_not:
  assumes "n < 64"
  shows "b64_char n \<noteq> CHR ''=''" "CHR 0x27 \<noteq> b64_char n"
proof -
  have "b64_char n \<in> set b64_alphabet" unfolding b64_char_def using assms b64_alphabet_facts(1) by (metis nth_mem)
  then show "b64_char n \<noteq> CHR ''=''" "CHR 0x27 \<noteq> b64_char n" using b64_alphabet_facts(3,4) by auto
qed

text \<open>The digits of a group of three bytes.\<close>

lemma b64_digits:
  assumes "a < 256" "b < 256" "c < 256"
  shows "a div 4 < 64" "a mod 4 * 16 + b div 16 < 64" "b mod 16 * 4 + c div 64 < 64" "c mod 64 < (64 :: nat)"
    and "b div 16 < 16" "c div 64 < 4"
proof -
  have "a div 4 < 64" "b div 16 < 16" "c div 64 < 4" "a mod 4 < 4" "b mod 16 < 16"
    using assms by (auto simp: div_less_iff_less_mult)
  then show "a div 4 < 64" "a mod 4 * 16 + b div 16 < 64" "b mod 16 * 4 + c div 64 < 64" "c mod 64 < (64 :: nat)"
    "b div 16 < 16" "c div 64 < 4"
    by simp_all
qed

lemma b64_roundtrip: "list_all (\<lambda>b. b < 256) bs \<Longrightarrow> b64_decode (b64_encode bs) = bs"
proof (induction bs rule: b64_encode.induct)
  case (2 a)
  with b64_digits [of a 0 0] show ?case by (simp add: b64_char_val)
next
  case (3 a b)
  with b64_digits [of a b 0] show ?case by (simp add: b64_char_val b64_char_not)
next
  case (4 a b c rest)
  with b64_digits [of a b c] show ?case by (simp add: b64_char_val b64_char_not)
qed simp

lemma b64_no_quote: "list_all (\<lambda>b. b < 256) bs \<Longrightarrow> CHR 0x27 \<notin> set (b64_encode bs)"
proof (induction bs rule: b64_encode.induct)
  case (2 a)
  with b64_digits [of a 0 0] show ?case by (simp add: b64_char_not)
next
  case (3 a b)
  with b64_digits [of a b 0] show ?case by (simp add: b64_char_not)
next
  case (4 a b c rest)
  with b64_digits [of a b c] show ?case by (simp add: b64_char_not)
qed simp

lemma bytes_small: "list_all (\<lambda>b. b < 256) (map (of_char :: char \<Rightarrow> nat) s)"
  by (simp add: list_all_iff)

lemma EncodeToString_decode: "map char_of (b64_decode (EncodeToString s)) = s"
  using b64_roundtrip [OF bytes_small [of s]] by (simp add: EncodeToString_def comp_def)

text \<open>The wrapper carries the command as a literal without quotes, from which it is decoded.\<close>

lemma wrapper_carries_command:
  "\<exists>t r. wrapWithTokenize command = ''$__b64='' @ [CHR 0x27] @ t @ [CHR 0x27] @ r
      \<and> CHR 0x27 \<notin> set t \<and> map char_of (b64_decode t) = command"
proof (intro exI conjI)
  show "wrapWithTokenize command = ''$__b64='' @ [CHR 0x27] @ EncodeToString command @ [CHR 0x27] @
      drop (length (''$__b64='' @ [CHR 0x27] @ EncodeToString command @ [CHR 0x27])) (wrapWithTokenize command)"
    by (simp add: wrapWithTokenize_def)
  show "CHR 0x27 \<notin> set (EncodeToString command)"
    unfolding EncodeToString_def by (rule b64_no_quote [OF bytes_small])
qed (rule EncodeToString_decode)

end
