(* ===== verification/Bash_Exec.thy ===== *)
theory Bash_Exec
  imports Bash_Chain Output Raw_Output
begin

text \<open>
  Running a command in a shell session: the loop that reads the output of the shell up to the
  sentinel line (tools/bash/exec.go) and the handler that folds, stores and prints the result
  (tools/bash/handler.go). What the shell prints, the clock and the random bytes are inputs; the
  decoding of console output is a parameter. The lemmas show that a run returns the output and exit
  code of the command, and that folded output can be had back from the raw output store.
\<close>

subsection \<open>Reading up to the sentinel\<close>

definition maxOutputSize :: int where
  "maxOutputSize = int DefaultOutputChars"

definition maxTimeoutSec :: int where
  "maxTimeoutSec = 600"

record execResult =
  erOutput :: gostring
  erExitCode :: int
  erOriginalBytes :: nat
  erTruncated :: bool

text \<open>\<open>fmt.Sscanf\<close> with \<open>%d\<close> into a variable that holds \<open>old\<close>.\<close>

definition scan_int :: "gostring \<Rightarrow> int \<Rightarrow> int" where
  "scan_int s old =
     (let t = TrimLeftSpace s;
          sg = takeWhile (\<lambda>c. c \<in> set ''+-'') (take 1 t);
          ds = takeWhile is_digit (drop (length sg) t)
      in if ds = [] then old else case ParseInt (sg @ ds) 10 64 of Inl e \<Rightarrow> old | Inr n \<Rightarrow> n)"

text \<open>What the \<open>select\<close> of the loop receives.\<close>

datatype exec_event = CtxDone | DeadlinePassed | ReadLine gostring | ReadFailed

datatype exec_error = SessionDead | WriteFailed | Cancelled | TimedOut | StdoutFailed

text \<open>The loop: whether the session was closed, and the capture with the exit code. No event left is a
  loop still waiting.\<close>

fun exec_loop ::
  "gostring \<Rightarrow> BoundedCapture \<Rightarrow> exec_event list \<Rightarrow> (bool \<times> (exec_error + BoundedCapture \<times> int)) option" where
  "exec_loop sentinel out [] = None"
| "exec_loop sentinel out (CtxDone # evs) = Some (True, Inl Cancelled)"
| "exec_loop sentinel out (DeadlinePassed # evs) = Some (True, Inl TimedOut)"
| "exec_loop sentinel out (ReadFailed # evs) = Some (False, Inl StdoutFailed)"
| "exec_loop sentinel out (ReadLine line # evs) =
     (let trimmed = TrimRight line [CR, LF] in
      if HasPrefix trimmed sentinel
      then Some (False, Inr (out, scan_int (TrimSuffix (TrimPrefix trimmed sentinel) sentinelSuffix) 0))
      else if Contains trimmed sentinel then exec_loop sentinel out evs
      else exec_loop sentinel (capture_write out line) evs)"

definition sentinel_of :: "gostring \<Rightarrow> gostring" where
  "sentinel_of hexid = sentinelPrefix @ hexid @ ''_EC_''"

text \<open>
  The write to the shell's standard input comes before the deadline starts to count and does not look at
  the context: it succeeds, fails, or blocks for ever on a full pipe.
\<close>

datatype stdin_write = Written | WriteError | WriteBlocks

text \<open>\<open>hexid\<close> is the random identifier, \<open>alive\<close> whether the shell runs, \<open>wr\<close> how it takes the command. None is
  a call that does not return.\<close>

definition executeCommand ::
  "(gostring \<Rightarrow> gostring) \<Rightarrow> gostring \<Rightarrow> bool \<Rightarrow> stdin_write \<Rightarrow> exec_event list \<Rightarrow> (bool \<times> (exec_error + execResult)) option" where
  "executeCommand decode hexid alive wr evs =
     (if \<not> alive then Some (False, Inl SessionDead)
      else if wr = WriteBlocks then None
      else if wr = WriteError then Some (False, Inl WriteFailed)
      else case exec_loop (sentinel_of hexid) (NewBoundedCapture maxOutputSize) evs of
             None \<Rightarrow> None
           | Some (closed, Inl e) \<Rightarrow> Some (closed, Inl e)
           | Some (closed, Inr (out, exitCode)) \<Rightarrow>
               (case capture_result out of (raw, originalBytes, truncated) \<Rightarrow>
                  Some (closed, Inr \<lparr>erOutput = decode (TrimRight raw [CR, LF]), erExitCode = exitCode,
                                     erOriginalBytes = originalBytes, erTruncated = truncated\<rparr>)))"

subsection \<open>The handler\<close>

definition defaultSessionID :: gostring where
  "defaultSessionID = ''default''"

record BashOutput =
  boSessionID :: gostring
  boOutput :: gostring
  boExitCode :: int
  boIsNew :: bool
  boTruncated :: bool
  boOriginalBytes :: nat
  boCompacted :: bool
  boOmittedLines :: nat
  boCompactGroups :: nat
  boRawOutputID :: gostring

text \<open>The store is passed through; \<open>rnd\<close> is the random identifier and \<open>now\<close> the clock.\<close>

definition PreserveRawOutput ::
  "rawOutputStore \<Rightarrow> gostring option \<Rightarrow> int \<Rightarrow> gostring \<Rightarrow> gostring \<Rightarrow> bool \<Rightarrow> nat \<Rightarrow> rawOutputStore \<times> gostring" where
  "PreserveRawOutput store rnd now source cont truncated originalBytes =
     put store rnd source cont truncated (int originalBytes) now"

definition LoadRawOutput :: "rawOutputStore \<Rightarrow> int \<Rightarrow> gostring \<Rightarrow> rawOutputStore \<times> RawOutputRecord option" where
  "LoadRawOutput store now rid = get store rid now"

definition bash_timeout :: "int option \<Rightarrow> (gostring + int)" where
  "bash_timeout flex =
     (case flex of
        None \<Rightarrow> Inl ''timeout (seconds) must be an integer''
      | Some t0 \<Rightarrow>
          let t = (if t0 \<le> 0 then 120 else t0) in
          if maxTimeoutSec < t then Inl (''timeout_sec exceeds maximum ('' @ show_int maxTimeoutSec @ '')'') else Inr t)"

definition ellipsis :: gostring where
  "ellipsis = [CHR 0xE2, CHR 0x80, CHR 0xA6]"

text \<open>The part of \<open>Handle\<close> behind a successful run: the structured output, the text, whether it is an error,
  and the raw output store.\<close>

definition bash_display ::
  "gostring \<Rightarrow> rawOutputStore \<Rightarrow> gostring option \<Rightarrow> int \<Rightarrow> execResult \<Rightarrow> OutputCompaction \<times> gostring \<times> gostring \<times> rawOutputStore" where
  "bash_display view store rnd now result =
     (let plain = \<lparr>ocText = erOutput result, Compacted = False, InputLines = 0, OutputLines = 0, OmittedLines = 0, Groups = 0\<rparr> in
      if view = ''compact'' then
        (let c = CompactDiagnosticOutput (erOutput result) in
         if Compacted c then
           (case PreserveRawOutput store rnd now ''bash'' (erOutput result) (erTruncated result) (erOriginalBytes result) of
              (store1, rid) \<Rightarrow> (c, ocText c, rid, store1))
         else (c, erOutput result, [], store))
      else (plain, erOutput result, [], store))"

definition bash_text ::
  "gostring \<Rightarrow> gostring \<Rightarrow> bool \<Rightarrow> shellKind \<Rightarrow> execResult \<Rightarrow> OutputCompaction \<Rightarrow> gostring \<Rightarrow> gostring \<Rightarrow> gostring" where
  "bash_text sid command isNew kind result c displayOutput rid =
     (if isNew then ''[New session: '' @ sid @ '' ('' @ shellKind_String kind @ '')]'' @ [LF]
        @ (if kind = kindPowerShell
           then ''[Warning: PowerShell 5.1 does not support && and ||. Use ; (semicolons) to chain commands.]'' @ [LF] else [])
      else [])
     @ ''$ '' @ fst (TruncateRunes command 500 (ellipsis @ '' [command abbreviated]'')) @ [LF]
     @ (if displayOutput \<noteq> [] then displayOutput @ (if HasSuffix displayOutput [LF] then [] else [LF]) else [])
     @ ''[exit code: '' @ show_int (erExitCode result) @ '']''
     @ (if erTruncated result
        then [LF] @ ''[output truncated: original_bytes='' @ show_nat (erOriginalBytes result) @ ''; retained_bytes=''
             @ show_int maxOutputSize @ ''; head and tail shown]'' else [])
     @ (if Compacted c
        then [LF] @ ''[diagnostics compacted: omitted_lines='' @ show_nat (OmittedLines c) @ ''; groups='' @ show_nat (Groups c)
             @ (if rid \<noteq> [] then ''; raw_output_id='' @ rid @ ''; retrieve with toolbox operation=output''
                else ''; raw output preservation unavailable'') @ '']'' else [])
     @ (if kind = kindPowerShell \<and> hasChainOps command
        then [LF] @ ''[Warning: && / || were auto-transformed for PowerShell 5.1 compatibility. Use ; to chain commands.]'' else [])"

definition bash_report ::
  "gostring \<Rightarrow> gostring \<Rightarrow> gostring \<Rightarrow> bool \<Rightarrow> shellKind \<Rightarrow> rawOutputStore \<Rightarrow> gostring option \<Rightarrow> int \<Rightarrow> execResult
   \<Rightarrow> gostring \<times> bool \<times> BashOutput \<times> rawOutputStore" where
  "bash_report sid command view isNew kind store rnd now result =
     (case bash_display view store rnd now result of (c, displayOutput, rid, store1) \<Rightarrow>
        (bash_text sid command isNew kind result c displayOutput rid, erExitCode result \<noteq> 0,
         \<lparr>boSessionID = sid, boOutput = displayOutput, boExitCode = erExitCode result, boIsNew = isNew,
          boTruncated = erTruncated result, boOriginalBytes = erOriginalBytes result, boCompacted = Compacted c,
          boOmittedLines = OmittedLines c, boCompactGroups = Groups c, boRawOutputID = rid\<rparr>, store1))"

subsection \<open>Facts on the loop\<close>

lemma ParseUint_show_nat10:
  assumes "n < 2 ^ bits"
  shows "ParseUint (show_nat n) 10 bits = Inr n"
proof -
  have "parse_digits 10 False (2 ^ bits - 1) 0 (show_nat n) = Inr n"
    using parse_digits_decimal [OF show_nat_digits, of 0 n "2 ^ bits - 1" False] assms
      digits_val_show_nat [of n] by (simp add: digits_val_def del: digits_val_show_nat)
  then show ?thesis by (simp add: ParseUint_def)
qed

lemma TrimLeftSpace_id: "s \<noteq> [] \<Longrightarrow> (of_char (hd s) :: nat) < 128 \<Longrightarrow> \<not> is_space (of_char (hd s)) \<Longrightarrow> TrimLeftSpace s = s"
  by (cases s) (simp_all add: TrimLeftSpace.simps [of "_ # _"] decode_rune_ascii)

lemma scan_int_show:
  assumes "- (2 ^ 63) \<le> code" "code < 2 ^ 63"
  shows "scan_int (show_int code) old = code"
proof -
  define n where "n = nat \<bar>code\<bar>"
  have d: "list_all is_digit (show_nat n)" "show_nat n \<noteq> []" by (simp_all add: show_nat_digits)
  then have tw: "takeWhile is_digit (show_nat n) = show_nat n" by (simp add: takeWhile_eq_all_conv list_all_iff)
  have hd: "is_digit (hd (show_nat n))" using d by (cases "show_nat n") auto
  have n: "n < 2 ^ 64" "code < 0 \<Longrightarrow> n \<le> 2 ^ 63" "\<not> code < 0 \<Longrightarrow> n < 2 ^ 63"
    using assms by (auto simp: n_def nat_less_iff nat_le_iff)
  note pu = ParseUint_show_nat10 [OF n(1)]
  show ?thesis
  proof (cases "code < 0")
    case True
    have sh: "show_int code = CHR ''-'' # show_nat n" using True by (simp add: show_int_def n_def)
    have "TrimLeftSpace (show_int code) = show_int code"
      unfolding sh by (rule TrimLeftSpace_id) (simp_all add: is_space_def)
    moreover have "ParseInt (CHR ''-'' # show_nat n) 10 64 = Inr code"
      using pu n True by (simp add: ParseInt_def n_def)
    ultimately show ?thesis by (simp add: scan_int_def sh tw d)
  next
    case False
    have sh: "show_int code = show_nat n" using False by (simp add: show_int_def n_def)
    have ns: "hd (show_nat n) \<notin> set ''+-''" using is_digit_not_sign [OF hd] by simp
    have "TrimLeftSpace (show_int code) = show_int code"
      unfolding sh using hd d(2) by (intro TrimLeftSpace_id) (auto simp: is_digit_def is_space_def)
    moreover have "ParseInt (show_nat n) 10 64 = Inr code"
      using pu n False ns d(2) by (simp add: ParseInt_def n_def Let_def)
    moreover have "takeWhile (\<lambda>c. c \<in> set ''+-'') (take 1 (show_nat n)) = []"
      using ns d(2) by (cases "show_nat n") auto
    ultimately show ?thesis by (simp add: scan_int_def sh tw d Let_def)
  qed
qed

lemma TrimRight_prefix: "prefix (TrimRight s cs) s"
  unfolding TrimRight_def by (metis prefix_def rev_append rev_rev_ident takeWhile_dropWhile_id)

lemma Contains_TrimRight: "Contains (TrimRight s cs) t \<Longrightarrow> Contains s t"
  using TrimRight_prefix [of s cs] by (fastforce simp: Contains_iff prefix_def)

lemma exec_loop_lines:
  assumes "list_all (\<lambda>l. \<not> Contains l sen) ls"
  shows "exec_loop sen out (map ReadLine ls @ evs) = exec_loop sen (foldl capture_write out ls) evs"
  using assms
proof (induction ls arbitrary: out)
  case (Cons l ls)
  have "\<not> Contains (TrimRight l [CR, LF]) sen" using Cons.prems Contains_TrimRight [of l "[CR, LF]" sen] by auto
  moreover have "Contains x sen" if "HasPrefix x sen" for x
    using that by (auto simp: Contains_iff prefix_def intro: exI [of _ "[]"])
  ultimately show ?case using Cons by (auto simp: Let_def)
qed simp

lemma exec_loop_sentinel:
  assumes "- (2 ^ 63) \<le> code" "code < 2 ^ 63"
  shows "exec_loop sen out (ReadLine (sen @ show_int code @ sentinelSuffix @ [LF]) # evs) = Some (False, Inr (out, code))"
proof -
  have "TrimRight (sen @ show_int code @ sentinelSuffix @ [LF]) [CR, LF] = sen @ show_int code @ sentinelSuffix"
    by (simp add: TrimRight_def sentinelSuffix_def)
  moreover have "TrimPrefix (sen @ show_int code @ sentinelSuffix) sen = show_int code @ sentinelSuffix"
    by (simp add: TrimPrefix_def)
  moreover have "TrimSuffix (show_int code @ sentinelSuffix) sentinelSuffix = show_int code"
    by (simp add: TrimSuffix_def suffix_def)
  ultimately show ?thesis using scan_int_show [OF assms, of 0] by (simp add: Let_def)
qed

text \<open>C10: when the shell prints lines without the sentinel and then the sentinel line with an exit code, the
  run ends there, whatever follows, leaves the session open, and returns that exit code, the exact
  number of bytes printed and, within the limit of 32768 bytes, all of them but trailing newlines.\<close>

theorem executeCommand_returns:
  assumes "list_all (\<lambda>l. \<not> Contains l (sentinel_of hexid)) ls" "- (2 ^ 63) \<le> code" "code < 2 ^ 63"
  shows "\<exists>r. executeCommand decode hexid True Written
        (map ReadLine ls @ ReadLine (sentinel_of hexid @ show_int code @ sentinelSuffix @ [LF]) # evs) = Some (False, Inr r)
    \<and> erExitCode r = code \<and> erOriginalBytes r = length (concat ls) \<and> erTruncated r = (32768 < length (concat ls))
    \<and> (length (concat ls) \<le> 32768 \<longrightarrow> erOutput r = decode (TrimRight (ToValidUTF8 (concat ls)) [CR, LF]))"
proof -
  let ?c = "foldl capture_write (NewBoundedCapture maxOutputSize) ls"
  have lim: "nat maxOutputSize = 32768" by (simp add: maxOutputSize_def DefaultOutputChars_def)
  note cap = capture_result_eq [OF refl, of maxOutputSize "''head_tail''" ls, unfolded lim, folded NewBoundedCapture_def]
  obtain raw ob tr where res: "capture_result ?c = (raw, ob, tr)" by (metis prod_cases3)
  have "ob = length (concat ls)" "tr = (32768 < length (concat ls))"
    "length (concat ls) \<le> 32768 \<Longrightarrow> raw = ToValidUTF8 (concat ls)"
    using cap unfolding res by (auto split: if_splits)
  moreover have "executeCommand decode hexid True Written
        (map ReadLine ls @ ReadLine (sentinel_of hexid @ show_int code @ sentinelSuffix @ [LF]) # evs)
      = Some (False, Inr \<lparr>erOutput = decode (TrimRight raw [CR, LF]), erExitCode = code, erOriginalBytes = ob, erTruncated = tr\<rparr>)"
    unfolding executeCommand_def exec_loop_lines [OF assms(1)] exec_loop_sentinel [OF assms(2,3)] by (simp add: res)
  ultimately show ?thesis by simp
qed

theorem executeCommand_returns_witness:
  "let ls = [''hello'' @ [LF], [LF]]; sen = sentinel_of ''0011''
   in \<exists>r. executeCommand id ''0011'' True Written
        (map ReadLine ls @ [ReadLine (sen @ show_int 3 @ sentinelSuffix @ [LF]), ReadFailed]) = Some (False, Inr r)
      \<and> erExitCode r = 3 \<and> erOriginalBytes r = 7 \<and> \<not> erTruncated r"
proof -
  have "list_all (\<lambda>l. \<not> Contains l (sentinel_of ''0011'')) [''hello'' @ [LF], [LF]]"
    by (simp add: Contains_def sentinel_of_def sentinelPrefix_def)
  from executeCommand_returns [OF this, of 3 id "[ReadFailed]"] show ?thesis by (auto simp: Let_def)
qed

subsection \<open>The size of a result\<close>

lemma exec_loop_capture:
  "exec_loop sen out evs = Some (closed, Inr (out', code)) \<Longrightarrow> \<exists>ls. out' = foldl capture_write out ls"
proof (induction sen out evs rule: exec_loop.induct)
  case (5 sen out line evs)
  then consider "out' = out" | "exec_loop sen out evs = Some (closed, Inr (out', code))"
    "HasPrefix (TrimRight line [CR, LF]) sen = False" "Contains (TrimRight line [CR, LF]) sen"
    | "exec_loop sen (capture_write out line) evs = Some (closed, Inr (out', code))"
    "HasPrefix (TrimRight line [CR, LF]) sen = False" "\<not> Contains (TrimRight line [CR, LF]) sen"
    by (auto simp: Let_def split: if_splits)
  then show ?case
  proof cases
    case 1
    then show ?thesis by (intro exI [of _ "[]"]) simp
  next
    case 2
    then show ?thesis using 5(1) by auto
  next
    case 3
    then obtain ls where "out' = foldl capture_write (capture_write out line) ls" using 5(2) by auto
    then show ?thesis by (intro exI [of _ "line # ls"]) simp
  qed
qed simp_all

lemma length_to_valid: "length (to_valid bad s rep) \<le> max 1 (length rep) * length s"
proof (induction bad s rep rule: to_valid.induct)
  case (1 bad s rep)
  show ?case
  proof (cases "s = []")
    case True
    then show ?thesis by (simp add: to_valid.simps)
  next
    case False
    let ?m = "max 1 (length rep)"
    obtain r w where d: "decode_rune s = (r, w)" by fastforce
    have w: "0 < w" "w \<le> length s"
      using decode_rune_width_pos [of s] decode_rune_width_le [of s] d False by auto
    have m: "k + ?m * (length s - k) \<le> ?m * length s" if "k \<le> length s" for k
    proof -
      have "k + ?m * (length s - k) \<le> ?m * k + ?m * (length s - k)" by simp
      also have "\<dots> = ?m * length s" using that by (simp add: add_mult_distrib2 [symmetric])
      finally show ?thesis .
    qed
    show ?thesis
    proof (cases "r = RuneError \<and> w = 1")
      case True
      have "length (to_valid True (drop 1 s) rep) \<le> ?m * (length s - 1)" using 1(1) [OF False d [symmetric] True] by simp
      moreover have "length rep + ?m * (length s - 1) \<le> ?m * length s"
        using False by (cases "length s") (auto simp: mult_Suc_right)
      ultimately show ?thesis using True False d by (subst to_valid.simps) (simp split: if_splits)
    next
      case nr: False
      have "length (to_valid False (drop w s) rep) \<le> ?m * (length s - w)" using 1(2) [OF False d [symmetric] nr] by simp
      moreover have "to_valid bad s rep = take w s @ to_valid False (drop w s) rep"
        using nr False d by (subst to_valid.simps) auto
      ultimately show ?thesis using m [OF w(2)] w by simp
    qed
  qed
qed

lemma length_ToValidUTF8: "length (ToValidUTF8 s) \<le> 3 * length s"
proof -
  have "length (encode_rune RuneError) = 3" by (simp add: encode_rune_def Let_def)
  then show ?thesis using length_to_valid [of False s "encode_rune RuneError"] by (simp add: ToValidUTF8_def)
qed

lemma length_show_nat: "n < 10 ^ Suc k \<Longrightarrow> length (show_nat n) \<le> Suc k"
proof (induction k arbitrary: n)
  case 0
  then show ?case by (subst show_nat.simps) simp
next
  case (Suc k)
  have "n div 10 < 10 ^ Suc k" using Suc.prems by (simp add: div_less_iff_less_mult)
  from Suc.IH [OF this] show ?case by (subst show_nat.simps) simp
qed

lemma length_capture_result:
  assumes "c = foldl capture_write (NewBoundedCapture maxOutputSize) ls" "length (concat ls) < 2 ^ 63"
  shows "length (fst (capture_result c)) \<le> 4 * 1024 * 1024"
proof -
  note c = assms(1) [unfolded NewBoundedCapture_def]
  have lim: "nat maxOutputSize = 32768" by (simp add: maxOutputSize_def DefaultOutputChars_def)
  note L = capture_limits [OF c, unfolded lim]
  have "length (last_n (tailLimit c) (drop (headLimit c) (concat ls))) \<le> tailLimit c" by (simp add: last_n_def)
  then have parts: "length (chead c) \<le> 32768" "length (ctail c) \<le> 32768"
    using L by (auto simp: captured_def)
  have tot: "ctotal c < 10 ^ Suc 18" "climit c < 10 ^ Suc 18"
    using L assms(2) by (simp_all add: captured_def)
  have mk: "length (capture_marker c) \<le> 100"
    using length_show_nat [OF tot(1)] length_show_nat [OF tot(2)] by (simp add: capture_marker_def)
  have "length (ToValidUTF8 (ToValidUTF8 (chead c) @ capture_marker c @ ToValidUTF8 (ctail c))) \<le> 600000"
    using length_ToValidUTF8 [of "ToValidUTF8 (chead c) @ capture_marker c @ ToValidUTF8 (ctail c)"] mk parts
      length_ToValidUTF8 [of "chead c"] length_ToValidUTF8 [of "ctail c"] by simp
  moreover have "length (ToValidUTF8 (concat ls)) \<le> 600000" if "length (concat ls) \<le> 32768"
    using length_ToValidUTF8 [of "concat ls"] that by simp
  ultimately have "length (fst (capture_result c)) \<le> 600000" using capture_result_eq [OF c, unfolded lim] by simp
  then show ?thesis by simp
qed

lemma executeCommand_size:
  assumes "executeCommand id hexid True Written evs = Some (closed, Inr r)" "erOriginalBytes r < 2 ^ 63"
  shows "length (erOutput r) \<le> 4 * 1024 * 1024"
proof -
  obtain out code where "exec_loop (sentinel_of hexid) (NewBoundedCapture maxOutputSize) evs = Some (closed, Inr (out, code))"
    and r: "erOutput r = TrimRight (fst (capture_result out)) [CR, LF]" "erOriginalBytes r = fst (snd (capture_result out))"
    using assms(1) by (auto simp: executeCommand_def split: option.splits sum.splits prod.splits)
  then obtain ls where ls: "out = foldl capture_write (NewBoundedCapture maxOutputSize) ls"
    using exec_loop_capture by blast
  have "fst (snd (capture_result out)) = length (concat ls)"
    using capture_result_eq [OF ls [unfolded NewBoundedCapture_def]] by simp
  then have "length (fst (capture_result out)) \<le> 4 * 1024 * 1024"
    using length_capture_result [OF ls] assms(2) r(2) by simp
  moreover have "length (erOutput r) \<le> length (fst (capture_result out))"
    unfolding r(1) by (intro prefix_length_le TrimRight_prefix)
  ultimately show ?thesis by simp
qed

subsection \<open>Folded output can be had back\<close>

text \<open>when the handler folds the output of a command for display and a random identifier could be
  drawn, the full output is in the raw output store under the identifier it reports: reading it
  within the 30 minutes it is kept gives the output of the run, byte for byte, whatever the store
  held before.\<close>

theorem folded_output_retrievable:
  assumes "executeCommand id hexid True Written evs = Some (closed, Inr result)" "erOriginalBytes result < 2 ^ 63"
    and "raw_reach 64 (4 * 1024 * 1024) (30 * 60 * 1000000000) now0 store" "entries store (''out_'' @ hex) = None"
    and "bash_report sid command ''compact'' isNew kind store (Some hex) now result = (txt, isErr, out, store1)"
    and "boCompacted out" "now0 \<le> now" "now \<le> later" "later < now + 30 * 60 * 1000000000"
  shows "boRawOutputID out = ''out_'' @ hex
    \<and> map_option rContent (snd (LoadRawOutput store1 later (boRawOutputID out))) = Some (erOutput result)"
proof -
  let ?c = "CompactDiagnosticOutput (erOutput result)"
  obtain rid where put: "put store (Some hex) ''bash'' (erOutput result) (erTruncated result) (int (erOriginalBytes result)) now
      = (store1, rid)" and id: "boRawOutputID out = rid" and comp: "Compacted ?c"
    using assms(5,6)
    by (auto simp: bash_report_def bash_display_def PreserveRawOutput_def Let_def split: if_splits prod.splits)
  have ne: "erOutput result \<noteq> []" using comp by (auto simp: CompactDiagnosticOutput_def)
  have ok: "raw_ok now0 store" "maxEntries store = 64" "maxBytes store = 4 * 1024 * 1024" "ttl store = 30 * 60 * 1000000000"
    using raw_reach_ok [OF assms(3)] by auto
  have fits: "int (length (erOutput result)) \<le> maxBytes store"
    using executeCommand_size [OF assms(1,2)] ok(3) by simp
  note p = put_fits [OF ok(1) assms(7) ne _ fits assms(4), of "''bash''" "erTruncated result" "int (erOriginalBytes result)",
      unfolded put fst_conv snd_conv]
  have "rid = ''out_'' @ hex" "raw_ok now store1"
    "entries store1 rid = Some \<lparr>rID = rid, rSource = ''bash'', rContent = erOutput result, rTruncated = erTruncated result,
       rOriginalBytes = int (erOriginalBytes result), rCreatedAt = now, rExpiresAt = now + 30 * 60 * 1000000000\<rparr>"
    using p ok by simp_all
  then show ?thesis
    using removeExpired_ok [of now store1 later] assms(9) id by (simp add: LoadRawOutput_def get_def Let_def)
qed

text \<open>A run that prints the same note twice.\<close>

definition note_run :: "exec_event list" where
  "note_run = [ReadLine (''note: a'' @ [LF]), ReadLine (''note: a'' @ [LF]),
     ReadLine (sentinel_of ''0a'' @ show_int 0 @ sentinelSuffix @ [LF])]"

definition note_result :: execResult where
  "note_result = \<lparr>erOutput = ''note: a'' @ [LF] @ ''note: a'', erExitCode = 0, erOriginalBytes = 16, erTruncated = False\<rparr>"

lemma note_run_result: "executeCommand id ''0a'' True Written note_run = Some (False, Inr note_result)"
proof -
  let ?ls = "[''note: a'' @ [LF], ''note: a'' @ [LF]]"
  let ?c = "foldl capture_write (NewBoundedCapture maxOutputSize) ?ls"
  have sen: "list_all (\<lambda>l. \<not> Contains l (sentinel_of ''0a'')) ?ls"
    by (simp add: Contains_def sentinel_of_def sentinelPrefix_def)
  have lim: "nat maxOutputSize = 32768" by (simp add: maxOutputSize_def DefaultOutputChars_def)
  have cap: "capture_result ?c = (ToValidUTF8 (concat ?ls), 16, False)"
    using capture_result_eq [OF refl, of maxOutputSize "''head_tail''" ?ls, unfolded lim, folded NewBoundedCapture_def] by simp
  have utf: "ToValidUTF8 (concat ?ls) = concat ?ls"
    by (simp add: ToValidUTF8_def to_valid.simps decode_rune_ascii)
  have run: "note_run = map ReadLine ?ls @ [ReadLine (sentinel_of ''0a'' @ show_int 0 @ sentinelSuffix @ [LF])]"
    by (simp add: note_run_def)
  show ?thesis
    unfolding executeCommand_def run exec_loop_lines [OF sen] using exec_loop_sentinel [of 0 "sentinel_of ''0a''" ?c "[]"] cap utf
    by (simp add: note_result_def TrimRight_def)
qed

lemma note_compacted: "Compacted (CompactDiagnosticOutput (erOutput note_result))"
proof -
  have ts: "TrimSpace ''note: a'' = ''note: a''" by (rule TrimSpace_id) (simp_all add: is_space_def)
  have tl: "ToLower ''note: a'' = ''note: a''"
    by (simp add: ToLower_def runes.simps decode_rune_ascii rune_lower_def string_of_runes_def encode_rune_def char_of_def bit_Suc_0_iff)
  have d: "isDiagnosticLine ''note: a''" unfolding isDiagnosticLine_def ts tl by simp
  have g: "parseGitLineEndingWarning ''note: a'' = None" by (simp add: parseGitLineEndingWarning_def ts git_prefix_def)
  have ls: "lines_of (ReplaceAll (erOutput note_result) CRLF [LF]) = [''note: a'', ''note: a'']"
    by (simp add: note_result_def ReplaceAll_miss)
  have "\<not> HasSuffix (ReplaceAll (erOutput note_result) CRLF [LF]) [LF]"
    by (simp add: note_result_def ReplaceAll_miss suffix_def)
  moreover have "compact_loop [''note: a'', ''note: a''] = ([''note: a [x2]''], 1, 1)"
    by (simp add: compact_loop.simps(2) g d show_nat.simps digit_char_def char_of_def bit_Suc_0_iff)
  ultimately show ?thesis by (simp add: CompactDiagnosticOutput_def ls Let_def) (simp add: note_result_def)
qed

theorem folded_output_retrievable_witness:
  "let (tx, isErr, out, store1) = bash_report defaultSessionID ''make'' ''compact'' False kindGitBash commandRawOutputs (Some ''ab'') 0 note_result
   in boRawOutputID out = ''out_ab''
      \<and> map_option rContent (snd (LoadRawOutput store1 60 ''out_ab'')) = Some (''note: a'' @ [LF] @ ''note: a'')"
proof -
  obtain tx isErr out store1 where b: "bash_report defaultSessionID ''make'' ''compact'' False kindGitBash commandRawOutputs (Some ''ab'') 0 note_result
      = (tx, isErr, out, store1)" by (metis prod_cases4)
  have "boCompacted out"
    using b note_compacted by (auto simp: bash_report_def bash_display_def Let_def split: prod.splits)
  moreover have "raw_reach 64 (4 * 1024 * 1024) (30 * 60 * 1000000000) 0 commandRawOutputs"
    unfolding commandRawOutputs_def by (rule raw_reach.intros)
  moreover have "entries commandRawOutputs (''out_'' @ ''ab'') = None" by (simp add: commandRawOutputs_def newRawOutputStore_def)
  moreover have "erOriginalBytes note_result < 2 ^ 63" by (simp add: note_result_def)
  ultimately have "boRawOutputID out = ''out_'' @ ''ab''
    \<and> map_option rContent (snd (LoadRawOutput store1 60 (boRawOutputID out))) = Some (erOutput note_result)"
    by (intro folded_output_retrievable [OF note_run_result _ _ _ b, where ?now0.0 = 0]) simp_all
  then show ?thesis unfolding b by (auto simp: note_result_def)
qed

subsection \<open>A run ends\<close>

text \<open>
  What ends a run: cancellation, the deadline, the end of the output or the sentinel line. A call returns
  exactly when the shell is dead, refuses the command, or takes it and one of these happens; it closes
  the session exactly when it reports a cancellation or a timeout. A command that the shell does not take
  blocks the call, with the session locked, even when deadline and cancellation come.
\<close>

definition ends_run :: "gostring \<Rightarrow> exec_event \<Rightarrow> bool" where
  "ends_run hexid e \<longleftrightarrow> (case e of ReadLine line \<Rightarrow> prefix (sentinel_of hexid) (TrimRight line [CR, LF]) | _ \<Rightarrow> True)"

lemma exec_loop_ends:
  "(exec_loop (sentinel_of hexid) out evs = None \<longleftrightarrow> list_all (\<lambda>e. \<not> ends_run hexid e) evs)
   \<and> (\<forall>cl r. exec_loop (sentinel_of hexid) out evs = Some (cl, r) \<longrightarrow> (cl \<longleftrightarrow> r = Inl Cancelled \<or> r = Inl TimedOut))"
  by (induction "sentinel_of hexid" out evs rule: exec_loop.induct) (auto simp: Let_def ends_run_def)

theorem executeCommand_outcome:
  "(executeCommand decode hexid alive wr evs = None \<longleftrightarrow>
      alive \<and> (wr = WriteBlocks \<or> wr = Written \<and> list_all (\<lambda>e. \<not> ends_run hexid e) evs))
   \<and> (\<forall>cl r. executeCommand decode hexid alive wr evs = Some (cl, r) \<longrightarrow> (cl \<longleftrightarrow> r = Inl Cancelled \<or> r = Inl TimedOut))"
  using exec_loop_ends [of hexid "NewBoundedCapture maxOutputSize" evs]
  by (cases wr) (auto simp: executeCommand_def split: option.splits sum.splits prod.splits)

end
