(* ===== verification/Bash_Pool.thy ===== *)
theory Bash_Pool
  imports Bash_Exec Pools
begin

text \<open>
  The pool of shell sessions (tools/bash/pool.go). Shells are numbered and live in a store, since the
  pool, a running command and a pending removal share a session by pointer. Every critical section
  of the pool is a function; the step relation interleaves the sections of any number of callers
  with the start and the end of commands, which hold the lock of their session.
\<close>

subsection \<open>Sessions and their store\<close>

record shellSession =
  shKey :: gostring
  shKind :: shellKind
  shCreatedAt :: int
  shLastUsed :: int
  shLocked :: bool
  shClosed :: bool

text \<open>\<open>shStarted\<close> records every shell ever started, \<open>shSpawned\<close> those not yet offered to the pool and
  \<open>shRemoving\<close> those taken out by \<open>remove\<close> and waiting to be closed.\<close>

record shellPool =
  shSessions :: "(gostring \<times> nat) list"
  shShells :: "nat \<Rightarrow> shellSession"
  shStarted :: "nat list"
  shSpawned :: "nat list"
  shRemoving :: "nat list"

definition shellMaxSessions :: nat where
  "shellMaxSessions = 5"

definition shellIdleTimeout :: int where
  "shellIdleTimeout = 30 * 60 * 1000000000"

definition shell_upd :: "nat \<Rightarrow> (shellSession \<Rightarrow> shellSession) \<Rightarrow> shellPool \<Rightarrow> shellPool" where
  "shell_upd s f p = p\<lparr>shShells := (shShells p)(s := f (shShells p s))\<rparr>"

definition shell_close :: "nat \<Rightarrow> shellPool \<Rightarrow> shellPool" where
  "shell_close s p = shell_upd s (shClosed_update (\<lambda>_. True)) p"

text \<open>\<open>ProcessState\<close> is set by \<open>Wait\<close>, which only \<open>close\<close> calls.\<close>

definition shell_alive :: "shellPool \<Rightarrow> nat \<Rightarrow> bool" where
  "shell_alive p s = (\<not> shClosed (shShells p s))"

subsection \<open>Eviction\<close>

text \<open>The two nested loops that sort the candidates: the inner one carries the element at \<open>i\<close>.\<close>

fun exchange_pass :: "('a \<Rightarrow> int) \<Rightarrow> 'a \<Rightarrow> 'a list \<Rightarrow> 'a \<times> 'a list" where
  "exchange_pass f x [] = (x, [])"
| "exchange_pass f x (y # ys) =
     (if f y < f x then (let (m, zs) = exchange_pass f y ys in (m, x # zs))
      else (let (m, zs) = exchange_pass f x ys in (m, y # zs)))"

lemma length_exchange_pass [simp]: "length (snd (exchange_pass f x ys)) = length ys"
  by (induction ys arbitrary: x) (auto split: prod.splits simp: Let_def, (metis snd_conv)+)

function exchange_sort :: "('a \<Rightarrow> int) \<Rightarrow> 'a list \<Rightarrow> 'a list" where
  "exchange_sort f [] = []"
| "exchange_sort f (x # xs) = (case exchange_pass f x xs of (m, ys) \<Rightarrow> m # exchange_sort f ys)"
  by pat_completeness auto
termination
  by (relation "measure (length \<circ> snd)") (auto, metis length_exchange_pass snd_conv lessI)

definition shell_victim :: "(nat \<Rightarrow> shellSession) \<Rightarrow> (gostring \<times> nat) list \<Rightarrow> (gostring \<times> nat) option" where
  "shell_victim sh ss = find (\<lambda>c. \<not> shLocked (sh (snd c))) (exchange_sort (\<lambda>c. shLastUsed (sh (snd c))) ss)"

definition shell_evict :: "(nat \<Rightarrow> shellSession) \<Rightarrow> (gostring \<times> nat) list \<Rightarrow> (gostring \<times> nat) list" where
  "shell_evict sh ss = (case shell_victim sh ss of None \<Rightarrow> ss | Some (k, s) \<Rightarrow> AList.delete k ss)"

definition shell_evictOldestLocked :: "shellPool \<Rightarrow> shellPool" where
  "shell_evictOldestLocked p =
     (case shell_victim (shShells p) (shSessions p) of
        None \<Rightarrow> p
      | Some (k, s) \<Rightarrow> (shell_close s p)\<lparr>shSessions := AList.delete k (shSessions p)\<rparr>)"

definition shell_make_room :: "shellPool \<Rightarrow> shellPool" where
  "shell_make_room p = (if shellMaxSessions \<le> length (shSessions p) then shell_evictOldestLocked p else p)"

subsection \<open>The sections of the pool\<close>

text \<open>\<open>getOrCreate\<close> up to the first unlock, the start of a shell outside the lock, and the rest.\<close>

definition shell_lookup :: "shellPool \<Rightarrow> gostring \<Rightarrow> shellPool \<times> nat option" where
  "shell_lookup p key =
     (case map_of (shSessions p) key of
        Some s \<Rightarrow> if shell_alive p s then (p, Some s)
                   else (shell_make_room ((shell_close s p)\<lparr>shSessions := AList.delete key (shSessions p)\<rparr>), None)
      | None \<Rightarrow> (shell_make_room p, None))"

definition shell_spawn :: "shellPool \<Rightarrow> gostring \<Rightarrow> shellKind \<Rightarrow> nat \<Rightarrow> int \<Rightarrow> shellPool" where
  "shell_spawn p key kind s now =
     p\<lparr>shShells := (shShells p)(s := \<lparr>shKey = key, shKind = kind, shCreatedAt = now, shLastUsed = now,
                                      shLocked = False, shClosed = False\<rparr>),
       shStarted := s # shStarted p, shSpawned := s # shSpawned p\<rparr>"

definition shell_insert :: "shellPool \<Rightarrow> nat \<Rightarrow> shellPool \<times> nat \<times> bool" where
  "shell_insert p s =
     (let key = shKey (shShells p s); p1 = p\<lparr>shSpawned := remove1 s (shSpawned p)\<rparr> in
      case map_of (shSessions p1) key of
        Some e \<Rightarrow> (shell_close s p1, e, False)
      | None \<Rightarrow> (let p2 = shell_make_room p1
                  in (p2\<lparr>shSessions := AList.update key s (shSessions p2)\<rparr>, s, True)))"

text \<open>\<open>getOrCreate\<close> without interference; \<open>start\<close> is the shell that was started, if that worked.\<close>

definition shell_getOrCreate ::
  "shellPool \<Rightarrow> gostring \<Rightarrow> (shellKind \<times> nat) option \<Rightarrow> int \<Rightarrow> shellPool \<times> (nat \<times> bool) option" where
  "shell_getOrCreate p key start now =
     (case shell_lookup p key of
        (p1, Some s) \<Rightarrow> (p1, Some (s, False))
      | (p1, None) \<Rightarrow>
          (case start of None \<Rightarrow> (p1, None)
           | Some (kind, s) \<Rightarrow> (case shell_insert (shell_spawn p1 key kind s now) s of (p2, r) \<Rightarrow> (p2, Some r))))"

text \<open>\<open>remove\<close>: the section under the pool lock, and the close once the session lock is free.\<close>

definition shell_remove :: "shellPool \<Rightarrow> gostring \<Rightarrow> shellPool \<times> bool" where
  "shell_remove p key =
     (case map_of (shSessions p) key of
        None \<Rightarrow> (p, False)
      | Some s \<Rightarrow> (p\<lparr>shSessions := AList.delete key (shSessions p), shRemoving := s # shRemoving p\<rparr>, True))"

definition shell_remove_close :: "shellPool \<Rightarrow> nat \<Rightarrow> shellPool" where
  "shell_remove_close p s = shell_close s (p\<lparr>shRemoving := remove1 s (shRemoving p)\<rparr>)"

definition shell_idle :: "shellPool \<Rightarrow> int \<Rightarrow> gostring \<times> nat \<Rightarrow> bool" where
  "shell_idle p now c =
     ((shellIdleTimeout < now - shLastUsed (shShells p (snd c)) \<or> \<not> shell_alive p (snd c))
      \<and> \<not> shLocked (shShells p (snd c)))"

definition shell_reap :: "shellPool \<Rightarrow> int \<Rightarrow> shellPool" where
  "shell_reap p now =
     (fold (\<lambda>c. shell_close (snd c)) (filter (shell_idle p now) (shSessions p)) p)
       \<lparr>shSessions := filter (\<lambda>c. \<not> shell_idle p now c) (shSessions p)\<rparr>"

text \<open>A command locks its session, finds it closed or runs, and on its way out may have closed it.\<close>

definition shell_exec_begin :: "shellPool \<Rightarrow> nat \<Rightarrow> int \<Rightarrow> shellPool \<times> bool" where
  "shell_exec_begin p s now =
     (if \<not> shell_alive p s then (p, False)
      else (shell_upd s (\<lambda>e. e\<lparr>shLocked := True, shLastUsed := now\<rparr>) p, True))"

definition shell_exec_end :: "shellPool \<Rightarrow> nat \<Rightarrow> int \<Rightarrow> bool \<times> (exec_error + execResult) \<Rightarrow> shellPool" where
  "shell_exec_end p s now outcome =
     shell_upd s (\<lambda>e. e\<lparr>shLocked := False, shClosed := (shClosed e \<or> fst outcome),
                        shLastUsed := (if isl (snd outcome) then shLastUsed e else now)\<rparr>) p"

inductive shell_step :: "shellPool \<Rightarrow> shellPool \<Rightarrow> bool" where
  lookup: "shell_step p (fst (shell_lookup p key))"
| spawn: "s \<notin> set (shStarted p) \<Longrightarrow> key \<noteq> [] \<Longrightarrow> shell_step p (shell_spawn p key kind s now)"
| insert: "s \<in> set (shSpawned p) \<Longrightarrow> shell_step p (fst (shell_insert p s))"
| remove: "shell_step p (fst (shell_remove p key))"
| remove_close: "s \<in> set (shRemoving p) \<Longrightarrow> \<not> shLocked (shShells p s) \<Longrightarrow> shell_step p (shell_remove_close p s)"
| reap: "shell_step p (shell_reap p now)"
| exec_begin: "s \<in> set (shStarted p) \<Longrightarrow> s \<notin> set (shSpawned p) \<Longrightarrow> \<not> shLocked (shShells p s) \<Longrightarrow>
    shell_step p (fst (shell_exec_begin p s now))"
| exec_end: "shLocked (shShells p s) \<Longrightarrow> shell_step p (shell_exec_end p s now outcome)"
| reorder: "mset ss = mset (shSessions p) \<Longrightarrow> shell_step p (p\<lparr>shSessions := ss\<rparr>)"

text \<open>Before any shell is started the store holds nothing of interest.\<close>

definition no_shell :: shellSession where
  "no_shell = \<lparr>shKey = [], shKind = kindDefault, shCreatedAt = 0, shLastUsed = 0, shLocked = False, shClosed = False\<rparr>"

definition empty_shells :: shellPool where
  "empty_shells = \<lparr>shSessions = [], shShells = (\<lambda>_. no_shell), shStarted = [], shSpawned = [], shRemoving = []\<rparr>"

inductive shell_reach :: "shellPool \<Rightarrow> bool" where
  start: "shell_reach empty_shells"
| step: "shell_reach p \<Longrightarrow> shell_step p p' \<Longrightarrow> shell_reach p'"

subsection \<open>The exchange sort\<close>

lemma exchange_pass_spec:
  assumes "exchange_pass f x ys = (m, zs)"
  shows "mset (m # zs) = mset (x # ys) \<and> (\<forall>y\<in>set (x # ys). f m \<le> f y)"
  using assms
proof (induction ys arbitrary: x m zs)
  case (Cons y ys)
  obtain m1 z1 where p: "exchange_pass f (if f y < f x then y else x) ys = (m1, z1)" by fastforce
  from Cons.IH [OF p] Cons.prems p show ?case by (auto simp: Let_def split: if_splits)
qed simp

lemma exchange_sort_spec: "mset (exchange_sort f xs) = mset xs \<and> sorted (map f (exchange_sort f xs))"
proof (induction f xs rule: exchange_sort.induct)
  case (2 f x xs)
  obtain m ys where p: "exchange_pass f x xs = (m, ys)" by fastforce
  note s = exchange_pass_spec [OF p]
  have ih: "mset (exchange_sort f ys) = mset ys" "sorted (map f (exchange_sort f ys))" using 2 p by auto
  have "set (exchange_sort f ys) \<subseteq> set (x # xs)"
    using ih(1) s by (metis list.set_intros(2) mset_eq_setD subsetI)
  then show ?case using p s ih by auto
qed simp

lemma find_sorted:
  assumes "find P (exchange_sort f xs) = Some x"
  shows "x \<in> set xs \<and> P x \<and> (\<forall>y\<in>set xs. P y \<longrightarrow> f x \<le> f y)"
proof -
  note s = exchange_sort_spec [of f xs]
  from assms obtain i where i: "i < length (exchange_sort f xs)" "P (exchange_sort f xs ! i)" "x = exchange_sort f xs ! i"
    "\<forall>j<i. \<not> P (exchange_sort f xs ! j)" by (auto simp: find_Some_iff)
  have set_eq: "set (exchange_sort f xs) = set xs" using s mset_eq_setD by blast
  have "f x \<le> f y" if y: "y \<in> set xs" "P y" for y
  proof -
    from y(1) obtain j where j: "j < length (exchange_sort f xs)" "y = exchange_sort f xs ! j"
      unfolding set_eq [symmetric] by (auto simp: in_set_conv_nth)
    with i y(2) have "i \<le> j" using not_le by blast
    with s i j show ?thesis by (auto simp: sorted_iff_nth_mono)
  qed
  with i set_eq show ?thesis using nth_mem [OF i(1)] by auto
qed

lemma shell_victim_None: "shell_victim sh ss = None \<longleftrightarrow> list_all ((\<lambda>s. shLocked (sh s)) \<circ> snd) ss"
proof -
  have "set (exchange_sort (\<lambda>c. shLastUsed (sh (snd c))) ss) = set ss"
    by (rule mset_eq_setD [OF exchange_sort_spec [THEN conjunct1]])
  then have "list_all ((\<lambda>s. shLocked (sh s)) \<circ> snd) ss
      = list_all (\<lambda>c. \<not> \<not> shLocked (sh (snd c))) (exchange_sort (\<lambda>c. shLastUsed (sh (snd c))) ss)"
    by (simp only: list_all_iff comp_def not_not)
  then show ?thesis unfolding shell_victim_def by (simp only: find_None_iff list_all_iff) metis
qed

interpretation shells: idle_pool "\<lambda>s. shLastUsed (sh s)" "\<lambda>s. shLocked (sh s)" "shell_evict sh" for sh
proof
  fix p :: "(gostring \<times> nat) list" assume "list_all ((\<lambda>s. shLocked (sh s)) \<circ> snd) p"
  then show "shell_evict sh p = p" by (simp add: shell_evict_def shell_victim_None [symmetric])
next
  fix p :: "(gostring \<times> nat) list" assume "\<not> list_all ((\<lambda>s. shLocked (sh s)) \<circ> snd) p"
  then obtain k s where v: "shell_victim sh p = Some (k, s)" by (fastforce simp: shell_victim_None [symmetric])
  with find_sorted [OF v [unfolded shell_victim_def]]
  show "\<exists>k e. (k, e) \<in> set p \<and> \<not> shLocked (sh e) \<and> shell_evict sh p = AList.delete k p
      \<and> (\<forall>(k', e')\<in>set p. \<not> shLocked (sh e') \<longrightarrow> shLastUsed (sh e) \<le> shLastUsed (sh e'))"
    by (intro exI [of _ k] exI [of _ s]) (auto simp: shell_evict_def)
qed

subsection \<open>The invariant\<close>

abbreviation pooled_shells :: "shellPool \<Rightarrow> nat set" where
  "pooled_shells p \<equiv> snd ` set (shSessions p)"

text \<open>Every shell started is in the pool, on its way in, on its way out, or closed; a session that runs a
  command is open; a shell on its way in is unknown to everybody else.\<close>

definition shell_ok :: "shellPool \<Rightarrow> bool" where
  "shell_ok p =
     (pool_wf (shSessions p) \<and> (\<forall>(k, s)\<in>set (shSessions p). shKey (shShells p s) = k)
      \<and> distinct (shStarted p) \<and> distinct (shSpawned p)
      \<and> pooled_shells p \<union> set (shSpawned p) \<union> set (shRemoving p) \<subseteq> set (shStarted p)
      \<and> (\<forall>s\<in>set (shStarted p). shClosed (shShells p s) \<or> s \<in> pooled_shells p \<union> set (shSpawned p) \<union> set (shRemoving p))
      \<and> (\<forall>s. shLocked (shShells p s) \<longrightarrow> s \<in> set (shStarted p) \<and> \<not> shClosed (shShells p s))
      \<and> (\<forall>s\<in>set (shSpawned p). \<not> shLocked (shShells p s) \<and> \<not> shClosed (shShells p s) \<and> shKey (shShells p s) \<noteq> []
           \<and> s \<notin> pooled_shells p \<and> s \<notin> set (shRemoving p)))"

lemma shell_okD:
  assumes "shell_ok p"
  shows "pool_wf (shSessions p)" "(k, s) \<in> set (shSessions p) \<Longrightarrow> shKey (shShells p s) = k"
    "distinct (shStarted p)" "distinct (shSpawned p)"
    "pooled_shells p \<subseteq> set (shStarted p)" "set (shSpawned p) \<subseteq> set (shStarted p)" "set (shRemoving p) \<subseteq> set (shStarted p)"
    "s \<in> set (shStarted p) \<Longrightarrow> shClosed (shShells p s) \<or> s \<in> pooled_shells p \<union> set (shSpawned p) \<union> set (shRemoving p)"
    "shLocked (shShells p s) \<Longrightarrow> s \<in> set (shStarted p) \<and> \<not> shClosed (shShells p s)"
    "s \<in> set (shSpawned p) \<Longrightarrow> \<not> shLocked (shShells p s) \<and> \<not> shClosed (shShells p s) \<and> shKey (shShells p s) \<noteq> []
       \<and> s \<notin> pooled_shells p \<and> s \<notin> set (shRemoving p)"
  using assms unfolding shell_ok_def by (blast | fast)+

lemma shell_okI:
  assumes "pool_wf (shSessions p)" "\<And>k s. (k, s) \<in> set (shSessions p) \<Longrightarrow> shKey (shShells p s) = k"
    "distinct (shStarted p)" "distinct (shSpawned p)"
    "pooled_shells p \<subseteq> set (shStarted p)" "set (shSpawned p) \<subseteq> set (shStarted p)" "set (shRemoving p) \<subseteq> set (shStarted p)"
    "\<And>s. s \<in> set (shStarted p) \<Longrightarrow> shClosed (shShells p s) \<or> s \<in> pooled_shells p \<union> set (shSpawned p) \<union> set (shRemoving p)"
    "\<And>s. shLocked (shShells p s) \<Longrightarrow> s \<in> set (shStarted p) \<and> \<not> shClosed (shShells p s)"
    "\<And>s. s \<in> set (shSpawned p) \<Longrightarrow> \<not> shLocked (shShells p s) \<and> \<not> shClosed (shShells p s) \<and> shKey (shShells p s) \<noteq> []
       \<and> s \<notin> pooled_shells p \<and> s \<notin> set (shRemoving p)"
  shows "shell_ok p"
  unfolding shell_ok_def by (intro conjI ballI allI impI) (use assms in \<open>auto simp only: Un_subset_iff split: prod.splits\<close>)

lemma shell_close_fields [simp]:
  "shSessions (shell_close s p) = shSessions p" "shStarted (shell_close s p) = shStarted p"
  "shSpawned (shell_close s p) = shSpawned p" "shRemoving (shell_close s p) = shRemoving p"
  "shKey (shShells (shell_close s p) i) = shKey (shShells p i)"
  "shLocked (shShells (shell_close s p) i) = shLocked (shShells p i)"
  "shLastUsed (shShells (shell_close s p) i) = shLastUsed (shShells p i)"
  "shClosed (shShells (shell_close s p) i) = (i = s \<or> shClosed (shShells p i))"
  by (simp_all add: shell_close_def shell_upd_def)

text \<open>Taking entries out of the pool is fine when they are unlocked and closed.\<close>

lemma shell_ok_drop:
  assumes ok: "shell_ok p" and q: "shSessions q = filter (\<lambda>c. \<not> P c) (shSessions p)" "shStarted q = shStarted p"
    "shSpawned q = shSpawned p" "shRemoving q = shRemoving p"
    and sh: "\<And>i. shKey (shShells q i) = shKey (shShells p i)" "\<And>i. shLocked (shShells q i) = shLocked (shShells p i)"
      "\<And>i. shClosed (shShells q i) = (shClosed (shShells p i) \<or> (\<exists>c\<in>set (shSessions p). P c \<and> snd c = i))"
    and P: "\<And>c. c \<in> set (shSessions p) \<Longrightarrow> P c \<Longrightarrow> \<not> shLocked (shShells p (snd c))"
  shows "shell_ok q"
proof -
  note d = shell_okD [OF ok]
  have sub: "pooled_shells q \<subseteq> pooled_shells p" using q(1) by auto
  show ?thesis
  proof (rule shell_okI)
    show "pool_wf (shSessions q)" unfolding q(1) by (rule pool_wf_filter [OF d(1)])
    show "shKey (shShells q s) = k" if "(k, s) \<in> set (shSessions q)" for k s using that d(2) by (auto simp: q(1) sh(1))
    show "shClosed (shShells q s) \<or> s \<in> pooled_shells q \<union> set (shSpawned q) \<union> set (shRemoving q)"
      if "s \<in> set (shStarted q)" for s using that d(8) [of s] unfolding q sh(3) by auto
    show "s \<in> set (shStarted q) \<and> \<not> shClosed (shShells q s)" if "shLocked (shShells q s)" for s
      using that d(9) P unfolding sh q(2) by blast
    show "\<not> shLocked (shShells q s) \<and> \<not> shClosed (shShells q s) \<and> shKey (shShells q s) \<noteq> []
           \<and> s \<notin> pooled_shells q \<and> s \<notin> set (shRemoving q)" if "s \<in> set (shSpawned q)" for s
      using that d(10) [of s] sub unfolding sh q(3,4) by blast
  qed (use d(3-7) sub q(2-4) in auto)
qed

lemma pool_entry: "pool_wf ss \<Longrightarrow> (k, s) \<in> set ss \<Longrightarrow> c \<in> set ss \<Longrightarrow> fst c = k \<Longrightarrow> snd c = s"
  by (cases c) (auto simp: pool_wf_def dest: eq_key_imp_eq_value)

lemma shell_ok_close_entry:
  assumes ok: "shell_ok p" and e: "(k, s) \<in> set (shSessions p)" "\<not> shLocked (shShells p s)"
  shows "shell_ok ((shell_close s p)\<lparr>shSessions := AList.delete k (shSessions p)\<rparr>)"
proof (rule shell_ok_drop [OF ok, where P = "\<lambda>c. fst c = k"])
  note one = pool_entry [OF shell_okD(1) [OF ok] e(1)]
  show "\<not> shLocked (shShells p (snd c))" if "c \<in> set (shSessions p)" "fst c = k" for c
    using one [OF that] e(2) by simp
  show "shClosed (shShells ((shell_close s p)\<lparr>shSessions := AList.delete k (shSessions p)\<rparr>) i)
      = (shClosed (shShells p i) \<or> (\<exists>c\<in>set (shSessions p). fst c = k \<and> snd c = i))" for i
  proof -
    have "(\<exists>c\<in>set (shSessions p). fst c = k \<and> snd c = i) = (i = s)" using one e(1) by (metis fst_conv snd_conv)
    then show ?thesis by auto
  qed
qed (simp_all add: delete_conv_filter)

lemma shell_ok_make_room: "shell_ok p \<Longrightarrow> shell_ok (shell_make_room p)"
proof -
  assume ok: "shell_ok p"
  show ?thesis
  proof (cases "shell_victim (shShells p) (shSessions p)")
    case None
    with ok show ?thesis by (simp add: shell_make_room_def shell_evictOldestLocked_def)
  next
    case (Some c)
    obtain k s where c: "c = (k, s)" by fastforce
    have "(k, s) \<in> set (shSessions p)" "\<not> shLocked (shShells p s)"
      using find_sorted [OF Some [unfolded shell_victim_def]] c by auto
    from shell_ok_close_entry [OF ok this] ok show ?thesis
      by (simp add: shell_make_room_def shell_evictOldestLocked_def Some c)
  qed
qed

lemma shell_make_room_fields [simp]:
  "shStarted (shell_make_room p) = shStarted p" "shSpawned (shell_make_room p) = shSpawned p"
  "shKey (shShells (shell_make_room p) i) = shKey (shShells p i)"
  "shLocked (shShells (shell_make_room p) i) = shLocked (shShells p i)"
  "shRemoving (shell_make_room p) = shRemoving p"
  by (simp_all add: shell_make_room_def shell_evictOldestLocked_def split: option.splits)

lemma shell_make_room_sessions:
  "shSessions (shell_make_room p) =
     (if shellMaxSessions \<le> length (shSessions p) then shell_evict (shShells p) (shSessions p) else shSessions p)"
  by (simp add: shell_make_room_def shell_evictOldestLocked_def shell_evict_def split: option.splits)

lemma map_of_entry: "pool_wf ss \<Longrightarrow> map_of ss k = Some s \<Longrightarrow> (k, s) \<in> set ss"
  by (rule map_of_SomeD)

lemma set_update_new: "k \<notin> fst ` set ss \<Longrightarrow> set (AList.update k v ss) = insert (k, v) (set ss)"
  by (induction ss) auto

lemma shell_ok_insert:
  assumes ok: "shell_ok p" and s: "s \<in> set (shSpawned p)"
  shows "shell_ok (fst (shell_insert p s))"
proof (cases "map_of (shSessions p) (shKey (shShells p s))")
  case (Some e)
  note d = shell_okD [OF ok]
  let ?q = "shell_close s (p\<lparr>shSpawned := remove1 s (shSpawned p)\<rparr>)"
  have "shell_ok ?q"
  proof (rule shell_okI)
    fix i assume "i \<in> set (shSpawned ?q)"
    then have "i \<in> set (shSpawned p)" "i \<noteq> s" using d(4) by (auto dest: notin_set_remove1)
    with d(10) [of i] show "\<not> shLocked (shShells ?q i)
        \<and> \<not> shClosed (shShells ?q i)
        \<and> shKey (shShells ?q i) \<noteq> []
        \<and> i \<notin> pooled_shells ?q
        \<and> i \<notin> set (shRemoving ?q)" by simp
  next
    fix i assume "i \<in> set (shStarted ?q)"
    with d(8) [of i] d(4) show "shClosed (shShells ?q i)
      \<or> i \<in> pooled_shells ?q
         \<union> set (shSpawned ?q)
         \<union> set (shRemoving ?q)" by auto
  next
    fix i assume "shLocked (shShells ?q i)"
    with d(9) [of i] d(10) [OF s] show "i \<in> set (shStarted ?q)
      \<and> \<not> shClosed (shShells ?q i)" by auto
  qed (use d(1-7) in \<open>auto dest: notin_set_remove1\<close>)
  with Some show ?thesis by (simp add: shell_insert_def Let_def)
next
  case None
  let ?k = "shKey (shShells p s)" and ?r = "shell_make_room p"
  let ?q = "?r\<lparr>shSpawned := remove1 s (shSpawned p), shSessions := AList.update ?k s (shSessions ?r)\<rparr>"
  note r = shell_ok_make_room [OF ok]
  note d = shell_okD [OF r]
  have sp: "s \<in> set (shSpawned ?r)" using s by simp
  have new: "?k \<notin> fst ` set (shSessions ?r)"
    using None shells.evict_subset [OF shell_okD(1) [OF ok], of "shShells p"]
    by (auto simp: shell_make_room_sessions map_of_eq_None_iff)
  note se = set_update_new [OF new]
  have mem: "i \<in> set (remove1 s (shSpawned p)) \<longleftrightarrow> i \<in> set (shSpawned p) \<and> i \<noteq> s" for i
    using d(4) by simp
  have "shell_ok ?q"
  proof (rule shell_okI)
    show "pool_wf (shSessions ?q)" using d(1) d(10) [OF sp] by (simp add: pool_wf_update)
    show "shClosed (shShells ?q i) \<or> i \<in> pooled_shells ?q \<union> set (shSpawned ?q) \<union> set (shRemoving ?q)"
      if "i \<in> set (shStarted ?q)" for i using that d(8) [of i] mem [of i] by (auto simp: se)
    show "\<not> shLocked (shShells ?q i) \<and> \<not> shClosed (shShells ?q i) \<and> shKey (shShells ?q i) \<noteq> []
       \<and> i \<notin> pooled_shells ?q \<and> i \<notin> set (shRemoving ?q)" if "i \<in> set (shSpawned ?q)" for i
      using that d(10) [of i] mem [of i] by (auto simp: se)
    show "pooled_shells ?q \<subseteq> set (shStarted ?q)" using d(5,6) sp by (auto simp: se)
  qed (use d(2,3,4,6,7,9) mem in \<open>auto simp: se\<close>)
  moreover have "shell_make_room (p\<lparr>shSpawned := remove1 s (shSpawned p)\<rparr>) = ?r\<lparr>shSpawned := remove1 s (shSpawned p)\<rparr>"
    by (simp add: shell_make_room_def shell_evictOldestLocked_def shell_close_def shell_upd_def split: option.splits)
  ultimately show ?thesis using None by (simp add: shell_insert_def Let_def)
qed

lemma shell_ok_lookup: "shell_ok p \<Longrightarrow> shell_ok (fst (shell_lookup p key))"
proof -
  assume ok: "shell_ok p"
  have "shell_ok ((shell_close s p)\<lparr>shSessions := AList.delete key (shSessions p)\<rparr>)"
    if "map_of (shSessions p) key = Some s" "\<not> shell_alive p s" for s
  proof (rule shell_ok_close_entry [OF ok])
    show "(key, s) \<in> set (shSessions p)" using that(1) by (rule map_of_SomeD)
    show "\<not> shLocked (shShells p s)" using that(2) shell_okD(9) [OF ok, of s] by (auto simp: shell_alive_def)
  qed
  with ok show ?thesis by (auto simp: shell_lookup_def shell_ok_make_room split: option.splits)
qed

lemma shell_ok_spawn:
  assumes ok: "shell_ok p" and new: "s \<notin> set (shStarted p)" "key \<noteq> []"
  shows "shell_ok (shell_spawn p key kind s now)"
proof -
  note d = shell_okD [OF ok]
  let ?q = "shell_spawn p key kind s now"
  have f: "shSessions ?q = shSessions p" "shStarted ?q = s # shStarted p" "shSpawned ?q = s # shSpawned p"
    "shRemoving ?q = shRemoving p" "shShells ?q i = (if i = s then shShells ?q s else shShells p i)"
    "shKey (shShells ?q s) = key" "\<not> shLocked (shShells ?q s)" "\<not> shClosed (shShells ?q s)" for i
    by (simp_all add: shell_spawn_def)
  have out: "s \<notin> pooled_shells p" "s \<notin> set (shSpawned p)" "s \<notin> set (shRemoving p)" using d(5-7) new(1) by auto
  show ?thesis
  proof (rule shell_okI)
    show "shKey (shShells ?q i) = k" if "(k, i) \<in> set (shSessions ?q)" for k i
      using that d(2) [of k i] out(1) f(5) [of i] by (force simp: f(1))
    show "shClosed (shShells ?q i) \<or> i \<in> pooled_shells ?q \<union> set (shSpawned ?q) \<union> set (shRemoving ?q)"
      if "i \<in> set (shStarted ?q)" for i using that d(8) [of i] f(5) [of i] by (auto simp: f(1-4))
    show "i \<in> set (shStarted ?q) \<and> \<not> shClosed (shShells ?q i)" if "shLocked (shShells ?q i)" for i
      using that d(9) [of i] f(5) [of i] f(7) by (auto simp: f(2) split: if_splits)
    show "\<not> shLocked (shShells ?q i) \<and> \<not> shClosed (shShells ?q i) \<and> shKey (shShells ?q i) \<noteq> []
       \<and> i \<notin> pooled_shells ?q \<and> i \<notin> set (shRemoving ?q)" if "i \<in> set (shSpawned ?q)" for i
      using that d(10) [of i] f(5) [of i] f(6-8) out new(2) by (auto simp: f(1,3,4))
  qed (use d(1,3-7) out new(1) in \<open>auto simp: f(1-4)\<close>)
qed

lemma shell_ok_remove: "shell_ok p \<Longrightarrow> shell_ok (fst (shell_remove p key))"
proof -
  assume ok: "shell_ok p"
  note d = shell_okD [OF ok]
  have "shell_ok (p\<lparr>shSessions := AList.delete key (shSessions p), shRemoving := s # shRemoving p\<rparr>)" (is "shell_ok ?q")
    if e: "map_of (shSessions p) key = Some s" for s
  proof (rule shell_okI)
    note e' = map_of_SomeD [OF e] and one = pool_entry [OF d(1) map_of_SomeD [OF e]]
    have s: "s \<in> pooled_shells p" using e' by force
    show "pool_wf (shSessions ?q)" using d(1) by (simp add: pool_wf_delete)
    show "shClosed (shShells ?q i) \<or> i \<in> pooled_shells ?q \<union> set (shSpawned ?q) \<union> set (shRemoving ?q)"
      if "i \<in> set (shStarted ?q)" for i using that d(8) [of i] one by (force simp: delete_conv_filter)
    show "\<not> shLocked (shShells ?q i) \<and> \<not> shClosed (shShells ?q i) \<and> shKey (shShells ?q i) \<noteq> []
       \<and> i \<notin> pooled_shells ?q \<and> i \<notin> set (shRemoving ?q)" if "i \<in> set (shSpawned ?q)" for i
      using that d(10) [of i] s by (auto simp: delete_conv_filter)
    show "set (shRemoving ?q) \<subseteq> set (shStarted ?q)" using d(5,7) s by auto
  qed (use d(2-7,9) in \<open>auto simp: delete_conv_filter\<close>)
  with ok show ?thesis by (auto simp: shell_remove_def split: option.splits)
qed

lemma shell_ok_remove_close:
  assumes ok: "shell_ok p" and s: "s \<in> set (shRemoving p)" "\<not> shLocked (shShells p s)"
  shows "shell_ok (shell_remove_close p s)" (is "shell_ok ?q")
proof (rule shell_okI)
  note d = shell_okD [OF ok]
  have sub: "set (remove1 s (shRemoving p)) \<subseteq> set (shRemoving p)" by (rule set_remove1_subset)
  show "shClosed (shShells ?q i) \<or> i \<in> pooled_shells ?q \<union> set (shSpawned ?q) \<union> set (shRemoving ?q)"
    if "i \<in> set (shStarted ?q)" for i using that d(8) [of i] by (auto simp: shell_remove_close_def)
  show "\<not> shLocked (shShells ?q i) \<and> \<not> shClosed (shShells ?q i) \<and> shKey (shShells ?q i) \<noteq> []
     \<and> i \<notin> pooled_shells ?q \<and> i \<notin> set (shRemoving ?q)" if "i \<in> set (shSpawned ?q)" for i
    using that d(10) [of i] s(1) sub by (auto simp: shell_remove_close_def)
  show "i \<in> set (shStarted ?q) \<and> \<not> shClosed (shShells ?q i)" if "shLocked (shShells ?q i)" for i
    using that d(9) [of i] s(2) by (auto simp: shell_remove_close_def)
  show "set (shRemoving ?q) \<subseteq> set (shStarted ?q)" using sub d(7) by (auto simp: shell_remove_close_def)
qed (use shell_okD [OF ok] in \<open>simp_all add: shell_remove_close_def\<close>)

lemma fold_close_fields:
  "shSessions (fold (\<lambda>c. shell_close (snd c)) cs p) = shSessions p"
  "shStarted (fold (\<lambda>c. shell_close (snd c)) cs p) = shStarted p"
  "shSpawned (fold (\<lambda>c. shell_close (snd c)) cs p) = shSpawned p"
  "shRemoving (fold (\<lambda>c. shell_close (snd c)) cs p) = shRemoving p"
  "shKey (shShells (fold (\<lambda>c. shell_close (snd c)) cs p) i) = shKey (shShells p i)"
  "shLocked (shShells (fold (\<lambda>c. shell_close (snd c)) cs p) i) = shLocked (shShells p i)"
  "shClosed (shShells (fold (\<lambda>c. shell_close (snd c)) cs p) i) = (shClosed (shShells p i) \<or> i \<in> snd ` set cs)"
  by (induction cs arbitrary: p) auto

lemma shell_ok_reap: "shell_ok p \<Longrightarrow> shell_ok (shell_reap p now)"
  by (rule shell_ok_drop [where P = "shell_idle p now"])
    (auto simp: shell_reap_def fold_close_fields shell_idle_def)

lemma shell_ok_upd:
  assumes ok: "shell_ok p" and f: "\<And>e. shKey (f e) = shKey e" "shClosed (shShells p s) \<Longrightarrow> shClosed (f (shShells p s))"
    and lock: "shLocked (f (shShells p s)) \<Longrightarrow> s \<in> set (shStarted p) \<and> \<not> shClosed (f (shShells p s))"
    and sp: "s \<notin> set (shSpawned p)"
  shows "shell_ok (shell_upd s f p)"
proof (rule shell_okI)
  note d = shell_okD [OF ok]
  have q: "shSessions (shell_upd s f p) = shSessions p" "shStarted (shell_upd s f p) = shStarted p"
    "shSpawned (shell_upd s f p) = shSpawned p" "shRemoving (shell_upd s f p) = shRemoving p"
    "shShells (shell_upd s f p) i = (if i = s then f (shShells p s) else shShells p i)" for i
    by (simp_all add: shell_upd_def)
  show "shClosed (shShells (shell_upd s f p) i) \<or> i \<in> pooled_shells (shell_upd s f p) \<union> set (shSpawned (shell_upd s f p))
      \<union> set (shRemoving (shell_upd s f p))" if "i \<in> set (shStarted (shell_upd s f p))" for i
    using that d(8) [of i] f(2) by (auto simp: q)
  show "i \<in> set (shStarted (shell_upd s f p)) \<and> \<not> shClosed (shShells (shell_upd s f p) i)"
    if "shLocked (shShells (shell_upd s f p) i)" for i using that d(9) [of i] lock by (auto simp: q split: if_splits)
  show "\<not> shLocked (shShells (shell_upd s f p) i) \<and> \<not> shClosed (shShells (shell_upd s f p) i)
      \<and> shKey (shShells (shell_upd s f p) i) \<noteq> [] \<and> i \<notin> pooled_shells (shell_upd s f p)
      \<and> i \<notin> set (shRemoving (shell_upd s f p))" if "i \<in> set (shSpawned (shell_upd s f p))" for i
    using that d(10) [of i] sp by (auto simp: q)
  show "shKey (shShells (shell_upd s f p) i) = k" if "(k, i) \<in> set (shSessions (shell_upd s f p))" for k i
    using that d(2) [of k i] f(1) by (auto simp: q)
qed (use shell_okD [OF ok] in \<open>simp_all add: shell_upd_def\<close>)

lemma shell_ok_step: "shell_step p p' \<Longrightarrow> shell_ok p \<Longrightarrow> shell_ok p'"
proof (induction rule: shell_step.induct)
  case (exec_begin s p now)
  then show ?case by (auto simp: shell_exec_begin_def shell_alive_def intro!: shell_ok_upd)
next
  case (exec_end p s now outcome)
  have "s \<notin> set (shSpawned p)" using exec_end shell_okD(10) by blast
  with exec_end show ?case unfolding shell_exec_end_def by (intro shell_ok_upd) auto
next
  case (reorder ss p)
  have "distinct (map fst ss)" "set ss = set (shSessions p)"
    using reorder by (auto simp: shell_ok_def pool_wf_def dest: mset_eq_setD) (metis mset_eq_imp_distinct_iff mset_map)
  with reorder show ?case by (simp add: shell_ok_def pool_wf_def)
qed (simp_all add: shell_ok_lookup shell_ok_spawn shell_ok_insert shell_ok_remove shell_ok_remove_close shell_ok_reap)

lemma shell_reach_ok: "shell_reach p \<Longrightarrow> shell_ok p"
proof (induction rule: shell_reach.induct)
  case start
  show ?case by (simp add: shell_ok_def pool_wf_def empty_shells_def no_shell_def)
qed (rule shell_ok_step)

lemma shell_step_locked:
  assumes "shell_step p p'" "shell_ok p" "shLocked (shShells p s)"
  shows "shLocked (shShells p' s) \<or> (\<exists>now outcome. p' = shell_exec_end p s now outcome)"
  using assms
proof (cases rule: shell_step.cases)
  case (lookup key)
  then show ?thesis using assms(3) by (auto simp: shell_lookup_def split: option.splits)
next
  case (spawn s' key kind now)
  have "s \<noteq> s'" using spawn shell_okD(9) [OF assms(2,3)] by blast
  then show ?thesis using assms(3) spawn by (simp add: shell_spawn_def)
next
  case (insert s')
  then show ?thesis using assms(3) by (auto simp: shell_insert_def Let_def split: option.splits)
next
  case (remove key)
  then show ?thesis using assms(3) by (auto simp: shell_remove_def split: option.splits)
next
  case (reap now)
  then show ?thesis using assms(3) by (simp add: shell_reap_def fold_close_fields)
next
  case (exec_begin s' now)
  then show ?thesis using assms(3) by (simp add: shell_exec_begin_def shell_upd_def)
next
  case (exec_end s' now outcome)
  then show ?thesis using assms(3) by (cases "s' = s") (auto simp: shell_exec_end_def shell_upd_def)
qed (auto simp: shell_remove_close_def)

subsection \<open>Properties of the shell pool\<close>

text \<open>C8: under any interleaving of lookups, starts, insertions, removals, reaping and commands no shell
  leaks: every shell ever started is pooled under its own key, about to be offered to the pool, about
  to be closed, or closed. A session that runs a command is open, and stays locked and open until
  that command itself ends: eviction, reaping and removal wait for it or leave it alone.\<close>

theorem bash_pool_invariant:
  assumes "shell_reach p"
  shows "distinct (map fst (shSessions p))
    \<and> (\<forall>(k, s)\<in>set (shSessions p). shKey (shShells p s) = k)
    \<and> (\<forall>s\<in>set (shStarted p). shClosed (shShells p s) \<or> s \<in> snd ` set (shSessions p)
         \<or> s \<in> set (shSpawned p) \<or> s \<in> set (shRemoving p))
    \<and> (\<forall>s. shLocked (shShells p s) \<longrightarrow> \<not> shClosed (shShells p s)
         \<and> (\<forall>p'. shell_step p p' \<longrightarrow> shLocked (shShells p' s) \<and> \<not> shClosed (shShells p' s)
                \<or> (\<exists>now outcome. p' = shell_exec_end p s now outcome)))"
proof -
  have ok: "shell_ok p" by (rule shell_reach_ok [OF assms])
  note d = shell_okD [OF ok]
  have "shLocked (shShells p' s) \<and> \<not> shClosed (shShells p' s) \<or> (\<exists>now outcome. p' = shell_exec_end p s now outcome)"
    if "shLocked (shShells p s)" "shell_step p p'" for s p'
    using shell_step_locked [OF that(2) ok that(1)] shell_okD(9) [OF shell_ok_step [OF that(2) ok], of s] by blast
  moreover have "distinct (map fst (shSessions p))" using d(1) by (simp add: pool_wf_def)
  moreover have "\<forall>s\<in>set (shStarted p). shClosed (shShells p s) \<or> s \<in> snd ` set (shSessions p)
         \<or> s \<in> set (shSpawned p) \<or> s \<in> set (shRemoving p)" using d(8) by blast
  ultimately show ?thesis using d(2,9) by (simp add: case_prod_beta)
qed

text \<open>A shell that runs its first command.\<close>

definition one_shell :: shellPool where
  "one_shell = fst (shell_exec_begin (fst (shell_insert (shell_spawn empty_shells defaultSessionID kindDefault 0 1) 0)) 0 2)"

lemma one_shell_eq:
  "one_shell = \<lparr>shSessions = [(defaultSessionID, 0)],
     shShells = (\<lambda>_. no_shell)(0 := \<lparr>shKey = defaultSessionID, shKind = kindDefault, shCreatedAt = 1, shLastUsed = 2,
       shLocked = True, shClosed = False\<rparr>), shStarted = [0], shSpawned = [], shRemoving = []\<rparr>"
  by (simp add: one_shell_def shell_spawn_def shell_insert_def Let_def shell_make_room_def shellMaxSessions_def
      shell_exec_begin_def shell_alive_def shell_upd_def empty_shells_def)

lemma one_shell_reach: "shell_reach one_shell"
proof -
  have "shell_reach (shell_spawn empty_shells defaultSessionID kindDefault 0 1)"
    by (rule shell_reach.step [OF shell_reach.start shell_step.spawn]) (simp_all add: empty_shells_def defaultSessionID_def)
  then have "shell_reach (fst (shell_insert (shell_spawn empty_shells defaultSessionID kindDefault 0 1) 0))"
    by (rule shell_reach.step [OF _ shell_step.insert]) (simp add: shell_spawn_def)
  then show ?thesis unfolding one_shell_def
    by (rule shell_reach.step [OF _ shell_step.exec_begin])
      (simp_all add: shell_spawn_def shell_insert_def Let_def shell_make_room_def shellMaxSessions_def empty_shells_def)
qed

theorem bash_pool_invariant_witness:
  "shell_reach one_shell \<and> shLocked (shShells one_shell 0) \<and> \<not> shClosed (shShells one_shell 0)
   \<and> shLocked (shShells (shell_reap one_shell (3 * shellIdleTimeout)) 0)"
proof -
  note inv = bash_pool_invariant [OF one_shell_reach]
  have l: "shLocked (shShells one_shell 0)" by (simp add: one_shell_eq)
  have "shell_reap one_shell (3 * shellIdleTimeout) \<noteq> shell_exec_end one_shell 0 now outcome" for now outcome
  proof -
    have "shLocked (shShells (shell_reap one_shell (3 * shellIdleTimeout)) 0)" by (simp add: shell_reap_def fold_close_fields l)
    moreover have "\<not> shLocked (shShells (shell_exec_end one_shell 0 now outcome) 0)" by (simp add: shell_exec_end_def shell_upd_def)
    ultimately show ?thesis by metis
  qed
  with inv l one_shell_reach shell_step.reap [of one_shell "3 * shellIdleTimeout"] show ?thesis by blast
qed

text \<open>a shell offered to a full pool takes the place of the idle session that was used longest ago, which
  is closed while every other session stays; only when every session runs a command does the pool grow
  past its limit of five.\<close>

theorem bash_insert_room:
  assumes "shell_reach p" "s \<in> set (shSpawned p)" "map_of (shSessions p) (shKey (shShells p s)) = None"
    and "shell_insert p s = (q, s', isNew)"
  shows "s' = s \<and> isNew \<and> map_of (shSessions q) (shKey (shShells p s)) = Some s
    \<and> (if length (shSessions p) < 5 \<or> (\<forall>(k, e)\<in>set (shSessions p). shLocked (shShells p e))
       then set (shSessions q) = insert (shKey (shShells p s), s) (set (shSessions p))
       else \<exists>k v. (k, v) \<in> set (shSessions p) \<and> \<not> shLocked (shShells p v) \<and> shClosed (shShells q v)
              \<and> (\<forall>(k', e)\<in>set (shSessions p). \<not> shLocked (shShells p e) \<longrightarrow> shLastUsed (shShells p v) \<le> shLastUsed (shShells p e))
              \<and> set (shSessions q) = insert (shKey (shShells p s), s) (set (shSessions p) - {(k, v)}))"
proof -
  let ?k = "shKey (shShells p s)"
  have ok: "shell_ok p" by (rule shell_reach_ok [OF assms(1)])
  note wf = shell_okD(1) [OF ok]
  let ?r = "shell_make_room (p\<lparr>shSpawned := remove1 s (shSpawned p)\<rparr>)"
  have q: "q = ?r\<lparr>shSessions := AList.update ?k s (shSessions ?r)\<rparr>" and s: "s' = s" "isNew"
    using assms(3,4) by (auto simp: shell_insert_def Let_def)
  have new: "?k \<notin> fst ` set (shSessions p)" using assms(3) by (simp add: map_of_eq_None_iff)
  have r: "shSessions ?r = (if 5 \<le> length (shSessions p) then shell_evict (shShells p) (shSessions p) else shSessions p)"
    by (simp add: shell_make_room_sessions shellMaxSessions_def)
  have newr: "?k \<notin> fst ` set (shSessions ?r)" using new shells.evict_subset [OF wf, of "shShells p"] by (auto simp: r)
  have setq: "set (shSessions q) = insert (?k, s) (set (shSessions ?r))" unfolding q using set_update_new [OF newr] by simp
  have look: "map_of (shSessions q) ?k = Some s" unfolding q by (simp add: update_conv')
  show ?thesis
  proof (cases "length (shSessions p) < 5 \<or> (\<forall>(k, e)\<in>set (shSessions p). shLocked (shShells p e))")
    case True
    then have "shSessions ?r = shSessions p" using shells.evict_none [OF wf, of "shShells p"] by (auto simp: r list_all_iff case_prod_beta)
    then show ?thesis using True s look setq by simp
  next
    case False
    then obtain c where v: "shell_victim (shShells p) (shSessions p) = Some c" and full: "5 \<le> length (shSessions p)"
      using shell_victim_None [of "shShells p" "shSessions p"] by (fastforce simp: list_all_iff)
    obtain k v where c: "c = (k, v)" by fastforce
    note f = find_sorted [OF v [unfolded shell_victim_def]]
    have "shSessions ?r = AList.delete k (shSessions p)" using v full by (simp add: r shell_evict_def c)
    moreover have "set (AList.delete k (shSessions p)) = set (shSessions p) - {(k, v)}"
      using pool_entry [OF wf] f c by (auto simp: delete_conv_filter)
    moreover have "shClosed (shShells q v)"
      using v full by (simp add: q c shell_make_room_def shell_evictOldestLocked_def shellMaxSessions_def)
    ultimately show ?thesis using False f c s look setq by (auto simp: case_prod_beta)
  qed
qed

text \<open>Opening a session when the shell starts, without interference.\<close>

definition open_shell :: "gostring \<Rightarrow> nat \<Rightarrow> shellPool \<Rightarrow> shellPool" where
  "open_shell key s p = fst (shell_getOrCreate p key (Some (kindDefault, s)) (int s))"

lemma open_shell_reach:
  assumes "shell_reach p" "s \<notin> set (shStarted p)" "key \<noteq> []"
  shows "shell_reach (open_shell key s p)"
proof -
  have l: "shell_reach (fst (shell_lookup p key))" by (rule shell_reach.step [OF assms(1) shell_step.lookup])
  have st: "shStarted (fst (shell_lookup p key)) = shStarted p" by (auto simp: shell_lookup_def split: option.splits)
  have "shell_reach (shell_spawn (fst (shell_lookup p key)) key kindDefault s (int s))"
    by (rule shell_reach.step [OF l shell_step.spawn]) (simp_all add: st assms)
  then have "shell_reach (fst (shell_insert (shell_spawn (fst (shell_lookup p key)) key kindDefault s (int s)) s))"
    by (rule shell_reach.step [OF _ shell_step.insert]) (simp add: shell_spawn_def)
  with l show ?thesis by (auto simp: open_shell_def shell_getOrCreate_def split: option.splits prod.splits)
qed

definition five_shells :: shellPool where
  "five_shells = open_shell ''e'' 4 (open_shell ''d'' 3 (open_shell ''c'' 2 (open_shell ''b'' 1 (open_shell ''a'' 0 empty_shells))))"

lemma five_shells_reach: "shell_reach five_shells"
  unfolding five_shells_def
  by (intro open_shell_reach shell_reach.start; code_simp)

theorem bash_insert_room_witness:
  "let p = shell_spawn five_shells ''f'' kindDefault 5 9; q = fst (shell_insert p 5)
   in shell_reach p \<and> map_of (shSessions q) ''f'' = Some 5 \<and> shClosed (shShells q 0) \<and> map_of (shSessions q) ''a'' = None"
proof -
  let ?p = "shell_spawn five_shells ''f'' kindDefault 5 9"
  have r: "shell_reach ?p" by (rule shell_reach.step [OF five_shells_reach shell_step.spawn]) code_simp+
  have "5 \<in> set (shSpawned ?p)" "map_of (shSessions ?p) (shKey (shShells ?p 5)) = None" by code_simp+
  moreover have "snd (shell_insert ?p 5) = (5, True)" by code_simp
  then have "shell_insert ?p 5 = (fst (shell_insert ?p 5), 5, True)" by (metis prod.collapse)
  ultimately have "map_of (shSessions (fst (shell_insert ?p 5))) (shKey (shShells ?p 5)) = Some 5"
    using bash_insert_room [OF r] by blast
  moreover have "shKey (shShells ?p 5) = ''f''" by code_simp
  moreover have "shClosed (shShells (fst (shell_insert ?p 5)) 0)" "map_of (shSessions (fst (shell_insert ?p 5))) ''a'' = None"
    by code_simp+
  ultimately show ?thesis using r by simp
qed

text \<open>a session is not protected between \<open>getOrCreate\<close> and the start of its command. A caller that was
  just handed the new session \<open>a\<close> can find it closed, because five other callers opened sessions in
  between. Its handler then removes whatever is pooled as \<open>a\<close>: here a later session that runs somebody
  else's command, which is closed when that command ends.\<close>

theorem bash_fresh_session_closed:
  "let p0 = open_shell ''a'' 0 empty_shells; p = open_shell ''f'' 5 five_shells;
       q = fst (shell_exec_begin (open_shell ''a'' 6 p) 6 7); q' = fst (shell_remove q ''a'')
   in shell_reach p0 \<and> map_of (shSessions p0) ''a'' = Some 0 \<and> shell_reach q
     \<and> \<not> snd (shell_exec_begin q 0 8) \<and> map_of (shSessions q) ''a'' = Some 6 \<and> shLocked (shShells q 6)
     \<and> map_of (shSessions q') ''a'' = None \<and> 6 \<in> set (shRemoving q')"
proof -
  let ?first = "open_shell ''a'' 0 empty_shells" and ?p = "open_shell ''a'' 6 (open_shell ''f'' 5 five_shells)"
  let ?q = "fst (shell_exec_begin ?p 6 7)"
  have "shell_reach ?first" by (rule open_shell_reach [OF shell_reach.start]) code_simp+
  moreover have f: "shell_reach (open_shell ''f'' 5 five_shells)" by (rule open_shell_reach [OF five_shells_reach]) code_simp+
  have p: "shell_reach ?p" by (rule open_shell_reach [OF f]) code_simp+
  moreover have "shell_reach ?q" by (rule shell_reach.step [OF p shell_step.exec_begin]) code_simp+
  moreover have "map_of (shSessions ?first) ''a'' = Some 0" "\<not> snd (shell_exec_begin ?q 0 8)"
    "map_of (shSessions ?q) ''a'' = Some 6" "shLocked (shShells ?q 6)"
    "map_of (shSessions (fst (shell_remove ?q ''a''))) ''a'' = None" "6 \<in> set (shRemoving (fst (shell_remove ?q ''a'')))"
    by code_simp+
  ultimately show ?thesis by (simp add: Let_def)
qed

end
