(* ===== verification/Flex.thy ===== *)
theory Flex
  imports Go_Bytes Complex_Main
begin

text \<open>
  Arguments that clients pass as numbers or as strings (common/flexint.go, common/flexbool.go). A decoded
  JSON value is a Go interface value; a float64 is its rational value.
\<close>

datatype goany = ANil | ABool bool | AFloat rat | AInt int | AString gostring | AOther

text \<open>The conversion of a float64 to int: towards zero, and on amd64 the least int when out of range.\<close>

definition int_of_float :: "rat \<Rightarrow> int" where
  "int_of_float r =
     (let n = (if 0 \<le> r then \<lfloor>r\<rfloor> else \<lceil>r\<rceil>)
      in if - (2 ^ 63) \<le> n \<and> n < 2 ^ 63 then n else - (2 ^ 63))"

fun FlexInt :: "goany \<Rightarrow> int \<times> bool" where
  "FlexInt (AFloat r) = (int_of_float r, True)"
| "FlexInt (AInt n) = (n, True)"
| "FlexInt (AString val) =
     (let s = TrimSpace val in
      if s = [] then (0, True)
      else case Atoi s of None \<Rightarrow> (0, False) | Some n \<Rightarrow> (n, True))"
| "FlexInt ANil = (0, True)"
| "FlexInt _ = (0, False)"

fun FlexBool :: "goany \<Rightarrow> bool" where
  "FlexBool (ABool b) = b"
| "FlexBool (AString s) = (ToLower s = ''true'')"
| "FlexBool (AFloat r) = (r \<noteq> 0)"
| "FlexBool _ = False"

lemma int_of_float_int: "- (2 ^ 63) \<le> n \<Longrightarrow> n < 2 ^ 63 \<Longrightarrow> int_of_float (of_int n) = n"
  by (simp add: int_of_float_def)

lemma show_int_trim: "TrimSpace (show_int n) = show_int n \<and> show_int n \<noteq> []"
proof -
  have d: "show_nat k \<noteq> [] \<and> is_digit (hd (show_nat k)) \<and> is_digit (last (show_nat k))" for k
    using show_nat_digits [of k] by (auto simp: list_all_iff)
  have g: "(of_char c :: nat) < 128 \<and> \<not> is_space (of_char c)" if "is_digit c" for c
    using that by (auto simp: is_digit_def is_space_def)
  have "TrimSpace (show_int n) = show_int n"
    by (rule TrimSpace_id) (use d [of "nat n"] d [of "nat (- n)"] g in \<open>auto simp: show_int_def is_space_def\<close>)
  then show ?thesis using d by (simp add: show_int_def)
qed

text \<open>The two ways to pass an integer agree.\<close>

lemma FlexInt_forms:
  assumes "- (2 ^ 63) \<le> n" "n < 2 ^ 63"
  shows "FlexInt (AString (show_int n)) = (n, True)" "FlexInt (AFloat (of_int n)) = (n, True)"
  using Atoi_show_int [OF assms] show_int_trim [of n] assms by (simp_all add: int_of_float_int)

end
