(* ===== verification/Bash_Handle.thy ===== *)
theory Bash_Handle
  imports Bash_Pool Flex
begin

text \<open>
  The handler of the bash tool (tools/bash/handler.go) over the shell pool and the raw output store: one
  whole call, run without interference. What the operating system, the shell and the clock contribute
  to the call is the record \<open>bash_env\<close>. A call that would wait for a busy session, or whose shell
  prints no sentinel and never times out, has not returned.
\<close>

record BashInput =
  biCommand :: gostring
  biCwd :: gostring
  biSessionID :: gostring
  biOutputView :: gostring
  biTimeoutSec :: goany
  biTimeout :: goany
  biDisconnect :: goany

record bash_env =
  beResolve :: "gostring \<Rightarrow> gostring option"
  beStart :: "(shellKind \<times> nat) option"
  beDecode :: "gostring \<Rightarrow> gostring"
  beHex :: gostring
  beWritten :: stdin_write
  beEvents :: "exec_event list"
  beRandom :: "gostring option"
  beNow :: int

datatype bash_error =
  CommandRequired | BadView | BadTimeout gostring | BadCwd | StartFailed | ExecFailed exec_error

datatype bash_reply =
  Disconnected gostring bool | Refused bash_error | Ran gostring bool BashOutput

definition session_id :: "BashInput \<Rightarrow> gostring" where
  "session_id inp = (if biSessionID inp = [] then defaultSessionID else biSessionID inp)"

definition raw_timeout :: "BashInput \<Rightarrow> goany" where
  "raw_timeout inp =
     (if biTimeoutSec inp = ANil \<or> biTimeoutSec inp = AString [] then biTimeout inp else biTimeoutSec inp)"

text \<open>\<open>remove\<close> without interference closes the session at once.\<close>

definition bash_disconnect :: "shellPool \<Rightarrow> gostring \<Rightarrow> shellPool \<times> bool" where
  "bash_disconnect p key =
     (case shell_remove p key of
        (p1, False) \<Rightarrow> (p1, False)
      | (p1, True) \<Rightarrow> (shell_remove_close p1 (hd (shRemoving p1)), True))"

text \<open>The command on session \<open>s\<close>: the pool behind it and the outcome.\<close>

definition bash_run :: "bash_env \<Rightarrow> shellPool \<Rightarrow> nat \<Rightarrow> (shellPool \<times> (exec_error + execResult)) option" where
  "bash_run env p s =
     (if shLocked (shShells p s) then None
      else case shell_exec_begin p s (beNow env) of
             (p1, False) \<Rightarrow> Some (p1, Inl SessionDead)
           | (p1, True) \<Rightarrow>
               (case executeCommand (beDecode env) (beHex env) True (beWritten env) (beEvents env) of
                  None \<Rightarrow> None
                | Some outcome \<Rightarrow> Some (shell_exec_end p1 s (beNow env) outcome, snd outcome)))"

definition bash_session ::
  "bash_env \<Rightarrow> BashInput \<Rightarrow> gostring \<Rightarrow> shellPool \<Rightarrow> rawOutputStore \<Rightarrow> (shellPool \<times> rawOutputStore \<times> bash_reply) option" where
  "bash_session env inp view p store =
     (case shell_getOrCreate p (session_id inp) (beStart env) (beNow env) of
        (p1, None) \<Rightarrow> Some (p1, store, Refused StartFailed)
      | (p1, Some (s, isNew)) \<Rightarrow>
          (case bash_run env p1 s of
             None \<Rightarrow> None
           | Some (p2, Inl e) \<Rightarrow> Some (fst (bash_disconnect p2 (session_id inp)), store, Refused (ExecFailed e))
           | Some (p2, Inr result) \<Rightarrow>
               (case bash_report (session_id inp) (biCommand inp) view isNew (shKind (shShells p2 s)) store
                       (beRandom env) (beNow env) result of
                  (txt, isErr, out, store1) \<Rightarrow> Some (p2, store1, Ran txt isErr out))))"

definition bash_Handle ::
  "bash_env \<Rightarrow> BashInput \<Rightarrow> shellPool \<Rightarrow> rawOutputStore \<Rightarrow> (shellPool \<times> rawOutputStore \<times> bash_reply) option" where
  "bash_Handle env inp p store =
     (if FlexBool (biDisconnect inp)
      then (case bash_disconnect p (session_id inp) of (p1, b) \<Rightarrow> Some (p1, store, Disconnected (session_id inp) b))
      else if TrimSpace (biCommand inp) = [] then Some (p, store, Refused CommandRequired)
      else case NormalizeOutputView (biOutputView inp) of
             Inl e \<Rightarrow> Some (p, store, Refused BadView)
           | Inr view \<Rightarrow>
               (case bash_timeout (case FlexInt (raw_timeout inp) of (n, ok) \<Rightarrow> if ok then Some n else None) of
                  Inl msg \<Rightarrow> Some (p, store, Refused (BadTimeout msg))
                | Inr t \<Rightarrow>
                    (if biCwd inp \<noteq> [] \<and> beResolve env (biCwd inp) = None then Some (p, store, Refused BadCwd)
                     else bash_session env inp view p store)))"

subsection \<open>Facts on the parts\<close>

lemma disconnect_ok:
  assumes ok: "shell_ok p" and free: "\<And>s. map_of (shSessions p) key = Some s \<Longrightarrow> \<not> shLocked (shShells p s)"
  shows "shell_ok (fst (bash_disconnect p key)) \<and> map_of (shSessions (fst (bash_disconnect p key))) key = None
    \<and> (\<forall>s. map_of (shSessions p) key = Some s \<longrightarrow> shClosed (shShells (fst (bash_disconnect p key)) s))"
proof (cases "map_of (shSessions p) key")
  case None
  with ok show ?thesis by (simp add: bash_disconnect_def shell_remove_def)
next
  case (Some s)
  let ?q = "fst (shell_remove p key)"
  have q: "shRemoving ?q = s # shRemoving p" "shShells ?q = shShells p"
    "shSessions ?q = AList.delete key (shSessions p)" "snd (shell_remove p key)"
    using Some by (simp_all add: shell_remove_def)
  have "shell_ok (shell_remove_close ?q s)"
    using free Some by (intro shell_ok_remove_close shell_ok_remove ok) (simp_all add: q)
  moreover have "fst (bash_disconnect p key) = shell_remove_close ?q s"
    using q by (cases "shell_remove p key") (auto simp: bash_disconnect_def split: bool.splits)
  ultimately show ?thesis using Some q by (simp add: shell_remove_close_def delete_conv')
qed

lemma executeCommand_open: "executeCommand decode hexid alive wr evs = Some (cl, Inr r) \<Longrightarrow> \<not> cl"
proof -
  have h: "exec_loop sen out evs = Some (c, Inr x) \<Longrightarrow> \<not> c" for sen out c x
    by (induction sen out evs rule: exec_loop.induct) (auto simp: Let_def split: if_splits)
  show "executeCommand decode hexid alive wr evs = Some (cl, Inr r) \<Longrightarrow> \<not> cl"
    by (auto simp: executeCommand_def dest!: h split: if_splits option.splits sum.splits prod.splits)
qed

lemma getOrCreate_ok:
  assumes ok: "shell_ok p" and new: "\<And>kind s. start = Some (kind, s) \<Longrightarrow> s \<notin> set (shStarted p)" and key: "key \<noteq> []"
    and g: "shell_getOrCreate p key start now = (p1, r)"
  shows "shell_ok p1 \<and> (r = None \<longrightarrow> map_of (shSessions p1) key = None) \<and> (\<forall>s isNew. r = Some (s, isNew) \<longrightarrow>
      map_of (shSessions p1) key = Some s \<and> \<not> shClosed (shShells p1 s) \<and> s \<in> set (shStarted p1) \<and> s \<notin> set (shSpawned p1))"
proof (cases "snd (shell_lookup p key)")
  case (Some s)
  then have e: "shell_lookup p key = (p, Some s)" "map_of (shSessions p) key = Some s" "\<not> shClosed (shShells p s)"
    by (auto simp: shell_lookup_def shell_alive_def split: option.splits if_splits)
  have "s \<in> pooled_shells p" using map_of_SomeD [OF e(2)] by force
  then have "s \<in> set (shStarted p)" "s \<notin> set (shSpawned p)" using shell_okD(5,10) [OF ok] by blast+
  with e g ok show ?thesis by (auto simp: shell_getOrCreate_def)
next
  case None
  define q where "q = fst (shell_lookup p key)"
  have l: "shell_lookup p key = (q, None)" using None by (simp add: q_def prod_eq_iff)
  have okq: "shell_ok q" unfolding q_def by (rule shell_ok_lookup [OF ok])
  have stq: "shStarted q = shStarted p" unfolding q_def by (auto simp: shell_lookup_def split: option.splits)
  have absent: "map_of (shSessions q) key = None"
  proof -
    have "shSessions (shell_make_room p') = shSessions p' \<or> (\<exists>k. shSessions (shell_make_room p') = AList.delete k (shSessions p'))" for p'
      by (auto simp: shell_make_room_def shell_evictOldestLocked_def split: option.splits)
    then have keep: "map_of (shSessions p') key = None \<Longrightarrow> map_of (shSessions (shell_make_room p')) key = None" for p'
      by (metis delete_conv' fun_upd_apply)
    show ?thesis unfolding q_def using None
      by (auto simp: shell_lookup_def delete_conv' intro!: keep split: option.splits if_splits)
  qed
  show ?thesis
  proof (cases start)
    case None
    with g l okq absent show ?thesis by (auto simp: shell_getOrCreate_def)
  next
    case (Some ks)
    obtain kind s where ks: "start = Some (kind, s)" using Some by (cases ks) auto
    let ?w = "shell_spawn q key kind s now"
    have w: "shell_ok ?w" using new [OF ks] okq key by (intro shell_ok_spawn) (simp_all add: stq)
    have sp: "s \<in> set (shSpawned ?w)" "shKey (shShells ?w s) = key" "map_of (shSessions ?w) key = None"
      using absent by (simp_all add: shell_spawn_def)
    note r = shell_okD(1) [OF w]
    have i: "shell_insert ?w s = (p1, the r)" "r \<noteq> None"
      using g l ks by (auto simp: shell_getOrCreate_def split: prod.splits)
    have p1: "shell_ok p1" using shell_ok_insert [OF w sp(1)] i by simp
    have f: "the r = (s, True)" "map_of (shSessions p1) key = Some s" "shSpawned p1 = remove1 s (shSpawned ?w)"
      "shStarted p1 = shStarted ?w"
      using i(1) sp by (auto simp: shell_insert_def Let_def update_conv')
    have "s \<notin> set (shSpawned p1)" using f(3) shell_okD(4) [OF w] by simp
    moreover have "s \<in> set (shStarted p1)" using f(4) by (simp add: shell_spawn_def)
    moreover have "\<not> shClosed (shShells p1 s)"
    proof -
      let ?r = "shell_make_room (?w\<lparr>shSpawned := remove1 s (shSpawned ?w)\<rparr>)"
      have "shShells p1 = shShells ?r" using i(1) sp by (auto simp: shell_insert_def Let_def)
      moreover have "shShells ?r = shShells (shell_make_room ?w)"
        by (simp add: shell_make_room_def shell_evictOldestLocked_def shell_close_def shell_upd_def split: option.splits)
      ultimately show ?thesis using shell_okD(10) [OF shell_ok_make_room [OF w]] sp(1) by simp
    qed
    ultimately show ?thesis using p1 f i(2) by auto
  qed
qed

lemma bash_run_ok:
  assumes ok: "shell_ok p" and s: "map_of (shSessions p) key = Some s" "s \<in> set (shStarted p)" "s \<notin> set (shSpawned p)"
    and run: "bash_run env p s = Some (p2, r)"
  shows "shell_ok p2 \<and> shSessions p2 = shSessions p \<and> \<not> shLocked (shShells p2 s)
    \<and> (\<not> shClosed (shShells p s) \<longrightarrow> \<not> isl r \<longrightarrow> \<not> shClosed (shShells p2 s))"
proof -
  have free: "\<not> shLocked (shShells p s)" using run by (auto simp: bash_run_def split: if_splits)
  show ?thesis
  proof (cases "shell_alive p s")
    case False
    with run free have "p2 = p" by (auto simp: bash_run_def shell_exec_begin_def)
    with ok free False show ?thesis by (simp add: shell_alive_def)
  next
    case True
    let ?b = "fst (shell_exec_begin p s (beNow env))"
    have b: "shell_exec_begin p s (beNow env) = (?b, True)" using True by (simp add: shell_exec_begin_def)
    have okb: "shell_ok ?b" by (rule shell_ok_step [OF shell_step.exec_begin [OF s(2,3) free] ok])
    have lb: "shLocked (shShells ?b s)" "shSessions ?b = shSessions p" "\<not> shClosed (shShells ?b s)"
      using True by (simp_all add: shell_exec_begin_def shell_upd_def shell_alive_def)
    obtain outcome where o: "executeCommand (beDecode env) (beHex env) True (beWritten env) (beEvents env) = Some outcome"
      and p2: "p2 = shell_exec_end ?b s (beNow env) outcome" "r = snd outcome"
      using run free b by (auto simp: bash_run_def split: option.splits prod.splits)
    have "shell_ok p2" unfolding p2 by (rule shell_ok_step [OF shell_step.exec_end [OF lb(1)] okb])
    moreover have "\<not> isl r \<Longrightarrow> \<not> fst outcome"
      using o executeCommand_open p2(2) by (cases outcome) (auto simp: isl_def split: sum.splits, metis sum.exhaust)
    ultimately show ?thesis using lb p2 by (auto simp: shell_exec_end_def shell_upd_def)
  qed
qed

subsection \<open>Properties of the handler\<close>

text \<open>C9: a call of the bash tool that returns keeps the pool well-formed. After a command that ran, whatever
  its exit code, the session stays under its name, open and free for the next call. After a failed run
  (timeout, cancellation, broken pipe, dead shell) no session is left under the name, so that the next
  call starts a new shell; the same holds after a disconnect.\<close>

theorem bash_Handle_session:
  assumes "shell_reach p" "\<And>kind s. beStart env = Some (kind, s) \<Longrightarrow> s \<notin> set (shStarted p)"
    and "\<And>s. map_of (shSessions p) (session_id inp) = Some s \<Longrightarrow> \<not> shLocked (shShells p s)"
    and "bash_Handle env inp p store = Some (p', store', reply)"
  shows "shell_ok p'
    \<and> (case reply of
         Ran txt isErr out \<Rightarrow> boSessionID out = session_id inp \<and> isErr = (boExitCode out \<noteq> 0)
           \<and> (\<exists>s. map_of (shSessions p') (session_id inp) = Some s
                \<and> \<not> shClosed (shShells p' s) \<and> \<not> shLocked (shShells p' s))
       | Disconnected sid b \<Rightarrow> b = (map_of (shSessions p) (session_id inp) \<noteq> None)
           \<and> map_of (shSessions p') (session_id inp) = None
       | Refused (ExecFailed e) \<Rightarrow> map_of (shSessions p') (session_id inp) = None
       | Refused StartFailed \<Rightarrow> map_of (shSessions p') (session_id inp) = None
       | Refused e \<Rightarrow> p' = p \<and> store' = store)"
proof -
  have ok: "shell_ok p" by (rule shell_reach_ok [OF assms(1)])
  have key: "session_id inp \<noteq> []" by (simp add: session_id_def defaultSessionID_def)
  note d = disconnect_ok [OF ok, of "session_id inp", OF assms(3)]
  have db: "snd (bash_disconnect p (session_id inp)) = (map_of (shSessions p) (session_id inp) \<noteq> None)"
    by (auto simp: bash_disconnect_def shell_remove_def split: option.splits)
  consider (disc) "FlexBool (biDisconnect inp)"
    | (sess) view where "\<not> FlexBool (biDisconnect inp)" "bash_session env inp view p store = Some (p', store', reply)"
    | (ref) e where "\<not> FlexBool (biDisconnect inp)" "p' = p" "store' = store" "reply = Refused e"
        "\<not> (\<exists>x. e = ExecFailed x)" "e \<noteq> StartFailed"
    using assms(4) by (auto simp: bash_Handle_def split: if_splits sum.splits prod.splits)
  then show ?thesis
  proof cases
    case disc
    then show ?thesis using d db assms(4) by (auto simp: bash_Handle_def split: prod.splits)
  next
    case ref
    then show ?thesis using ok by (cases e) auto
  next
    case sess
    obtain p1 r where g: "shell_getOrCreate p (session_id inp) (beStart env) (beNow env) = (p1, r)" by fastforce
    have g': "shell_ok p1" "r = None \<Longrightarrow> map_of (shSessions p1) (session_id inp) = None"
      "\<And>s isNew. r = Some (s, isNew) \<Longrightarrow> map_of (shSessions p1) (session_id inp) = Some s \<and> \<not> shClosed (shShells p1 s)
         \<and> s \<in> set (shStarted p1) \<and> s \<notin> set (shSpawned p1)"
      using getOrCreate_ok [OF ok _ key g] assms(2) by blast+
    show ?thesis
    proof (cases r)
      case None
      with sess g g' show ?thesis by (auto simp: bash_session_def)
    next
      case (Some sn)
      obtain s isNew where r: "r = Some (s, isNew)" using Some by (cases sn) auto
      note m = g'(3) [OF r]
      obtain p2 o' where run: "bash_run env p1 s = Some (p2, o')" using sess(2) g r by (auto simp: bash_session_def split: option.splits)
      note b = bash_run_ok [OF g'(1) m [THEN conjunct1] _ _ run] m
      have m2: "map_of (shSessions p2) (session_id inp) = Some s" "\<not> shLocked (shShells p2 s)" "shell_ok p2"
        using b by auto
      show ?thesis
      proof (cases o')
        case (Inl e)
        then have "p' = fst (bash_disconnect p2 (session_id inp))" "reply = Refused (ExecFailed e)"
          using sess(2) g r run by (auto simp: bash_session_def)
        then show ?thesis using disconnect_ok [OF m2(3), of "session_id inp"] m2 by auto
      next
        case (Inr res)
        then obtain tx isErr out where "p' = p2" "reply = Ran tx isErr out"
          "boSessionID out = session_id inp" "isErr = (boExitCode out \<noteq> 0)"
          using sess(2) g r run by (auto simp: bash_session_def bash_report_def split: prod.splits)
        then show ?thesis using m2 b Inr by auto
      qed
    qed
  qed
qed

definition note_env :: bash_env where
  "note_env = \<lparr>beResolve = Some, beStart = Some (kindDefault, 0), beDecode = id, beHex = ''0a'', beWritten = Written,
     beEvents = note_run, beRandom = Some ''ab'', beNow = 5\<rparr>"

definition make_input :: BashInput where
  "make_input = \<lparr>biCommand = ''make'', biCwd = [], biSessionID = [], biOutputView = [], biTimeoutSec = ANil,
     biTimeout = AString ''30'', biDisconnect = ANil\<rparr>"

lemma make_input_parts:
  "TrimSpace ''make'' = ''make''" "NormalizeOutputView [] = Inr ''compact''" "bash_timeout (Some 30) = Inr 30"
  "FlexInt (AString ''30'') = (30, True)"
proof -
  show "TrimSpace ''make'' = ''make''" by (rule TrimSpace_id) (simp_all add: is_space_def)
  show "NormalizeOutputView [] = Inr ''compact''"
    by (simp add: NormalizeOutputView_def TrimSpace_def TrimLeftSpace.simps TrimRightSpace.simps ToLower_def string_of_runes_def)
  show "bash_timeout (Some 30) = Inr 30" by (simp add: bash_timeout_def maxTimeoutSec_def)
  have "show_int 30 = ''30''" by (simp add: show_int_def show_nat.simps digit_char_def char_of_def bit_Suc_0_iff)
  then show "FlexInt (AString ''30'') = (30, True)" using FlexInt_forms(1) [of 30] by simp
qed

lemma make_call:
  "\<exists>p' store' tx out. bash_Handle note_env make_input empty_shells commandRawOutputs = Some (p', store', Ran tx False out)"
proof -
  have sid: "session_id make_input = defaultSessionID" by (simp add: session_id_def make_input_def)
  let ?g = "shell_getOrCreate empty_shells defaultSessionID (Some (kindDefault, 0)) 5"
  have g: "snd ?g = Some (0, True)" by code_simp
  have "\<not> shLocked (shShells (fst ?g) 0)" "shell_alive (fst ?g) 0" by code_simp+
  then have "\<exists>p2. bash_run note_env (fst ?g) 0 = Some (p2, Inr note_result)"
    using note_run_result by (auto simp: bash_run_def shell_exec_begin_def note_env_def)
  then obtain p2 where r: "bash_run note_env (fst ?g) 0 = Some (p2, Inr note_result)" ..
  have "\<exists>p' store' tx out. bash_session note_env make_input ''compact'' empty_shells commandRawOutputs = Some (p', store', Ran tx False out)"
    using g r by (cases ?g) (auto simp: bash_session_def sid note_env_def bash_report_def note_result_def split: prod.splits)
  then show ?thesis by (simp add: bash_Handle_def make_input_parts make_input_def raw_timeout_def del: FlexInt.simps(3))
qed

theorem bash_Handle_session_witness:
  "\<exists>p' store' tx out. bash_Handle note_env make_input empty_shells commandRawOutputs = Some (p', store', Ran tx False out)
     \<and> boSessionID out = defaultSessionID
     \<and> (\<exists>s. map_of (shSessions p') defaultSessionID = Some s \<and> \<not> shClosed (shShells p' s) \<and> \<not> shLocked (shShells p' s))"
proof -
  obtain p' store' tx out where c: "bash_Handle note_env make_input empty_shells commandRawOutputs = Some (p', store', Ran tx False out)"
    using make_call by blast
  have sid: "session_id make_input = defaultSessionID" by (simp add: session_id_def make_input_def)
  from bash_Handle_session [OF shell_reach.start _ _ c] c show ?thesis
    by (simp add: sid empty_shells_def)
qed

end
