(* ===== verification/Debug_Events.thy ===== *)
theory Debug_Events
  imports Output
begin

text \<open>
  The buffer of debug adapter events (tools/debug/events.go): the last 100 events with a cursor behind
  the ones already polled. It is shown to behave, for every sequence of operations, as an unbounded
  log of which a poll returns what is new and not older than the last 100 events.
\<close>

definition maxEventBufferSize :: nat where
  "maxEventBufferSize = 100"

record dapEvent =
  evType :: gostring
  evBody :: gostring
  evTimestamp :: int

record eventBuffer =
  evEvents :: "dapEvent list"
  evCursor :: nat

definition newEventBuffer :: eventBuffer where
  "newEventBuffer = \<lparr>evEvents = [], evCursor = 0\<rparr>"

definition push :: "eventBuffer \<Rightarrow> dapEvent \<Rightarrow> eventBuffer" where
  "push b evt =
     (if maxEventBufferSize \<le> length (evEvents b)
      then b\<lparr>evEvents := tl (evEvents b) @ [evt], evCursor := evCursor b - 1\<rparr>
      else b\<lparr>evEvents := evEvents b @ [evt]\<rparr>)"

definition drain :: "eventBuffer \<Rightarrow> eventBuffer \<times> dapEvent list" where
  "drain b =
     (if length (evEvents b) \<le> evCursor b then (b, [])
      else (b\<lparr>evCursor := length (evEvents b)\<rparr>, drop (evCursor b) (evEvents b)))"

definition all_events :: "eventBuffer \<Rightarrow> dapEvent list" where
  "all_events b = evEvents b"

subsection \<open>The log it stands for\<close>

text \<open>All events ever pushed, and how many of them were there at the last poll.\<close>

type_synonym event_log = "dapEvent list \<times> nat"

definition log_push :: "event_log \<Rightarrow> dapEvent \<Rightarrow> event_log" where
  "log_push l evt = (fst l @ [evt], snd l)"

definition log_recent :: "event_log \<Rightarrow> dapEvent list" where
  "log_recent l = last_n maxEventBufferSize (fst l)"

definition log_drain :: "event_log \<Rightarrow> event_log \<times> dapEvent list" where
  "log_drain l = ((fst l, length (fst l)), last_n maxEventBufferSize (drop (snd l) (fst l)))"

datatype event_op = Push dapEvent | Drain | All

text \<open>The answers to a sequence of operations, over any implementation of the three.\<close>

fun event_run ::
  "('s \<Rightarrow> dapEvent \<Rightarrow> 's) \<Rightarrow> ('s \<Rightarrow> 's \<times> dapEvent list) \<Rightarrow> ('s \<Rightarrow> dapEvent list) \<Rightarrow> 's \<Rightarrow> event_op list \<Rightarrow> dapEvent list list" where
  "event_run pu dr al s [] = []"
| "event_run pu dr al s (Push e # ops) = event_run pu dr al (pu s e) ops"
| "event_run pu dr al s (Drain # ops) = snd (dr s) # event_run pu dr al (fst (dr s)) ops"
| "event_run pu dr al s (All # ops) = al s # event_run pu dr al s ops"

text \<open>Two implementations related by a simulation answer alike.\<close>

locale event_simulation =
  fixes rel :: "'s \<Rightarrow> 't \<Rightarrow> bool"
    and pu :: "'s \<Rightarrow> dapEvent \<Rightarrow> 's" and dr :: "'s \<Rightarrow> 's \<times> dapEvent list" and al :: "'s \<Rightarrow> dapEvent list"
    and pu' :: "'t \<Rightarrow> dapEvent \<Rightarrow> 't" and dr' :: "'t \<Rightarrow> 't \<times> dapEvent list" and al' :: "'t \<Rightarrow> dapEvent list"
  assumes rel_push: "rel s t \<Longrightarrow> rel (pu s e) (pu' t e)"
    and rel_drain: "rel s t \<Longrightarrow> rel (fst (dr s)) (fst (dr' t)) \<and> snd (dr s) = snd (dr' t)"
    and rel_all: "rel s t \<Longrightarrow> al s = al' t"
begin

lemma runs_agree: "rel s t \<Longrightarrow> event_run pu dr al s ops = event_run pu' dr' al' t ops"
proof (induction ops arbitrary: s t)
  case (Cons x ops)
  then show ?case by (cases x) (simp_all add: rel_push rel_drain rel_all)
qed simp

end

text \<open>The buffer holds the recent events; its cursor is where the unseen ones start.\<close>

definition log_rel :: "eventBuffer \<Rightarrow> event_log \<Rightarrow> bool" where
  "log_rel b l =
     (evEvents b = log_recent l \<and> snd l \<le> length (fst l)
      \<and> evCursor b = snd l - (length (fst l) - maxEventBufferSize))"

lemma last_n_conv: "last_n n xs = drop (length xs - n) xs"
  by (simp add: last_n_def rev_take)

lemma log_rel_push: "log_rel b l \<Longrightarrow> log_rel (push b e) (log_push l e)"
proof -
  assume r: "log_rel b l"
  let ?L = "fst l"
  have ev: "evEvents b = drop (length ?L - maxEventBufferSize) ?L" using r by (simp add: log_rel_def log_recent_def last_n_conv)
  show ?thesis
  proof (cases "maxEventBufferSize \<le> length ?L")
    case True
    then have len: "length (evEvents b) = maxEventBufferSize" by (simp add: ev)
    have "Suc (length ?L - maxEventBufferSize) = Suc (length ?L) - maxEventBufferSize" using True by simp
    then have "tl (evEvents b) @ [e] = drop (Suc (length ?L) - maxEventBufferSize) (?L @ [e])"
      using True by (simp add: ev drop_Suc [symmetric] tl_drop drop_tl maxEventBufferSize_def)
    moreover have "maxEventBufferSize > 0" by (simp add: maxEventBufferSize_def)
    ultimately show ?thesis
      using r True len by (auto simp: log_rel_def log_push_def push_def log_recent_def last_n_conv)
  next
    case False
    then show ?thesis using r by (simp add: log_rel_def log_push_def push_def log_recent_def last_n_conv)
  qed
qed

interpretation events: event_simulation log_rel push drain all_events log_push log_drain log_recent
proof
  fix b l e assume r: "log_rel b l"
  show "log_rel (push b e) (log_push l e)" by (rule log_rel_push [OF r])
  show "all_events b = log_recent l" using r by (simp add: all_events_def log_rel_def)
  let ?n = "length (fst l)" and ?m = maxEventBufferSize
  have idx: "snd l - (?n - ?m) + (?n - ?m) = ?n - (snd l + ?m) + snd l" if "snd l \<le> ?n" using that by simp
  have cur: "?n - (?n - ?m) \<le> snd l - (?n - ?m) \<Longrightarrow> snd l \<le> ?n \<Longrightarrow> snd l - (?n - ?m) = ?n - (?n - ?m)"
    by (rule le_antisym [OF diff_le_mono])
  show "log_rel (fst (drain b)) (fst (log_drain l)) \<and> snd (drain b) = snd (log_drain l)"
    using r by (auto simp: log_rel_def drain_def log_drain_def log_recent_def last_n_conv idx cur)
qed

text \<open>C23: for every sequence of pushes, polls and listings the ring buffer answers exactly as an unbounded
  log: a poll returns the events pushed since the last poll, in order and none twice, of which only
  those older than the last 100 are missing; a listing returns the last 100 events.\<close>

theorem event_buffer_refines_log:
  "event_run push drain all_events newEventBuffer ops = event_run log_push log_drain log_recent ([], 0) ops"
proof -
  have "log_rel newEventBuffer ([], 0)"
    by (simp add: log_rel_def newEventBuffer_def log_recent_def last_n_conv)
  then show ?thesis by (rule events.runs_agree)
qed

end
