(* ===== verification/Debug_Session.thy ===== *)
theory Debug_Session
  imports Debug_Events Pools "HOL-Library.Word"
begin

text \<open>
  Sessions with a debug adapter: requests and their pending responses (tools/debug/protocol.go), the
  loop that reads the adapter (events.go), the execution operations (operations.go) and the pool of
  sessions (session.go). Messages are those the code tells apart; decoding them and printing them as
  JSON is the third-party package go-dap and a parameter. What the adapter sends, and when, is a list
  of frames or a choice of the step relation.
\<close>

subsection \<open>Messages and the client\<close>

datatype dapMessage =
  Response (rspSeq: int) (rspSuccess: bool) (rspMessage: gostring) (rspBody: gostring)
| RunInTerminalRequest int
| InitializedEvent
| StoppedEvent (stReason: gostring) (stDescription: gostring) (stThread: int) (stText: gostring)
| ContinuedEvent
| OutputEvent gostring gostring
| TerminatedEvent
| ExitedEvent int
| ThreadEvent
| BreakpointEvent
| ModuleEvent
| LoadedSourceEvent
| ProcessEvent
| CapabilitiesEvent
| OtherMessage gostring

text \<open>What the client writes: requests, and responses to requests of the adapter.\<close>

datatype dapOut = OutRequest int gostring | OutReply int int gostring bool

record dapClient =
  dcSeq :: "32 word"
  dcPending :: "int \<Rightarrow> nat option"
  dcChans :: "nat \<Rightarrow> dapMessage option"
  dcWritten :: "dapOut list"

definition newDAPClient :: dapClient where
  "newDAPClient = \<lparr>dcSeq = 0, dcPending = (\<lambda>_. None), dcChans = (\<lambda>_. None), dcWritten = []\<rparr>"

definition nextSeq :: "dapClient \<Rightarrow> dapClient \<times> int" where
  "nextSeq c = (c\<lparr>dcSeq := dcSeq c + 1\<rparr>, sint (dcSeq c + 1))"

definition register_pending :: "dapClient \<Rightarrow> int \<Rightarrow> nat \<Rightarrow> dapClient" where
  "register_pending c seq ch = c\<lparr>dcPending := (dcPending c)(seq \<mapsto> ch), dcChans := (dcChans c)(ch := None)\<rparr>"

definition cleanup_pending :: "dapClient \<Rightarrow> int \<Rightarrow> dapClient" where
  "cleanup_pending c seq = c\<lparr>dcPending := (dcPending c)(seq := None)\<rparr>"

definition write_message :: "dapClient \<Rightarrow> dapOut \<Rightarrow> dapClient" where
  "write_message c m = c\<lparr>dcWritten := dcWritten c @ [m]\<rparr>"

text \<open>The channel of a request holds one message; a second one is dropped.\<close>

definition deliverResponse :: "dapClient \<Rightarrow> dapMessage \<Rightarrow> int \<Rightarrow> dapClient" where
  "deliverResponse c msg requestSeq =
     (case dcPending c requestSeq of
        None \<Rightarrow> c
      | Some ch \<Rightarrow> if dcChans c ch = None then c\<lparr>dcChans := (dcChans c)(ch \<mapsto> msg)\<rparr> else c)"

fun getResponseRequestSeq :: "dapMessage \<Rightarrow> int" where
  "getResponseRequestSeq (Response r ok m b) = r"
| "getResponseRequestSeq _ = - 1"

fun isResponseSuccess :: "dapMessage \<Rightarrow> bool \<times> gostring" where
  "isResponseSuccess (Response r ok m b) = (ok, m)"
| "isResponseSuccess _ = (False, [])"

text \<open>\<open>nextSeq\<close> runs before the answer to a request of the adapter is written.\<close>

fun handleStandardReverseRequest :: "dapClient \<Rightarrow> dapMessage \<Rightarrow> dapClient \<times> bool" where
  "handleStandardReverseRequest c (RunInTerminalRequest seq) =
     (case nextSeq c of (c1, n) \<Rightarrow> (write_message c1 (OutReply n seq ''runInTerminal'' False), True))"
| "handleStandardReverseRequest c _ = (c, False)"

text \<open>A frame is a message, content that go-dap cannot type (with its type, sequence number and command if
  it is JSON), or the end of the stream.\<close>

datatype dapFrame = Frame dapMessage | Untyped "(gostring \<times> int \<times> gostring) option" | StreamError

definition tryHandleReverseRequest :: "dapClient \<Rightarrow> (gostring \<times> int \<times> gostring) option \<Rightarrow> dapClient" where
  "tryHandleReverseRequest c raw =
     (case raw of
        None \<Rightarrow> c
      | Some (ty, seq, command) \<Rightarrow>
          if ty \<noteq> ''request'' then c
          else (case nextSeq c of (c1, n) \<Rightarrow> write_message c1 (OutReply n seq command True)))"

subsection \<open>A session and its event loop\<close>

record debugSession =
  dsId :: gostring
  dsMode :: gostring
  dsLaunch :: bool
  dsClient :: dapClient
  dsState :: gostring
  dsConfigDone :: bool
  dsLastTID :: int
  dsEvents :: eventBuffer
  dsStoppedCh :: "dapMessage option option"
  dsInitialized :: bool
  dsDone :: bool
  dsLooping :: bool
  dsCreatedAt :: int
  dsLastUsed :: int

definition new_session :: "gostring \<Rightarrow> gostring \<Rightarrow> int \<Rightarrow> debugSession" where
  "new_session sid mode now =
     \<lparr>dsId = sid, dsMode = mode, dsLaunch = False, dsClient = newDAPClient, dsState = ''initializing'', dsConfigDone = False,
      dsLastTID = 0, dsEvents = newEventBuffer, dsStoppedCh = None, dsInitialized = False, dsDone = False, dsLooping = True,
      dsCreatedAt = now, dsLastUsed = now\<rparr>"

definition signalStopped :: "dapMessage option \<Rightarrow> debugSession \<Rightarrow> debugSession" where
  "signalStopped msg s = (if dsStoppedCh s = None then s\<lparr>dsStoppedCh := Some msg\<rparr> else s)"

fun event_type :: "dapMessage \<Rightarrow> gostring" where
  "event_type (StoppedEvent r d t x) = ''stopped''"
| "event_type ContinuedEvent = ''continued''"
| "event_type (OutputEvent c t) = ''output''"
| "event_type TerminatedEvent = ''terminated''"
| "event_type (ExitedEvent n) = ''exited''"
| "event_type ThreadEvent = ''thread''"
| "event_type BreakpointEvent = ''breakpoint''"
| "event_type ModuleEvent = ''module''"
| "event_type LoadedSourceEvent = ''loadedSource''"
| "event_type ProcessEvent = ''process''"
| "event_type CapabilitiesEvent = ''capabilities''"
| "event_type InitializedEvent = ''initialized''"
| "event_type _ = ''unknown''"

definition classifyEvent :: "(dapMessage \<Rightarrow> gostring) \<Rightarrow> int \<Rightarrow> dapMessage \<Rightarrow> dapEvent" where
  "classifyEvent marshal now msg = \<lparr>evType = event_type msg, evBody = marshal msg, evTimestamp = now\<rparr>"

text \<open>The deferred end of the loop.\<close>

definition loop_exit :: "debugSession \<Rightarrow> debugSession" where
  "loop_exit s = signalStopped None (s\<lparr>dsState := ''terminated'', dsLooping := False\<rparr>)"

text \<open>The \<open>switch\<close> over the events that change the session.\<close>

fun apply_event :: "dapMessage \<Rightarrow> debugSession \<Rightarrow> debugSession" where
  "apply_event InitializedEvent s = s\<lparr>dsInitialized := True\<rparr>"
| "apply_event (StoppedEvent r d t x) s =
     signalStopped (Some (StoppedEvent r d t x)) (s\<lparr>dsState := ''stopped'', dsLastTID := t\<rparr>)"
| "apply_event ContinuedEvent s = s\<lparr>dsState := ''running''\<rparr>"
| "apply_event TerminatedEvent s = loop_exit (s\<lparr>dsState := ''terminated''\<rparr>)"
| "apply_event (ExitedEvent n) s = s\<lparr>dsState := ''exited''\<rparr>"
| "apply_event _ s = s"

definition loop_step :: "(dapMessage \<Rightarrow> gostring) \<Rightarrow> int \<Rightarrow> dapFrame \<Rightarrow> debugSession \<Rightarrow> debugSession" where
  "loop_step marshal now f s =
     (case f of
        StreamError \<Rightarrow> loop_exit s
      | Untyped raw \<Rightarrow> s\<lparr>dsClient := tryHandleReverseRequest (dsClient s) raw\<rparr>
      | Frame msg \<Rightarrow>
          (if 0 \<le> getResponseRequestSeq msg
           then s\<lparr>dsClient := deliverResponse (dsClient s) msg (getResponseRequestSeq msg)\<rparr>
           else case handleStandardReverseRequest (dsClient s) msg of
                  (c, True) \<Rightarrow> s\<lparr>dsClient := c\<rparr>
                | (c, False) \<Rightarrow> apply_event msg (s\<lparr>dsEvents := push (dsEvents s) (classifyEvent marshal now msg)\<rparr>)))"

text \<open>The loop over the frames that arrive, until it has ended; when no frame is left it waits.\<close>

fun eventLoop :: "(dapMessage \<Rightarrow> gostring) \<Rightarrow> (int \<times> dapFrame) list \<Rightarrow> debugSession \<Rightarrow> debugSession" where
  "eventLoop marshal [] s = s"
| "eventLoop marshal ((now, f) # fs) s = (if dsLooping s then eventLoop marshal fs (loop_step marshal now f s) else s)"

subsection \<open>Requests in flight\<close>

text \<open>Any number of callers with one session: \<open>nReserved\<close> are the numbers drawn by \<open>nextSeq\<close> and not yet used,
  \<open>nWaiting\<close> the calls of \<open>sendRequest\<close> in their \<open>select\<close>, by channel and number, \<open>nAnswered\<close> the responses they
  returned, \<open>nCalls\<close> how often \<open>nextSeq\<close> ran.\<close>

record dapNet =
  nSession :: debugSession
  nReserved :: "int list"
  nWaiting :: "(nat \<times> int) list"
  nNextChan :: nat
  nAnswered :: "(int \<times> dapMessage) list"
  nCalls :: nat

abbreviation nClient :: "dapNet \<Rightarrow> dapClient" where
  "nClient n \<equiv> dsClient (nSession n)"

definition set_client :: "dapClient \<Rightarrow> dapNet \<Rightarrow> dapNet" where
  "set_client c n = n\<lparr>nSession := (nSession n)\<lparr>dsClient := c\<rparr>\<rparr>"

definition net_reserve :: "dapNet \<Rightarrow> dapNet" where
  "net_reserve n = (case nextSeq (nClient n) of (c, seq) \<Rightarrow>
     (set_client c n)\<lparr>nReserved := seq # nReserved n, nCalls := nCalls n + 1\<rparr>)"

definition net_send :: "int \<Rightarrow> gostring \<Rightarrow> dapNet \<Rightarrow> dapNet" where
  "net_send seq command n =
     (set_client (write_message (register_pending (nClient n) seq (nNextChan n)) (OutRequest seq command)) n)
       \<lparr>nReserved := remove1 seq (nReserved n), nWaiting := (nNextChan n, seq) # nWaiting n, nNextChan := nNextChan n + 1\<rparr>"

definition net_frame :: "(dapMessage \<Rightarrow> gostring) \<Rightarrow> int \<Rightarrow> dapFrame \<Rightarrow> dapNet \<Rightarrow> dapNet" where
  "net_frame marshal now f n =
     (let s = loop_step marshal now f (nSession n)
      in n\<lparr>nSession := s, nCalls := nCalls n + (if dcSeq (dsClient s) = dcSeq (nClient n) then 0 else 1)\<rparr>)"

definition net_return :: "nat \<times> int \<Rightarrow> dapNet \<Rightarrow> dapNet" where
  "net_return w n =
     (set_client (cleanup_pending (nClient n) (snd w)) n)
       \<lparr>nWaiting := remove1 w (nWaiting n),
        nAnswered := (case dcChans (nClient n) (fst w) of None \<Rightarrow> [] | Some m \<Rightarrow> [(snd w, m)]) @ nAnswered n\<rparr>"

text \<open>A call that times out cleans up without looking at its channel.\<close>

definition net_timeout :: "nat \<times> int \<Rightarrow> dapNet \<Rightarrow> dapNet" where
  "net_timeout w n = (set_client (cleanup_pending (nClient n) (snd w)) n)\<lparr>nWaiting := remove1 w (nWaiting n)\<rparr>"

inductive net_step :: "dapNet \<Rightarrow> dapNet \<Rightarrow> bool" where
  reserve: "net_step n (net_reserve n)"
| send: "seq \<in> set (nReserved n) \<Longrightarrow> net_step n (net_send seq command n)"
| frame: "dsLooping (nSession n) \<Longrightarrow> net_step n (net_frame marshal now f n)"
| return: "w \<in> set (nWaiting n) \<Longrightarrow> dcChans (nClient n) (fst w) \<noteq> None \<Longrightarrow> net_step n (net_return w n)"
| timeout: "w \<in> set (nWaiting n) \<Longrightarrow> net_step n (net_timeout w n)"

inductive net_reach :: "dapNet \<Rightarrow> bool" where
  start: "net_reach \<lparr>nSession = new_session sid mode now, nReserved = [], nWaiting = [], nNextChan = 0,
    nAnswered = [], nCalls = 0\<rparr>"
| step: "net_reach n \<Longrightarrow> net_step n n' \<Longrightarrow> net_reach n'"

text \<open>Each channel belongs to one call, holds only a response to it, and the pending map leads to calls
  that wait; while the counter has not wrapped the numbers in use are distinct.\<close>

definition net_ok :: "dapNet \<Rightarrow> bool" where
  "net_ok n =
     (dcSeq (nClient n) = of_nat (nCalls n)
      \<and> distinct (map fst (nWaiting n)) \<and> (\<forall>w\<in>set (nWaiting n). fst w < nNextChan n)
      \<and> (\<forall>q ch. dcPending (nClient n) q = Some ch \<longrightarrow> (ch, q) \<in> set (nWaiting n))
      \<and> (\<forall>w\<in>set (nWaiting n). \<forall>m. dcChans (nClient n) (fst w) = Some m \<longrightarrow> getResponseRequestSeq m = snd w)
      \<and> (\<forall>a\<in>set (nAnswered n). getResponseRequestSeq (snd a) = fst a)
      \<and> (nCalls n < 2 ^ 31 \<longrightarrow>
           distinct (nReserved n @ map snd (nWaiting n))
           \<and> (\<forall>q\<in>set (nReserved n @ map snd (nWaiting n)). 0 < q \<and> q \<le> int (nCalls n))
           \<and> (\<forall>w\<in>set (nWaiting n). dcPending (nClient n) (snd w) = Some (fst w))))"

lemma net_okI:
  assumes "dcSeq (nClient n) = of_nat (nCalls n)" "distinct (map fst (nWaiting n))"
    "\<And>w. w \<in> set (nWaiting n) \<Longrightarrow> fst w < nNextChan n"
    "\<And>q ch. dcPending (nClient n) q = Some ch \<Longrightarrow> (ch, q) \<in> set (nWaiting n)"
    "\<And>w m. w \<in> set (nWaiting n) \<Longrightarrow> dcChans (nClient n) (fst w) = Some m \<Longrightarrow> getResponseRequestSeq m = snd w"
    "\<And>a. a \<in> set (nAnswered n) \<Longrightarrow> getResponseRequestSeq (snd a) = fst a"
    "nCalls n < 2 ^ 31 \<Longrightarrow> distinct (nReserved n @ map snd (nWaiting n))"
    "\<And>q. nCalls n < 2 ^ 31 \<Longrightarrow> q \<in> set (nReserved n @ map snd (nWaiting n)) \<Longrightarrow> 0 < q \<and> q \<le> int (nCalls n)"
    "\<And>w. nCalls n < 2 ^ 31 \<Longrightarrow> w \<in> set (nWaiting n) \<Longrightarrow> dcPending (nClient n) (snd w) = Some (fst w)"
  shows "net_ok n"
  unfolding net_ok_def using assms by blast

lemma net_okD:
  assumes "net_ok n"
  shows "dcSeq (nClient n) = of_nat (nCalls n)" "distinct (map fst (nWaiting n))"
    "w \<in> set (nWaiting n) \<Longrightarrow> fst w < nNextChan n"
    "dcPending (nClient n) q = Some ch \<Longrightarrow> (ch, q) \<in> set (nWaiting n)"
    "w \<in> set (nWaiting n) \<Longrightarrow> dcChans (nClient n) (fst w) = Some m \<Longrightarrow> getResponseRequestSeq m = snd w"
    "a \<in> set (nAnswered n) \<Longrightarrow> getResponseRequestSeq (snd a) = fst a"
    "nCalls n < 2 ^ 31 \<Longrightarrow> distinct (nReserved n @ map snd (nWaiting n))"
    "nCalls n < 2 ^ 31 \<Longrightarrow> q \<in> set (nReserved n @ map snd (nWaiting n)) \<Longrightarrow> 0 < q \<and> q \<le> int (nCalls n)"
    "nCalls n < 2 ^ 31 \<Longrightarrow> w \<in> set (nWaiting n) \<Longrightarrow> dcPending (nClient n) (snd w) = Some (fst w)"
  using assms unfolding net_ok_def by blast+

lemma sint_counter: "Suc k < 2 ^ 31 \<Longrightarrow> sint (of_nat k + 1 :: 32 word) = int (Suc k)"
proof -
  assume k: "Suc k < 2 ^ 31"
  have "sint (of_nat (Suc k) :: 32 word) = signed_take_bit 31 (int (Suc k))"
    by (simp add: signed_of_nat del: of_nat_Suc)
  also have "\<dots> = int (Suc k)" using k by (intro signed_take_bit_int_eq_self) simp_all
  finally show ?thesis by (simp add: add.commute)
qed

lemma signal_client [simp]: "dsClient (signalStopped m s) = dsClient s" "dsClient (loop_exit s) = dsClient s"
  by (simp_all add: signalStopped_def loop_exit_def)

lemma apply_event_client [simp]: "dsClient (apply_event m s) = dsClient s"
  by (cases m) simp_all

lemma loop_step_client:
  obtains (same) "dsClient (loop_step marshal now f s) = dsClient s"
  | (reply) out where "dsClient (loop_step marshal now f s)
      = (dsClient s)\<lparr>dcSeq := dcSeq (dsClient s) + 1, dcWritten := dcWritten (dsClient s) @ [out]\<rparr>"
  | (deliver) m where "f = Frame m"
      "dsClient (loop_step marshal now f s) = deliverResponse (dsClient s) m (getResponseRequestSeq m)"
proof (cases f)
  case StreamError
  then show ?thesis using same by (simp add: loop_step_def loop_exit_def signalStopped_def)
next
  case (Untyped raw)
  show ?thesis
  proof (cases "\<exists>seq command. raw = Some (''request'', seq, command)")
    case True
    with Untyped reply show ?thesis
      by (auto simp: loop_step_def tryHandleReverseRequest_def nextSeq_def write_message_def)
  next
    case False
    with Untyped same show ?thesis by (auto simp: loop_step_def tryHandleReverseRequest_def split: option.splits)
  qed
next
  case (Frame m)
  show ?thesis
  proof (cases "0 \<le> getResponseRequestSeq m")
    case True
    with Frame deliver show ?thesis by (simp add: loop_step_def)
  next
    case False
    with Frame show ?thesis using same reply
      by (cases m) (auto simp: loop_step_def nextSeq_def write_message_def)
  qed
qed

lemma word_add1_neq: "(w :: 32 word) + 1 \<noteq> w"
  by simp

lemma net_ok_frame: "net_ok n \<Longrightarrow> net_ok (net_frame marshal now f n)"
proof -
  assume ok: "net_ok n"
  let ?c = "nClient n" and ?c' = "dsClient (loop_step marshal now f (nSession n))"
  show ?thesis
  proof (cases rule: loop_step_client [of marshal now f "nSession n"])
    case same
    with ok show ?thesis by (simp add: net_frame_def Let_def net_ok_def)
  next
    case (reply out)
    let ?n = "net_frame marshal now f n"
    have f: "nClient ?n = (nClient n)\<lparr>dcSeq := dcSeq (nClient n) + 1, dcWritten := dcWritten (nClient n) @ [out]\<rparr>"
      "nReserved ?n = nReserved n" "nWaiting ?n = nWaiting n" "nNextChan ?n = nNextChan n" "nAnswered ?n = nAnswered n"
      "nCalls ?n = Suc (nCalls n)"
      using reply by (simp_all add: net_frame_def Let_def)
    show ?thesis
    proof (rule net_okI)
      show "0 < q \<and> q \<le> int (nCalls ?n)" if "nCalls ?n < 2 ^ 31" "q \<in> set (nReserved ?n @ map snd (nWaiting ?n))" for q
        using that net_okD(8) [OF ok, of q] by (auto simp: f)
    qed (use net_okD [OF ok] in \<open>simp_all add: f\<close>)
  next
    case (deliver m)
    let ?q = "getResponseRequestSeq m"
    have c': "dcSeq ?c' = dcSeq ?c" "dcPending ?c' = dcPending ?c"
      by (simp_all add: deliver(2) deliverResponse_def split: option.splits)
    have "getResponseRequestSeq x = snd w" if w: "w \<in> set (nWaiting n)" "dcChans ?c' (fst w) = Some x" for w x
    proof (cases "dcChans ?c (fst w) = Some x")
      case True
      with ok w show ?thesis by (simp add: net_ok_def)
    next
      case False
      then have "dcPending ?c ?q = Some (fst w)" "x = m"
        using w(2) by (auto simp: deliver(2) deliverResponse_def split: option.splits if_splits)
      then have "(fst w, ?q) \<in> set (nWaiting n)" using ok by (simp add: net_ok_def)
      moreover have "distinct (map fst (nWaiting n))" using ok by (simp add: net_ok_def)
      ultimately have "snd w = ?q" using w(1) by (metis eq_key_imp_eq_value prod.collapse)
      then show ?thesis using \<open>x = m\<close> by simp
    qed
    with ok c' show ?thesis by (simp add: net_frame_def Let_def net_ok_def)
  qed
qed

lemma net_ok_reserve: "net_ok n \<Longrightarrow> net_ok (net_reserve n)"
proof -
  assume ok: "net_ok n"
  have s: "dcSeq (nClient n) = of_nat (nCalls n)" using ok by (simp add: net_ok_def)
  have q: "sint (dcSeq (nClient n) + 1) = int (nCalls n) + 1" if "Suc (nCalls n) < 2 ^ 31"
    using sint_counter [OF that] by (simp add: s)
  let ?n = "net_reserve n"
  have f: "nReserved ?n = sint (dcSeq (nClient n) + 1) # nReserved n" "nWaiting ?n = nWaiting n" "nNextChan ?n = nNextChan n"
    "nAnswered ?n = nAnswered n" "nCalls ?n = Suc (nCalls n)" "dcSeq (nClient ?n) = dcSeq (nClient n) + 1"
    "dcPending (nClient ?n) = dcPending (nClient n)" "dcChans (nClient ?n) = dcChans (nClient n)"
    by (simp_all add: net_reserve_def nextSeq_def set_client_def)
  have "distinct (nReserved ?n @ map snd (nWaiting ?n)) \<and>
      (\<forall>q\<in>set (nReserved ?n @ map snd (nWaiting ?n)). 0 < q \<and> q \<le> int (nCalls ?n))" if "nCalls ?n < 2 ^ 31"
  proof -
    have less: "Suc (nCalls n) < 2 ^ 31" using that by (simp add: f)
    have d: "distinct (nReserved n @ map snd (nWaiting n))"
      "\<And>q. q \<in> set (nReserved n @ map snd (nWaiting n)) \<Longrightarrow> 0 < q \<and> q \<le> int (nCalls n)"
      using ok less by (simp_all add: net_ok_def)
    have new: "int (nCalls n) + 1 \<notin> set (nReserved n @ map snd (nWaiting n))" using d(2) by fastforce
    have "0 < x \<and> x \<le> int (nCalls ?n)" if "x \<in> set (nReserved ?n @ map snd (nWaiting ?n))" for x
      using that d(2) [of x] unfolding f q [OF less] by (force simp del: of_nat_Suc)
    with d(1) new show ?thesis unfolding f q [OF less] by simp
  qed
  moreover have "\<forall>w\<in>set (nWaiting n). dcPending (nClient n) (snd w) = Some (fst w)" if "nCalls ?n < 2 ^ 31"
    using ok that by (simp add: net_ok_def f)
  ultimately show ?thesis using ok by (simp add: net_ok_def f del: distinct_append set_append)
qed

lemma net_ok_send:
  assumes ok: "net_ok n" and seq: "seq \<in> set (nReserved n)"
  shows "net_ok (net_send seq command n)"
proof -
  let ?n = "net_send seq command n"
  have f: "nClient ?n = write_message (register_pending (nClient n) seq (nNextChan n)) (OutRequest seq command)"
    "nReserved ?n = remove1 seq (nReserved n)" "nWaiting ?n = (nNextChan n, seq) # nWaiting n" "nNextChan ?n = nNextChan n + 1"
    "nAnswered ?n = nAnswered n" "nCalls ?n = nCalls n"
    by (simp_all add: net_send_def set_client_def)
  have c: "dcSeq (nClient ?n) = dcSeq (nClient n)" "dcPending (nClient ?n) = (dcPending (nClient n))(seq \<mapsto> nNextChan n)"
    "dcChans (nClient ?n) = (dcChans (nClient n))(nNextChan n := None)"
    by (simp_all add: f write_message_def register_pending_def)
  have less: "fst w < nNextChan n" if "w \<in> set (nWaiting n)" for w using ok that by (simp add: net_ok_def)
  then have new: "nNextChan n \<notin> set (map fst (nWaiting n))" by fastforce
  have seqs: "distinct (nReserved ?n @ map snd (nWaiting ?n))"
    "\<forall>q\<in>set (nReserved ?n @ map snd (nWaiting ?n)). 0 < q \<and> q \<le> int (nCalls n)"
    "\<forall>w\<in>set (nWaiting ?n). dcPending (nClient ?n) (snd w) = Some (fst w)" if "nCalls n < 2 ^ 31"
  proof -
    have d: "distinct (nReserved n @ map snd (nWaiting n))"
      "\<forall>q\<in>set (nReserved n @ map snd (nWaiting n)). 0 < q \<and> q \<le> int (nCalls n)"
      "\<forall>w\<in>set (nWaiting n). dcPending (nClient n) (snd w) = Some (fst w)" using ok that by (simp_all add: net_ok_def)
    show "distinct (nReserved ?n @ map snd (nWaiting ?n))" using d(1) seq by (auto simp: f)
    show "\<forall>q\<in>set (nReserved ?n @ map snd (nWaiting ?n)). 0 < q \<and> q \<le> int (nCalls n)"
      using d(1,2) seq by (auto simp: f)
    have "seq \<notin> snd ` set (nWaiting n)" using d(1) seq by auto
    then show "\<forall>w\<in>set (nWaiting ?n). dcPending (nClient ?n) (snd w) = Some (fst w)" using d(3) by (auto simp: f(3) c(2))
  qed
  have p: "(ch, q) \<in> set (nWaiting ?n)" if "dcPending (nClient ?n) q = Some ch" for q ch
    using that ok by (auto simp: c(2) f(3) net_ok_def split: if_splits)
  have m: "getResponseRequestSeq x = snd w" if "w \<in> set (nWaiting ?n)" "dcChans (nClient ?n) (fst w) = Some x" for w x
    using that ok less new by (auto simp: c(3) f(3) net_ok_def split: if_splits)
  show ?thesis unfolding net_ok_def using ok seqs p m new less
    by (auto simp: c(1) f(3-6) net_ok_def simp del: f(2) intro: less_SucI)
qed

lemma net_ok_cleanup:
  assumes ok: "net_ok n" and w: "w \<in> set (nWaiting n)" and a: "\<forall>x\<in>set as. getResponseRequestSeq (snd x) = fst x"
  shows "net_ok ((set_client (cleanup_pending (nClient n) (snd w)) n)\<lparr>nWaiting := remove1 w (nWaiting n), nAnswered := as\<rparr>)"
proof -
  have d: "distinct (nWaiting n)" "distinct (map fst (nWaiting n))" using ok by (simp_all add: net_ok_def distinct_map)
  have rm: "x \<in> set (remove1 w (nWaiting n)) \<longleftrightarrow> x \<in> set (nWaiting n) \<and> x \<noteq> w" for x using d(1) by simp
  have dm: "distinct (map g (remove1 w ws))" if "distinct (map g ws)" for g :: "nat \<times> int \<Rightarrow> 'b" and ws
    using that by (auto simp: distinct_map intro: inj_on_diff)
  let ?n = "(set_client (cleanup_pending (nClient n) (snd w)) n)\<lparr>nWaiting := remove1 w (nWaiting n), nAnswered := as\<rparr>"
  have f: "dcSeq (nClient ?n) = dcSeq (nClient n)" "dcPending (nClient ?n) = (dcPending (nClient n))(snd w := None)"
    "dcChans (nClient ?n) = dcChans (nClient n)" "nReserved ?n = nReserved n" "nWaiting ?n = remove1 w (nWaiting n)"
    "nNextChan ?n = nNextChan n" "nAnswered ?n = as" "nCalls ?n = nCalls n"
    by (simp_all add: set_client_def cleanup_pending_def)
  show ?thesis
  proof (rule net_okI)
    show "distinct (map fst (nWaiting ?n))" using dm [OF d(2)] by (simp add: f)
    show "(ch, q) \<in> set (nWaiting ?n)" if "dcPending (nClient ?n) q = Some ch" for q ch
      using that net_okD(4) [OF ok, of q ch] by (auto simp: f rm set_client_def cleanup_pending_def split: if_splits)
    show "distinct (nReserved ?n @ map snd (nWaiting ?n))" if "nCalls ?n < 2 ^ 31"
      using that net_okD(7) [OF ok] dm [of snd "nWaiting n"] image_mono [OF set_remove1_subset, of snd w "nWaiting n"]
      by (simp add: f) blast
    show "0 < q \<and> q \<le> int (nCalls ?n)" if "nCalls ?n < 2 ^ 31" "q \<in> set (nReserved ?n @ map snd (nWaiting ?n))" for q
      using that net_okD(8) [OF ok, of q] by (force simp: f rm)
    show "dcPending (nClient ?n) (snd x) = Some (fst x)" if "nCalls ?n < 2 ^ 31" "x \<in> set (nWaiting ?n)" for x
    proof -
      have "distinct (map snd (nWaiting n))" using net_okD(7) [OF ok] that(1) by (simp add: f)
      then have "snd x \<noteq> snd w" using that(2) w by (auto simp: f rm distinct_map dest: inj_onD)
      then show ?thesis using that net_okD(9) [OF ok, of x] by (simp add: f rm set_client_def cleanup_pending_def)
    qed
  qed (use net_okD [OF ok] a in \<open>auto simp: f rm set_client_def cleanup_pending_def\<close>)
qed

lemma net_ok_step: "net_step n n' \<Longrightarrow> net_ok n \<Longrightarrow> net_ok n'"
proof (induction rule: net_step.induct)
  case (return w n)
  have "\<forall>x\<in>set ((case dcChans (nClient n) (fst w) of None \<Rightarrow> [] | Some m \<Rightarrow> [(snd w, m)]) @ nAnswered n).
      getResponseRequestSeq (snd x) = fst x"
    using return by (auto simp: net_ok_def split: option.splits)
  from net_ok_cleanup [OF return(3,1) this] show ?case by (simp add: net_return_def)
next
  case (timeout w n)
  have "\<forall>x\<in>set (nAnswered n). getResponseRequestSeq (snd x) = fst x" using timeout by (simp add: net_ok_def)
  from net_ok_cleanup [OF timeout(2,1) this] show ?case by (simp add: net_timeout_def set_client_def)
qed (simp_all add: net_ok_reserve net_ok_send net_ok_frame)

lemma net_reach_ok: "net_reach n \<Longrightarrow> net_ok n"
proof (induction rule: net_reach.induct)
  case start
  show ?case by (simp add: net_ok_def new_session_def newDAPClient_def)
qed (rule net_ok_step)

text \<open>C22: in every interleaving of callers and adapter a caller only ever gets a response to its own
  request. While fewer than \<open>2 ^ 31\<close> sequence numbers have been drawn, the first response that
  arrives for a waiting request, and no other, is put in the channel of that request.\<close>

theorem dap_routing:
  assumes "net_reach n"
  shows "(\<forall>(seq, m)\<in>set (nAnswered n). getResponseRequestSeq m = seq)
    \<and> (nCalls n < 2 ^ 31 \<longrightarrow> (\<forall>(ch, seq)\<in>set (nWaiting n). \<forall>marshal now m.
         dcChans (nClient (net_frame marshal now (Frame m) n)) ch =
           (if getResponseRequestSeq m = seq \<and> dcChans (nClient n) ch = None then Some m else dcChans (nClient n) ch)))"
proof -
  have ok: "net_ok n" by (rule net_reach_ok [OF assms])
  have "dcChans (nClient (net_frame marshal now (Frame m) n)) ch =
           (if getResponseRequestSeq m = seq \<and> dcChans (nClient n) ch = None then Some m else dcChans (nClient n) ch)"
    if less: "nCalls n < 2 ^ 31" and w: "(ch, seq) \<in> set (nWaiting n)" for marshal now m ch seq
  proof -
    have d: "\<forall>w\<in>set (nWaiting n). dcPending (nClient n) (snd w) = Some (fst w)"
      "\<forall>q\<in>set (nReserved n @ map snd (nWaiting n)). 0 < q \<and> q \<le> int (nCalls n)"
      using ok less by (simp_all add: net_ok_def)
    have p: "dcPending (nClient n) seq = Some ch" "0 < seq" using bspec [OF d(1) w] bspec [OF d(2), of seq] w by force+
    have other: "q = seq" if "dcPending (nClient n) q = Some ch" for q
    proof -
      have "(ch, q) \<in> set (nWaiting n)" "distinct (map fst (nWaiting n))" using ok that by (simp_all add: net_ok_def)
      with w show ?thesis by (blast dest: eq_key_imp_eq_value)
    qed
    show ?thesis
    proof (cases "0 \<le> getResponseRequestSeq m")
      case True
      have c: "nClient (net_frame marshal now (Frame m) n) = deliverResponse (nClient n) m (getResponseRequestSeq m)"
        using True by (simp add: net_frame_def Let_def loop_step_def)
      show ?thesis
      proof (cases "dcPending (nClient n) (getResponseRequestSeq m)")
        case None
        with p(1) show ?thesis unfolding c by (auto simp: deliverResponse_def)
      next
        case (Some ch')
        with p(1) other [of "getResponseRequestSeq m"] show ?thesis unfolding c by (auto simp: deliverResponse_def)
      qed
    next
      case False
      have "dcChans (nClient (net_frame marshal now (Frame m) n)) = dcChans (nClient n)"
        using False by (cases m) (simp_all add: net_frame_def Let_def loop_step_def nextSeq_def write_message_def)
      with False p(2) show ?thesis by auto
    qed
  qed
  moreover have "\<forall>(seq, m)\<in>set (nAnswered n). getResponseRequestSeq m = seq" using ok by (auto simp: net_ok_def)
  ultimately show ?thesis by blast
qed

definition one_request :: dapNet where
  "one_request = net_send 1 ''threads'' (net_reserve \<lparr>nSession = new_session ''s'' ''tcp'' 0, nReserved = [], nWaiting = [],
     nNextChan = 0, nAnswered = [], nCalls = 0\<rparr>)"

lemma one_request_reach: "net_reach one_request"
proof -
  let ?n = "\<lparr>nSession = new_session ''s'' ''tcp'' 0, nReserved = [], nWaiting = [], nNextChan = 0, nAnswered = [], nCalls = 0\<rparr> :: dapNet"
  have "net_reach (net_reserve ?n)" by (rule net_reach.step [OF net_reach.start net_step.reserve])
  moreover have "1 \<in> set (nReserved (net_reserve ?n))"
    by (simp add: net_reserve_def nextSeq_def new_session_def newDAPClient_def set_client_def)
  ultimately show ?thesis unfolding one_request_def by (rule net_reach.step [OF _ net_step.send])
qed

theorem dap_routing_witness:
  "dcChans (nClient (net_frame (\<lambda>_. []) 0 (Frame (Response 1 True [] [])) one_request)) 0 = Some (Response 1 True [] [])
   \<and> dcChans (nClient (net_frame (\<lambda>_. []) 0 (Frame (Response 2 True [] [])) one_request)) 0 = None"
proof -
  have f: "nWaiting one_request = [(0, 1)]" "nCalls one_request = 1" "dcChans (nClient one_request) 0 = None"
    by (simp_all add: one_request_def net_send_def net_reserve_def nextSeq_def new_session_def newDAPClient_def set_client_def
        write_message_def register_pending_def)
  from dap_routing [OF one_request_reach] f show ?thesis by simp
qed

end
