(* ===== verification/Debug_Ops.thy ===== *)
theory Debug_Ops
  imports Debug_Session
begin

text \<open>
  Operations on a debug session (tools/debug/operations.go, handler.go) and the pool of sessions
  (tools/debug/session.go). A blocking call comes with the frames that arrive while it blocks, which
  the event loop takes in; when its answer is not among them it runs into its timeout.
\<close>

type_synonym frames = "(int \<times> dapFrame) list"

subsection \<open>Requests\<close>

text \<open>The number is drawn, the channel (named by the number of messages written before) is registered, the
  request is written and the call waits. A write that fails returns like a timeout, with nothing taken in.\<close>

definition sendRequest ::
  "(dapMessage \<Rightarrow> gostring) \<Rightarrow> gostring \<Rightarrow> frames \<Rightarrow> debugSession \<Rightarrow> debugSession \<times> dapMessage option" where
  "sendRequest marshal command fs s =
     (case nextSeq (dsClient s) of (c1, seq) \<Rightarrow>
        let ch = length (dcWritten c1);
            c2 = write_message (register_pending c1 seq ch) (OutRequest seq command);
            s1 = eventLoop marshal fs (s\<lparr>dsClient := c2\<rparr>)
        in (s1\<lparr>dsClient := cleanup_pending (dsClient s1) seq\<rparr>, dcChans (dsClient s1) ch))"

datatype debug_error =
  ProgramOver gostring | NotInitialized | ExceptionFiltersFailed | ConfigurationFailed | RequestFailed gostring

definition checkSessionAlive :: "debugSession \<Rightarrow> debug_error option" where
  "checkSessionAlive s =
     (if dsState s = ''terminated'' \<or> dsState s = ''exited'' then Some (ProgramOver (dsState s)) else None)"

definition resolveThreadID :: "debugSession \<Rightarrow> int \<Rightarrow> int" where
  "resolveThreadID s inputTID =
     (if inputTID \<noteq> 0 then inputTID else if dsLastTID s \<noteq> 0 then dsLastTID s else 1)"

definition defaultTimeout :: int where
  "defaultTimeout = 30 * 1000000000"

definition maxTimeout :: int where
  "maxTimeout = 120 * 1000000000"

definition resolveTimeout :: "int \<Rightarrow> int" where
  "resolveTimeout timeoutSec =
     (if timeoutSec \<le> 0 then defaultTimeout
      else let d = sint (of_int (timeoutSec * 1000000000) :: 64 word) in if maxTimeout < d then maxTimeout else d)"

definition stop_text :: "gostring \<Rightarrow> gostring \<Rightarrow> int \<Rightarrow> gostring \<Rightarrow> gostring" where
  "stop_text reason description tid text =
     ''Stopped: '' @ reason @ [LF]
     @ (if description \<noteq> [] then ''Description: '' @ description @ [LF] else [])
     @ ''Thread: '' @ show_int tid @ [LF]
     @ (if text \<noteq> [] then ''Text: '' @ text @ [LF] else [])
     @ [LF] @ ''Use operation=stack_trace to see the call stack, or operation=threads to list threads.''"

definition terminated_text :: gostring where
  "terminated_text = ''Session terminated while waiting for stopped event''"

definition closed_text :: gostring where
  "closed_text = ''Session terminated while waiting for stopped event. Use operation=status for details.''"

definition running_text :: gostring where
  "running_text = ''Program is still running (no breakpoint hit within timeout). Use operation=status to check later.''"

fun stop_report :: "dapMessage option \<Rightarrow> gostring" where
  "stop_report None = terminated_text"
| "stop_report (Some (StoppedEvent r d t x)) = stop_text r d t x"
| "stop_report (Some m) = ''Stopped (details unavailable)''"

text \<open>\<open>pick_done\<close> is the choice of \<open>select\<close> when both channels are ready.\<close>

definition waitForStopped ::
  "(dapMessage \<Rightarrow> gostring) \<Rightarrow> bool \<Rightarrow> frames \<Rightarrow> debugSession \<Rightarrow> debugSession \<times> gostring" where
  "waitForStopped marshal pick_done fs s =
     (let s1 = eventLoop marshal fs s in
      if dsDone s1 \<and> (pick_done \<or> dsStoppedCh s1 = None) then (s1, closed_text)
      else case dsStoppedCh s1 of
             Some msg \<Rightarrow> (s1\<lparr>dsStoppedCh := None\<rparr>, stop_report msg)
           | None \<Rightarrow> (s1, running_text))"

subsection \<open>Running the program\<close>

text \<open>The frames at each blocking point of an operation.\<close>

record exec_script =
  esInit :: frames
  esFilters :: frames
  esConfig :: frames
  esRequest :: frames
  esWait :: frames
  esPickDone :: bool

definition sendConfigurationDoneIfNeeded ::
  "(dapMessage \<Rightarrow> gostring) \<Rightarrow> exec_script \<Rightarrow> debugSession \<Rightarrow> debugSession \<times> debug_error option" where
  "sendConfigurationDoneIfNeeded marshal sc s =
     (if dsConfigDone s then (s, None)
      else let s1 = eventLoop marshal (esInit sc) (s\<lparr>dsConfigDone := True\<rparr>) in
        if \<not> dsInitialized s1 then (s1\<lparr>dsConfigDone := False\<rparr>, Some NotInitialized)
        else case sendRequest marshal ''setExceptionBreakpoints'' (esFilters sc) s1 of
               (s2, None) \<Rightarrow> (s2\<lparr>dsConfigDone := False\<rparr>, Some ExceptionFiltersFailed)
             | (s2, Some _) \<Rightarrow>
                 (case sendRequest marshal ''configurationDone'' (esConfig sc) s2 of
                    (s3, None) \<Rightarrow> (s3\<lparr>dsConfigDone := False\<rparr>, Some ConfigurationFailed)
                  | (s3, Some _) \<Rightarrow> (s3, None)))"

text \<open>\<open>opContinue\<close> and \<open>stepOperation\<close>, which differ in the request; the thread goes into its arguments.\<close>

definition run_operation ::
  "(dapMessage \<Rightarrow> gostring) \<Rightarrow> gostring \<Rightarrow> exec_script \<Rightarrow> debugSession \<Rightarrow> debugSession \<times> (debug_error + gostring)" where
  "run_operation marshal command sc s =
     (case checkSessionAlive s of
        Some e \<Rightarrow> (s, Inl e)
      | None \<Rightarrow>
          let s1 = s\<lparr>dsStoppedCh := None\<rparr> in
          if \<not> dsConfigDone s1 then
            (case sendConfigurationDoneIfNeeded marshal sc s1 of
               (s2, Some e) \<Rightarrow> (s2, Inl e)
             | (s2, None) \<Rightarrow>
                 (case waitForStopped marshal (esPickDone sc) (esWait sc) (s2\<lparr>dsState := ''running''\<rparr>) of
                    (s3, r) \<Rightarrow> (s3, Inr r)))
          else
            (case sendRequest marshal command (esRequest sc) (s1\<lparr>dsState := ''running''\<rparr>) of
               (s2, None) \<Rightarrow> (s2, Inl (RequestFailed command))
             | (s2, Some _) \<Rightarrow>
                 (case waitForStopped marshal (esPickDone sc) (esWait sc) s2 of (s3, r) \<Rightarrow> (s3, Inr r))))"

definition opContinue ::
  "(dapMessage \<Rightarrow> gostring) \<Rightarrow> exec_script \<Rightarrow> debugSession \<Rightarrow> debugSession \<times> (debug_error + gostring)" where
  "opContinue marshal sc s = run_operation marshal ''continue'' sc s"

definition stepOperation ::
  "(dapMessage \<Rightarrow> gostring) \<Rightarrow> exec_script \<Rightarrow> debugSession \<Rightarrow> gostring \<Rightarrow> debugSession \<times> (debug_error + gostring)" where
  "stepOperation marshal sc s kind = run_operation marshal kind sc s"

definition opPause ::
  "(dapMessage \<Rightarrow> gostring) \<Rightarrow> exec_script \<Rightarrow> debugSession \<Rightarrow> debugSession \<times> (debug_error + gostring)" where
  "opPause marshal sc s =
     (case checkSessionAlive s of
        Some e \<Rightarrow> (s, Inl e)
      | None \<Rightarrow>
          (case sendRequest marshal ''pause'' (esRequest sc) (s\<lparr>dsStoppedCh := None\<rparr>) of
             (s1, None) \<Rightarrow> (s1, Inl (RequestFailed ''pause''))
           | (s1, Some _) \<Rightarrow> (case waitForStopped marshal (esPickDone sc) (esWait sc) s1 of (s2, r) \<Rightarrow> (s2, Inr r))))"

subsection \<open>The pool of sessions\<close>

definition debugMaxSessions :: nat where
  "debugMaxSessions = 5"

definition debugIdleTimeout :: int where
  "debugIdleTimeout = 30 * 60 * 1000000000"

text \<open>\<open>dpClosed\<close> are the sessions the pool has closed.\<close>

record debugPool =
  dpSessions :: "(gostring \<times> debugSession) list"
  dpClosed :: "debugSession list"

text \<open>Closing ends the stream the event loop reads.\<close>

definition debug_close :: "debugSession \<Rightarrow> debugSession" where
  "debug_close s = loop_exit (s\<lparr>dsDone := True\<rparr>)"

definition debug_get :: "debugPool \<Rightarrow> gostring \<Rightarrow> int \<Rightarrow> debugPool \<times> debugSession option" where
  "debug_get p sid now =
     (case map_of (dpSessions p) sid of
        None \<Rightarrow> (p, None)
      | Some s \<Rightarrow> (p\<lparr>dpSessions := AList.update sid (s\<lparr>dsLastUsed := now\<rparr>) (dpSessions p)\<rparr>, Some (s\<lparr>dsLastUsed := now\<rparr>)))"

definition debug_close_where :: "(gostring \<times> debugSession \<Rightarrow> bool) \<Rightarrow> debugPool \<Rightarrow> debugPool" where
  "debug_close_where P p =
     p\<lparr>dpSessions := filter (\<lambda>e. \<not> P e) (dpSessions p),
       dpClosed := map (debug_close \<circ> snd) (filter P (dpSessions p)) @ dpClosed p\<rparr>"

definition debug_oldest :: "(gostring \<times> debugSession) list \<Rightarrow> gostring" where
  "debug_oldest ss = oldest_key (map (\<lambda>(k, s). (k, dsLastUsed s)) ss)"

definition debug_evict :: "(gostring \<times> debugSession) list \<Rightarrow> (gostring \<times> debugSession) list" where
  "debug_evict ss = (if debug_oldest ss \<noteq> [] then AList.delete (debug_oldest ss) ss else ss)"

definition debug_evictOldestLocked :: "debugPool \<Rightarrow> debugPool" where
  "debug_evictOldestLocked p =
     (if debug_oldest (dpSessions p) \<noteq> [] then debug_close_where (\<lambda>e. fst e = debug_oldest (dpSessions p)) p else p)"

definition debug_add :: "debugPool \<Rightarrow> debugSession \<Rightarrow> debugPool option" where
  "debug_add p s =
     (if map_of (dpSessions p) (dsId s) \<noteq> None then None
      else let p1 = (if debugMaxSessions \<le> length (dpSessions p) then debug_evictOldestLocked p else p)
           in Some (p1\<lparr>dpSessions := AList.update (dsId s) s (dpSessions p1)\<rparr>))"

definition debug_remove :: "debugPool \<Rightarrow> gostring \<Rightarrow> debugPool \<times> bool" where
  "debug_remove p sid =
     (case map_of (dpSessions p) sid of None \<Rightarrow> (p, False) | Some s \<Rightarrow> (debug_close_where (\<lambda>e. fst e = sid) p, True))"

definition debug_reap :: "debugPool \<Rightarrow> int \<Rightarrow> debugPool" where
  "debug_reap p now = debug_close_where (\<lambda>(k, s). debugIdleTimeout < now - dsLastUsed s) p"

text \<open>\<open>opDisconnect\<close> waits for an answer it does not look at; the second component is whether one came.\<close>

definition opDisconnect ::
  "(dapMessage \<Rightarrow> gostring) \<Rightarrow> frames \<Rightarrow> debugPool \<Rightarrow> debugSession \<Rightarrow> debugPool \<times> bool" where
  "opDisconnect marshal fs p s =
     (case sendRequest marshal ''disconnect'' fs s of
        (s1, r) \<Rightarrow> (fst (debug_remove p (dsId s)), r \<noteq> None))"

interpretation debug: never_busy_pool dsLastUsed "\<lambda>_. False" debug_evict debugMaxSessions
proof
  show "0 < debugMaxSessions" by (simp add: debugMaxSessions_def)
  fix p :: "(gostring \<times> debugSession) list"
  show "list_all ((\<lambda>_. False) \<circ> snd) p \<Longrightarrow> debug_evict p = p"
    by (cases p) (simp_all add: debug_evict_def debug_oldest_def oldest_key_def)
  assume p: "pool_wf p" "\<not> list_all ((\<lambda>_. False) \<circ> snd) p"
  then have "p \<noteq> []" by auto
  from oldest_key_in [OF p(1) this, of dsLastUsed] obtain e where
    "(debug_oldest p, e) \<in> set p" "debug_oldest p \<noteq> []" "\<forall>(k, e')\<in>set p. dsLastUsed e \<le> dsLastUsed e'"
    unfolding debug_oldest_def by blast
  then show "\<exists>k e. (k, e) \<in> set p \<and> \<not> False \<and> debug_evict p = AList.delete k p
      \<and> (\<forall>(k', e')\<in>set p. \<not> False \<longrightarrow> dsLastUsed e \<le> dsLastUsed e')"
    by (auto simp: debug_evict_def)
qed simp

subsection \<open>The pool stays within its limit\<close>

inductive debug_step :: "debugPool \<Rightarrow> debugPool \<Rightarrow> bool" where
  get: "debug_step p (fst (debug_get p sid now))"
| add: "debug_add p s = Some p' \<Longrightarrow> dsId s \<noteq> [] \<Longrightarrow> debug_step p p'"
| remove: "debug_step p (fst (debug_remove p sid))"
| reap: "debug_step p (debug_reap p now)"
| update: "map_of (dpSessions p) sid = Some s \<Longrightarrow> dsId s' = dsId s \<Longrightarrow>
    debug_step p (p\<lparr>dpSessions := AList.update sid s' (dpSessions p)\<rparr>)"
| reorder: "mset ss = mset (dpSessions p) \<Longrightarrow> debug_step p (p\<lparr>dpSessions := ss\<rparr>)"

inductive debug_reach :: "debugPool \<Rightarrow> bool" where
  start: "debug_reach \<lparr>dpSessions = [], dpClosed = []\<rparr>"
| step: "debug_reach p \<Longrightarrow> debug_step p p' \<Longrightarrow> debug_reach p'"

definition debug_ok :: "debugPool \<Rightarrow> bool" where
  "debug_ok p = (pool_wf (dpSessions p) \<and> length (dpSessions p) \<le> debugMaxSessions
     \<and> (\<forall>s\<in>set (dpClosed p). dsDone s \<and> \<not> dsLooping s))"

lemma debug_close_ended: "dsDone (debug_close s) \<and> \<not> dsLooping (debug_close s)"
  by (simp add: debug_close_def loop_exit_def signalStopped_def)

lemma debug_ok_close_where: "debug_ok p \<Longrightarrow> debug_ok (debug_close_where P p)"
  by (auto simp: debug_ok_def debug_close_where_def pool_wf_filter debug_close_ended intro: order_trans [OF length_filter_le])

lemma length_update_mem: "map_of p k \<noteq> None \<Longrightarrow> length (AList.update k v p) = length p"
  by (induction p) (auto split: if_splits)

lemma pool_key_ne: "pool_wf p \<Longrightarrow> map_of p k = Some v \<Longrightarrow> k \<noteq> []"
  by (auto simp: pool_wf_def dest!: map_of_SomeD) (metis fst_conv image_eqI)

lemma debug_ok_step: "debug_step p p' \<Longrightarrow> debug_ok p \<Longrightarrow> debug_ok p'"
proof (induction rule: debug_step.induct)
  case (get p sid now)
  then show ?case
    by (auto simp: debug_get_def debug_ok_def length_update_mem pool_wf_update pool_key_ne split: option.splits)
next
  case (add p s p')
  let ?e = "if debugMaxSessions \<le> length (dpSessions p) then debug_evict (dpSessions p) else dpSessions p"
  let ?p1 = "if debugMaxSessions \<le> length (dpSessions p) then debug_evictOldestLocked p else p"
  have wf: "pool_wf (dpSessions p)" "length (dpSessions p) \<le> debugMaxSessions" using add by (simp_all add: debug_ok_def)
  have p1: "dpSessions ?p1 = ?e"
    by (simp add: debug_evictOldestLocked_def debug_evict_def debug_close_where_def delete_conv_filter)
  have ok1: "debug_ok ?p1" using add by (simp add: debug_evictOldestLocked_def debug_ok_close_where)
  have p': "p' = ?p1\<lparr>dpSessions := AList.update (dsId s) s ?e\<rparr>"
  proof -
    have "map_of (dpSessions p) (dsId s) = None" using add(1) by (auto simp: debug_add_def split: if_splits)
    then have "debug_add p s = Some (?p1\<lparr>dpSessions := AList.update (dsId s) s (dpSessions ?p1)\<rparr>)"
      by (simp only: debug_add_def Let_def simp_thms if_False)
    with add(1) show ?thesis unfolding p1 by simp
  qed
  have "pool_wf (AList.update (dsId s) s ?e)" using debug.lru.room_wf [OF wf(1)] add(2) by (simp add: pool_wf_update)
  moreover have "length (AList.update (dsId s) s ?e) \<le> debugMaxSessions" by (rule debug.lru.insert_bound [OF wf])
  ultimately show ?case using ok1 by (simp add: p' debug_ok_def del: update.simps)
next
  case (update p sid s s')
  then show ?case by (auto simp: debug_ok_def length_update_mem dest: pool_key_ne intro: pool_wf_update)
next
  case (reorder ss p)
  have "distinct (map fst ss)" "set ss = set (dpSessions p)" "length ss = length (dpSessions p)"
    using reorder by (auto simp: debug_ok_def pool_wf_def dest: mset_eq_setD mset_eq_length)
      (metis mset_eq_imp_distinct_iff mset_map)
  with reorder show ?case by (simp add: debug_ok_def pool_wf_def)
qed (simp_all add: debug_remove_def debug_reap_def debug_ok_close_where split: option.splits)

lemma debug_pool_bound: "debug_reach p \<Longrightarrow> length (dpSessions p) \<le> 5"
proof -
  have "debug_reach p \<Longrightarrow> debug_ok p"
  proof (induction rule: debug_reach.induct)
    case start
    show ?case by (simp add: debug_ok_def pool_wf_def)
  qed (rule debug_ok_step)
  then show "debug_reach p \<Longrightarrow> length (dpSessions p) \<le> 5" by (simp add: debug_ok_def debugMaxSessions_def)
qed

subsection \<open>What the loop leaves behind\<close>

text \<open>The first thing the frames put on the channel of stops: a stop, or nil when the loop ends.\<close>

fun first_stop :: "frames \<Rightarrow> dapMessage option option" where
  "first_stop [] = None"
| "first_stop ((now, f) # fs) =
     (case f of
        StreamError \<Rightarrow> Some None
      | Frame TerminatedEvent \<Rightarrow> Some None
      | Frame (StoppedEvent r d t x) \<Rightarrow> Some (Some (StoppedEvent r d t x))
      | _ \<Rightarrow> first_stop fs)"

lemma apply_event_fields [simp]:
  "dsConfigDone (apply_event m s) = dsConfigDone s" "dsDone (apply_event m s) = dsDone s"
  by (cases m; simp add: signalStopped_def loop_exit_def)+

lemma loop_step_fields [simp]:
  "dsConfigDone (loop_step marshal now f s) = dsConfigDone s" "dsDone (loop_step marshal now f s) = dsDone s"
  by (auto simp: loop_step_def loop_exit_def signalStopped_def split: dapFrame.splits prod.splits bool.splits)

lemma eventLoop_fields [simp]: "dsConfigDone (eventLoop marshal fs s) = dsConfigDone s" "dsDone (eventLoop marshal fs s) = dsDone s"
  by (induction marshal fs s rule: eventLoop.induct) simp_all

lemma eventLoop_stopped: "\<not> dsLooping s \<Longrightarrow> eventLoop marshal fs s = s"
  by (cases fs) auto

text \<open>One step, as far as stops are concerned.\<close>

lemma loop_step_stop:
  "dsStoppedCh (loop_step marshal now f s) = (case dsStoppedCh s of Some x \<Rightarrow> Some x | None \<Rightarrow> first_stop [(now, f)])
   \<and> (dsLooping (loop_step marshal now f s) \<longleftrightarrow> dsLooping s \<and> f \<noteq> StreamError \<and> f \<noteq> Frame TerminatedEvent)"
proof (cases f)
  case (Frame m)
  show ?thesis
  proof (cases "0 \<le> getResponseRequestSeq m")
    case True
    then show ?thesis using Frame by (cases m) (auto simp: loop_step_def split: option.splits)
  next
    case False
    then show ?thesis using Frame
      by (cases m) (auto simp: loop_step_def signalStopped_def loop_exit_def nextSeq_def split: option.splits)
  qed
qed (auto simp: loop_step_def loop_exit_def signalStopped_def split: option.splits)

lemma first_stop_Cons:
  "first_stop ((now, f) # fs) = (case first_stop [(now, f)] of Some x \<Rightarrow> Some x | None \<Rightarrow> first_stop fs)"
  by (cases f) (auto split: dapMessage.splits)

lemma eventLoop_stop:
  "dsLooping s \<or> dsStoppedCh s \<noteq> None \<Longrightarrow>
   dsStoppedCh (eventLoop marshal fs s) = (case dsStoppedCh s of Some x \<Rightarrow> Some x | None \<Rightarrow> first_stop fs)
   \<and> (dsLooping (eventLoop marshal fs s) \<or> dsStoppedCh (eventLoop marshal fs s) \<noteq> None)"
proof (induction marshal fs s rule: eventLoop.induct)
  case (2 marshal now f fs s)
  note st = loop_step_stop [of marshal now f s]
  show ?case
  proof (cases "dsLooping s")
    case False
    then show ?thesis using 2 by auto
  next
    case True
    have inv: "dsLooping (loop_step marshal now f s) \<or> dsStoppedCh (loop_step marshal now f s) \<noteq> None"
      using st True by (cases f) (auto split: option.splits dapMessage.splits)
    show ?thesis using 2(1) [OF True inv] True st
      by (auto simp: first_stop_Cons [of now f fs] simp del: first_stop.simps split: option.splits)
  qed
qed (auto split: option.splits)

lemma first_stop_append: "first_stop (fs @ gs) = (case first_stop fs of Some x \<Rightarrow> Some x | None \<Rightarrow> first_stop gs)"
  by (induction fs rule: first_stop.induct) (auto split: dapFrame.splits dapMessage.splits option.splits)

lemma sendRequest_stop:
  assumes "dsLooping s \<or> dsStoppedCh s \<noteq> None"
  shows "dsStoppedCh (fst (sendRequest marshal command fs s)) = (case dsStoppedCh s of Some x \<Rightarrow> Some x | None \<Rightarrow> first_stop fs)
    \<and> (dsLooping (fst (sendRequest marshal command fs s)) \<or> dsStoppedCh (fst (sendRequest marshal command fs s)) \<noteq> None)
    \<and> dsDone (fst (sendRequest marshal command fs s)) = dsDone s"
proof -
  let ?t = "s\<lparr>dsClient := write_message (register_pending (fst (nextSeq (dsClient s))) (snd (nextSeq (dsClient s)))
      (length (dcWritten (fst (nextSeq (dsClient s)))))) (OutRequest (snd (nextSeq (dsClient s))) command)\<rparr>"
  have "dsLooping ?t \<or> dsStoppedCh ?t \<noteq> None" using assms by simp
  from eventLoop_stop [OF this, of marshal fs] show ?thesis
    by (auto simp: sendRequest_def Let_def case_prod_beta)
qed

text \<open>What an operation has taken in when it reports, seen as far as stops are concerned.\<close>

definition stop_tracked :: "debugSession \<Rightarrow> frames \<Rightarrow> bool" where
  "stop_tracked s fs \<longleftrightarrow> dsStoppedCh s = first_stop fs \<and> (dsLooping s \<or> dsStoppedCh s \<noteq> None) \<and> \<not> dsDone s"

lemma stop_tracked_loop:
  assumes "stop_tracked s fs"
  shows "stop_tracked (eventLoop marshal gs s) (fs @ gs)"
proof -
  have st: "dsStoppedCh s = first_stop fs" "dsLooping s \<or> dsStoppedCh s \<noteq> None" "\<not> dsDone s"
    using assms unfolding stop_tracked_def by blast+
  show ?thesis
    using eventLoop_stop [OF st(2), of marshal gs] st(3)
    unfolding stop_tracked_def first_stop_append st(1) [symmetric] eventLoop_fields by blast
qed

lemma stop_tracked_request:
  assumes "stop_tracked s fs"
  shows "stop_tracked (fst (sendRequest marshal command gs s)) (fs @ gs)"
proof -
  have st: "dsStoppedCh s = first_stop fs" "dsLooping s \<or> dsStoppedCh s \<noteq> None" "\<not> dsDone s"
    using assms unfolding stop_tracked_def by blast+
  show ?thesis
    using sendRequest_stop [OF st(2), of marshal command gs] st(3)
    unfolding stop_tracked_def first_stop_append st(1) [symmetric] by blast
qed

lemma stop_tracked_upd [simp]:
  "stop_tracked (s\<lparr>dsState := x\<rparr>) fs = stop_tracked s fs" "stop_tracked (s\<lparr>dsConfigDone := b\<rparr>) fs = stop_tracked s fs"
  by (simp_all add: stop_tracked_def)

lemma waitForStopped_tracked:
  assumes "stop_tracked s fs"
  shows "snd (waitForStopped marshal pick gs s) =
    (case first_stop (fs @ gs) of Some msg \<Rightarrow> stop_report msg | None \<Rightarrow> running_text)"
  using stop_tracked_loop [OF assms, of marshal gs] by (auto simp: waitForStopped_def Let_def stop_tracked_def split: option.splits)

lemma configuration_tracked:
  assumes "stop_tracked s fs" "\<not> dsConfigDone s" "sendConfigurationDoneIfNeeded marshal sc s = (s', None)"
  shows "stop_tracked s' (fs @ esInit sc @ esFilters sc @ esConfig sc)"
proof -
  let ?s1 = "eventLoop marshal (esInit sc) (s\<lparr>dsConfigDone := True\<rparr>)"
  obtain s2 a where 2: "sendRequest marshal ''setExceptionBreakpoints'' (esFilters sc) ?s1 = (s2, Some a)"
    and 3: "fst (sendRequest marshal ''configurationDone'' (esConfig sc) s2) = s'"
    using assms(2,3) by (auto simp: sendConfigurationDoneIfNeeded_def Let_def split: if_splits option.splits prod.splits)
  have "stop_tracked ?s1 (fs @ esInit sc)" by (rule stop_tracked_loop) (simp add: assms)
  from stop_tracked_request [OF this, of marshal "''setExceptionBreakpoints''" "esFilters sc"] 2
  have "stop_tracked s2 ((fs @ esInit sc) @ esFilters sc)" by simp
  from stop_tracked_request [OF this, of marshal "''configurationDone''" "esConfig sc"] 3 show ?thesis by simp
qed

text \<open>The frames of an operation: on the first run, those of the configuration handshake.\<close>

definition operation_frames :: "exec_script \<Rightarrow> debugSession \<Rightarrow> frames" where
  "operation_frames sc s =
     (if dsConfigDone s then esRequest sc @ esWait sc else esInit sc @ esFilters sc @ esConfig sc @ esWait sc)"

text \<open>C24: On an open session that no other call uses meanwhile, a continue, step or pause that succeeds
  reports the first stop among the frames that arrive after it was called, or the end of the session if
  that comes first, or that the program is still running when neither comes in time; on the first run
  the frames of the configuration handshake count as well. A stop left over from before the call is
  never reported.\<close>

theorem continue_reports_fresh_stop:
  assumes "dsLooping s" "\<not> dsDone s"
  shows "(snd (run_operation marshal command sc s) = Inr report \<longrightarrow>
      report = (case first_stop (operation_frames sc s) of Some msg \<Rightarrow> stop_report msg | None \<Rightarrow> running_text))
    \<and> (snd (opPause marshal sc s) = Inr report \<longrightarrow>
      report = (case first_stop (esRequest sc @ esWait sc) of Some msg \<Rightarrow> stop_report msg | None \<Rightarrow> running_text))"
proof (intro conjI impI)
  let ?s = "s\<lparr>dsStoppedCh := None\<rparr>"
  have t: "stop_tracked ?s []" using assms by (simp add: stop_tracked_def)
  {
    assume run: "snd (run_operation marshal command sc s) = Inr report"
    have alive: "checkSessionAlive s = None" using run by (auto simp: run_operation_def split: option.splits)
    show "report = (case first_stop (operation_frames sc s) of Some msg \<Rightarrow> stop_report msg | None \<Rightarrow> running_text)"
    proof (cases "dsConfigDone s")
      case True
      let ?r = "sendRequest marshal command (esRequest sc) (?s\<lparr>dsState := ''running''\<rparr>)"
      have "stop_tracked (fst ?r) ([] @ esRequest sc)" by (rule stop_tracked_request) (simp only: stop_tracked_upd t)
      from waitForStopped_tracked [OF this, of marshal "esPickDone sc" "esWait sc"] show ?thesis
        using run True alive
        by (auto simp: run_operation_def operation_frames_def Let_def case_prod_beta split: option.splits prod.splits)
    next
      case False
      obtain s2 where c: "sendConfigurationDoneIfNeeded marshal sc ?s = (s2, None)"
        using run False alive by (auto simp: run_operation_def Let_def split: option.splits prod.splits)
      have "stop_tracked (s2\<lparr>dsState := ''running''\<rparr>) ([] @ esInit sc @ esFilters sc @ esConfig sc)"
        using configuration_tracked [OF t _ c] False by simp
      from waitForStopped_tracked [OF this, of marshal "esPickDone sc" "esWait sc"] show ?thesis
        using run False alive c by (simp add: run_operation_def operation_frames_def Let_def case_prod_beta)
    qed
  next
    assume run: "snd (opPause marshal sc s) = Inr report"
    let ?r = "sendRequest marshal ''pause'' (esRequest sc) ?s"
    have "stop_tracked (fst ?r) ([] @ esRequest sc)" by (rule stop_tracked_request [OF t])
    from waitForStopped_tracked [OF this, of marshal "esPickDone sc" "esWait sc"]
    show "report = (case first_stop (esRequest sc @ esWait sc) of Some msg \<Rightarrow> stop_report msg | None \<Rightarrow> running_text)"
      using run by (auto simp: opPause_def case_prod_beta split: option.splits prod.splits)
  }
qed

text \<open>A configured session with a stale stop, and a run to the next breakpoint.\<close>

definition stale_session :: debugSession where
  "stale_session = (new_session ''s'' ''tcp'' 0)\<lparr>dsState := ''stopped'', dsConfigDone := True, dsInitialized := True,
     dsStoppedCh := Some (Some (StoppedEvent ''stale'' [] 1 []))\<rparr>"

definition breakpoint_script :: exec_script where
  "breakpoint_script = \<lparr>esInit = [], esFilters = [], esConfig = [], esRequest = [(1, Frame (Response 1 True [] []))],
     esWait = [(2, Frame ContinuedEvent), (3, Frame (StoppedEvent ''breakpoint'' [] 7 []))], esPickDone = False\<rparr>"

lemmas request_simps = sendRequest_def nextSeq_def new_session_def newDAPClient_def write_message_def register_pending_def
  cleanup_pending_def loop_step_def deliverResponse_def signalStopped_def loop_exit_def Let_def

theorem continue_reports_fresh_stop_witness:
  "snd (opContinue (\<lambda>_. []) breakpoint_script stale_session) = Inr (stop_text ''breakpoint'' [] 7 [])"
proof -
  have "\<exists>r. snd (run_operation (\<lambda>_. []) ''continue'' breakpoint_script stale_session) = Inr r"
    by (simp add: request_simps stale_session_def breakpoint_script_def run_operation_def checkSessionAlive_def waitForStopped_def)
  then obtain r where r: "snd (run_operation (\<lambda>_. []) ''continue'' breakpoint_script stale_session) = Inr r" by blast
  have "dsLooping stale_session" "\<not> dsDone stale_session" by (simp_all add: stale_session_def new_session_def)
  from conjunct1 [OF continue_reports_fresh_stop [OF this], rule_format, OF r] r show ?thesis
    by (simp add: opContinue_def operation_frames_def stale_session_def new_session_def breakpoint_script_def)
qed

lemma terminated_not_looping: "\<not> dsLooping (eventLoop marshal (fs @ [(now, Frame TerminatedEvent)]) s)"
  by (induction marshal fs s rule: eventLoop.induct) (simp_all add: loop_step_stop)

lemma sendRequest_dead: "\<not> dsLooping s \<Longrightarrow> snd (sendRequest marshal command gs s) = None"
  by (simp add: sendRequest_def Let_def case_prod_beta eventLoop_stopped write_message_def register_pending_def)

text \<open>once the adapter has announced the end of the program nothing reads its messages any more: every
  later request, in particular the disconnect that the tool asks for, runs into its timeout whatever
  the adapter answers.\<close>

theorem terminated_session_never_answers:
  "let s' = eventLoop marshal (fs @ [(now, Frame TerminatedEvent)]) s
   in snd (sendRequest marshal command gs s') = None \<and> \<not> snd (opDisconnect marshal gs p s')"
proof -
  let ?s' = "eventLoop marshal (fs @ [(now, Frame TerminatedEvent)]) s"
  have "snd (sendRequest marshal c gs ?s') = None" for c by (rule sendRequest_dead [OF terminated_not_looping])
  then show ?thesis by (simp add: opDisconnect_def Let_def case_prod_beta)
qed

text \<open>the first run of a session sets the state to running after the configuration, over what the event
  loop has set meanwhile. A program that ends right away is reported as terminated, but its session
  says running and is not refused as over by the next operation, which then times out.\<close>

theorem first_run_overwrites_state:
  "let s = (new_session ''s'' ''tcp'' 0)\<lparr>dsState := ''stopped'', dsInitialized := True\<rparr>;
       sc = \<lparr>esInit = [], esFilters = [(1, Frame (Response 1 True [] []))],
             esConfig = [(2, Frame (Response 2 True [] [])), (3, Frame TerminatedEvent)], esRequest = [], esWait = [],
             esPickDone = False\<rparr>;
       (s', r) = opContinue (\<lambda>_. []) sc s
   in r = Inr terminated_text \<and> \<not> dsLooping s' \<and> dsState s' = ''running'' \<and> checkSessionAlive s' = None
      \<and> (\<forall>sc'. snd (opContinue (\<lambda>_. []) sc' s') = Inl (RequestFailed ''continue''))"
proof -
  let ?s = "(new_session ''s'' ''tcp'' 0)\<lparr>dsState := ''stopped'', dsInitialized := True\<rparr>"
  let ?sc = "\<lparr>esInit = [], esFilters = [(1, Frame (Response 1 True [] []))],
             esConfig = [(2, Frame (Response 2 True [] [])), (3, Frame TerminatedEvent)], esRequest = [], esWait = [],
             esPickDone = False\<rparr>"
  obtain s' r where o: "opContinue (\<lambda>_. []) ?sc ?s = (s', r)" by fastforce
  have s': "r = Inr terminated_text" "\<not> dsLooping s'" "dsState s' = ''running''" "dsConfigDone s'"
    using o by (auto simp: opContinue_def run_operation_def sendConfigurationDoneIfNeeded_def waitForStopped_def
        checkSessionAlive_def request_simps)
  have alive: "checkSessionAlive s' = None" using s'(3) by (simp add: checkSessionAlive_def)
  have "snd (opContinue (\<lambda>_. []) sc' s') = Inl (RequestFailed ''continue'')" for sc'
  proof -
    have "snd (sendRequest (\<lambda>_. []) ''continue'' (esRequest sc') (s'\<lparr>dsStoppedCh := None, dsState := ''running''\<rparr>)) = None"
      by (rule sendRequest_dead) (simp add: s'(2))
    then show ?thesis
      using alive s'(4) by (auto simp: opContinue_def run_operation_def Let_def split: prod.splits option.splits)
  qed
  with o s' alive show ?thesis by simp
qed

end
