(* ===== verification/Debug_Vars.thy ===== *)
theory Debug_Vars
  imports Debug_Ops
begin

text \<open>
  The pages of the debug tool: the limits of \<open>normalizeDebugOutputLimits\<close> (tools/debug/handler.go) and the
  text that \<open>opVariables\<close> builds (operations.go), built over the rune budget of \<open>Output\<close>.
\<close>

record debugLimits =
  dlStart :: int
  dlStartModule :: int
  dlMaxResults :: int
  dlMaxValueChars :: int
  dlMaxOutputChars :: int
  dlModuleCount :: int
  dlFilter :: gostring

datatype limit_error = NegativeStart | TooManyResults | TooManyValueChars | TooManyOutputChars | BadModuleCount | BadFilter

definition normalizeDebugOutputLimits :: "debugLimits \<Rightarrow> limit_error + debugLimits" where
  "normalizeDebugOutputLimits d =
     (if dlStart d < 0 \<or> dlStartModule d < 0 then Inl NegativeStart
      else let d1 = (if dlMaxResults d \<le> 0 then d\<lparr>dlMaxResults := 200\<rparr> else d) in
      if 10000 < dlMaxResults d1 then Inl TooManyResults
      else let d2 = (if dlMaxValueChars d1 \<le> 0 then d1\<lparr>dlMaxValueChars := 4000\<rparr> else d1) in
      if 100000 < dlMaxValueChars d2 then Inl TooManyValueChars
      else let d3 = (if dlMaxOutputChars d2 \<le> 0 then d2\<lparr>dlMaxOutputChars := int DefaultOutputChars\<rparr> else d2) in
      if int HardOutputChars < dlMaxOutputChars d3 then Inl TooManyOutputChars
      else if dlModuleCount d3 < 0 \<or> 10000 < dlModuleCount d3 then Inl BadModuleCount
      else if dlFilter d3 \<noteq> [] \<and> dlFilter d3 \<noteq> ''indexed'' \<and> dlFilter d3 \<noteq> ''named'' then Inl BadFilter
      else Inr d3)"

record dapVariable =
  dvName :: gostring
  dvValue :: gostring
  dvType :: gostring
  dvReference :: int

definition dots :: gostring where
  "dots = [CHR 0xE2, CHR 0x80, CHR 0xA6]"

definition variable_line :: "int \<Rightarrow> dapVariable \<Rightarrow> gostring" where
  "variable_line maxValue v =
     (let ref = (if 0 < dvReference v then '' (ref:'' @ show_int (dvReference v) @ '', expandable)'' else []);
          ty = (if dvType v \<noteq> []
                then '' ['' @ fst (TruncateRunes (dvType v) maxValue (dots @ '' [type truncated]'')) @ '']'' else []);
          name = fst (TruncateRunes (dvName v) maxValue dots);
          val = fst (TruncateRunes (dvValue v) maxValue (dots @ '' [value truncated]''))
      in ''  '' @ name @ ty @ '' = '' @ val @ ref @ [LF])"

fun variables_loop ::
  "int \<Rightarrow> int \<Rightarrow> int \<Rightarrow> nat \<Rightarrow> gostring \<times> nat \<Rightarrow> dapVariable list \<Rightarrow> gostring \<times> nat" where
  "variables_loop maxResults maxValue maxOut shown st [] = (fst st, shown)"
| "variables_loop maxResults maxValue maxOut shown st (v # vs) =
     (if maxResults \<le> int shown then (fst st, shown)
      else case AppendWithinRuneBudget st (variable_line maxValue v) maxOut of
             (st1, False) \<Rightarrow> (fst st1, shown)
           | (st1, True) \<Rightarrow> variables_loop maxResults maxValue maxOut (shown + 1) st1 vs)"

definition variables_header :: "debugLimits \<Rightarrow> gostring" where
  "variables_header d = ''Variables (start:'' @ show_int (dlStart d) @ '', max:'' @ show_int (dlMaxResults d) @ ''):'' @ [LF]"

definition variables_page :: "debugLimits \<Rightarrow> dapVariable list \<Rightarrow> gostring" where
  "variables_page d vs =
     (case AppendWithinRuneBudget ([], 0) (variables_header d) (dlMaxOutputChars d) of (st, ok) \<Rightarrow>
      case variables_loop (dlMaxResults d) (dlMaxValueChars d) (dlMaxOutputChars d) 0 st vs of (sb, shown) \<Rightarrow>
        let sb1 = (if shown < length vs \<or> dlMaxResults d \<le> int shown
                   then sb @ [LF] @ ''[More variables may be available; retry with start='' @ show_int (dlStart d + int shown)
                        @ ''.]'' @ [LF] else sb)
        in fst (TruncateRunes sb1 (dlMaxOutputChars d)
             ([LF] @ ''[Output truncated; retry with start='' @ show_int (dlStart d + int shown) @ '']'')))"

subsection \<open>Facts on the pages\<close>

lemma normalize_range:
  "normalizeDebugOutputLimits d = Inr d' \<Longrightarrow>
     0 \<le> dlStart d' \<and> 0 < dlMaxResults d' \<and> dlMaxResults d' \<le> 10000 \<and> 0 < dlMaxValueChars d' \<and> dlMaxValueChars d' \<le> 100000
     \<and> 0 < dlMaxOutputChars d' \<and> dlMaxOutputChars d' \<le> 131072"
  by (auto simp: normalizeDebugOutputLimits_def Let_def DefaultOutputChars_def HardOutputChars_def split: if_splits)

lemma variables_loop_lines:
  assumes "variables_loop maxR maxV maxO shown (sb, used) vs = (sb', shown')"
  shows "shown \<le> shown' \<and> shown' \<le> shown + length vs
    \<and> sb' = sb @ concat (map (variable_line maxV) (take (shown' - shown) vs))"
  using assms
proof (induction vs arbitrary: shown sb used)
  case (Cons v vs)
  show ?case
  proof (cases "maxR \<le> int shown \<or> 0 < maxO \<and> maxO < int (used + rune_count (variable_line maxV v))")
    case True
    then show ?thesis using Cons.prems by (auto simp: AppendWithinRuneBudget_def Let_def split: if_splits)
  next
    case False
    then have "variables_loop maxR maxV maxO (shown + 1) (sb @ variable_line maxV v, used + rune_count (variable_line maxV v)) vs
        = (sb', shown')"
      using Cons.prems by (auto simp: AppendWithinRuneBudget_def Let_def split: if_splits)
    from Cons.IH [OF this] show ?thesis by (auto simp: Suc_diff_le take_Cons' split: nat.splits)
  qed
qed simp

text \<open>when the limits have been normalized a page of variables is never longer than the limit on
  output, whatever the adapter sends, and it holds a run of consecutive variables from the first.\<close>

theorem variables_page_bound:
  assumes "normalizeDebugOutputLimits d = Inr d'"
  shows "int (rune_count (variables_page d' vs)) \<le> dlMaxOutputChars d'
    \<and> 0 < dlMaxOutputChars d' \<and> dlMaxOutputChars d' \<le> 131072"
proof -
  have r: "0 < dlMaxOutputChars d'" "dlMaxOutputChars d' \<le> 131072" using normalize_range [OF assms] by simp_all
  then show ?thesis
    unfolding variables_page_def by (auto simp: Let_def case_prod_beta intro!: TruncateRunes_count)
qed

theorem variables_page_bound_witness:
  "let d = \<lparr>dlStart = 0, dlStartModule = 0, dlMaxResults = 0, dlMaxValueChars = 0, dlMaxOutputChars = 100,
            dlModuleCount = 0, dlFilter = []\<rparr>;
       d' = d\<lparr>dlMaxResults := 200, dlMaxValueChars := 4000\<rparr>
   in normalizeDebugOutputLimits d = Inr d' \<and> (\<forall>vs. int (rune_count (variables_page d' vs)) \<le> 100)"
proof -
  let ?d = "\<lparr>dlStart = 0, dlStartModule = 0, dlMaxResults = 0, dlMaxValueChars = 0, dlMaxOutputChars = 100,
            dlModuleCount = 0, dlFilter = []\<rparr>"
  have n: "normalizeDebugOutputLimits ?d = Inr (?d\<lparr>dlMaxResults := 200, dlMaxValueChars := 4000\<rparr>)"
    by (simp add: normalizeDebugOutputLimits_def HardOutputChars_def)
  from variables_page_bound [OF n] n show ?thesis by simp
qed

text \<open>a page that reaches the limit can skip variables. The budget admits \<open>a\<close> and \<open>b\<close>; the notice about
  more variables then pushes the text over the limit, the cut removes \<open>b\<close>, and the continuation the
  page names starts behind it.\<close>

theorem variables_page_skips:
  "let d = \<lparr>dlStart = 0, dlStartModule = 0, dlMaxResults = 200, dlMaxValueChars = 4000, dlMaxOutputChars = 100,
            dlModuleCount = 0, dlFilter = []\<rparr>;
       var = (\<lambda>n k. \<lparr>dvName = n, dvValue = replicate k (CHR ''x''), dvType = [], dvReference = 0\<rparr>);
       page = variables_page d [var ''a'' 30, var ''b'' 25, var ''c'' 30]
   in Contains page ''[Output truncated; retry with start=2]'' \<and> \<not> Contains page ''b = ''"
proof -
  let ?d = "\<lparr>dlStart = 0, dlStartModule = 0, dlMaxResults = 200, dlMaxValueChars = 4000, dlMaxOutputChars = 100,
            dlModuleCount = 0, dlFilter = []\<rparr>"
  let ?var = "\<lambda>n k. \<lparr>dvName = n, dvValue = replicate k (CHR ''x''), dvType = [], dvReference = 0\<rparr>"
  have "variables_page ?d [?var ''a'' 30, ?var ''b'' 25, ?var ''c'' 30]
      = ''Variables (start:0, max:200):'' @ [LF] @ ''  a = '' @ replicate 25 (CHR ''x'')
        @ [LF] @ ''[Output truncated; retry with start=2]''" by code_simp
  then show ?thesis by (simp add: Contains_def numeral_eq_Suc)
qed

end
