(* ===== verification/Query_Path.thy ===== *)
theory Query_Path
  imports Go_Bytes
begin

text \<open>
  The query paths of the jsonquery, yamlquery and tomlquery tools (common/navigate.go). A decoded
  document is a Go interface value (\<open>goval\<close>); a path is parsed into parts, and a wildcard prints
  the parts after it and navigates every element with the printed path, which is parsed again.
  The theory shows that this recursion ends on every path, that printing and parsing agree on
  plain parts, and that on those paths the navigation is the evaluation of the parts; a bracketed
  key after a wildcard falls outside, and changes its meaning.
\<close>

subsection \<open>Decoded values\<close>

text \<open>
  The dynamic types the decoders produce. A float64 is its bit pattern and a time.Time an opaque
  number: neither is computed with. \<open>VNilSlice\<close> is a nil \<open>[]interface{}\<close>.
\<close>

datatype goval =
    VNil
  | VBool bool
  | VFloat "64 word"
  | VInt64 int
  | VInt int
  | VString gostring
  | VTime int
  | VArr "goval list"
  | VNilSlice
  | VObj "(gostring \<times> goval) list"
  | VMaps "(gostring \<times> goval) list list"
  | VAnyMap "(goval \<times> goval) list"
  | VInt64s "int list"
  | VStrings "gostring list"
  | VFloats "64 word list"
  | VBools "bool list"
  | VTimes "int list"
  | VOther gostring

fun TypeName :: "goval \<Rightarrow> gostring" where
  "TypeName VNil = ''null''"
| "TypeName (VBool _) = ''boolean''"
| "TypeName (VFloat _) = ''number''"
| "TypeName (VInt64 _) = ''number''"
| "TypeName (VInt _) = ''number''"
| "TypeName (VString _) = ''string''"
| "TypeName (VArr _) = ''array''"
| "TypeName VNilSlice = ''array''"
| "TypeName (VObj _) = ''object''"
| "TypeName (VTime _) = ''datetime''"
| "TypeName (VMaps _) = ''[]map[string]interface {}''"
| "TypeName (VAnyMap _) = ''map[interface {}]interface {}''"
| "TypeName (VInt64s _) = ''[]int64''"
| "TypeName (VStrings _) = ''[]string''"
| "TypeName (VFloats _) = ''[]float64''"
| "TypeName (VBools _) = ''[]bool''"
| "TypeName (VTimes _) = ''[]time.Time''"
| "TypeName (VOther t) = t"

text \<open>The type assertions \<open>current.([]interface{})\<close> and \<open>current.(map[string]interface{})\<close>.\<close>

fun as_slice :: "goval \<Rightarrow> goval list option" where
  "as_slice (VArr xs) = Some xs"
| "as_slice VNilSlice = Some []"
| "as_slice _ = None"

fun as_object :: "goval \<Rightarrow> (gostring \<Rightarrow> goval option) option" where
  "as_object (VObj kvs) = Some (map_of kvs)"
| "as_object _ = None"

text \<open>A slice grown with \<open>append\<close> from nil.\<close>

definition appended :: "goval list \<Rightarrow> goval" where
  "appended xs = (if xs = [] then VNilSlice else VArr xs)"

subsection \<open>Paths\<close>

record PathPart =
  ppKey :: gostring
  ppIsIndex :: bool
  ppArrayIdx :: int
  ppIsWildcard :: bool

definition key_part :: "gostring \<Rightarrow> PathPart" where
  "key_part k = \<lparr>ppKey = k, ppIsIndex = False, ppArrayIdx = 0, ppIsWildcard = False\<rparr>"

definition index_part :: "int \<Rightarrow> PathPart" where
  "index_part i = \<lparr>ppKey = [], ppIsIndex = True, ppArrayIdx = i, ppIsWildcard = False\<rparr>"

definition wildcard_part :: PathPart where
  "wildcard_part = \<lparr>ppKey = [], ppIsIndex = False, ppArrayIdx = 0, ppIsWildcard = True\<rparr>"

definition bracket_part :: "gostring \<Rightarrow> PathPart" where
  "bracket_part inner =
     (if inner = ''*'' then wildcard_part
      else case Atoi inner of None \<Rightarrow> key_part inner | Some idx \<Rightarrow> index_part idx)"

definition key_char :: "char \<Rightarrow> bool" where
  "key_char c \<longleftrightarrow> c \<noteq> CHR ''.'' \<and> c \<noteq> CHR ''[''"

text \<open>The loop of \<open>ParsePath\<close>, on the rest of the query.\<close>

function (sequential) parse_parts :: "gostring \<Rightarrow> PathPart list" where
  "parse_parts [] = []"
| "parse_parts (c # r) =
     (if c = CHR ''.'' then parse_parts r
      else if c = CHR ''['' then
        (if CHR '']'' \<notin> set r then [key_part (c # r)]
         else bracket_part (takeWhile (\<lambda>x. x \<noteq> CHR '']'') r)
              # parse_parts (tl (dropWhile (\<lambda>x. x \<noteq> CHR '']'') r)))
      else key_part (c # takeWhile key_char r) # parse_parts (dropWhile key_char r))"
  by pat_completeness auto
termination
proof (relation "measure length", goal_cases)
  case (3 c r)
  then show ?case using length_dropWhile_le [of "\<lambda>x. x \<noteq> CHR '']''" r] by simp
qed (auto simp: length_dropWhile_le le_imp_less_Suc)

definition ParsePath :: "gostring \<Rightarrow> PathPart list" where
  "ParsePath query = parse_parts (TrimSpace query)"

definition print_part :: "PathPart \<Rightarrow> gostring" where
  "print_part p =
     (if ppIsWildcard p then ''[*]''
      else if ppIsIndex p then ''['' @ show_int (ppArrayIdx p) @ '']''
      else ppKey p)"

fun print_parts :: "nat \<Rightarrow> PathPart list \<Rightarrow> gostring" where
  "print_parts i [] = []"
| "print_parts i (p # ps) =
     (if 0 < i \<and> \<not> ppIsIndex p \<and> \<not> ppIsWildcard p then ''.'' else []) @ print_part p
     @ print_parts (Suc i) ps"

definition BuildRemainingPath :: "PathPart list \<Rightarrow> nat \<Rightarrow> gostring" where
  "BuildRemainingPath parts wildcardIdx = print_parts 0 (drop (wildcardIdx + 1) parts)"

text \<open>
  The weight that falls with every wildcard: the number of places of a path where \<open>[*]\<close> stands.
  Printed parts follow each other with a dot or an opening bracket, so that none arises between
  two of them, and parsing finds at most as many wildcards as the text has such places.
\<close>

fun wilds :: "gostring \<Rightarrow> nat" where
  "wilds [] = 0"
| "wilds (c # r) = (if prefix ''[*]'' (c # r) then 1 else 0) + wilds r"

definition part_weight :: "PathPart \<Rightarrow> nat" where
  "part_weight p = (if ppIsWildcard p then 1 else if ppIsIndex p then 0 else wilds (ppKey p))"

abbreviation parts_weight :: "PathPart list \<Rightarrow> nat" where
  "parts_weight ps \<equiv> sum_list (map part_weight ps)"

lemma part_weight_simps [simp]:
  "part_weight (key_part k) = wilds k" "part_weight (index_part i) = 0" "part_weight wildcard_part = 1"
  by (simp_all add: part_weight_def key_part_def index_part_def wildcard_part_def)

lemma wilds_append_le: "wilds a + wilds b \<le> wilds (a @ b)"
proof (induction a)
  case (Cons c a)
  have "prefix ''[*]'' (c # a) \<Longrightarrow> prefix ''[*]'' (c # a @ b)"
    using prefix_prefix [of "''[*]''" "c # a" b] by simp
  with Cons show ?case by auto
qed simp

lemma wilds_append:
  assumes "b = [] \<or> hd b = CHR ''.'' \<or> hd b = CHR ''[''"
  shows "wilds (a @ b) = wilds a + wilds b"
proof (induction a)
  case (Cons c a)
  have "prefix ''[*]'' (c # a @ b) = prefix ''[*]'' (c # a)"
  proof (cases a)
    case Nil
    then show ?thesis using assms by (cases b) auto
  next
    case (Cons d a')
    then show ?thesis using assms by (cases a'; cases b) auto
  qed
  with Cons show ?case by simp
qed simp

lemma wilds_no_star: "CHR ''*'' \<notin> set s \<Longrightarrow> wilds s = 0"
  by (induction s) (auto simp: prefix_def)

lemma wilds_suffix_le: "suffix a b \<Longrightarrow> wilds a \<le> wilds b"
  using wilds_append_le by (auto simp: suffix_def intro: order_trans [OF le_add2])

lemma wilds_prefix_le: "prefix a b \<Longrightarrow> wilds a \<le> wilds b"
  using wilds_append_le by (auto simp: prefix_def intro: order_trans [OF le_add1])

lemma wilds_TrimSpace: "wilds (TrimSpace s) \<le> wilds s"
  using wilds_prefix_le [OF TrimRightSpace_prefix, of "TrimLeftSpace s"]
    wilds_suffix_le [OF TrimLeftSpace_suffix, of s]
  by (simp add: TrimSpace_def)

lemma show_int_chars: "c \<in> set (show_int n) \<Longrightarrow> is_digit c \<or> c = CHR ''-''"
  using show_nat_digits by (auto simp: show_int_def list_all_iff split: if_splits)

lemma wilds_print_part: "wilds (print_part p) = part_weight p"
proof -
  have "CHR ''*'' \<notin> set (show_int (ppArrayIdx p))"
    using show_int_chars [of "CHR ''*''"] by (auto simp: is_digit_def)
  then have "wilds (''['' @ show_int (ppArrayIdx p) @ '']'') = 0" by (intro wilds_no_star) auto
  then show ?thesis by (simp add: print_part_def part_weight_def)
qed

lemma print_parts_hd: "0 < i \<Longrightarrow> print_parts i ps = [] \<or> hd (print_parts i ps) = CHR ''.'' \<or> hd (print_parts i ps) = CHR ''[''"
  by (cases ps) (auto simp: print_part_def)

lemma wilds_print_parts: "wilds (print_parts i ps) = parts_weight ps"
proof (induction ps arbitrary: i)
  case (Cons p ps)
  have "wilds (print_part p @ print_parts (Suc i) ps) = part_weight p + parts_weight ps"
    using wilds_append [OF print_parts_hd] Cons by (simp add: wilds_print_part)
  moreover have "wilds (CHR ''.'' # s) = wilds s" for s by simp
  ultimately show ?case by simp
qed simp

lemma span_split:
  assumes "\<exists>x\<in>set r. \<not> P x"
  shows "r = takeWhile P r @ hd (dropWhile P r) # tl (dropWhile P r)" "\<not> P (hd (dropWhile P r))"
proof -
  have ne: "dropWhile P r \<noteq> []" using assms by auto
  then show "r = takeWhile P r @ hd (dropWhile P r) # tl (dropWhile P r)" by simp
  show "\<not> P (hd (dropWhile P r))" by (rule hd_dropWhile [OF ne])
qed

lemma parse_parts_weight: "parts_weight (parse_parts s) \<le> wilds s"
proof (induction s rule: parse_parts.induct)
  case (2 c r)
  let ?in = "takeWhile (\<lambda>x. x \<noteq> CHR '']'') r" and ?out = "tl (dropWhile (\<lambda>x. x \<noteq> CHR '']'') r)"
  consider "c = CHR ''.''" | "c = CHR ''[''" "CHR '']'' \<notin> set r" | "c = CHR ''[''" "CHR '']'' \<in> set r" | "key_char c"
    by (auto simp: key_char_def)
  then show ?case
  proof cases
    case 3
    have r: "r = ?in @ CHR '']'' # ?out" using span_split [of r "\<lambda>x. x \<noteq> CHR '']''"] 3(2) by metis
    have "part_weight (bracket_part ?in) + wilds ?out \<le> wilds (CHR ''['' # ?in @ CHR '']'' # ?out)"
    proof (cases "?in = ''*''")
      case True
      then show ?thesis by (simp add: bracket_part_def)
    next
      case False
      then have "part_weight (bracket_part ?in) \<le> wilds ?in"
        by (simp add: bracket_part_def split: option.split)
      then show ?thesis using wilds_append_le [of ?in "CHR '']'' # ?out"] by simp
    qed
    with 3 2(2) r show ?thesis by simp
  next
    case 4
    then have n: "c \<noteq> CHR ''.''" "c \<noteq> CHR ''[''" by (auto simp: key_char_def)
    have "wilds (takeWhile key_char r) + wilds (dropWhile key_char r) \<le> wilds r"
      using wilds_append_le [of "takeWhile key_char r" "dropWhile key_char r"] by simp
    with n 2(3) show ?thesis by simp
  qed (use 2(1) in auto)
qed simp

lemma ParsePath_weight: "parts_weight (ParsePath s) \<le> wilds s"
  using parse_parts_weight [of "TrimSpace s"] wilds_TrimSpace [of s] by (simp add: ParsePath_def)

lemma remaining_weight: "parts_weight (ParsePath (BuildRemainingPath parts i)) \<le> parts_weight (drop (Suc i) parts)"
  using ParsePath_weight [of "BuildRemainingPath parts i"] by (simp add: BuildRemainingPath_def wilds_print_parts)

subsection \<open>Navigation\<close>

datatype NavError =
    NotArrayWildcard gostring
  | NotArrayIndex gostring int
  | IndexOutOfRange int nat
  | NotObject gostring gostring
  | KeyNotFound gostring
  | InItem nat gostring NavError

text \<open>The loop over the elements under a wildcard; the first error ends it.\<close>

primrec nav_items :: "(goval \<Rightarrow> NavError + goval) \<Rightarrow> gostring \<Rightarrow> nat \<Rightarrow> goval list \<Rightarrow> NavError + goval list" where
  "nav_items f remaining i [] = Inr []"
| "nav_items f remaining i (item # items) =
     (case f item of
        Inl err \<Rightarrow> Inl (InItem i remaining err)
      | Inr val \<Rightarrow> (case nav_items f remaining (Suc i) items of
                      Inl e \<Rightarrow> Inl e | Inr vals \<Rightarrow> Inr (val # vals)))"

definition nav_index :: "int \<Rightarrow> goval list \<Rightarrow> NavError + goval" where
  "nav_index i arr =
     (let idx = (if i < 0 then int (length arr) + i else i) in
      if idx < 0 \<or> int (length arr) \<le> idx then Inl (IndexOutOfRange i (length arr))
      else Inr (arr ! nat idx))"

lemma drop_weight: "i < length ps \<Longrightarrow> parts_weight (drop i ps) = part_weight (ps ! i) + parts_weight (drop (Suc i) ps)"
  by (simp flip: Cons_nth_drop_Suc)

lemma wildcard_weight:
  assumes "i < length ps" "ppIsWildcard (ps ! i)"
  shows "parts_weight (ParsePath (BuildRemainingPath ps i)) < parts_weight (drop i ps)"
  using remaining_weight [of ps i] assms by (simp add: drop_weight part_weight_def)

function nav_loop :: "PathPart list \<Rightarrow> nat \<Rightarrow> goval \<Rightarrow> NavError + goval" where
  "nav_loop parts pi current =
     (if length parts \<le> pi then Inr current
      else let part = parts ! pi in
      if ppIsWildcard part then
        (case as_slice current of
           None \<Rightarrow> Inl (NotArrayWildcard (TypeName current))
         | Some arr \<Rightarrow>
             let remaining = BuildRemainingPath parts pi in
             (case nav_items (\<lambda>item. if remaining = [] then Inr item else nav_loop (ParsePath remaining) 0 item)
                     remaining 0 arr of
                Inl err \<Rightarrow> Inl err
              | Inr results \<Rightarrow> Inr (appended results)))
      else if ppIsIndex part then
        (case as_slice current of
           None \<Rightarrow> Inl (NotArrayIndex (TypeName current) (ppArrayIdx part))
         | Some arr \<Rightarrow>
             (case nav_index (ppArrayIdx part) arr of
                Inl err \<Rightarrow> Inl err | Inr v \<Rightarrow> nav_loop parts (Suc pi) v))
      else
        (case as_object current of
           None \<Rightarrow> Inl (NotObject (ppKey part) (TypeName current))
         | Some obj \<Rightarrow>
             (case obj (ppKey part) of
                None \<Rightarrow> Inl (KeyNotFound (ppKey part)) | Some v \<Rightarrow> nav_loop parts (Suc pi) v)))"
  by pat_completeness auto

termination
proof (relation "inv_image (less_than <*lex*> less_than) (\<lambda>(parts, pi, _). (parts_weight (drop pi parts), length parts - pi))", goal_cases)
  case 1
  then show ?case by auto
next
  case (2 parts pi current)
  then show ?case using wildcard_weight [of pi parts] by simp
qed (auto simp: drop_weight)

declare nav_loop.simps [simp del]

definition Navigate :: "goval \<Rightarrow> gostring \<Rightarrow> NavError + goval" where
  "Navigate data query = nav_loop (ParsePath query) 0 data"

subsection \<open>Printing and parsing agree on plain parts\<close>

definition tidy :: "char \<Rightarrow> bool" where
  "tidy c \<longleftrightarrow> (of_char c :: nat) < 128 \<and> \<not> is_space (of_char c)"

definition plain_key :: "gostring \<Rightarrow> bool" where
  "plain_key k \<longleftrightarrow> k \<noteq> [] \<and> list_all key_char k \<and> tidy (hd k) \<and> tidy (last k)"

definition plain_part :: "PathPart \<Rightarrow> bool" where
  "plain_part p \<longleftrightarrow>
     (if ppIsWildcard p then p = wildcard_part
      else if ppIsIndex p then p = index_part (ppArrayIdx p) \<and> - (2 ^ 63) \<le> ppArrayIdx p \<and> ppArrayIdx p < 2 ^ 63
      else p = key_part (ppKey p) \<and> plain_key (ppKey p))"

lemma plain_part_cases [consumes 1, case_names wildcard index key]:
  assumes "plain_part p"
  obtains "p = wildcard_part"
  | i where "p = index_part i" "- (2 ^ 63) \<le> i" "i < 2 ^ 63"
  | k where "p = key_part k" "plain_key k"
  using assms by (auto simp: plain_part_def split: if_splits)

lemmas part_sel [simp] = key_part_def index_part_def wildcard_part_def

lemma print_part_simps:
  "print_part wildcard_part = ''[*]''" "print_part (index_part i) = ''['' @ show_int i @ '']''" "print_part (key_part k) = k"
  by (simp_all add: print_part_def)

lemma parse_bracket:
  assumes "CHR '']'' \<notin> set inner"
  shows "parse_parts (CHR ''['' # inner @ CHR '']'' # rest) = bracket_part inner # parse_parts rest"
proof -
  have "takeWhile (\<lambda>x. x \<noteq> CHR '']'') (inner @ CHR '']'' # rest) = inner"
    "dropWhile (\<lambda>x. x \<noteq> CHR '']'') (inner @ CHR '']'' # rest) = CHR '']'' # rest"
    using assms by (subst takeWhile_append2 dropWhile_append2; auto)+
  then show ?thesis by simp
qed

lemma parse_key:
  assumes "k \<noteq> []" "list_all key_char k" "rest = [] \<or> \<not> key_char (hd rest)"
  shows "parse_parts (k @ rest) = key_part k # parse_parts rest"
proof -
  obtain c cs where k: "k = c # cs" using assms(1) by (cases k) auto
  have "takeWhile key_char (cs @ rest) = cs" "dropWhile key_char (cs @ rest) = rest"
    using assms(2,3) k by (cases rest; auto simp: list_all_iff takeWhile_append dropWhile_append)+
  moreover have "c \<noteq> CHR ''.''" "c \<noteq> CHR ''[''" using assms(2) k by (auto simp: key_char_def)
  ultimately show ?thesis using k by simp
qed

lemma bracket_part_index:
  assumes "- (2 ^ 63) \<le> i" "i < 2 ^ 63"
  shows "bracket_part (show_int i) = index_part i"
proof -
  have "show_int i \<noteq> ''*''" using show_int_chars [of "CHR ''*''" i] by (auto simp: is_digit_def)
  then show ?thesis using Atoi_show_int [OF assms] by (simp add: bracket_part_def)
qed

lemma parse_print_parts: "list_all plain_part ps \<Longrightarrow> parse_parts (print_parts i ps) = ps"
proof (induction ps arbitrary: i)
  case (Cons p ps)
  have IH: "parse_parts (print_parts (Suc i) ps) = ps" using Cons by simp
  from Cons.prems have "plain_part p" by simp
  then show ?case
  proof (cases rule: plain_part_cases)
    case wildcard
    then show ?thesis using parse_bracket [of "''*''" "print_parts (Suc i) ps"] IH
      by (simp add: bracket_part_def print_part_def)
  next
    case (index n)
    have "CHR '']'' \<notin> set (show_int n)" using show_int_chars [of "CHR '']''" n] by (auto simp: is_digit_def)
    from parse_bracket [OF this, of "print_parts (Suc i) ps"] index IH bracket_part_index [of n] show ?thesis
      by (simp add: print_part_def)
  next
    case (key k)
    have "print_parts (Suc i) ps = [] \<or> \<not> key_char (hd (print_parts (Suc i) ps))"
      using print_parts_hd [of "Suc i" ps] by (auto simp: key_char_def)
    with key(2) have "parse_parts (k @ print_parts (Suc i) ps) = key_part k # ps"
      using parse_key IH by (simp add: plain_key_def)
    with key(1) show ?thesis by (cases i) (simp_all add: print_part_def)
  qed
qed simp

lemma tidy_brackets: "tidy (CHR ''['')" "tidy (CHR '']'')"
  by (simp_all add: tidy_def is_space_def)

lemma print_part_ends:
  assumes "plain_part p"
  shows "print_part p \<noteq> [] \<and> tidy (hd (print_part p)) \<and> tidy (last (print_part p))"
  using assms
proof (cases rule: plain_part_cases)
  case wildcard
  then show ?thesis by (simp add: print_part_def tidy_brackets)
next
  case (index i)
  then show ?thesis by (simp add: print_part_def tidy_brackets)
next
  case (key k)
  then show ?thesis by (simp add: print_part_def plain_key_def)
qed

lemma print_parts_last:
  "ps \<noteq> [] \<Longrightarrow> list_all plain_part ps \<Longrightarrow> print_parts i ps \<noteq> [] \<and> last (print_parts i ps) = last (print_part (last ps))"
proof (induction ps arbitrary: i)
  case (Cons p ps)
  then show ?case using print_part_ends [of p] by (cases "ps = []") auto
qed simp

lemma TrimSpace_print_parts:
  assumes "list_all plain_part ps"
  shows "TrimSpace (print_parts 0 ps) = print_parts 0 ps"
proof (cases ps)
  case Nil
  then show ?thesis by (simp add: TrimSpace_def TrimLeftSpace.simps TrimRightSpace.simps)
next
  case (Cons p ps')
  have "plain_part p" "plain_part (last ps)" using assms Cons by (auto simp: list_all_iff)
  from print_part_ends [OF this(1)] print_part_ends [OF this(2)] print_parts_last [of ps 0] assms Cons show ?thesis
    by (intro TrimSpace_id) (auto simp: tidy_def)
qed

lemma ParsePath_print: "list_all plain_part ps \<Longrightarrow> ParsePath (print_parts 0 ps) = ps"
  by (simp add: ParsePath_def TrimSpace_print_parts parse_print_parts)

subsection \<open>Navigation evaluates the path\<close>

text \<open>The meaning of a path, without printing and parsing: a wildcard evaluates the rest at every element.\<close>

primrec eval_path :: "PathPart list \<Rightarrow> goval \<Rightarrow> NavError + goval" where
  "eval_path [] current = Inr current"
| "eval_path (part # rest) current =
     (if ppIsWildcard part then
        (case as_slice current of
           None \<Rightarrow> Inl (NotArrayWildcard (TypeName current))
         | Some arr \<Rightarrow>
             (case nav_items (eval_path rest) (print_parts 0 rest) 0 arr of
                Inl err \<Rightarrow> Inl err | Inr results \<Rightarrow> Inr (appended results)))
      else if ppIsIndex part then
        (case as_slice current of
           None \<Rightarrow> Inl (NotArrayIndex (TypeName current) (ppArrayIdx part))
         | Some arr \<Rightarrow>
             (case nav_index (ppArrayIdx part) arr of Inl err \<Rightarrow> Inl err | Inr v \<Rightarrow> eval_path rest v))
      else
        (case as_object current of
           None \<Rightarrow> Inl (NotObject (ppKey part) (TypeName current))
         | Some obj \<Rightarrow>
             (case obj (ppKey part) of
                None \<Rightarrow> Inl (KeyNotFound (ppKey part)) | Some v \<Rightarrow> eval_path rest v)))"

lemma print_parts_Nil_iff: "list_all plain_part ps \<Longrightarrow> print_parts 0 ps = [] \<longleftrightarrow> ps = []"
  using print_parts_last [of ps 0] by auto

lemma nav_loop_eval:
  "list_all plain_part (drop pi parts) \<Longrightarrow> nav_loop parts pi current = eval_path (drop pi parts) current"
proof (induction parts pi current rule: nav_loop.induct)
  case (1 parts pi current)
  show ?case
  proof (cases "length parts \<le> pi")
    case True
    then show ?thesis by (simp add: nav_loop.simps)
  next
    case False
    let ?part = "parts ! pi" and ?rest = "drop (Suc pi) parts"
    have dr: "drop pi parts = ?part # ?rest" using False by (simp add: Cons_nth_drop_Suc)
    have pl: "list_all plain_part ?rest" using 1(4) dr by simp
    have rem: "BuildRemainingPath parts pi = print_parts 0 ?rest" by (simp add: BuildRemainingPath_def)
    show ?thesis
    proof (cases "ppIsWildcard ?part")
      case True
      have "(if print_parts 0 ?rest = [] then Inr item else nav_loop (ParsePath (print_parts 0 ?rest)) 0 item)
          = eval_path ?rest item" if "as_slice current = Some arr" for arr item
        using 1(1) [of ?part arr "print_parts 0 ?rest"] False True that pl rem
        by (auto simp: print_parts_Nil_iff ParsePath_print)
      then show ?thesis using False True dr rem
        by (subst nav_loop.simps) (simp add: Let_def split: option.split)
    next
      case nw: False
      show ?thesis using 1(2,3) [of ?part] False nw dr pl
        by (subst nav_loop.simps) (auto simp: Let_def split: option.split sum.split)
    qed
  qed
qed

text \<open>C15: when the parts of a query are plain (keys without brackets or blanks at their ends, indices
  and wildcards), \<open>Navigate\<close> computes the meaning of the path: although it prints and parses the
  rest of the path again at every wildcard, every element is walked by exactly the parts behind it,
  with the same values and the same errors.\<close>

theorem Navigate_evaluates_path:
  assumes "list_all plain_part (ParsePath query)"
  shows "Navigate data query = eval_path (ParsePath query) data"
proof -
  have "nav_loop (ParsePath query) 0 data = eval_path (drop 0 (ParsePath query)) data"
    by (rule nav_loop_eval) (use assms in simp)
  then show ?thesis by (simp add: Navigate_def)
qed

lemma parse_star_id: "ParsePath ''u[*].id'' = [key_part ''u'', wildcard_part, key_part ''id'']"
proof -
  have "TrimSpace ''u[*].id'' = ''u[*].id''" by (rule TrimSpace_id) (simp_all add: is_space_def)
  then show ?thesis by (simp add: ParsePath_def key_char_def bracket_part_def)
qed

theorem Navigate_evaluates_path_witness:
  "Navigate (VObj [(''u'', VArr [VObj [(''id'', VInt64 7)], VObj [(''id'', VNil)]])]) ''u[*].id''
   = Inr (VArr [VInt64 7, VNil])"
proof -
  have "list_all plain_part (ParsePath ''u[*].id'')"
    by (simp add: parse_star_id plain_part_def plain_key_def key_char_def tidy_def is_space_def)
  from Navigate_evaluates_path [OF this] show ?thesis
    by (simp add: parse_star_id appended_def)
qed

text \<open>a bracketed key that holds a dot is found by an index path and lost behind a wildcard: the
  rest of the path is printed without the brackets, and parsed as two keys.\<close>

theorem bracket_key_lost_after_wildcard:
  "Navigate (VArr [VObj [(''a.b'', VInt64 1)]]) ''[0][a.b]'' = Inr (VInt64 1)
   \<and> Navigate (VArr [VObj [(''a.b'', VInt64 1)]]) ''[*][a.b]'' = Inl (InItem 0 ''a.b'' (KeyNotFound ''a''))"
proof -
  have t: "TrimSpace ''[0][a.b]'' = ''[0][a.b]''" "TrimSpace ''[*][a.b]'' = ''[*][a.b]''" "TrimSpace ''a.b'' = ''a.b''"
    by (rule TrimSpace_id; simp add: is_space_def)+
  have "Atoi ''0'' = Some 0" "Atoi ''a.b'' = None" by (simp_all add: Atoi_def digits_val_def digit_val_def is_digit_def)
  then have p: "ParsePath ''[0][a.b]'' = [index_part 0, key_part ''a.b'']"
    "ParsePath ''[*][a.b]'' = [wildcard_part, key_part ''a.b'']"
    "ParsePath ''a.b'' = [key_part ''a'', key_part ''b'']"
    by (simp_all add: ParsePath_def t key_char_def bracket_part_def)
  have r: "BuildRemainingPath [wildcard_part, key_part ''a.b''] 0 = ''a.b''"
    by (simp add: BuildRemainingPath_def print_part_def)
  have b: "nav_loop (ParsePath ''a.b'') 0 (VObj [(''a.b'', VInt64 1)]) = Inl (KeyNotFound ''a'')"
    by (subst nav_loop.simps) (simp add: p)
  have "Navigate (VArr [VObj [(''a.b'', VInt64 1)]]) ''[0][a.b]'' = Inr (VInt64 1)"
    by (simp add: Navigate_def p nav_loop.simps nav_index_def)
  moreover have "Navigate (VArr [VObj [(''a.b'', VInt64 1)]]) ''[*][a.b]'' = Inl (InItem 0 ''a.b'' (KeyNotFound ''a''))"
    using r b by (simp add: Navigate_def p nav_loop.simps [of "_ # _"] Let_def)
  ultimately show ?thesis by simp
qed

end
