(* ===== verification/Query_Tools.thy ===== *)
theory Query_Tools
  imports Query_Path Output "HOL-Library.AList"
begin

text \<open>
  The handlers of the jsonquery, yamlquery and tomlquery tools (tools/jsonquery/handler.go,
  tools/yamlquery/handler.go, tools/tomlquery/handler.go). The file system, the decoders and the
  printers of encoding/json, fmt and time are arguments. The theorems show the guards a successful
  query has passed and the bound of its text, and that the normalizers leave no container of a type
  the navigation cannot enter, whatever the query reaches.
\<close>

subsection \<open>Normalizing decoded documents\<close>

primrec normalizeTOML :: "goval \<Rightarrow> goval" where
  "normalizeTOML VNil = VNil"
| "normalizeTOML (VBool b) = VBool b"
| "normalizeTOML (VFloat f) = VFloat f"
| "normalizeTOML (VInt64 i) = VInt64 i"
| "normalizeTOML (VInt i) = VInt i"
| "normalizeTOML (VString s) = VString s"
| "normalizeTOML (VTime t) = VTime t"
| "normalizeTOML (VArr xs) = VArr (map normalizeTOML xs)"
| "normalizeTOML VNilSlice = VNilSlice"
| "normalizeTOML (VObj kvs) = VObj (map (map_prod id normalizeTOML) kvs)"
| "normalizeTOML (VMaps ms) = VArr (map VObj (map (map (map_prod id normalizeTOML)) ms))"
| "normalizeTOML (VAnyMap kvs) = VAnyMap kvs"
| "normalizeTOML (VInt64s is) = VArr (map VInt64 is)"
| "normalizeTOML (VStrings ss) = VArr (map VString ss)"
| "normalizeTOML (VFloats fs) = VArr (map VFloat fs)"
| "normalizeTOML (VBools bs) = VArr (map VBool bs)"
| "normalizeTOML (VTimes ts) = VArr (map VTime ts)"
| "normalizeTOML (VOther t) = VOther t"

text \<open>
  The entries of a Go map are listed in the order in which \<open>range\<close> yields them: two keys that print
  the same leave the value of the later one.
\<close>

definition string_keys :: "(goval \<Rightarrow> gostring) \<Rightarrow> (goval \<times> goval) list \<Rightarrow> (gostring \<times> goval) list" where
  "string_keys fmtV kvs = foldl (\<lambda>m (k, v). AList.update (fmtV k) v m) [] kvs"

primrec normalizeYAML :: "(goval \<Rightarrow> gostring) \<Rightarrow> goval \<Rightarrow> goval" where
  "normalizeYAML fmtV VNil = VNil"
| "normalizeYAML fmtV (VBool b) = VBool b"
| "normalizeYAML fmtV (VFloat f) = VFloat f"
| "normalizeYAML fmtV (VInt64 i) = VInt64 i"
| "normalizeYAML fmtV (VInt i) = VInt i"
| "normalizeYAML fmtV (VString s) = VString s"
| "normalizeYAML fmtV (VTime t) = VTime t"
| "normalizeYAML fmtV (VArr xs) = VArr (map (normalizeYAML fmtV) xs)"
| "normalizeYAML fmtV VNilSlice = VNilSlice"
| "normalizeYAML fmtV (VObj kvs) = VObj (map (map_prod id (normalizeYAML fmtV)) kvs)"
| "normalizeYAML fmtV (VMaps ms) = VMaps ms"
| "normalizeYAML fmtV (VAnyMap kvs) = VObj (string_keys fmtV (map (map_prod id (normalizeYAML fmtV)) kvs))"
| "normalizeYAML fmtV (VInt64s is) = VInt64s is"
| "normalizeYAML fmtV (VStrings ss) = VStrings ss"
| "normalizeYAML fmtV (VFloats fs) = VFloats fs"
| "normalizeYAML fmtV (VBools bs) = VBools bs"
| "normalizeYAML fmtV (VTimes ts) = VTimes ts"
| "normalizeYAML fmtV (VOther t) = VOther t"

subsection \<open>The handlers\<close>

record queryInput =
  qiFilePath :: gostring
  qiPath :: gostring
  qiQuery :: gostring
  qiMaxOutputChars :: int

text \<open>
  What the handlers ask of their surroundings: the resolution of a path against the workspace, the
  two settings, \<open>os.Lstat\<close> (\<open>None\<close> an error, otherwise whether the file is a symbolic link),
  \<open>os.Stat\<close> (an error that may be "not exist", otherwise directory and size), \<open>os.ReadFile\<close> and
  \<open>filepath.Base\<close>.
\<close>

record queryWorld =
  qwResolve :: "gostring \<Rightarrow> gostring + gostring"
  qwAllowSymlinks :: bool
  qwLstat :: "gostring \<Rightarrow> bool option"
  qwStat :: "gostring \<Rightarrow> bool \<times> gostring + bool \<times> int"
  qwMaxFileSize :: int
  qwReadFile :: "gostring \<Rightarrow> gostring + gostring"
  qwBase :: "gostring \<Rightarrow> gostring"

text \<open>The verbs \<open>%q\<close> and \<open>%v\<close>, \<open>json.MarshalIndent\<close> and the RFC 3339 form of a time.\<close>

record valuePrinter =
  vpQuote :: "gostring \<Rightarrow> gostring"
  vpAny :: "goval \<Rightarrow> gostring"
  vpMarshalIndent :: "goval \<Rightarrow> gostring option"
  vpRFC3339 :: "int \<Rightarrow> gostring"

text \<open>What differs between the three tools: format name, memory note, decoder with normalizer, value format.\<close>

record queryTool =
  qtFormat :: gostring
  qtMemoryNote :: gostring
  qtDecode :: "gostring \<Rightarrow> gostring + goval"
  qtValue :: "goval \<Rightarrow> gostring"

fun show_nav_error :: "(gostring \<Rightarrow> gostring) \<Rightarrow> NavError \<Rightarrow> gostring" where
  "show_nav_error q (NotArrayWildcard t) = ''cannot apply [*] to '' @ t @ '' (expected array)''"
| "show_nav_error q (NotArrayIndex t i) = ''cannot index '' @ t @ '' with ['' @ show_int i @ ''] (expected array)''"
| "show_nav_error q (IndexOutOfRange i n) = ''array index '' @ show_int i @ '' out of range (length '' @ show_nat n @ '')''"
| "show_nav_error q (NotObject k t) = ''cannot access key '' @ q k @ '' on '' @ t @ '' (expected object)''"
| "show_nav_error q (KeyNotFound k) = ''key '' @ q k @ '' not found''"
| "show_nav_error q (InItem i r e) = ''['' @ show_nat i @ ''].'' @ r @ '': '' @ show_nav_error q e"

definition pretty_value :: "valuePrinter \<Rightarrow> goval \<Rightarrow> gostring" where
  "pretty_value vp v = (case vpMarshalIndent vp v of None \<Rightarrow> vpAny vp v | Some s \<Rightarrow> s)"

fun json_value :: "valuePrinter \<Rightarrow> goval \<Rightarrow> gostring" where
  "json_value vp (VString s) = vpQuote vp s"
| "json_value vp VNil = ''null''"
| "json_value vp v = pretty_value vp v"

fun typed_value :: "valuePrinter \<Rightarrow> goval \<Rightarrow> gostring" where
  "typed_value vp (VString s) = vpQuote vp s"
| "typed_value vp VNil = ''null''"
| "typed_value vp (VInt64 i) = show_int i"
| "typed_value vp (VInt i) = show_int i"
| "typed_value vp (VTime t) = vpRFC3339 vp t"
| "typed_value vp v = pretty_value vp v"

definition maxQuerySize :: int where
  "maxQuerySize = 10 * 1024 * 1024"

definition query_suffix :: gostring where
  "query_suffix = LF # ''[truncated=true; refine the query or select a narrower array/object path]''"

definition query_text :: "gostring \<Rightarrow> gostring \<Rightarrow> gostring \<Rightarrow> gostring \<Rightarrow> gostring" where
  "query_text base query typeName valueStr =
     ''File: '' @ base @ [LF] @ ''Query: '' @ query @ [LF] @ ''Type: '' @ typeName @ [LF, LF] @ valueStr"

definition query_output :: "gostring \<Rightarrow> int \<Rightarrow> gostring + gostring \<times> bool" where
  "query_output msg requested =
     (let maxOutputChars = (if requested \<le> 0 then int DefaultOutputChars else requested) in
      if int HardOutputChars < maxOutputChars
      then Inl (''max_output_chars must be at most '' @ show_nat HardOutputChars)
      else Inr (TruncateRunes msg maxOutputChars query_suffix))"

text \<open>The checks before the file is read; they yield the resolved path.\<close>

definition query_file :: "queryWorld \<Rightarrow> gostring \<Rightarrow> queryInput \<Rightarrow> gostring + gostring" where
  "query_file w note inp =
     (let path = (if qiFilePath inp = [] then qiPath inp else qiFilePath inp) in
      if path = [] then Inl ''file_path is required''
      else (case qwResolve w path of
        Inl err \<Rightarrow> Inl (''cannot resolve file_path: '' @ err)
      | Inr file \<Rightarrow>
          if TrimSpace (qiQuery inp) = [] then Inl ''query is required''
          else if \<not> qwAllowSymlinks w \<and> qwLstat w file = Some True
          then Inl ''symlinks are not allowed (see set_config allow_symlinks)''
          else (case qwStat w file of
            Inl (notExist, err) \<Rightarrow>
              Inl (if notExist then ''file not found: '' @ file else ''cannot access file: '' @ err)
          | Inr (isDir, fsize) \<Rightarrow>
              let maxSize = (if maxQuerySize < qwMaxFileSize w then maxQuerySize else qwMaxFileSize w) in
              if isDir then Inl ''path is a directory, not a file''
              else if maxSize < fsize
              then Inl (''file too large: '' @ show_int fsize @ '' bytes (max: '' @ show_int maxSize @ '' bytes). '' @ note)
              else Inr file)))"

definition query_Handle :: "queryTool \<Rightarrow> (gostring \<Rightarrow> gostring) \<Rightarrow> queryWorld \<Rightarrow> queryInput \<Rightarrow> gostring + gostring \<times> bool" where
  "query_Handle tool q w inp =
     (case query_file w (qtMemoryNote tool) inp of
        Inl err \<Rightarrow> Inl err
      | Inr file \<Rightarrow>
          (case qwReadFile w file of
             Inl err \<Rightarrow> Inl (''cannot read file: '' @ err)
           | Inr data \<Rightarrow>
               (case qtDecode tool data of
                  Inl err \<Rightarrow> Inl (''invalid '' @ qtFormat tool @ '': '' @ err)
                | Inr root \<Rightarrow>
                    (case Navigate root (qiQuery inp) of
                       Inl err \<Rightarrow> Inl (''query error: '' @ show_nav_error q err)
                     | Inr result \<Rightarrow>
                         query_output (query_text (qwBase w file) (qiQuery inp) (TypeName result) (qtValue tool result))
                           (qiMaxOutputChars inp)))))"

definition json_Handle :: "valuePrinter \<Rightarrow> (gostring \<Rightarrow> gostring + goval) \<Rightarrow> queryWorld \<Rightarrow> queryInput \<Rightarrow> gostring + gostring \<times> bool" where
  "json_Handle vp unmarshal =
     query_Handle \<lparr>qtFormat = ''JSON'', qtMemoryNote = ''JSON parsing uses 5-20x more memory than file size'',
       qtDecode = unmarshal, qtValue = json_value vp\<rparr> (vpQuote vp)"

definition yaml_Handle :: "valuePrinter \<Rightarrow> (gostring \<Rightarrow> gostring + goval) \<Rightarrow> queryWorld \<Rightarrow> queryInput \<Rightarrow> gostring + gostring \<times> bool" where
  "yaml_Handle vp unmarshal =
     query_Handle \<lparr>qtFormat = ''YAML'', qtMemoryNote = ''YAML parsing uses significant memory'',
       qtDecode = (\<lambda>data. map_sum id (normalizeYAML (vpAny vp)) (unmarshal data)), qtValue = typed_value vp\<rparr> (vpQuote vp)"

definition toml_Handle :: "valuePrinter \<Rightarrow> (gostring \<Rightarrow> gostring + goval) \<Rightarrow> queryWorld \<Rightarrow> queryInput \<Rightarrow> gostring + gostring \<times> bool" where
  "toml_Handle vp unmarshal =
     query_Handle \<lparr>qtFormat = ''TOML'', qtMemoryNote = ''TOML parsing uses significant memory'',
       qtDecode = (\<lambda>data. map_sum id normalizeTOML (unmarshal data)), qtValue = typed_value vp\<rparr> (vpQuote vp)"

subsection \<open>What navigation keeps\<close>

lemma nav_loop_index_Inr:
  assumes "nav_loop parts pi v = Inr r" "pi < length parts" "\<not> ppIsWildcard (parts ! pi)" "ppIsIndex (parts ! pi)"
  obtains xs x where "as_slice v = Some xs" "nav_index (ppArrayIdx (parts ! pi)) xs = Inr x" "nav_loop parts (Suc pi) x = Inr r"
  using assms by (subst (asm) nav_loop.simps) (auto simp: Let_def split: option.splits sum.splits)

lemma nav_loop_key_Inr:
  assumes "nav_loop parts pi v = Inr r" "pi < length parts" "\<not> ppIsWildcard (parts ! pi)" "\<not> ppIsIndex (parts ! pi)"
  obtains m x where "as_object v = Some m" "m (ppKey (parts ! pi)) = Some x" "nav_loop parts (Suc pi) x = Inr r"
  using assms by (subst (asm) nav_loop.simps) (auto simp: Let_def split: option.splits)

text \<open>A predicate on values that holds of the elements and entries it is asked for, and of the slices a wildcard builds.\<close>

locale nav_closed =
  fixes ok :: "goval \<Rightarrow> bool"
  assumes ok_element: "ok v \<Longrightarrow> as_slice v = Some xs \<Longrightarrow> x \<in> set xs \<Longrightarrow> ok x"
    and ok_entry: "ok v \<Longrightarrow> as_object v = Some m \<Longrightarrow> m k = Some x \<Longrightarrow> ok x"
    and ok_appended: "list_all ok xs \<Longrightarrow> ok (appended xs)"
begin

lemma nav_items_ok:
  "nav_items f r i xs = Inr ys \<Longrightarrow> (\<And>x y. x \<in> set xs \<Longrightarrow> f x = Inr y \<Longrightarrow> ok y) \<Longrightarrow> list_all ok ys"
proof (induction xs arbitrary: i ys)
  case (Cons x xs)
  from Cons.prems(1) obtain y ys' where y: "f x = Inr y" "nav_items f r (Suc i) xs = Inr ys'" "ys = y # ys'"
    by (auto split: sum.splits)
  with Cons.IH [OF y(2)] Cons.prems(2) show ?case by auto
qed simp

lemma nav_index_ok: "ok v \<Longrightarrow> as_slice v = Some xs \<Longrightarrow> nav_index i xs = Inr x \<Longrightarrow> ok x"
  by (rule ok_element [of v xs]) (auto simp: nav_index_def Let_def split: if_splits)

lemma nav_loop_ok: "ok v \<Longrightarrow> nav_loop parts pi v = Inr r \<Longrightarrow> ok r"
proof (induction parts pi v arbitrary: r rule: nav_loop.induct)
  case (1 parts pi v)
  let ?part = "parts ! pi" and ?rem = "BuildRemainingPath parts pi"
  consider "length parts \<le> pi" | "pi < length parts" "ppIsWildcard ?part"
    | "pi < length parts" "\<not> ppIsWildcard ?part" "ppIsIndex ?part"
    | "pi < length parts" "\<not> ppIsWildcard ?part" "\<not> ppIsIndex ?part" by linarith
  then show ?case
  proof cases
    case 1
    then show ?thesis using "1.prems" by (simp add: nav_loop.simps)
  next
    case 2
    then obtain xs ys where xs: "as_slice v = Some xs" and r: "r = appended ys"
      and ys: "nav_items (\<lambda>item. if ?rem = [] then Inr item else nav_loop (ParsePath ?rem) 0 item) ?rem 0 xs = Inr ys"
      using "1.prems"(2) by (subst (asm) nav_loop.simps) (auto simp: Let_def split: option.splits sum.splits)
    have "list_all ok ys"
    proof (rule nav_items_ok [OF ys])
      fix x y assume "x \<in> set xs" "(if ?rem = [] then Inr x else nav_loop (ParsePath ?rem) 0 x) = Inr y"
      moreover from this have "ok x" using ok_element [OF "1.prems"(1) xs] by simp
      ultimately show "ok y" using "1.IH"(1) [OF _ refl 2(2) xs refl] 2 by (auto split: if_splits)
    qed
    then show ?thesis using r ok_appended by simp
  next
    case 3
    from "1.prems"(2) 3 obtain xs x where x: "as_slice v = Some xs" "nav_index (ppArrayIdx ?part) xs = Inr x"
      "nav_loop parts (Suc pi) x = Inr r" by (rule nav_loop_index_Inr)
    have "ok x" using nav_index_ok "1.prems"(1) x(1,2) by blast
    then show ?thesis using "1.IH"(2) [OF _ refl 3(2,3) x(1,2)] 3(1) x(3) by simp
  next
    case 4
    from "1.prems"(2) 4 obtain m x where x: "as_object v = Some m" "m (ppKey ?part) = Some x"
      "nav_loop parts (Suc pi) x = Inr r" by (rule nav_loop_key_Inr)
    have "ok x" using ok_entry "1.prems"(1) x(1,2) by blast
    then show ?thesis using "1.IH"(3) [OF _ refl 4(2,3) x(1,2)] 4(1) x(3) by simp
  qed
qed

lemma Navigate_ok: "ok v \<Longrightarrow> Navigate v query = Inr r \<Longrightarrow> ok r"
  by (simp add: Navigate_def nav_loop_ok)

end

text \<open>
  A value all of whose containers a path can enter: at any depth its arrays are \<open>[]interface{}\<close> and its
  maps have string keys. A value of another type, known by the name of its type, is neither slice nor map.
\<close>

definition scalar_type :: "gostring \<Rightarrow> bool" where
  "scalar_type t \<longleftrightarrow> \<not> prefix ''['' t \<and> \<not> prefix ''map['' t"

primrec navigable :: "goval \<Rightarrow> bool" where
  "navigable VNil = True"
| "navigable (VBool _) = True"
| "navigable (VFloat _) = True"
| "navigable (VInt64 _) = True"
| "navigable (VInt _) = True"
| "navigable (VString _) = True"
| "navigable (VTime _) = True"
| "navigable (VArr xs) = list_all id (map navigable xs)"
| "navigable VNilSlice = True"
| "navigable (VObj kvs) = list_all snd (map (map_prod id navigable) kvs)"
| "navigable (VMaps _) = False"
| "navigable (VAnyMap _) = False"
| "navigable (VInt64s _) = False"
| "navigable (VStrings _) = False"
| "navigable (VFloats _) = False"
| "navigable (VBools _) = False"
| "navigable (VTimes _) = False"
| "navigable (VOther t) = scalar_type t"

text \<open>
  What the decoders document to return into an \<open>interface{}\<close>: the TOML library maps with string keys,
  arrays of tables and typed arrays; the YAML library \<open>[]interface{}\<close> and maps whose keys may be of any type.
\<close>

primrec toml_decoded :: "goval \<Rightarrow> bool" where
  "toml_decoded VNil = True"
| "toml_decoded (VBool _) = True"
| "toml_decoded (VFloat _) = True"
| "toml_decoded (VInt64 _) = True"
| "toml_decoded (VInt _) = True"
| "toml_decoded (VString _) = True"
| "toml_decoded (VTime _) = True"
| "toml_decoded (VArr xs) = list_all id (map toml_decoded xs)"
| "toml_decoded VNilSlice = True"
| "toml_decoded (VObj kvs) = list_all snd (map (map_prod id toml_decoded) kvs)"
| "toml_decoded (VMaps ms) = list_all (\<lambda>kvs. list_all snd kvs) (map (map (map_prod id toml_decoded)) ms)"
| "toml_decoded (VAnyMap _) = False"
| "toml_decoded (VInt64s _) = True"
| "toml_decoded (VStrings _) = True"
| "toml_decoded (VFloats _) = True"
| "toml_decoded (VBools _) = True"
| "toml_decoded (VTimes _) = True"
| "toml_decoded (VOther t) = scalar_type t"

primrec yaml_decoded :: "goval \<Rightarrow> bool" where
  "yaml_decoded VNil = True"
| "yaml_decoded (VBool _) = True"
| "yaml_decoded (VFloat _) = True"
| "yaml_decoded (VInt64 _) = True"
| "yaml_decoded (VInt _) = True"
| "yaml_decoded (VString _) = True"
| "yaml_decoded (VTime _) = True"
| "yaml_decoded (VArr xs) = list_all id (map yaml_decoded xs)"
| "yaml_decoded VNilSlice = True"
| "yaml_decoded (VObj kvs) = list_all snd (map (map_prod id yaml_decoded) kvs)"
| "yaml_decoded (VMaps _) = False"
| "yaml_decoded (VAnyMap kvs) = list_all snd (map (map_prod id yaml_decoded) kvs)"
| "yaml_decoded (VInt64s _) = False"
| "yaml_decoded (VStrings _) = False"
| "yaml_decoded (VFloats _) = False"
| "yaml_decoded (VBools _) = False"
| "yaml_decoded (VTimes _) = False"
| "yaml_decoded (VOther t) = scalar_type t"

lemma as_slice_cases: "as_slice v = Some xs \<Longrightarrow> v = VArr xs \<or> v = VNilSlice \<and> xs = []"
  by (cases v) auto

lemma as_object_cases: "as_object v = Some m \<Longrightarrow> \<exists>kvs. v = VObj kvs \<and> m = map_of kvs"
  by (cases v) auto

interpretation nav: nav_closed navigable
proof
  show "navigable v \<Longrightarrow> as_slice v = Some xs \<Longrightarrow> x \<in> set xs \<Longrightarrow> navigable x" for v xs x
    by (drule as_slice_cases) (auto simp: list_all_iff)
  show "navigable v \<Longrightarrow> as_object v = Some m \<Longrightarrow> m k = Some x \<Longrightarrow> navigable x" for v m k x
    by (drule as_object_cases) (fastforce simp: list_all_iff dest: map_of_SomeD)
  show "list_all navigable xs \<Longrightarrow> navigable (appended xs)" for xs
    by (simp add: appended_def list_all_iff)
qed

lemma normalizeTOML_navigable: "toml_decoded v \<Longrightarrow> navigable (normalizeTOML v)"
  by (induction v) (fastforce simp: list_all_iff)+

lemma string_keys_values: "(k, v) \<in> set (foldl (\<lambda>m (k, v). AList.update (fmtV k) v m) m kvs) \<Longrightarrow> (\<exists>k. (k, v) \<in> set m) \<or> (\<exists>k. (k, v) \<in> set kvs)"
proof (induction kvs arbitrary: m)
  case (Cons kv kvs)
  obtain k' v' where kv: "kv = (k', v')" by fastforce
  have "(\<exists>k. (k, v) \<in> set (AList.update (fmtV k') v' m)) \<Longrightarrow> v = v' \<or> (\<exists>k. (k, v) \<in> set m)"
    by (induction m) (auto split: if_splits)
  then show ?case using Cons.IH [of "AList.update (fmtV k') v' m"] Cons.prems kv by auto
qed auto

lemma normalizeYAML_navigable: "yaml_decoded v \<Longrightarrow> navigable (normalizeYAML fmtV v)"
proof (induction v)
  case (VAnyMap kvs)
  have "navigable x" if e: "(k, x) \<in> set (string_keys fmtV (map (map_prod id (normalizeYAML fmtV)) kvs))" for k x
  proof -
    obtain k' y where y: "(k', y) \<in> set kvs" "x = normalizeYAML fmtV y"
      using string_keys_values [OF e [unfolded string_keys_def]] by auto
    moreover have "yaml_decoded y" using VAnyMap(3) y(1) by (fastforce simp: list_all_iff)
    ultimately show ?thesis using VAnyMap(2) [OF y(1), of y] by (simp add: snds.intros)
  qed
  then show ?case by (auto simp: list_all_iff)
qed (fastforce simp: list_all_iff)+

subsection \<open>Guards and bounds of a query\<close>

lemma query_file_Inr:
  assumes "query_file w note inp = Inr file"
  shows "TrimSpace (qiQuery inp) \<noteq> []" "qwLstat w file = Some True \<Longrightarrow> qwAllowSymlinks w"
    "\<exists>n. qwStat w file = Inr (False, n) \<and> n \<le> maxQuerySize \<and> n \<le> qwMaxFileSize w"
  using assms by (auto simp: query_file_def Let_def split: if_splits sum.splits prod.splits)

lemma query_output_bound:
  assumes "query_output msg m = Inr (out, t)"
  shows "rune_count out \<le> HardOutputChars" "0 < m \<Longrightarrow> int (rune_count out) \<le> m"
proof -
  let ?m = "if m \<le> 0 then int DefaultOutputChars else m"
  have t: "TruncateRunes msg ?m query_suffix = (out, t)" and le: "?m \<le> int HardOutputChars"
    using assms by (simp_all add: query_output_def Let_def split: if_splits)
  from TruncateRunes_count [of ?m msg query_suffix] t have "int (rune_count out) \<le> ?m" by auto
  with le show "rune_count out \<le> HardOutputChars" "0 < m \<Longrightarrow> int (rune_count out) \<le> m" by (auto split: if_splits)
qed

lemma query_Handle_Inr:
  assumes "query_Handle tool q w inp = Inr (out, t)"
  obtains fl root result where "query_file w (qtMemoryNote tool) inp = Inr fl"
    "\<exists>content. qwReadFile w fl = Inr content \<and> qtDecode tool content = Inr root"
    "Navigate root (qiQuery inp) = Inr result"
    "query_output (query_text (qwBase w fl) (qiQuery inp) (TypeName result) (qtValue tool result)) (qiMaxOutputChars inp) = Inr (out, t)"
  using assms by (auto simp: query_Handle_def split: sum.splits)

text \<open>a query tool answers only for a file that is not a directory, at most 10 MB and at most the
  configured size, and not a symbolic link unless links are allowed; its text has at most the
  requested number of characters, and never more than the hard limit.\<close>

theorem query_tools_guarded:
  assumes "h \<in> {json_Handle vp dec, yaml_Handle vp dec, toml_Handle vp dec}"
    and "h w inp = Inr (out, t)"
  shows "(\<exists>file n. qwStat w file = Inr (False, n) \<and> n \<le> 10 * 1024 * 1024 \<and> n \<le> qwMaxFileSize w
            \<and> (qwLstat w file = Some True \<longrightarrow> qwAllowSymlinks w)
            \<and> qwResolve w (if qiFilePath inp = [] then qiPath inp else qiFilePath inp) = Inr file)
       \<and> rune_count out \<le> HardOutputChars \<and> (0 < qiMaxOutputChars inp \<longrightarrow> int (rune_count out) \<le> qiMaxOutputChars inp)"
proof -
  obtain tool q where "query_Handle tool q w inp = Inr (out, t)"
    using assms by (auto simp: json_Handle_def yaml_Handle_def toml_Handle_def)
  then obtain fl root result where f: "query_file w (qtMemoryNote tool) inp = Inr fl" and
    o: "query_output (query_text (qwBase w fl) (qiQuery inp) (TypeName result) (qtValue tool result)) (qiMaxOutputChars inp) = Inr (out, t)"
    by (rule query_Handle_Inr)
  have "qwResolve w (if qiFilePath inp = [] then qiPath inp else qiFilePath inp) = Inr fl"
    using f by (auto simp: query_file_def Let_def split: if_splits sum.splits prod.splits)
  with query_file_Inr [OF f] query_output_bound [OF o] show ?thesis by (auto simp: maxQuerySize_def)
qed

definition demo_world :: queryWorld where
  "demo_world = \<lparr>qwResolve = Inr, qwAllowSymlinks = False, qwLstat = (\<lambda>_. Some False), qwStat = (\<lambda>_. Inr (False, 2)),
     qwMaxFileSize = 100, qwReadFile = (\<lambda>_. Inr ''[]''), qwBase = (\<lambda>p. p)\<rparr>"

definition demo_printer :: valuePrinter where
  "demo_printer = \<lparr>vpQuote = (\<lambda>s. s), vpAny = (\<lambda>_. ''?''), vpMarshalIndent = (\<lambda>_. Some ''ok''), vpRFC3339 = (\<lambda>_. ''now'')\<rparr>"

definition demo_input :: queryInput where
  "demo_input = \<lparr>qiFilePath = ''f'', qiPath = [], qiQuery = ''a'', qiMaxOutputChars = 0\<rparr>"

lemma parse_a: "TrimSpace ''a'' = ''a''" "ParsePath ''a'' = [key_part ''a'']"
proof -
  show "TrimSpace ''a'' = ''a''" by (rule TrimSpace_id) (simp_all add: is_space_def)
  then show "ParsePath ''a'' = [key_part ''a'']" by (simp add: ParsePath_def)
qed

lemma demo_toml:
  "\<exists>out. toml_Handle demo_printer (\<lambda>_. Inr (VObj [(''a'', VInt64s [1])])) demo_world demo_input = Inr (out, False)"
proof -
  have n: "Navigate (VObj [(''a'', VArr [VInt64 1])]) ''a'' = Inr (VArr [VInt64 1])"
    by (simp add: Navigate_def parse_a nav_loop.simps)
  have "rune_count (query_text ''f'' ''a'' ''array'' ''ok'') \<le> length (query_text ''f'' ''a'' ''array'' ''ok'')"
    by (rule rune_count_le_length)
  then have "rune_count (query_text ''f'' ''a'' ''array'' ''ok'') \<le> DefaultOutputChars"
    by (simp add: query_text_def DefaultOutputChars_def)
  then show ?thesis
    by (simp add: toml_Handle_def query_Handle_def query_file_def query_output_def demo_printer_def demo_world_def
        demo_input_def parse_a n pretty_value_def TruncateRunes_def maxQuerySize_def DefaultOutputChars_def HardOutputChars_def)
qed

theorem query_tools_guarded_witness:
  "\<exists>out. toml_Handle demo_printer (\<lambda>_. Inr (VObj [(''a'', VInt64s [1])])) demo_world demo_input = Inr (out, False)
     \<and> rune_count out \<le> HardOutputChars"
  using demo_toml query_tools_guarded
    [of "toml_Handle demo_printer (\<lambda>_. Inr (VObj [(''a'', VInt64s [1])]))" demo_printer
        "\<lambda>_. Inr (VObj [(''a'', VInt64s [1])])" demo_world demo_input _ False]
  by blast

text \<open>C16: For a document of the shapes the decoders return, whatever value a path reaches in the normalized
  document can be entered by a further path at every depth: all its arrays are plain slices and all its
  maps have string keys, with no typed slice, array of tables or map with other keys left.\<close>

theorem query_results_enterable:
  "(toml_decoded v \<and> Navigate (normalizeTOML v) query = Inr r \<longrightarrow> navigable r)
   \<and> (yaml_decoded v \<and> Navigate (normalizeYAML fmtV v) query = Inr r \<longrightarrow> navigable r)"
  using nav.Navigate_ok normalizeTOML_navigable normalizeYAML_navigable by blast

theorem query_results_enterable_witness:
  "Navigate (normalizeTOML (VObj [(''a'', VMaps [[(''b'', VInt64s [1])]])])) ''a'' = Inr (VArr [VObj [(''b'', VArr [VInt64 1])]])
   \<and> navigable (VArr [VObj [(''b'', VArr [VInt64 1])]])"
proof -
  have n: "Navigate (normalizeTOML (VObj [(''a'', VMaps [[(''b'', VInt64s [1])]])])) ''a'' = Inr (VArr [VObj [(''b'', VArr [VInt64 1])]])"
    by (simp add: Navigate_def parse_a nav_loop.simps)
  moreover have "toml_decoded (VObj [(''a'', VMaps [[(''b'', VInt64s [1])]])])" by simp
  ultimately show ?thesis
    using query_results_enterable [of "VObj [(''a'', VMaps [[(''b'', VInt64s [1])]])]" "''a''"] by blast
qed

end
