(* ===== verification/Sftp_Rm.thy ===== *)
theory Sftp_Rm
  imports Go_Bytes
begin

text \<open>
  The path guards of the sftp tool (tools/sftp/security.go) and its operations that change the
  remote tree without transferring a file (tools/sftp/operations.go): mkdir, rm, chmod and rename.
  The remote server is an argument: a record of the client's calls on an abstract state. The
  theorems show that cleaning a path commutes with extending it, so that no spelling of a protected
  directory passes, and that a recursive delete stays below its argument, within its limits, and
  removes what is below a directory before the directory.
\<close>

subsection \<open>Path guards\<close>

definition maxDeleteItems :: nat where
  "maxDeleteItems = 10000"

definition maxRecurseDepth :: nat where
  "maxRecurseDepth = 100"

definition dangerousRemotePaths :: "gostring list" where
  "dangerousRemotePaths = [''/'', ''/home'', ''/root'', ''/etc'', ''/var'', ''/usr'', ''/bin'', ''/sbin'', ''/boot'',
     ''/dev'', ''/proc'', ''/sys'', ''/tmp'', ''/opt'', ''/lib'', ''/lib64'']"

datatype sftpError =
    PathRequired
  | NullByte
  | NewPathError sftpError
  | DangerousPath gostring
  | StatFailed gostring
  | RemoveFailed gostring
  | DepthLimit
  | ItemLimit
  | ReadDirFailed gostring gostring
  | RemoveItemFailed gostring gostring nat
  | RmdirItemFailed gostring gostring nat
  | RmdirFailed gostring gostring
  | MkdirFailed gostring
  | ModeRequired
  | InvalidMode gostring
  | ModeTooLarge nat
  | ChmodFailed gostring
  | SourceMissing gostring
  | DestinationExists gostring
  | RenameFailed gostring

definition validateRemotePath :: "gostring \<Rightarrow> sftpError option" where
  "validateRemotePath path =
     (if path = [] then Some PathRequired
      else if CHR 0x00 \<in> set path then Some NullByte else None)"

fun clean_parts :: "gostring list \<Rightarrow> gostring list \<Rightarrow> gostring list" where
  "clean_parts cleaned [] = cleaned"
| "clean_parts cleaned (part # parts) =
     (if part = [] \<or> part = ''.'' then clean_parts cleaned parts
      else if part = ''..'' then clean_parts (if cleaned = [] then cleaned else butlast cleaned) parts
      else clean_parts (cleaned @ [part]) parts)"

definition posixClean :: "gostring \<Rightarrow> gostring" where
  "posixClean path =
     (let p = TrimRight path ''/'' in
      if p = [] then ''/'' else ''/'' @ Join (clean_parts [] (split_on (CHR ''/'') p)) ''/'')"

definition isDangerousPath :: "gostring \<Rightarrow> bool" where
  "isDangerousPath remotePath = (posixClean remotePath \<in> set dangerousRemotePaths)"

subsection \<open>The remote tree\<close>

record dirEntry =
  deName :: gostring
  deIsDir :: bool
  deIsSymlink :: bool

record 's sftpClient =
  scStat :: "gostring \<Rightarrow> 's \<Rightarrow> gostring + bool"
  scReadDir :: "gostring \<Rightarrow> 's \<Rightarrow> gostring + dirEntry list"
  scRemove :: "gostring \<Rightarrow> 's \<Rightarrow> 's \<times> gostring option"
  scRemoveDirectory :: "gostring \<Rightarrow> 's \<Rightarrow> 's \<times> gostring option"
  scMkdir :: "gostring \<Rightarrow> 's \<Rightarrow> 's \<times> gostring option"
  scMkdirAll :: "gostring \<Rightarrow> 's \<Rightarrow> 's \<times> gostring option"
  scChmod :: "gostring \<Rightarrow> nat \<Rightarrow> 's \<Rightarrow> 's \<times> gostring option"
  scPosixRename :: "gostring \<Rightarrow> gostring \<Rightarrow> 's \<Rightarrow> 's \<times> gostring option"

text \<open>\<open>walkRemoteDir\<close> and its loop over the entries of a directory.\<close>

function (sequential) walkRemoteDir :: "(gostring \<Rightarrow> gostring + dirEntry list) \<Rightarrow> gostring \<Rightarrow> nat \<Rightarrow> sftpError + gostring list \<times> gostring list"
  and walk_entries :: "(gostring \<Rightarrow> gostring + dirEntry list) \<Rightarrow> gostring \<Rightarrow> nat \<Rightarrow> dirEntry list \<Rightarrow> gostring list \<Rightarrow> gostring list
    \<Rightarrow> sftpError + gostring list \<times> gostring list" where
  "walkRemoteDir readDir dir depth =
     (if maxRecurseDepth < depth then Inl DepthLimit
      else case readDir dir of
        Inl err \<Rightarrow> Inl (ReadDirFailed dir err)
      | Inr entries \<Rightarrow> walk_entries readDir dir depth entries [] [])"
| "walk_entries readDir dir depth [] files dirs = Inr (files, dirs)"
| "walk_entries readDir dir depth (entry # entries) files dirs =
     (if deIsSymlink entry then walk_entries readDir dir depth entries files dirs
      else let fullPath = dir @ ''/'' @ deName entry in
      if deIsDir entry then
        (case walkRemoteDir readDir fullPath (Suc depth) of
           Inl err \<Rightarrow> Inl err
         | Inr (subFiles, subDirs) \<Rightarrow>
             if maxDeleteItems < length files + length dirs + length subFiles + length subDirs then Inl ItemLimit
             else walk_entries readDir dir depth entries (files @ subFiles) (dirs @ subDirs @ [fullPath]))
      else if maxDeleteItems < length (files @ [fullPath]) + length dirs then Inl ItemLimit
      else walk_entries readDir dir depth entries (files @ [fullPath]) dirs)"
  by pat_completeness auto
termination
  by (relation "inv_image (less_than <*lex*> less_than)
        (\<lambda>x. case x of Inl (rd, dir, depth) \<Rightarrow> (if maxRecurseDepth < depth then 0 else 2 * (101 - depth) + 2, 0)
           | Inr (rd, dir, depth, es, fs, ds) \<Rightarrow> (2 * (101 - depth) + 1, length es))")
    (auto simp: maxRecurseDepth_def)

declare walkRemoteDir.simps [simp del]

text \<open>One deletion loop: the state, the number of items deleted and the path that failed.\<close>

fun delete_loop :: "(gostring \<Rightarrow> 's \<Rightarrow> 's \<times> gostring option) \<Rightarrow> gostring list \<Rightarrow> nat \<Rightarrow> 's \<Rightarrow> 's \<times> nat \<times> (gostring \<times> gostring) option" where
  "delete_loop rm [] cnt s = (s, cnt, None)"
| "delete_loop rm (p # ps) cnt s =
     (case rm p s of
        (s', Some err) \<Rightarrow> (s', cnt, Some (p, err))
      | (s', None) \<Rightarrow> delete_loop rm ps (Suc cnt) s')"

datatype sftpReply =
    Removed gostring
  | RemovedTree gostring nat nat
  | CreatedDirectory gostring
  | ChangedMode gostring nat
  | Renamed gostring gostring

definition remove_one :: "'s sftpClient \<Rightarrow> gostring \<Rightarrow> 's \<Rightarrow> 's \<times> (sftpError + sftpReply)" where
  "remove_one c path s =
     (case scRemove c path s of (s', Some err) \<Rightarrow> (s', Inl (RemoveFailed err)) | (s', None) \<Rightarrow> (s', Inr (Removed path)))"

definition delete_tree :: "'s sftpClient \<Rightarrow> gostring \<Rightarrow> gostring list \<Rightarrow> gostring list \<Rightarrow> 's \<Rightarrow> 's \<times> (sftpError + sftpReply)" where
  "delete_tree c path files dirs s =
     (case delete_loop (scRemove c) files 0 s of
        (s1, n, Some (f, err)) \<Rightarrow> (s1, Inl (RemoveItemFailed f err n))
      | (s1, n, None) \<Rightarrow>
          (case delete_loop (scRemoveDirectory c) dirs n s1 of
             (s2, m, Some (d, err)) \<Rightarrow> (s2, Inl (RmdirItemFailed d err m))
           | (s2, m, None) \<Rightarrow>
               (case scRemoveDirectory c path s2 of
                  (s3, Some err) \<Rightarrow> (s3, Inl (RmdirFailed path err))
                | (s3, None) \<Rightarrow> (s3, Inr (RemovedTree path (length files) (length dirs + 1))))))"

definition opRm :: "'s sftpClient \<Rightarrow> gostring \<Rightarrow> bool \<Rightarrow> 's \<Rightarrow> 's \<times> (sftpError + sftpReply)" where
  "opRm c path recursive s =
     (case validateRemotePath path of
        Some err \<Rightarrow> (s, Inl err)
      | None \<Rightarrow>
          if \<not> recursive then remove_one c path s
          else if isDangerousPath path then (s, Inl (DangerousPath path))
          else (case scStat c path s of
                  Inl err \<Rightarrow> (s, Inl (StatFailed err))
                | Inr False \<Rightarrow> remove_one c path s
                | Inr True \<Rightarrow>
                    (case walkRemoteDir (\<lambda>d. scReadDir c d s) path 0 of
                       Inl err \<Rightarrow> (s, Inl err)
                     | Inr (files, dirs) \<Rightarrow> delete_tree c path files dirs s)))"

definition opMkdir :: "'s sftpClient \<Rightarrow> gostring \<Rightarrow> bool \<Rightarrow> 's \<Rightarrow> 's \<times> (sftpError + sftpReply)" where
  "opMkdir c path recursive s =
     (case validateRemotePath path of
        Some err \<Rightarrow> (s, Inl err)
      | None \<Rightarrow>
          (case (if recursive then scMkdirAll c path s else scMkdir c path s) of
             (s', Some err) \<Rightarrow> (s', Inl (MkdirFailed err))
           | (s', None) \<Rightarrow> (s', Inr (CreatedDirectory path))))"

definition opRename :: "'s sftpClient \<Rightarrow> gostring \<Rightarrow> gostring \<Rightarrow> bool \<Rightarrow> 's \<Rightarrow> 's \<times> (sftpError + sftpReply)" where
  "opRename c path newPath overwrite s =
     (case validateRemotePath path of
        Some err \<Rightarrow> (s, Inl err)
      | None \<Rightarrow>
          (case validateRemotePath newPath of
             Some err \<Rightarrow> (s, Inl (NewPathError err))
           | None \<Rightarrow>
               (case scStat c path s of
                  Inl err \<Rightarrow> (s, Inl (SourceMissing err))
                | Inr _ \<Rightarrow>
                    if \<not> overwrite \<and> \<not> isl (scStat c newPath s) then (s, Inl (DestinationExists newPath))
                    else (case scPosixRename c path newPath s of
                            (s', Some err) \<Rightarrow> (s', Inl (RenameFailed err))
                          | (s', None) \<Rightarrow> (s', Inr (Renamed path newPath))))))"

definition opChmod :: "'s sftpClient \<Rightarrow> gostring \<Rightarrow> gostring \<Rightarrow> 's \<Rightarrow> 's \<times> (sftpError + sftpReply)" where
  "opChmod c path mode s =
     (case validateRemotePath path of
        Some err \<Rightarrow> (s, Inl err)
      | None \<Rightarrow>
          if mode = [] then (s, Inl ModeRequired)
          else (case ParseUint mode 8 32 of
                  Inl _ \<Rightarrow> (s, Inl (InvalidMode mode))
                | Inr parsed \<Rightarrow>
                    if 511 < parsed then (s, Inl (ModeTooLarge parsed))
                    else (case scChmod c path parsed s of
                            (s', Some err) \<Rightarrow> (s', Inl (ChmodFailed err))
                          | (s', None) \<Rightarrow> (s', Inr (ChangedMode path parsed)))))"

subsection \<open>Cleaning a path\<close>

abbreviation path_parts :: "gostring \<Rightarrow> gostring list" where
  "path_parts p \<equiv> split_on (CHR ''/'') p"

definition canonical_part :: "gostring \<Rightarrow> bool" where
  "canonical_part x \<longleftrightarrow> x \<noteq> [] \<and> x \<noteq> ''.'' \<and> x \<noteq> ''..'' \<and> CHR ''/'' \<notin> set x"

lemma clean_parts_append: "clean_parts acc (xs @ ys) = clean_parts (clean_parts acc xs) ys"
  by (induction xs arbitrary: acc) simp_all

lemma clean_parts_blank: "list_all (\<lambda>x. x = []) xs \<Longrightarrow> clean_parts acc xs = acc"
  by (induction xs) auto

lemma clean_parts_canonical_id: "list_all canonical_part xs \<Longrightarrow> clean_parts acc xs = acc @ xs"
  by (induction xs arbitrary: acc) (auto simp: canonical_part_def)

lemma clean_parts_canonical:
  "list_all canonical_part acc \<Longrightarrow> list_all (\<lambda>x. CHR ''/'' \<notin> set x) xs \<Longrightarrow> list_all canonical_part (clean_parts acc xs)"
proof (induction xs arbitrary: acc)
  case (Cons x xs)
  have "list_all canonical_part (butlast acc)" using Cons.prems(1) by (auto simp: list_all_iff dest: in_set_butlastD)
  then show ?case using Cons by (auto simp: canonical_part_def [of x])
qed simp

lemma split_on_append: "split_on c (p @ c # q) = split_on c p @ split_on c q"
proof (induction p)
  case (Cons x p)
  obtain l ls where "split_on c p = l # ls" using split_on_ne [of c p] by (cases "split_on c p") auto
  with Cons show ?case by simp
qed simp

text \<open>The trimmed slashes only give empty parts, which cleaning ignores.\<close>

lemma posixClean_parts: "posixClean p = ''/'' @ Join (clean_parts [] (path_parts p)) ''/''"
proof -
  let ?t = "TrimRight p ''/''"
  obtain n where p: "p = ?t @ replicate n (CHR ''/'')"
  proof
    have "p = ?t @ rev (takeWhile (\<lambda>c. c \<in> set ''/'') (rev p))"
      by (metis TrimRight_def rev_append rev_rev_ident takeWhile_dropWhile_id)
    moreover have "takeWhile (\<lambda>c. c \<in> set ''/'') (rev p) = replicate (length (takeWhile (\<lambda>c. c \<in> set ''/'') (rev p))) (CHR ''/'')"
      by (rule replicate_eqI [symmetric, THEN sym]) (auto dest: set_takeWhileD)
    ultimately show "p = ?t @ replicate (length (takeWhile (\<lambda>c. c \<in> set ''/'') (rev p))) (CHR ''/'')"
      by (metis rev_replicate)
  qed
  have "clean_parts acc (path_parts (q @ replicate m (CHR ''/''))) = clean_parts acc (path_parts q)" for acc q m
  proof (induction m arbitrary: q)
    case (Suc m)
    from Suc [of "q @ ''/''"] split_on_append [of "CHR ''/''" q "[]"] show ?case
      by (simp add: clean_parts_append)
  qed simp
  from this [of "[]" ?t n] p have "clean_parts [] (path_parts p) = clean_parts [] (path_parts ?t)" by simp
  then show ?thesis by (simp add: posixClean_def Let_def)
qed

lemma path_parts_clean:
  assumes "list_all canonical_part xs"
  shows "clean_parts [] (path_parts (CHR ''/'' # Join xs ''/'')) = xs"
proof (cases "xs = []")
  case False
  have "\<forall>x\<in>set xs. CHR ''/'' \<notin> set x" using assms by (auto simp: list_all_iff canonical_part_def)
  then show ?thesis using split_on_Join [OF False] clean_parts_canonical_id [OF assms] by simp
qed simp

lemma clean_path_canonical: "list_all canonical_part (clean_parts [] (path_parts p))"
  by (rule clean_parts_canonical) (auto simp: list_all_iff dest: split_on_no_sep)

lemma posixClean_extend: "posixClean (posixClean p @ ''/'' @ q) = posixClean (p @ ''/'' @ q)"
proof -
  have "clean_parts [] (path_parts (posixClean p)) = clean_parts [] (path_parts p)"
    using path_parts_clean [OF clean_path_canonical] by (simp add: posixClean_parts)
  then show ?thesis
    by (simp add: posixClean_parts [of "posixClean p @ CHR ''/'' # q"] posixClean_parts [of "p @ CHR ''/'' # q"]
        split_on_append clean_parts_append)
qed

text \<open>a cleaned remote path is absolute and has only real components; cleaning a path first or
  only after extending it gives the same; and a spelling with further slashes, dots or detours
  through a name and back is as dangerous as the path itself.\<close>

theorem posixClean_resolves:
  "(\<exists>xs. posixClean p = ''/'' @ Join xs ''/'' \<and> list_all canonical_part xs)
   \<and> posixClean (posixClean p @ ''/'' @ q) = posixClean (p @ ''/'' @ q)
   \<and> posixClean (posixClean p) = posixClean p
   \<and> isDangerousPath (p @ ''/'') = isDangerousPath p \<and> isDangerousPath (p @ ''/./'') = isDangerousPath p
   \<and> (canonical_part x \<longrightarrow> isDangerousPath (p @ ''/'' @ x @ ''/..'') = isDangerousPath p)"
proof (intro conjI impI)
  show "\<exists>xs. posixClean p = ''/'' @ Join xs ''/'' \<and> list_all canonical_part xs"
    using posixClean_parts clean_path_canonical by blast
  show "posixClean (posixClean p @ ''/'' @ q) = posixClean (p @ ''/'' @ q)" by (rule posixClean_extend)
  have app: "posixClean (p @ ''/'' @ r) = ''/'' @ Join (clean_parts (clean_parts [] (path_parts p)) (path_parts r)) ''/''" for p r
    by (simp add: posixClean_parts split_on_append clean_parts_append)
  have slash: "posixClean (p @ ''/'') = posixClean p" for p using app [of p "[]"] posixClean_parts [of p] by simp
  show "posixClean (posixClean p) = posixClean p"
    using posixClean_extend [of p "[]"] slash [of p] slash [of "posixClean p"] by simp
  show "isDangerousPath (p @ ''/'') = isDangerousPath p" by (simp add: isDangerousPath_def slash)
  show "isDangerousPath (p @ ''/./'') = isDangerousPath p"
    using app [of p "''./''"] posixClean_parts [of p] by (simp add: isDangerousPath_def)
  assume x: "canonical_part x"
  have "path_parts (x @ ''/..'') = [x, ''..'']"
    using split_on_append [of "CHR ''/''" x "''..''"] split_on_Join [of "[x]" "CHR ''/''"] x by (simp add: canonical_part_def)
  then have "posixClean (p @ ''/'' @ x @ ''/..'') = posixClean p"
    using app [of p "x @ ''/..''"] posixClean_parts [of p] x by (simp add: canonical_part_def)
  then show "isDangerousPath (p @ ''/'' @ x @ ''/..'') = isDangerousPath p" by (simp add: isDangerousPath_def)
qed

theorem posixClean_resolves_witness: "isDangerousPath ''/etc/'' \<and> isDangerousPath (''/etc'' @ ''/'' @ ''ssh'' @ ''/..'')"
proof -
  have "isDangerousPath ''/etc''" by code_simp
  moreover have "canonical_part ''ssh''" by (simp add: canonical_part_def)
  ultimately show ?thesis using posixClean_resolves [of "''/etc''" "[]" "''ssh''"] by simp
qed

subsection \<open>Recursive deletion\<close>

definition below :: "gostring \<Rightarrow> gostring \<Rightarrow> bool" where
  "below dir p \<longleftrightarrow> prefix (dir @ ''/'') p"

lemma below_child [simp]: "below dir (dir @ CHR ''/'' # n)"
  by (simp add: below_def)

lemma below_trans: "below a b \<Longrightarrow> below b c \<Longrightarrow> below a c"
  by (auto simp: below_def prefix_def)

lemma below_irrefl: "below a b \<Longrightarrow> \<not> below b a \<and> a \<noteq> b"
  by (auto simp: below_def prefix_def)

lemma walk_below:
  "walkRemoteDir rd dir depth = Inr (fs, ds) \<Longrightarrow> list_all (below dir) fs \<and> list_all (below dir) ds"
  "walk_entries rd dir depth es files dirs = Inr (fs, ds) \<Longrightarrow> list_all (below dir) files \<Longrightarrow> list_all (below dir) dirs
   \<Longrightarrow> list_all (below dir) fs \<and> list_all (below dir) ds"
proof (induction rd dir depth and rd dir depth es files dirs arbitrary: fs ds and fs ds rule: walkRemoteDir_walk_entries.induct)
  case (1 rd dir depth)
  then show ?case by (auto simp: walkRemoteDir.simps split: if_splits sum.splits)
next
  case (3 rd dir depth e es files dirs)
  let ?full = "dir @ ''/'' @ deName e"
  consider "deIsSymlink e" | "\<not> deIsSymlink e" "deIsDir e" | "\<not> deIsSymlink e" "\<not> deIsDir e" by blast
  then show ?case
  proof cases
    case 2
    with "3.prems"(1) obtain sf sd where w: "walkRemoteDir rd ?full (Suc depth) = Inr (sf, sd)"
      "walk_entries rd dir depth es (files @ sf) (dirs @ sd @ [?full]) = Inr (fs, ds)"
      "\<not> maxDeleteItems < length files + length dirs + length sf + length sd"
      by (auto simp: Let_def split: sum.splits if_splits)
    from "3.IH"(2) [OF 2(1) refl 2(2) w(1)] have "list_all (below dir) sf" "list_all (below dir) sd"
      using below_trans [of dir ?full] by (auto simp: list_all_iff)
    with "3.IH"(3) [OF 2(1) refl 2(2) w(1) refl w(3) w(2)] "3.prems"(2,3) show ?thesis by simp
  qed (use 3 in \<open>auto simp: Let_def split: if_splits\<close>)
qed auto

lemma walk_count:
  "walkRemoteDir rd dir depth = Inr (fs, ds) \<Longrightarrow> length fs + length ds \<le> Suc maxDeleteItems"
  "walk_entries rd dir depth es files dirs = Inr (fs, ds) \<Longrightarrow> length files + length dirs \<le> Suc maxDeleteItems
   \<Longrightarrow> length fs + length ds \<le> Suc maxDeleteItems"
  by (induction rd dir depth and rd dir depth es files dirs arbitrary: fs ds and fs ds rule: walkRemoteDir_walk_entries.induct)
    (auto simp: walkRemoteDir.simps Let_def split: if_splits sum.splits prod.splits)

lemma walk_count_files:
  "walkRemoteDir rd dir depth = Inr (fs, ds) \<Longrightarrow> length fs \<le> maxDeleteItems"
  "walk_entries rd dir depth es files dirs = Inr (fs, ds) \<Longrightarrow> length files \<le> maxDeleteItems \<Longrightarrow> length fs \<le> maxDeleteItems"
  by (induction rd dir depth and rd dir depth es files dirs arbitrary: fs ds and fs ds rule: walkRemoteDir_walk_entries.induct)
    (auto simp: walkRemoteDir.simps Let_def split: if_splits sum.splits prod.splits)

lemma files_of_prefix:
  assumes "prefix log (map (Pair False) fs @ map (Pair True) ds)"
  shows "length (filter (\<lambda>(isDir, _). \<not> isDir) log) \<le> length fs"
proof -
  obtain rest where "map (Pair False) fs @ map (Pair True) ds = log @ rest" using assms by (auto simp: prefix_def)
  then have "length (filter (\<lambda>(isDir, _). \<not> isDir) (map (Pair False) fs @ map (Pair True) ds))
      = length (filter (\<lambda>(isDir, _). \<not> isDir) (log @ rest))" by simp
  then show ?thesis by (simp add: filter_map comp_def)
qed

text \<open>A directory listing gives each name once, and no name holds a slash.\<close>

definition sane_listing :: "(gostring \<Rightarrow> gostring + dirEntry list) \<Rightarrow> bool" where
  "sane_listing rd \<longleftrightarrow> (\<forall>dir es. rd dir = Inr es \<longrightarrow> distinct (map deName es) \<and> (\<forall>e\<in>set es. CHR ''/'' \<notin> set (deName e)))"

definition within :: "gostring \<Rightarrow> gostring \<Rightarrow> bool" where
  "within dir p \<longleftrightarrow> p = dir \<or> below dir p"

lemma within_sibling:
  assumes "within (dir @ CHR ''/'' # m) a" "within (dir @ CHR ''/'' # n) b" "m \<noteq> n" "CHR ''/'' \<notin> set m" "CHR ''/'' \<notin> set n"
  shows "\<not> below a b"
proof
  assume "below a b"
  then have "below (dir @ CHR ''/'' # m) b" using assms(1) below_trans by (auto simp: within_def)
  then have "\<exists>r r'. (m @ CHR ''/'' # r = n @ CHR ''/'' # r') \<or> m @ CHR ''/'' # r = n"
    using assms(2) by (auto simp: within_def below_def prefix_def)
  then obtain r r' where "m @ CHR ''/'' # r = n @ CHR ''/'' # r' \<or> m @ CHR ''/'' # r = n" by blast
  moreover have tw: "takeWhile (\<lambda>c. c \<noteq> CHR ''/'') (k @ CHR ''/'' # t) = k" if "CHR ''/'' \<notin> set k" for k t
    using that by (subst takeWhile_append2) auto
  ultimately have "m @ CHR ''/'' # r = n @ CHR ''/'' # r'" using assms(5) by auto
  then have "m = n" using tw [of m r] tw [of n r'] assms(4,5) by simp
  with assms(3) show False by simp
qed

text \<open>What the loop has collected lies within the entries it has passed.\<close>

definition collected :: "gostring \<Rightarrow> gostring set \<Rightarrow> gostring list \<Rightarrow> bool" where
  "collected dir names ds \<longleftrightarrow> (\<forall>d\<in>set ds. \<exists>n\<in>names. CHR ''/'' \<notin> set n \<and> within (dir @ CHR ''/'' # n) d)"

abbreviation bottom_up :: "gostring list \<Rightarrow> bool" where
  "bottom_up ds \<equiv> sorted_wrt (\<lambda>a b. \<not> below a b) ds"

lemma bottom_up_extend:
  assumes "bottom_up dirs" "collected dir seen dirs" "bottom_up sd" "list_all (below full) sd"
    and full: "full = dir @ CHR ''/'' # n" "n \<notin> seen" "CHR ''/'' \<notin> set n"
  shows "bottom_up (dirs @ sd @ [full])" "collected dir (insert n seen) (dirs @ sd @ [full])"
proof -
  have sd: "within full x" if "x \<in> set (sd @ [full])" for x
    using that assms(4) by (auto simp: list_all_iff within_def)
  have "bottom_up (sd @ [full])" using assms(3,4) below_irrefl by (auto simp: sorted_wrt_append list_all_iff)
  moreover have "\<not> below a b" if ab: "a \<in> set dirs" "b \<in> set (sd @ [full])" for a b
  proof -
    obtain m where "m \<in> seen" "CHR ''/'' \<notin> set m" "within (dir @ CHR ''/'' # m) a"
      using bspec [OF assms(2) [unfolded collected_def] ab(1)] by blast
    then show ?thesis using within_sibling [of dir m a n b] sd [OF ab(2)] full by auto
  qed
  ultimately show "bottom_up (dirs @ sd @ [full])" using assms(1) by (simp add: sorted_wrt_append)
  show "collected dir (insert n seen) (dirs @ sd @ [full])"
    using assms(2) sd full(1,3) unfolding collected_def by fastforce
qed

lemma walk_bottom_up:
  "walkRemoteDir rd dir depth = Inr (fs, ds) \<Longrightarrow> sane_listing rd \<Longrightarrow> bottom_up ds"
  "walk_entries rd dir depth es files dirs = Inr (fs, ds) \<Longrightarrow> sane_listing rd \<Longrightarrow> bottom_up dirs
   \<Longrightarrow> distinct (map deName es) \<Longrightarrow> \<forall>e\<in>set es. CHR ''/'' \<notin> set (deName e)
   \<Longrightarrow> collected dir (- set (map deName es)) dirs \<Longrightarrow> bottom_up ds"
proof (induction rd dir depth and rd dir depth es files dirs arbitrary: fs ds and fs ds rule: walkRemoteDir_walk_entries.induct)
  case (1 rd dir depth)
  then obtain es where "\<not> maxRecurseDepth < depth" "rd dir = Inr es" "walk_entries rd dir depth es [] [] = Inr (fs, ds)"
    by (auto simp: walkRemoteDir.simps split: if_splits sum.splits)
  with 1 show ?case by (auto simp: sane_listing_def collected_def)
next
  case (3 rd dir depth e es files dirs)
  let ?full = "dir @ ''/'' @ deName e"
  let ?seen = "- set (map deName (e # es))"
  have sub: "collected dir (insert (deName e) ?seen) ds \<Longrightarrow> collected dir (- set (map deName es)) ds" for ds
    using "3.prems"(4) by (auto simp: collected_def)
  have col: "collected dir (- set (map deName es)) dirs"
    using "3.prems"(6) by (intro sub) (auto simp: collected_def)
  consider "deIsSymlink e" | "\<not> deIsSymlink e" "deIsDir e" | "\<not> deIsSymlink e" "\<not> deIsDir e" by blast
  then show ?case
  proof cases
    case 2
    with "3.prems"(1) obtain sf sd where w: "walkRemoteDir rd ?full (Suc depth) = Inr (sf, sd)"
      "walk_entries rd dir depth es (files @ sf) (dirs @ sd @ [?full]) = Inr (fs, ds)"
      "\<not> maxDeleteItems < length files + length dirs + length sf + length sd"
      by (auto simp: Let_def split: sum.splits if_splits)
    have b: "bottom_up sd" using "3.IH"(2) [OF 2(1) refl 2(2) w(1) "3.prems"(2)] .
    have l: "list_all (below ?full) sd" using walk_below(1) [OF w(1)] by simp
    have e: "?full = dir @ CHR ''/'' # deName e" "deName e \<notin> ?seen" "CHR ''/'' \<notin> set (deName e)"
      using "3.prems"(5) by simp_all
    note ext = bottom_up_extend [OF "3.prems"(3,6) b l e]
    have "bottom_up (dirs @ sd @ [?full])" "collected dir (- set (map deName es)) (dirs @ sd @ [?full])"
      using ext(1) sub [OF ext(2)] by blast+
    with "3.IH"(3) [OF 2(1) refl 2(2) w(1) refl w(3) w(2) "3.prems"(2)] "3.prems"(4,5) show ?thesis by simp
  qed (use "3.IH"(1,4) "3.prems" col in \<open>auto simp: Let_def split: if_splits\<close>)
qed auto

text \<open>A client that also records its deletions: whether a directory is removed, and the path.\<close>

type_synonym deletion = "bool \<times> gostring"

definition journaled :: "'s sftpClient \<Rightarrow> ('s \<times> deletion list) sftpClient" where
  "journaled c =
     \<lparr>scStat = (\<lambda>p (s, l). scStat c p s), scReadDir = (\<lambda>p (s, l). scReadDir c p s),
      scRemove = (\<lambda>p (s, l). let (s', e) = scRemove c p s in ((s', l @ [(False, p)]), e)),
      scRemoveDirectory = (\<lambda>p (s, l). let (s', e) = scRemoveDirectory c p s in ((s', l @ [(True, p)]), e)),
      scMkdir = (\<lambda>p (s, l). let (s', e) = scMkdir c p s in ((s', l), e)),
      scMkdirAll = (\<lambda>p (s, l). let (s', e) = scMkdirAll c p s in ((s', l), e)),
      scChmod = (\<lambda>p m (s, l). let (s', e) = scChmod c p m s in ((s', l), e)),
      scPosixRename = (\<lambda>p q (s, l). let (s', e) = scPosixRename c p q s in ((s', l), e))\<rparr>"

lemma journaled_sel [simp]:
  "scStat (journaled c) p (s, l) = scStat c p s" "scReadDir (journaled c) p (s, l) = scReadDir c p s"
  "scRemove (journaled c) p (s, l) = ((fst (scRemove c p s), l @ [(False, p)]), snd (scRemove c p s))"
  "scRemoveDirectory (journaled c) p (s, l) = ((fst (scRemoveDirectory c p s), l @ [(True, p)]), snd (scRemoveDirectory c p s))"
  by (simp_all add: journaled_def split: prod.split)

lemma delete_loop_journal:
  assumes "\<And>p s l. rm p (s, l) = ((fst (f p s), l @ [(k, p)]), snd (f p s))"
    and "delete_loop rm ps n (s, l) = ((s', l'), m, r)"
  shows "\<exists>ps'. prefix ps' ps \<and> l' = l @ map (Pair k) ps' \<and> (r = None \<longrightarrow> ps' = ps)"
  using assms(2)
proof (induction ps arbitrary: n s l)
  case (Cons p ps)
  show ?case
  proof (cases "snd (f p s)")
    case None
    from Cons.IH [of "Suc n" "fst (f p s)" "l @ [(k, p)]"] Cons.prems None obtain ps' where
      "prefix ps' ps" "l' = (l @ [(k, p)]) @ map (Pair k) ps'" "r = None \<longrightarrow> ps' = ps" by (auto simp: assms(1))
    then show ?thesis by (intro exI [of _ "p # ps'"]) simp
  next
    case (Some err)
    with Cons.prems show ?thesis by (intro exI [of _ "[p]"]) (auto simp: assms(1))
  qed
qed simp

lemma delete_tree_journal:
  assumes "delete_tree (journaled c) path fs ds (s, []) = ((s', log), r)"
  shows "prefix log (map (Pair False) fs @ map (Pair True) (ds @ [path]))"
proof -
  obtain s1 l1 n r1 where d1: "delete_loop (scRemove (journaled c)) fs 0 (s, []) = ((s1, l1), n, r1)"
    by (metis prod_cases4 surj_pair)
  from delete_loop_journal [OF _ this, of "scRemove c"] obtain fs' where
    fs': "prefix fs' fs" "l1 = map (Pair False) fs'" "r1 = None \<longrightarrow> fs' = fs" by auto
  show ?thesis
  proof (cases r1)
    case Some
    with assms d1 have "log = map (Pair False) fs'" using fs'(2) by (auto simp: delete_tree_def split: prod.splits)
    with fs'(1) show ?thesis by (auto intro: prefix_prefix map_mono_prefix)
  next
    case None
    obtain s2 l2 m r2 where d2: "delete_loop (scRemoveDirectory (journaled c)) ds n (s1, l1) = ((s2, l2), m, r2)"
      by (metis prod_cases4 surj_pair)
    from delete_loop_journal [OF _ this, of "scRemoveDirectory c"] obtain ds' where
      ds': "prefix ds' ds" "l2 = l1 @ map (Pair True) ds'" "r2 = None \<longrightarrow> ds' = ds" by auto
    have pre: "prefix (map (Pair True) ds') (map (Pair True) (ds @ [path]))"
      using ds'(1) by (intro map_mono_prefix) simp
    show ?thesis
    proof (cases r2)
      case Some
      with assms d1 d2 None have "log = l2" by (auto simp: delete_tree_def split: prod.splits)
      with pre ds'(2) fs' None show ?thesis by simp
    next
      case N2: None
      with assms d1 d2 None have "log = l2 @ [(True, path)]" by (auto simp: delete_tree_def split: option.splits)
      with ds' fs' None N2 show ?thesis by simp
    qed
  qed
qed

lemma sorted_wrt_prefix: "prefix xs ys \<Longrightarrow> sorted_wrt P ys \<Longrightarrow> sorted_wrt P xs"
  by (auto simp: prefix_def sorted_wrt_append)

text \<open>The deletions a recursive rm may have made: none on a dangerous path, one file, or a part of the walk.\<close>

lemma opRm_journal:
  assumes "opRm (journaled c) path True (s, []) = ((s', log), r)" "log \<noteq> []"
  obtains "\<not> isDangerousPath path" "log = [(False, path)]"
  | fs ds where "\<not> isDangerousPath path" "walkRemoteDir (\<lambda>d. scReadDir c d s) path 0 = Inr (fs, ds)"
      "prefix log (map (Pair False) fs @ map (Pair True) (ds @ [path]))"
proof -
  have "\<not> isDangerousPath path" and "log = [(False, path)] \<or> (\<exists>fs ds. walkRemoteDir (\<lambda>d. scReadDir c d s) path 0 = Inr (fs, ds)
      \<and> delete_tree (journaled c) path fs ds (s, []) = ((s', log), r))"
    using assms by (auto simp: opRm_def remove_one_def split: option.splits if_splits sum.splits bool.splits)
  then consider "log = [(False, path)]" | fs ds where "walkRemoteDir (\<lambda>d. scReadDir c d s) path 0 = Inr (fs, ds)"
    "delete_tree (journaled c) path fs ds (s, []) = ((s', log), r)" by blast
  then show thesis
  proof cases
    case 1
    with \<open>\<not> isDangerousPath path\<close> show thesis by (rule that(1))
  next
    case 2
    from \<open>\<not> isDangerousPath path\<close> 2(1) delete_tree_journal [OF 2(2)] show thesis by (rule that(2))
  qed
qed

text \<open>C12: a recursive rm deletes nothing when the path is a protected directory, and only the path itself
  and what lies below it, whatever the server answers. It deletes at most 10000 files; counting the
  directories it deletes at most 10002 items, two more than the documented limit of 10000 items, and
  \<open>rm_exceeds_limit\<close> below shows that this bound is reached. When the server lists each name of a
  directory once, without slashes, nothing below a directory is deleted after the directory.\<close>

theorem opRm_confined:
  assumes "opRm (journaled c) path True (s, []) = ((s', log), r)"
  shows "(isDangerousPath path \<longrightarrow> log = [])
    \<and> list_all (\<lambda>(_, p). within path p) log
    \<and> length (filter (\<lambda>(isDir, _). \<not> isDir) log) \<le> maxDeleteItems
    \<and> length log \<le> maxDeleteItems + 2
    \<and> (sane_listing (\<lambda>d. scReadDir c d s) \<longrightarrow> sorted_wrt (\<lambda>(isDir, a) (_, b). isDir \<longrightarrow> \<not> below a b) log)"
proof (cases "log = []")
  case False
  with assms show ?thesis
  proof (cases rule: opRm_journal)
    case 1
    then show ?thesis by (simp add: within_def maxDeleteItems_def)
  next
    case (2 fs ds)
    let ?all = "map (Pair False) fs @ map (Pair True) (ds @ [path])"
    have "list_all (\<lambda>(_, p). within path p) ?all"
      using walk_below(1) [OF 2(2)] by (auto simp: list_all_iff within_def)
    then have "list_all (\<lambda>(_, p). within path p) log"
      using set_mono_prefix [OF 2(3)] unfolding list_all_iff by blast
    moreover have "length (filter (\<lambda>(isDir, _). \<not> isDir) log) \<le> maxDeleteItems"
      by (rule order_trans [OF files_of_prefix [OF 2(3)] walk_count_files(1) [OF 2(2)]])
    moreover have "length log \<le> maxDeleteItems + 2"
      using prefix_length_le [OF 2(3)] walk_count(1) [OF 2(2)] by simp
    moreover have "sorted_wrt (\<lambda>(isDir, a) (_, b). isDir \<longrightarrow> \<not> below a b) log" if "sane_listing (\<lambda>d. scReadDir c d s)"
    proof (rule sorted_wrt_prefix [OF 2(3)])
      have "bottom_up (ds @ [path])"
        using walk_bottom_up(1) [OF 2(2) that] walk_below(1) [OF 2(2)] below_irrefl
        by (auto simp: sorted_wrt_append list_all_iff)
      then show "sorted_wrt (\<lambda>(isDir, a) (_, b). isDir \<longrightarrow> \<not> below a b) ?all"
        by (simp add: sorted_wrt_append sorted_wrt_map sorted_wrt_true case_prod_unfold)
    qed
    ultimately show ?thesis using 2(1) by simp
  qed
qed simp

text \<open>A server with one directory \<open>/a\<close> that holds a file and an empty directory.\<close>

definition demo_client :: "unit sftpClient" where
  "demo_client =
     \<lparr>scStat = (\<lambda>p s. Inr True),
      scReadDir = (\<lambda>p s. Inr (if p = ''/a'' then [\<lparr>deName = ''f'', deIsDir = False, deIsSymlink = False\<rparr>,
        \<lparr>deName = ''d'', deIsDir = True, deIsSymlink = False\<rparr>] else [])),
      scRemove = (\<lambda>p s. (s, None)), scRemoveDirectory = (\<lambda>p s. (s, None)), scMkdir = (\<lambda>p s. (s, None)),
      scMkdirAll = (\<lambda>p s. (s, None)), scChmod = (\<lambda>p m s. (s, None)), scPosixRename = (\<lambda>p q s. (s, None))\<rparr>"

lemma demo_rm:
  "opRm (journaled demo_client) ''/a'' True ((), [])
   = (((), [(False, ''/a/f''), (True, ''/a/d''), (True, ''/a'')]), Inr (RemovedTree ''/a'' 1 2))"
proof -
  have "\<not> isDangerousPath ''/a''" by code_simp
  then show ?thesis
    by (simp add: opRm_def validateRemotePath_def demo_client_def walkRemoteDir.simps maxRecurseDepth_def
        maxDeleteItems_def delete_tree_def)
qed

theorem opRm_confined_witness:
  "opRm (journaled demo_client) ''/a'' True ((), [])
     = (((), [(False, ''/a/f''), (True, ''/a/d''), (True, ''/a'')]), Inr (RemovedTree ''/a'' 1 2))
   \<and> within ''/a'' ''/a/d''
   \<and> sorted_wrt (\<lambda>(isDir, a) (_, b). isDir \<longrightarrow> \<not> below a b) [(False, ''/a/f''), (True, ''/a/d''), (True, ''/a'')]"
proof -
  have "sane_listing (\<lambda>d. scReadDir demo_client d ())" by (auto simp: sane_listing_def demo_client_def split: if_splits)
  with opRm_confined [OF demo_rm] demo_rm show ?thesis by simp
qed

text \<open>the limit of 10000 items is exceeded by a directory that holds one directory with 10000 files:
  the subdirectory itself is added after the check, and the root is deleted without being counted.\<close>

definition flat_dir :: "gostring \<Rightarrow> gostring + dirEntry list" where
  "flat_dir p =
     (if p = ''/a'' then Inr [\<lparr>deName = ''d'', deIsDir = True, deIsSymlink = False\<rparr>]
      else Inr (map (\<lambda>i. \<lparr>deName = show_nat i, deIsDir = False, deIsSymlink = False\<rparr>) [0..<maxDeleteItems]))"

lemma walk_files:
  assumes "list_all (\<lambda>e. \<not> deIsDir e \<and> \<not> deIsSymlink e) es" "length files + length es + length dirs \<le> maxDeleteItems"
  shows "walk_entries rd dir depth es files dirs = Inr (files @ map (\<lambda>e. dir @ ''/'' @ deName e) es, dirs)"
  using assms by (induction es arbitrary: files) (simp_all add: Let_def)

lemma walk_flat_dir: "walkRemoteDir flat_dir ''/a'' 0
    = Inr (map (\<lambda>i. ''/a/d/'' @ show_nat i) [0..<maxDeleteItems], [''/a/d''])"
proof -
  have "walkRemoteDir flat_dir ''/a/d'' 1 = Inr (map (\<lambda>e. ''/a/d'' @ ''/'' @ deName e)
      (map (\<lambda>i. \<lparr>deName = show_nat i, deIsDir = False, deIsSymlink = False\<rparr>) [0..<maxDeleteItems]), [])"
    by (simp add: walkRemoteDir.simps flat_dir_def maxRecurseDepth_def walk_files list_all_iff)
  then show ?thesis
    by (simp add: walkRemoteDir.simps [of _ "''/a''"] flat_dir_def [of "''/a''"] maxRecurseDepth_def comp_def)
qed

lemma delete_loop_all:
  assumes "\<And>p l. rm p (s, l) = ((s, l @ [(k, p)]), None)"
  shows "delete_loop rm ps cnt (s, l) = ((s, l @ map (Pair k) ps), cnt + length ps, None)"
  by (induction ps arbitrary: cnt l) (simp_all add: assms)

definition flat_client :: "unit sftpClient" where
  "flat_client = demo_client\<lparr>scReadDir := \<lambda>p s. flat_dir p\<rparr>"

theorem rm_exceeds_limit:
  "\<exists>log. opRm (journaled flat_client) ''/a'' True ((), []) = (((), log), Inr (RemovedTree ''/a'' 10000 2))
     \<and> length log = maxDeleteItems + 2"
proof -
  have "\<not> isDangerousPath ''/a''" by code_simp
  moreover have "delete_loop (scRemove (journaled flat_client)) ps cnt ((), l) = (((), l @ map (Pair False) ps), cnt + length ps, None)"
    "delete_loop (scRemoveDirectory (journaled flat_client)) ps cnt ((), l) = (((), l @ map (Pair True) ps), cnt + length ps, None)"
    for ps cnt l by (rule delete_loop_all, simp add: flat_client_def demo_client_def)+
  ultimately show ?thesis
    unfolding opRm_def
    by (simp add: validateRemotePath_def flat_client_def demo_client_def walk_flat_dir delete_tree_def maxDeleteItems_def)
qed

end
