(* ===== verification/Ignore.thy ===== *)
theory Ignore
  imports Go_Bytes
begin

text \<open>
  The ignore rules of the search tools (common/ignore.go), with \<open>filepath.Match\<close> as Go defines it on a
  system whose separator is the slash. The theorems show how the rules of a file decide (the last one
  that applies), what a rule with a plain name or with \<open>*.ext\<close> excludes, and two paths the \<open>**\<close> forms
  exclude although they are not below the named directory.
\<close>

subsection \<open>filepath.Match\<close>

text \<open>\<open>scanChunk\<close> after the leading stars: up to the next star that is neither escaped nor in brackets.\<close>

fun scan_chunk :: "bool \<Rightarrow> gostring \<Rightarrow> gostring \<times> gostring" where
  "scan_chunk inrange [] = ([], [])"
| "scan_chunk inrange (c # cs) =
     (if c = CHR 0x5C then
        (case cs of [] \<Rightarrow> ([c], []) | d # ds \<Rightarrow> (case scan_chunk inrange ds of (a, b) \<Rightarrow> (c # d # a, b)))
      else if c = CHR ''*'' \<and> \<not> inrange then ([], c # cs)
      else (case scan_chunk (if c = CHR ''['' then True else if c = CHR '']'' then False else inrange) cs of
              (a, b) \<Rightarrow> (c # a, b)))"

text \<open>\<open>getEsc\<close>: a character of a class, and what follows it; \<open>None\<close> is \<open>ErrBadPattern\<close>.\<close>

definition get_esc :: "gostring \<Rightarrow> (rune \<times> gostring) option" where
  "get_esc chunk =
     (if chunk = [] \<or> hd chunk = CHR ''-'' \<or> hd chunk = CHR '']'' then None
      else let ck = (if hd chunk = CHR 0x5C then tl chunk else chunk) in
      if ck = [] then None
      else (case decode_rune ck of (r, n) \<Rightarrow>
        if r = RuneError \<and> n = 1 then None
        else if drop n ck = [] then None else Some (r, drop n ck)))"

lemma get_esc_shorter: "get_esc chunk = Some (r, rest) \<Longrightarrow> length rest < length chunk \<and> rest \<noteq> []"
proof -
  assume g: "get_esc chunk = Some (r, rest)"
  let ?ck = "if hd chunk = CHR 0x5C then tl chunk else chunk"
  from g have "?ck \<noteq> []" "rest = drop (snd (decode_rune ?ck)) ?ck" "rest \<noteq> []" "chunk \<noteq> []"
    by (auto simp: get_esc_def Let_def split: if_splits prod.splits)
  moreover from this decode_rune_width_pos [of ?ck] have "length rest < length ?ck" by simp
  moreover have "length ?ck \<le> length chunk" by simp
  ultimately show ?thesis by linarith
qed

text \<open>The ranges of a class: whether one of them has the rune, and the rest of the chunk.\<close>

function class_loop :: "rune \<Rightarrow> gostring \<Rightarrow> nat \<Rightarrow> bool \<Rightarrow> (bool \<times> gostring) option" where
  "class_loop r chunk nrange matched =
     (if chunk \<noteq> [] \<and> hd chunk = CHR '']'' \<and> 0 < nrange then Some (matched, tl chunk)
      else case get_esc chunk of
        None \<Rightarrow> None
      | Some (lo, ck) \<Rightarrow>
          (if hd ck = CHR ''-'' then
             (case get_esc (tl ck) of
                None \<Rightarrow> None
              | Some (hi, ck') \<Rightarrow> class_loop r ck' (Suc nrange) (matched \<or> lo \<le> r \<and> r \<le> hi))
           else class_loop r ck (Suc nrange) (matched \<or> lo = r)))"
  by pat_completeness auto
termination
proof (relation "measure (\<lambda>(r, chunk, n, m). length chunk)", goal_cases)
  case (2 r chunk nrange matched p lo ck q hi ck')
  then have "length ck < length chunk" "length ck' < length (tl ck)" by (auto dest: get_esc_shorter)
  then show ?case by simp
next
  case (3 r chunk nrange matched p lo ck)
  then show ?case by (auto dest: get_esc_shorter)
qed simp

declare class_loop.simps [simp del]

lemma class_loop_shorter: "class_loop r chunk n m = Some (m', rest) \<Longrightarrow> length rest < length chunk"
proof (induction r chunk n m arbitrary: m' rest rule: class_loop.induct)
  case (1 r chunk n m)
  show ?case
  proof (cases "chunk \<noteq> [] \<and> hd chunk = CHR '']'' \<and> 0 < n")
    case True
    with 1(3) show ?thesis by (auto simp: class_loop.simps [of r chunk])
  next
    case False
    from 1(3) False obtain lo ck where g: "get_esc chunk = Some (lo, ck)"
      by (subst (asm) class_loop.simps) (auto split: option.splits)
    note s = get_esc_shorter [OF g]
    show ?thesis
    proof (cases "hd ck = CHR ''-''")
      case True
      from 1(3) False g True obtain hi ck' where g': "get_esc (tl ck) = Some (hi, ck')"
        "class_loop r ck' (Suc n) (m \<or> lo \<le> r \<and> r \<le> hi) = Some (m', rest)"
        by (subst (asm) class_loop.simps) (auto split: option.splits)
      from 1(1) [OF False g refl True g'(1) refl g'(2)] get_esc_shorter [OF g'(1)] s show ?thesis by (simp add: less_diff_conv)
    next
      case F: False
      with 1(3) False g have "class_loop r ck (Suc n) (m \<or> lo = r) = Some (m', rest)"
        by (subst (asm) class_loop.simps) simp
      from 1(2) [OF False g refl F this] s show ?thesis by simp
    qed
  qed
qed

text \<open>\<open>matchChunk\<close>: \<open>None\<close> is a bad pattern, \<open>Some None\<close> no match, otherwise what is left of the name.\<close>

definition match_lit :: "char \<Rightarrow> gostring option \<Rightarrow> gostring option" where
  "match_lit c s = (case s of None \<Rightarrow> None | Some t \<Rightarrow> if t \<noteq> [] \<and> hd t = c then Some (tl t) else None)"

definition match_any :: "gostring option \<Rightarrow> gostring option" where
  "match_any s = (case s of None \<Rightarrow> None
     | Some t \<Rightarrow> if t = [] \<or> hd t = CHR ''/'' then None else Some (drop (snd (decode_rune t)) t))"

function (sequential) match_chunk :: "gostring \<Rightarrow> gostring option \<Rightarrow> gostring option option" where
  "match_chunk [] s = Some s"
| "match_chunk (c # cs) s =
     (let s = (if s = Some [] then None else s) in
      if c = CHR ''['' then
        (let neg = (cs \<noteq> [] \<and> hd cs = CHR ''^''); ck = (if neg then tl cs else cs);
             r = (case s of None \<Rightarrow> 0 | Some t \<Rightarrow> fst (decode_rune t)) in
         case class_loop r ck 0 False of
           None \<Rightarrow> None
         | Some (m, rest) \<Rightarrow>
             match_chunk rest (if m = neg then None
               else case s of None \<Rightarrow> None | Some t \<Rightarrow> Some (drop (snd (decode_rune t)) t)))
      else if c = CHR ''?'' then match_chunk cs (match_any s)
      else if c = CHR 0x5C then (case cs of [] \<Rightarrow> None | d # ds \<Rightarrow> match_chunk ds (match_lit d s))
      else match_chunk cs (match_lit c s))"
  by pat_completeness auto
termination
proof (relation "measure (\<lambda>(chunk, s). length chunk)", goal_cases)
  case 2
  then show ?case by (auto dest!: class_loop_shorter split: if_splits)
qed auto

text \<open>The search after a star: skip bytes other than the separator until the chunk matches.\<close>

fun star_skip :: "gostring \<Rightarrow> bool \<Rightarrow> gostring \<Rightarrow> gostring option option" where
  "star_skip chunk lastChunk [] = Some None"
| "star_skip chunk lastChunk (c # cs) =
     (if c = CHR ''/'' then Some None
      else case match_chunk chunk (Some cs) of
        None \<Rightarrow> None
      | Some None \<Rightarrow> star_skip chunk lastChunk cs
      | Some (Some t) \<Rightarrow> if lastChunk \<and> t \<noteq> [] then star_skip chunk lastChunk cs else Some (Some t))"

lemma scan_chunk_append: "scan_chunk b p = (a, r) \<Longrightarrow> p = a @ r"
  by (induction b p arbitrary: a r rule: scan_chunk.induct) (auto split: if_splits prod.splits list.splits)

lemma scan_chunk_progress: "scan_chunk False p = ([], r) \<Longrightarrow> p = [] \<or> hd p = CHR ''*''"
  by (cases p) (auto split: if_splits prod.splits list.splits)

lemma scan_chunk_shorter:
  assumes "(chunk, rest) = scan_chunk False (dropWhile (\<lambda>c. c = CHR ''*'') pattern)" "pattern \<noteq> []"
  shows "hd pattern \<noteq> CHR ''*'' \<Longrightarrow> length rest < length pattern" "chunk \<noteq> [] \<Longrightarrow> length rest < length pattern"
proof -
  have e: "dropWhile (\<lambda>c. c = CHR ''*'') pattern = chunk @ rest" using scan_chunk_append assms(1) by metis
  then show c: "length rest < length pattern" if "chunk \<noteq> []"
    using that length_dropWhile_le [of "\<lambda>c. c = CHR ''*''" pattern] by (cases chunk) auto
  show "length rest < length pattern" if "hd pattern \<noteq> CHR ''*''"
  proof (rule c)
    have "dropWhile (\<lambda>c. c = CHR ''*'') pattern = pattern" using that assms(2) by (cases pattern) auto
    then show "chunk \<noteq> []" using scan_chunk_progress assms that by metis
  qed
qed

text \<open>The check of the rest of the pattern before a mismatch is reported.\<close>

lemma scan_chunk_rest_shorter:
  assumes "(chunk, rest) = scan_chunk False (dropWhile (\<lambda>c. c = CHR ''*'') pattern)" "pattern \<noteq> []"
  shows "length rest < length pattern"
proof (cases "hd pattern = CHR ''*''")
  case True
  have "length rest \<le> length (dropWhile (\<lambda>c. c = CHR ''*'') pattern)"
    using scan_chunk_append [OF assms(1) [symmetric]] by simp
  also have "\<dots> < length pattern"
    using True assms(2) by (cases pattern) (auto simp: length_dropWhile_le le_imp_less_Suc)
  finally show ?thesis .
qed (use scan_chunk_shorter(1) [OF assms] in simp)

function chunks_ok :: "gostring \<Rightarrow> bool" where
  "chunks_ok pattern =
     (if pattern = [] then True
      else case scan_chunk False (dropWhile (\<lambda>c. c = CHR ''*'') pattern) of (chunk, rest) \<Rightarrow>
        match_chunk chunk (Some []) \<noteq> None \<and> chunks_ok rest)"
  by pat_completeness auto
termination
  by (relation "measure length") (auto dest: scan_chunk_rest_shorter)

declare chunks_ok.simps [simp del]

definition mismatch :: "gostring \<Rightarrow> bool option" where
  "mismatch rest = (if chunks_ok rest then Some False else None)"

lemma mismatch_Nil [simp]: "mismatch [] = Some False"
  by (simp add: mismatch_def chunks_ok.simps)

function filepath_Match :: "gostring \<Rightarrow> gostring \<Rightarrow> bool option" where
  "filepath_Match pattern name =
     (if pattern = [] then Some (name = [])
      else let body = dropWhile (\<lambda>c. c = CHR ''*'') pattern; star = (hd pattern = CHR ''*'') in
        case scan_chunk False body of (chunk, rest) \<Rightarrow>
          if star \<and> chunk = [] then Some (CHR ''/'' \<notin> set name)
          else (case match_chunk chunk (Some name) of
            None \<Rightarrow> None
          | Some m \<Rightarrow>
              (case m of
                 Some t \<Rightarrow>
                   if t = [] \<or> rest \<noteq> [] then filepath_Match rest t
                   else if star then
                     (case star_skip chunk (rest = []) name of
                        None \<Rightarrow> None | Some None \<Rightarrow> mismatch rest | Some (Some t) \<Rightarrow> filepath_Match rest t)
                   else mismatch rest
               | None \<Rightarrow>
                   if star then
                     (case star_skip chunk (rest = []) name of
                        None \<Rightarrow> None | Some None \<Rightarrow> mismatch rest | Some (Some t) \<Rightarrow> filepath_Match rest t)
                   else mismatch rest)))"
  by pat_completeness auto
termination
  by (relation "measure (\<lambda>(pattern, name). length pattern)") (auto dest: scan_chunk_shorter)

declare filepath_Match.simps [simp del]

subsection \<open>Rules\<close>

definition defaultIgnoredDirs :: "gostring list" where
  "defaultIgnoredDirs = [''.git'', ''.svn'', ''.hg'', ''node_modules'', ''vendor'', ''target'', ''build'', ''dist'', ''coverage'',
     ''__pycache__'', ''.venv'', ''venv'']"

definition IsDefaultIgnoredDir :: "gostring \<Rightarrow> bool" where
  "IsDefaultIgnoredDir name = (ToLower name \<in> set defaultIgnoredDirs)"

record ignorePattern =
  ipPattern :: gostring
  ipNegate :: bool
  ipDirOnly :: bool
  ipAnchored :: bool

definition parse_ignore_line :: "gostring \<Rightarrow> ignorePattern option" where
  "parse_ignore_line raw =
     (let line = TrimSpace raw in
      if line = [] \<or> HasPrefix line ''#'' then None
      else
        let neg = HasPrefix line ''!''; line1 = (if neg then TrimPrefix line ''!'' else line);
            dirOnly = HasSuffix line1 ''/''; line2 = (if dirOnly then TrimSuffix line1 ''/'' else line1);
            anchored = (HasPrefix line2 ''/'' \<or> Contains (TrimPrefix line2 ''/'') ''/'');
            pat = TrimPrefix line2 ''/'' in
        if pat = [] then None
        else Some \<lparr>ipPattern = pat, ipNegate = neg, ipDirOnly = dirOnly, ipAnchored = anchored\<rparr>)"

text \<open>The content of a file that could be opened; \<open>None\<close> is a file that is not there.\<close>

definition loadIgnoreFile :: "gostring option \<Rightarrow> ignorePattern list" where
  "loadIgnoreFile content = (case content of None \<Rightarrow> [] | Some text \<Rightarrow> List.map_filter parse_ignore_line (scan_lines text))"

definition LoadRootIgnoreRules :: "gostring option \<Rightarrow> gostring option \<Rightarrow> ignorePattern list" where
  "LoadRootIgnoreRules gitignore ignore = loadIgnoreFile gitignore @ loadIgnoreFile ignore"

text \<open>\<open>strings.Split\<close> on \<open>**\<close>.\<close>

fun split_stars :: "gostring \<Rightarrow> gostring list" where
  "split_stars [] = [[]]"
| "split_stars [c] = [[c]]"
| "split_stars (c # d # s) =
     (if c = CHR ''*'' \<and> d = CHR ''*'' then [] # split_stars s
      else (case split_stars (d # s) of [] \<Rightarrow> [[c]] | l # ls \<Rightarrow> (c # l) # ls))"

abbreviation glob_matches :: "gostring \<Rightarrow> gostring \<Rightarrow> bool" where
  "glob_matches pattern name \<equiv> filepath_Match pattern name = Some True"

text \<open>The tails of a path at its separators, as the loops over \<open>parts[i:]\<close> take them.\<close>

definition path_tails :: "gostring \<Rightarrow> gostring list" where
  "path_tails rel = (let parts = split_on (CHR ''/'') rel in map (\<lambda>i. Join (drop i parts) ''/'') [0..<length parts])"

definition ignoreGlobMatch :: "gostring \<Rightarrow> gostring \<Rightarrow> bool" where
  "ignoreGlobMatch pattern name =
     (if \<not> Contains pattern ''**'' then glob_matches pattern name
      else if HasPrefix pattern ''**/'' \<and> list_ex (glob_matches (TrimPrefix pattern ''**/'')) (path_tails name) then True
      else if HasSuffix pattern ''/**'' then
        (let pre = TrimSuffix pattern ''/**'' in name = pre \<or> HasPrefix name (pre @ ''/''))
      else
        (case split_stars pattern of
           [a, b] \<Rightarrow> HasPrefix name (TrimSuffix a ''/'') \<and> HasSuffix name (TrimPrefix b ''/'')
         | _ \<Rightarrow> False))"

definition matchIgnoreGlob :: "ignorePattern \<Rightarrow> gostring \<Rightarrow> bool" where
  "matchIgnoreGlob p rel =
     (if ipAnchored p then ignoreGlobMatch (ipPattern p) rel
      else list_ex (ignoreGlobMatch (ipPattern p)) (path_tails rel))"

definition rule_applies :: "ignorePattern \<Rightarrow> gostring \<Rightarrow> bool \<Rightarrow> bool" where
  "rule_applies p rel isDir \<longleftrightarrow> \<not> (ipDirOnly p \<and> \<not> isDir) \<and> matchIgnoreGlob p rel"

definition ignore_Match :: "ignorePattern list \<Rightarrow> gostring \<Rightarrow> bool \<Rightarrow> bool" where
  "ignore_Match rules rel isDir =
     foldl (\<lambda>matched p. if rule_applies p rel isDir then \<not> ipNegate p else matched) False rules"

definition ignore_MatchPath :: "ignorePattern list \<Rightarrow> gostring \<Rightarrow> bool \<Rightarrow> bool" where
  "ignore_MatchPath rules rel isDir =
     (let parts = split_on (CHR ''/'') rel in
      list_ex (\<lambda>i. ignore_Match rules (Join (take i parts) ''/'') True) [1..<length parts] \<or> ignore_Match rules rel isDir)"

subsection \<open>What plain patterns match\<close>

definition plain_char :: "char \<Rightarrow> bool" where
  "plain_char c \<longleftrightarrow> c \<noteq> CHR ''*'' \<and> c \<noteq> CHR ''?'' \<and> c \<noteq> CHR ''['' \<and> c \<noteq> CHR 0x5C"

lemma scan_chunk_plain: "list_all plain_char p \<Longrightarrow> scan_chunk False p = (p, [])"
  by (induction p) (auto simp: plain_char_def)

lemma match_chunk_None: "list_all plain_char p \<Longrightarrow> match_chunk p None = Some None"
  by (induction p) (auto simp: plain_char_def match_lit_def)

lemma match_chunk_plain:
  "list_all plain_char p \<Longrightarrow> match_chunk p (Some s) = Some (if prefix p s then Some (drop (length p) s) else None)"
proof (induction p arbitrary: s)
  case (Cons c p)
  then show ?case by (cases s) (auto simp: plain_char_def [of c] match_lit_def match_chunk_None)
qed simp

lemma filepath_Match_Nil [simp]: "filepath_Match [] s = Some (s = [])"
  by (simp add: filepath_Match.simps)

lemma filepath_Match_plain:
  assumes "list_all plain_char p"
  shows "filepath_Match p s = Some (s = p)"
proof (cases "p = []")
  case False
  have d: "dropWhile (\<lambda>c. c = CHR ''*'') p = p" "hd p \<noteq> CHR ''*''"
    using assms False by (cases p; simp add: plain_char_def)+
  show ?thesis using assms False
    by (subst filepath_Match.simps) (auto simp: d scan_chunk_plain match_chunk_plain prefix_def)
qed simp

text \<open>The name is the text after the star, with at least one character before it in the same component.\<close>

definition after_star :: "gostring \<Rightarrow> gostring \<Rightarrow> bool" where
  "after_star e s \<longleftrightarrow> (\<exists>u. u \<noteq> [] \<and> s = u @ e \<and> CHR ''/'' \<notin> set u)"

lemma after_star_Cons: "after_star e (c # s) \<longleftrightarrow> c \<noteq> CHR ''/'' \<and> (s = e \<or> after_star e s)"
proof
  assume "after_star e (c # s)"
  then obtain d u where "c # s = (d # u) @ e" "CHR ''/'' \<notin> set (d # u)" by (auto simp: after_star_def neq_Nil_conv)
  then show "c \<noteq> CHR ''/'' \<and> (s = e \<or> after_star e s)" by (cases "u = []") (auto simp: after_star_def)
next
  assume a: "c \<noteq> CHR ''/'' \<and> (s = e \<or> after_star e s)"
  then obtain u where "s = u @ e" "CHR ''/'' \<notin> set u" unfolding after_star_def by force
  with a show "after_star e (c # s)" unfolding after_star_def by (intro exI [of _ "c # u"]) simp
qed

lemma star_skip_plain:
  assumes "list_all plain_char e"
  shows "star_skip e True s = Some (if after_star e s then Some [] else None)"
proof (induction s)
  case Nil
  then show ?case by (simp add: after_star_def)
next
  case (Cons c s)
  have "match_chunk e (Some s) = Some (if prefix e s then Some (drop (length e) s) else None)"
    by (rule match_chunk_plain [OF assms])
  moreover have "s \<noteq> e \<Longrightarrow> prefix e s \<Longrightarrow> drop (length e) s \<noteq> []" by (auto simp: prefix_def)
  ultimately show ?case using Cons by (cases "s = e"; cases "prefix e s") (simp_all add: after_star_Cons)
qed

lemma filepath_Match_star:
  assumes "list_all plain_char e" "e \<noteq> []"
  shows "filepath_Match (CHR ''*'' # e) s = Some (\<exists>u. s = u @ e \<and> CHR ''/'' \<notin> set u)"
proof -
  have d: "dropWhile (\<lambda>c. c = CHR ''*'') e = e" using assms by (cases e) (auto simp: plain_char_def)
  have m: "match_chunk e (Some s) = Some (if prefix e s then Some (drop (length e) s) else None)"
    by (rule match_chunk_plain [OF assms(1)])
  show ?thesis
  proof (cases "s = e")
    case True
    then show ?thesis using assms(2) m by (subst filepath_Match.simps) (simp add: d scan_chunk_plain [OF assms(1)])
  next
    case False
    have "(\<exists>u. s = u @ e \<and> CHR ''/'' \<notin> set u) \<longleftrightarrow> after_star e s"
      using False by (auto simp: after_star_def)
    moreover have "prefix e s \<Longrightarrow> drop (length e) s \<noteq> []" using False by (auto simp: prefix_def)
    ultimately show ?thesis using assms(2) m star_skip_plain [OF assms(1), of s]
      by (subst filepath_Match.simps) (cases "prefix e s"; simp add: d scan_chunk_plain [OF assms(1)])
  qed
qed

abbreviation comps :: "gostring \<Rightarrow> gostring list" where
  "comps rel \<equiv> split_on (CHR ''/'') rel"

lemma Join_two_sep: "2 \<le> length xs \<Longrightarrow> CHR ''/'' \<in> set (Join xs ''/'')"
  by (cases xs rule: list.exhaust; cases "tl xs") auto

lemma drop_to_last: "xs \<noteq> [] \<Longrightarrow> drop (length xs - 1) xs = [last xs]"
  by (cases xs rule: rev_cases) auto

lemma path_tails_component:
  "t \<in> set (path_tails rel) \<and> CHR ''/'' \<notin> set t \<longleftrightarrow> t = last (comps rel)"
proof
  assume t: "t \<in> set (path_tails rel) \<and> CHR ''/'' \<notin> set t"
  then obtain i where i: "i < length (comps rel)" "t = Join (drop i (comps rel)) ''/''"
    by (auto simp: path_tails_def Let_def)
  have "\<not> 2 \<le> length (drop i (comps rel))" using t Join_two_sep i(2) by metis
  then have "i = length (comps rel) - 1" using i(1) by auto
  then show "t = last (comps rel)" using i(2) drop_to_last [of "comps rel"] by simp
next
  assume t: "t = last (comps rel)"
  let ?n = "length (comps rel) - 1"
  have "t = Join (drop ?n (comps rel)) ''/''" using t drop_to_last [of "comps rel"] by simp
  moreover have "?n \<in> set [0..<length (comps rel)]" by simp
  ultimately have "t \<in> set (path_tails rel)" unfolding path_tails_def Let_def set_map by (rule image_eqI)
  moreover have "CHR ''/'' \<notin> set t" using t split_on_no_sep [of "last (comps rel)" "CHR ''/''" rel] by simp
  ultimately show "t \<in> set (path_tails rel) \<and> CHR ''/'' \<notin> set t" by simp
qed

lemma plain_no_stars:
  assumes "list_all plain_char e"
  shows "\<not> Contains e ''**''" "\<not> Contains (CHR ''*'' # e) ''**''"
proof -
  have n: "CHR ''*'' \<notin> set e" using assms by (auto simp: list_all_iff plain_char_def)
  show "\<not> Contains e ''**''"
  proof
    assume "Contains e ''**''"
    then obtain u v where "e = u @ ''**'' @ v" by (auto simp: Contains_iff)
    with n show False by simp
  qed
  show "\<not> Contains (CHR ''*'' # e) ''**''"
  proof
    assume "Contains (CHR ''*'' # e) ''**''"
    then obtain u v where "CHR ''*'' # e = u @ ''**'' @ v" unfolding Contains_iff by blast
    then show False using n by (cases u) auto
  qed
qed

text \<open>A rule without slash and with a plain name, or a star and a plain ending, looks at the last component.\<close>

lemma plain_rule:
  assumes "list_all plain_char n" "CHR ''/'' \<notin> set n" "\<not> ipAnchored p" "ipPattern p = n"
  shows "matchIgnoreGlob p rel \<longleftrightarrow> last (comps rel) = n"
  using assms path_tails_component [of n rel]
  by (auto simp: matchIgnoreGlob_def list_ex_iff ignoreGlobMatch_def plain_no_stars filepath_Match_plain)

lemma ending_rule:
  assumes "list_all plain_char e" "e \<noteq> []" "CHR ''/'' \<notin> set e" "\<not> ipAnchored p" "ipPattern p = CHR ''*'' # e"
  shows "matchIgnoreGlob p rel \<longleftrightarrow> suffix e (last (comps rel))"
proof -
  have "ignoreGlobMatch (CHR ''*'' # e) t \<longleftrightarrow> suffix e t \<and> CHR ''/'' \<notin> set t" for t
    using assms(3) by (auto simp: ignoreGlobMatch_def plain_no_stars [OF assms(1)] filepath_Match_star [OF assms(1,2)] suffix_def)
  then have "matchIgnoreGlob p rel \<longleftrightarrow> (\<exists>t. (t \<in> set (path_tails rel) \<and> CHR ''/'' \<notin> set t) \<and> suffix e t)"
    using assms(4,5) by (auto simp: matchIgnoreGlob_def list_ex_iff)
  then show ?thesis unfolding path_tails_component by simp
qed

subsection \<open>How the rules of a file decide\<close>

lemma ignore_Match_Nil [simp]: "ignore_Match [] rel isDir = False"
  by (simp add: ignore_Match_def)

lemma ignore_Match_snoc [simp]:
  "ignore_Match (rules @ [p]) rel isDir = (if rule_applies p rel isDir then \<not> ipNegate p else ignore_Match rules rel isDir)"
  by (simp add: ignore_Match_def)

text \<open>The last rule that applies decides.\<close>

lemma ignore_Match_last:
  "ignore_Match rules rel isDir =
     (case find (\<lambda>p. rule_applies p rel isDir) (rev rules) of None \<Rightarrow> False | Some p \<Rightarrow> \<not> ipNegate p)"
  by (induction rules rule: rev_induct) simp_all

lemma comps_take: "0 < i \<Longrightarrow> i \<le> length (comps rel) \<Longrightarrow> last (comps (Join (take i (comps rel)) ''/'')) = comps rel ! (i - 1)"
proof -
  assume i: "0 < i" "i \<le> length (comps rel)"
  have "comps (Join (take i (comps rel)) ''/'') = take i (comps rel)"
    using i split_on_no_sep [of _ "CHR ''/''" rel] by (intro split_on_Join) (auto dest: in_set_takeD)
  then show ?thesis using i by (simp add: last_conv_nth)
qed

lemma ignore_MatchPath_component:
  assumes "\<And>rel d. ignore_Match rules rel d \<longleftrightarrow> Q d \<and> P (last (comps rel))" "Q True"
  shows "ignore_MatchPath rules rel isDir \<longleftrightarrow> (\<exists>x\<in>set (butlast (comps rel)). P x) \<or> Q isDir \<and> P (last (comps rel))"
proof -
  let ?n = "length (comps rel)"
  have "(\<exists>i\<in>{1..<?n}. P (comps rel ! (i - 1))) \<longleftrightarrow> (\<exists>j<?n - 1. P (comps rel ! j))"
  proof
    assume "\<exists>i\<in>{1..<?n}. P (comps rel ! (i - 1))"
    then obtain i where "1 \<le> i" "i < ?n" "P (comps rel ! (i - 1))" by auto
    then show "\<exists>j<?n - 1. P (comps rel ! j)" by (intro exI [of _ "i - 1"]) auto
  next
    assume "\<exists>j<?n - 1. P (comps rel ! j)"
    then obtain j where "j < ?n - 1" "P (comps rel ! j)" by auto
    then show "\<exists>i\<in>{1..<?n}. P (comps rel ! (i - 1))" by (intro bexI [of _ "Suc j"]) auto
  qed
  also have "\<dots> \<longleftrightarrow> (\<exists>x\<in>set (butlast (comps rel)). P x)"
    by (metis in_set_conv_nth length_butlast nth_butlast)
  finally show ?thesis
    by (auto simp: ignore_MatchPath_def Let_def list_ex_iff assms comps_take)
qed

subsection \<open>From the text of an ignore file\<close>

definition plain_name :: "gostring \<Rightarrow> bool" where
  "plain_name n \<longleftrightarrow> n \<noteq> [] \<and> length n < 65530 \<and> list_all (\<lambda>c. plain_char c \<and> c \<noteq> CHR ''/'' \<and> c \<noteq> LF) n
     \<and> hd n \<noteq> CHR ''#'' \<and> hd n \<noteq> CHR ''!''
     \<and> (of_char (hd n) :: nat) < 128 \<and> \<not> is_space (of_char (hd n)) \<and> (of_char (last n) :: nat) < 128 \<and> \<not> is_space (of_char (last n))"

lemma scan_one_line:
  assumes "LF \<notin> set l" "l \<noteq> []" "last l \<noteq> CR" "length l < 65536"
  shows "scan_lines (l @ [LF]) = [l]"
  using assms split_on_append_sep [of LF l "[]"] by (simp add: scan_lines_def Let_def strip_cr_def)

lemma plain_name_facts:
  assumes "plain_name n"
  shows "n \<noteq> []" "CHR ''/'' \<notin> set n" "LF \<notin> set n" "list_all plain_char n" "last n \<noteq> CR" "TrimSpace n = n"
    "TrimSpace (CHR ''!'' # n) = CHR ''!'' # n" "TrimSpace (n @ ''/'') = n @ ''/''"
proof -
  have n: "n \<noteq> []" "(of_char (hd n) :: nat) < 128" "\<not> is_space (of_char (hd n))" "(of_char (last n) :: nat) < 128"
    "\<not> is_space (of_char (last n))" using assms by (auto simp: plain_name_def)
  show "n \<noteq> []" by fact
  show "CHR ''/'' \<notin> set n" "LF \<notin> set n" "list_all plain_char n" using assms by (auto simp: plain_name_def list_all_iff)
  show "last n \<noteq> CR" using n(5) by (auto simp: is_space_def)
  show "TrimSpace n = n" by (rule TrimSpace_id) (use n in simp_all)
  show "TrimSpace (CHR ''!'' # n) = CHR ''!'' # n" by (rule TrimSpace_id) (use n in \<open>simp_all add: is_space_def\<close>)
  show "TrimSpace (n @ ''/'') = n @ ''/''" by (rule TrimSpace_id) (use n in \<open>simp_all add: is_space_def\<close>)
qed

lemma parse_plain_lines:
  assumes "plain_name n"
  shows "parse_ignore_line n = Some \<lparr>ipPattern = n, ipNegate = False, ipDirOnly = False, ipAnchored = False\<rparr>"
    "parse_ignore_line (CHR ''!'' # n) = Some \<lparr>ipPattern = n, ipNegate = True, ipDirOnly = False, ipAnchored = False\<rparr>"
    "parse_ignore_line (n @ ''/'') = Some \<lparr>ipPattern = n, ipNegate = False, ipDirOnly = True, ipAnchored = False\<rparr>"
proof -
  note f = plain_name_facts [OF assms]
  obtain c m where n: "n = c # m" using f(1) by (cases n) auto
  have c: "c \<noteq> CHR ''#''" "c \<noteq> CHR ''!''" "c \<noteq> CHR ''/''" using assms n by (auto simp: plain_name_def)
  have s: "\<not> suffix ''/'' n" using f(2) by (auto simp: suffix_def)
  have t: "TrimPrefix n ''/'' = n" "\<not> Contains n ''/''"
    using c(3) n f(2) by (simp add: TrimPrefix_def) (use f(2) in \<open>auto simp: Contains_iff\<close>)
  have s1: "\<not> suffix ''/'' (CHR ''!'' # n)" "TrimPrefix (CHR ''!'' # n) ''!'' = n" using s n by (auto simp: TrimPrefix_def suffix_Cons)
  have s2: "suffix ''/'' (n @ ''/'')" "TrimSuffix (n @ ''/'') ''/'' = n" by (simp_all add: TrimSuffix_def)
  show "parse_ignore_line n = Some \<lparr>ipPattern = n, ipNegate = False, ipDirOnly = False, ipAnchored = False\<rparr>"
    using f s t n c by (simp add: parse_ignore_line_def Let_def)
  show "parse_ignore_line (CHR ''!'' # n) = Some \<lparr>ipPattern = n, ipNegate = True, ipDirOnly = False, ipAnchored = False\<rparr>"
    using f s t s1 n c by (simp add: parse_ignore_line_def Let_def)
  show "parse_ignore_line (n @ ''/'') = Some \<lparr>ipPattern = n, ipNegate = False, ipDirOnly = True, ipAnchored = False\<rparr>"
    using f s2 t n c by (simp add: parse_ignore_line_def Let_def)
qed

lemma load_plain_lines:
  assumes "plain_name n"
  shows "loadIgnoreFile (Some (n @ [LF])) = [\<lparr>ipPattern = n, ipNegate = False, ipDirOnly = False, ipAnchored = False\<rparr>]"
    "loadIgnoreFile (Some (CHR ''!'' # n @ [LF])) = [\<lparr>ipPattern = n, ipNegate = True, ipDirOnly = False, ipAnchored = False\<rparr>]"
    "loadIgnoreFile (Some (n @ [CHR ''/'', LF])) = [\<lparr>ipPattern = n, ipNegate = False, ipDirOnly = True, ipAnchored = False\<rparr>]"
proof -
  note f = plain_name_facts [OF assms] and p = parse_plain_lines [OF assms]
  have l: "length n < 65530" using assms by (simp add: plain_name_def)
  have "scan_lines (n @ [LF]) = [n]" by (rule scan_one_line) (use f l in auto)
  then show "loadIgnoreFile (Some (n @ [LF])) = [\<lparr>ipPattern = n, ipNegate = False, ipDirOnly = False, ipAnchored = False\<rparr>]"
    by (simp add: loadIgnoreFile_def map_filter_simps p)
  have "scan_lines ((CHR ''!'' # n) @ [LF]) = [CHR ''!'' # n]" by (rule scan_one_line) (use f l in auto)
  then show "loadIgnoreFile (Some (CHR ''!'' # n @ [LF])) = [\<lparr>ipPattern = n, ipNegate = True, ipDirOnly = False, ipAnchored = False\<rparr>]"
    by (simp add: loadIgnoreFile_def map_filter_simps p)
  have "scan_lines ((n @ ''/'') @ [LF]) = [n @ ''/'']" by (rule scan_one_line) (use f l in auto)
  then show "loadIgnoreFile (Some (n @ [CHR ''/'', LF])) = [\<lparr>ipPattern = n, ipNegate = False, ipDirOnly = True, ipAnchored = False\<rparr>]"
    by (simp add: loadIgnoreFile_def map_filter_simps p)
qed

text \<open>a line with a plain name excludes exactly the paths that have a component of that name; with a
  slash behind it, the paths below a directory of that name and the directory itself; and a later
  line that negates the name takes the exclusion back.\<close>

theorem ignore_name_line:
  assumes n: "plain_name n"
  shows "ignore_MatchPath (LoadRootIgnoreRules (Some (n @ [LF])) None) rel isDir = (n \<in> set (comps rel))
    \<and> ignore_MatchPath (LoadRootIgnoreRules (Some (n @ ''/'' @ [LF])) None) rel isDir
        = (n \<in> set (butlast (comps rel)) \<or> isDir \<and> last (comps rel) = n)
    \<and> \<not> ignore_MatchPath (LoadRootIgnoreRules (Some (n @ [LF])) (Some (CHR ''!'' # n @ [LF]))) rel isDir"
proof -
  note f = plain_name_facts [OF n]
  let ?r = "\<lambda>neg dir. \<lparr>ipPattern = n, ipNegate = neg, ipDirOnly = dir, ipAnchored = False\<rparr>"
  have ap: "rule_applies (?r neg dir) rel d \<longleftrightarrow> (dir \<longrightarrow> d) \<and> last (comps rel) = n" for neg dir rel d
    using plain_rule [OF f(4) f(2), of "?r neg dir"] by (auto simp: rule_applies_def)
  have m1: "ignore_Match [?r False False] rel d \<longleftrightarrow> True \<and> last (comps rel) = n" for rel d
    using ap by (simp add: ignore_Match_def)
  have m2: "ignore_Match [?r False True] rel d \<longleftrightarrow> d \<and> last (comps rel) = n" for rel d
    using ap by (simp add: ignore_Match_def)
  have m3: "ignore_Match [?r False False, ?r True False] rel d \<longleftrightarrow> True \<and> False" for rel d
    using ap by (simp add: ignore_Match_def)
  have sp: "set (comps rel) = insert (last (comps rel)) (set (butlast (comps rel)))"
    by (metis append_butlast_last_id insert_is_Un list.simps(15) set_append split_on_ne sup_commute empty_set)
  show ?thesis
    using ignore_MatchPath_component [of "[?r False False]" "\<lambda>_. True" "\<lambda>x. x = n", OF m1]
      ignore_MatchPath_component [of "[?r False True]" "\<lambda>d. d" "\<lambda>x. x = n", OF m2]
      ignore_MatchPath_component [of "[?r False False, ?r True False]" "\<lambda>_. True" "\<lambda>_. False", OF m3] sp
    by (auto simp: LoadRootIgnoreRules_def load_plain_lines [OF n] loadIgnoreFile_def [of None])
qed

theorem ignore_name_line_witness:
  "ignore_MatchPath (LoadRootIgnoreRules (Some (''out'' @ [LF])) None) ''a/out/b'' False
   \<and> \<not> ignore_MatchPath (LoadRootIgnoreRules (Some (''out'' @ [LF])) None) ''a/outer'' False"
proof -
  have "plain_name ''out''" by (simp add: plain_name_def plain_char_def is_space_def)
  from ignore_name_line [OF this] show ?thesis by simp
qed

text \<open>the rule \<open>**/foo\<close> excludes the file \<open>barfoo\<close>, and \<open>foo/**/bar\<close> the file \<open>foobar\<close>: when the tails of
  the path do not match, the text before and after the stars is compared without regard to the
  borders of components.\<close>

theorem double_star_crosses_components:
  "ignore_Match (LoadRootIgnoreRules (Some (''**/foo'' @ [LF])) None) ''barfoo'' False
   \<and> ignore_Match (LoadRootIgnoreRules (Some (''foo/**/bar'' @ [LF])) None) ''foobar'' False"
proof -
  have t: "TrimSpace ''**/foo'' = ''**/foo''" "TrimSpace ''foo/**/bar'' = ''foo/**/bar''"
    by (rule TrimSpace_id; simp add: is_space_def)+
  have c: "Contains ''**/foo'' ''/''" "Contains ''foo/**/bar'' ''/''" "Contains ''**/foo'' ''**''" "Contains ''foo/**/bar'' ''**''"
    by (simp_all add: Contains_def)
  have l: "LoadRootIgnoreRules (Some (''**/foo'' @ [LF])) None
      = [\<lparr>ipPattern = ''**/foo'', ipNegate = False, ipDirOnly = False, ipAnchored = True\<rparr>]"
    "LoadRootIgnoreRules (Some (''foo/**/bar'' @ [LF])) None
      = [\<lparr>ipPattern = ''foo/**/bar'', ipNegate = False, ipDirOnly = False, ipAnchored = True\<rparr>]"
    using scan_one_line [of "''**/foo''"] scan_one_line [of "''foo/**/bar''"]
    by (simp_all add: LoadRootIgnoreRules_def loadIgnoreFile_def map_filter_simps parse_ignore_line_def Let_def t TrimPrefix_def c suffix_def)
  have "ignoreGlobMatch ''**/foo'' ''barfoo''" "ignoreGlobMatch ''foo/**/bar'' ''foobar''"
    by (simp_all add: ignoreGlobMatch_def c TrimPrefix_def TrimSuffix_def suffix_def)
  then show ?thesis unfolding l by (simp add: ignore_Match_def rule_applies_def matchIgnoreGlob_def)
qed

end
