(* ===== verification/Glob.thy ===== *)
theory Glob
  imports Ignore Output
begin

text \<open>
  The glob tool (tools/glob/handler.go). The file system is a tree from the root directory, whose
  directories list their entries in the order of their names, as \<open>filepath.Walk\<close> and \<open>filepath.Glob\<close> see
  them; links to directories are not represented. The hash of a query and the text form of a cursor
  are arguments. The theorems show which files a recursive pattern finds, and that the pages a client
  gets by following the cursors are together the sorted matches, each once; further theorems show
  patterns and limits for which the tool does not do what its description says.
\<close>

subsection \<open>The file system\<close>

text \<open>A file with its modification time (\<open>None\<close> when \<open>os.Stat\<close> fails), a directory, an entry that cannot be read.\<close>

datatype fsnode = FFile "int option" | FDir int "(gostring \<times> fsnode) list" | FBad

type_synonym fspath = "gostring list"

fun fs_lookup :: "fsnode \<Rightarrow> fspath \<Rightarrow> fsnode option" where
  "fs_lookup node [] = Some node"
| "fs_lookup (FDir t ch) (n # ns) = (case map_of ch n of None \<Rightarrow> None | Some c \<Rightarrow> fs_lookup c ns)"
| "fs_lookup _ (n # ns) = None"

definition path_string :: "fspath \<Rightarrow> gostring" where
  "path_string p = ''/'' @ Join p ''/''"

text \<open>\<open>filepath.Join\<close> of an absolute path with a relative one.\<close>

fun join_comps :: "fspath \<Rightarrow> gostring list \<Rightarrow> fspath" where
  "join_comps base [] = base"
| "join_comps base (x # xs) =
     (if x = [] \<or> x = ''.'' then join_comps base xs
      else if x = ''..'' then join_comps (butlast base) xs
      else join_comps (base @ [x]) xs)"

text \<open>\<open>filepath.Rel\<close> of two absolute paths.\<close>

fun rel_comps :: "fspath \<Rightarrow> fspath \<Rightarrow> gostring list" where
  "rel_comps (b # bs) (p # ps) = (if b = p then rel_comps bs ps else replicate (length (b # bs)) ''..'' @ p # ps)"
| "rel_comps bs ps = replicate (length bs) ''..'' @ ps"

definition rel_string :: "fspath \<Rightarrow> fspath \<Rightarrow> gostring" where
  "rel_string base p = (let r = rel_comps base p in if r = [] then ''.'' else Join r ''/'')"

subsection \<open>Finding matches\<close>

record globInput =
  giPattern :: gostring
  giRelative :: bool
  giLimit :: int
  giMaxOutputChars :: int
  giCursor :: gostring
  giIncludeHidden :: bool
  giIncludeIgnored :: bool

record globWalk =
  gwBase :: fspath
  gwStart :: fspath
  gwHidden :: bool
  gwIgnored :: bool
  gwRules :: "ignorePattern list"
  gwSuffix :: gostring

definition dir_pruned :: "globWalk \<Rightarrow> fspath \<Rightarrow> bool" where
  "dir_pruned g path \<longleftrightarrow>
     path \<noteq> gwStart g \<and> (\<not> gwHidden g \<and> HasPrefix (last path) ''.'' \<or> \<not> gwIgnored g \<and> IsDefaultIgnoredDir (last path))
     \<or> path \<noteq> gwBase g \<and> \<not> gwIgnored g \<and> ignore_Match (gwRules g) (rel_string (gwBase g) path) True"

definition file_pruned :: "globWalk \<Rightarrow> fspath \<Rightarrow> bool" where
  "file_pruned g path \<longleftrightarrow> \<not> gwIgnored g \<and> ignore_Match (gwRules g) (rel_string (gwBase g) path) False"

definition name_matches :: "globWalk \<Rightarrow> gostring \<Rightarrow> bool" where
  "name_matches g name \<longleftrightarrow> gwSuffix g = [] \<or> glob_matches (gwSuffix g) name"

text \<open>The callback of \<open>filepath.Walk\<close> at a node and below it: the matches and the number of paths skipped.\<close>

fun walk_node :: "globWalk \<Rightarrow> fspath \<Rightarrow> fsnode \<Rightarrow> fspath list \<times> nat"
  and walk_children :: "globWalk \<Rightarrow> fspath \<Rightarrow> (gostring \<times> fsnode) list \<Rightarrow> fspath list \<times> nat" where
  "walk_node g path FBad = ([], 1)"
| "walk_node g path (FFile t) =
     (if file_pruned g path then ([], 1)
      else if name_matches g (last path) then ([path], 0) else ([], 0))"
| "walk_node g path (FDir t ch) = (if dir_pruned g path then ([], 1) else walk_children g path ch)"
| "walk_children g path [] = ([], 0)"
| "walk_children g path ((n, c) # ch) =
     (case walk_node g (path @ [n]) c of (ms, k) \<Rightarrow>
        case walk_children g path ch of (ms', k') \<Rightarrow> (ms @ ms', k + k'))"

text \<open>\<open>filepath.Glob\<close> of a cleaned absolute pattern: component by component, the entries whose names match.\<close>

fun glob_expand :: "fspath \<Rightarrow> fsnode \<Rightarrow> gostring list \<Rightarrow> fspath list" where
  "glob_expand path node [] = [path]"
| "glob_expand path (FDir t ch) (p # ps) =
     concat (map (\<lambda>(n, c). if glob_matches p n then glob_expand (path @ [n]) c ps else []) ch)"
| "glob_expand path _ (p # ps) = []"

definition explicitGlobDirParts :: "gostring \<Rightarrow> nat" where
  "explicitGlobDirParts pattern =
     (let parts = comps pattern in
      min (length (takeWhile (\<lambda>part. \<not> ContainsAny part ''*?['') parts)) (length parts - 1))"

definition node_is_dir :: "fsnode \<Rightarrow> bool" where
  "node_is_dir n = (case n of FDir _ _ \<Rightarrow> True | _ \<Rightarrow> False)"

definition node_time :: "fsnode \<Rightarrow> int option" where
  "node_time n = (case n of FFile t \<Rightarrow> t | FDir t _ \<Rightarrow> Some t | FBad \<Rightarrow> None)"

definition ancestor_ignored :: "bool \<Rightarrow> bool \<Rightarrow> nat \<Rightarrow> gostring list \<Rightarrow> bool \<Rightarrow> bool" where
  "ancestor_ignored hidden ignored explicitParts parts isDir =
     list_ex (\<lambda>i. explicitParts \<le> i \<and> (\<not> hidden \<and> HasPrefix (parts ! i) ''.'' \<or> \<not> ignored \<and> IsDefaultIgnoredDir (parts ! i)))
       [0..<(if isDir then length parts else length parts - 1)]"

fun filter_raw :: "globInput \<Rightarrow> fspath \<Rightarrow> ignorePattern list \<Rightarrow> fsnode \<Rightarrow> fspath list \<Rightarrow> fspath list \<times> nat" where
  "filter_raw inp base rules root [] = ([], 0)"
| "filter_raw inp base rules root (m # ms) =
     (case filter_raw inp base rules root ms of (kept, k) \<Rightarrow>
        case fs_lookup root m of
          None \<Rightarrow> (kept, Suc k)
        | Some node \<Rightarrow>
            let rel = rel_string base m; isDir = node_is_dir node in
            if node_time node = None
              \<or> ancestor_ignored (giIncludeHidden inp) (giIncludeIgnored inp) (explicitGlobDirParts (giPattern inp)) (comps rel) isDir
              \<or> \<not> giIncludeIgnored inp \<and> ignore_MatchPath rules rel isDir
            then (kept, Suc k) else (m # kept, k))"

definition bad_pattern :: "gostring \<Rightarrow> bool" where
  "bad_pattern pattern = (filepath_Match pattern [] = None)"

definition findMatches :: "fsnode \<Rightarrow> fspath \<Rightarrow> ignorePattern list \<Rightarrow> globInput \<Rightarrow> gostring + fspath list \<times> nat" where
  "findMatches root base rules inp =
     (case Index (giPattern inp) ''**'' of
        Some i \<Rightarrow>
          let prefixDir = take i (giPattern inp);
              sfx = TrimLeft (drop (i + 2) (giPattern inp)) [CHR ''/'', CHR 0x5C];
              start0 = join_comps base (comps prefixDir);
              start = (if fs_lookup root start0 = None then base else start0);
              g = \<lparr>gwBase = base, gwStart = start, gwHidden = giIncludeHidden inp, gwIgnored = giIncludeIgnored inp,
                   gwRules = rules, gwSuffix = sfx\<rparr>
          in Inr (case fs_lookup root start of None \<Rightarrow> ([], 1) | Some node \<Rightarrow> walk_node g start node)
      | None \<Rightarrow>
          let full = join_comps base (comps (giPattern inp)) in
          if bad_pattern (path_string full) then Inl ''syntax error in pattern''
          else Inr (filter_raw inp base rules root (glob_expand [] root full)))"

subsection \<open>Sorting and paging\<close>

text \<open>Newest first, and by path among files of the same time.\<close>

fun path_le :: "gostring \<Rightarrow> gostring \<Rightarrow> bool" where
  "path_le [] t = True"
| "path_le (c # s) [] = False"
| "path_le (c # s) (d # t) \<longleftrightarrow> (of_char c :: nat) < of_char d \<or> c = d \<and> path_le s t"

definition file_before :: "fspath \<times> int \<Rightarrow> fspath \<times> int \<Rightarrow> bool" where
  "file_before a b \<longleftrightarrow> snd b < snd a \<or> snd a = snd b \<and> path_le (path_string (fst a)) (path_string (fst b))"

fun insert_file :: "fspath \<times> int \<Rightarrow> (fspath \<times> int) list \<Rightarrow> (fspath \<times> int) list" where
  "insert_file f [] = [f]"
| "insert_file f (x # xs) = (if file_before f x then f # x # xs else x # insert_file f xs)"

definition sort_files :: "(fspath \<times> int) list \<Rightarrow> (fspath \<times> int) list" where
  "sort_files fs = foldr insert_file fs []"

definition timed :: "fsnode \<Rightarrow> fspath list \<Rightarrow> (fspath \<times> int) list" where
  "timed root ms = List.map_filter (\<lambda>m. case fs_lookup root m of None \<Rightarrow> None
      | Some node \<Rightarrow> map_option (Pair m) (node_time node)) ms"

record globCursor =
  gcOffset :: int
  gcSignature :: gostring

record cursorCodec =
  ccHash :: "gostring \<Rightarrow> gostring"
  ccEncode :: "globCursor \<Rightarrow> gostring"
  ccDecode :: "gostring \<Rightarrow> gostring + globCursor"

definition show_bool :: "bool \<Rightarrow> gostring" where
  "show_bool b = (if b then ''true'' else ''false'')"

definition globCursorSignature :: "cursorCodec \<Rightarrow> fspath \<Rightarrow> globInput \<Rightarrow> gostring" where
  "globCursorSignature cc searchDir inp =
     ccHash cc (path_string searchDir @ [CHR 0x00] @ giPattern inp @ [CHR 0x00] @ show_bool (giRelative inp)
       @ [CHR 0x00] @ show_bool (giIncludeHidden inp) @ [CHR 0x00] @ show_bool (giIncludeIgnored inp))"

definition decodeGlobCursor :: "cursorCodec \<Rightarrow> gostring \<Rightarrow> gostring + globCursor" where
  "decodeGlobCursor cc value =
     (case ccDecode cc value of
        Inl err \<Rightarrow> Inl err
      | Inr c \<Rightarrow> if gcOffset c < 0 \<or> gcSignature c = [] then Inl ''malformed cursor payload'' else Inr c)"

record globOutput =
  goFiles :: "gostring list"
  goCount :: nat
  goHasMore :: bool
  goTruncated :: bool
  goNextCursor :: gostring
  goText :: gostring

fun page_loop :: "gostring \<times> nat \<Rightarrow> int \<Rightarrow> gostring list \<Rightarrow> (gostring \<times> nat) \<times> gostring list" where
  "page_loop st budget [] = (st, [])"
| "page_loop st budget (p # ps) =
     (case AppendWithinRuneBudget st (p @ [LF]) budget of
        (st', False) \<Rightarrow> (st', [])
      | (st', True) \<Rightarrow> (case page_loop st' budget ps of (st'', rs) \<Rightarrow> (st'', p # rs)))"

definition body_budget :: "int \<Rightarrow> int" where
  "body_budget maxOutputChars = (if maxOutputChars - 512 < 256 then maxOutputChars else maxOutputChars - 512)"

definition glob_page ::
  "cursorCodec \<Rightarrow> gostring \<Rightarrow> int \<Rightarrow> int \<Rightarrow> nat \<Rightarrow> gostring list \<Rightarrow> nat \<Rightarrow> globOutput" where
  "glob_page cc signature limit maxOut offset display skipped =
     (let tot = length display; page = take (nat limit) (drop offset display) in
      case page_loop ([], 0) (body_budget maxOut) page of ((sb, used), returned) \<Rightarrow>
        let sb1 = (if returned = [] \<and> tot = 0 then sb @ ''No files matched the pattern'' else sb);
            hasMore = (offset + length returned < tot);
            next = (if hasMore then ccEncode cc \<lparr>gcOffset = int (offset + length returned), gcSignature = signature\<rparr> else []);
            sb2 = sb1 @ [LF] @ ''[glob: returned='' @ show_nat (length returned) @ ''; total='' @ show_nat tot
                  @ ''; skipped='' @ show_nat skipped @ ''; truncated='' @ show_bool hasMore @ ''; has_more='' @ show_bool hasMore
                  @ (if next = [] then [] else ''; next_cursor='' @ next) @ '']'';
            (text, cut) = TruncateRunes sb2 maxOut (LF # ''[truncated]'')
        in \<lparr>goFiles = returned, goCount = tot, goHasMore = hasMore, goTruncated = (hasMore \<or> cut), goNextCursor = next, goText = text\<rparr>)"

definition start_offset :: "cursorCodec \<Rightarrow> gostring \<Rightarrow> gostring \<Rightarrow> gostring + int" where
  "start_offset cc signature cursor =
     (if cursor = [] then Inr 0
      else case decodeGlobCursor cc cursor of
        Inl err \<Rightarrow> Inl (''invalid cursor: '' @ err)
      | Inr c \<Rightarrow>
          if gcSignature c \<noteq> signature
          then Inl ''cursor does not match this glob query; reuse the same path/pattern/include options''
          else Inr (gcOffset c))"

text \<open>The files a query lists: their paths as shown, in order, and the number skipped.\<close>

definition glob_listing :: "fsnode \<Rightarrow> fspath \<Rightarrow> ignorePattern list \<Rightarrow> globInput \<Rightarrow> gostring + gostring list \<times> nat" where
  "glob_listing root base rules inp =
     (case findMatches root base rules inp of
        Inl err \<Rightarrow> Inl (''glob error: '' @ err)
      | Inr (ms, skipped) \<Rightarrow>
          let ts = timed root ms
          in Inr (map (\<lambda>(m, t). if giRelative inp then rel_string base m else path_string m) (sort_files ts),
                  skipped + (length ms - length ts)))"

definition glob_Handle ::
  "cursorCodec \<Rightarrow> fsnode \<Rightarrow> fspath \<Rightarrow> ignorePattern list \<Rightarrow> globInput \<Rightarrow> gostring + globOutput" where
  "glob_Handle cc root searchDir rules inp =
     (if giPattern inp = [] then Inl ''pattern is required''
      else if \<not> (case fs_lookup root searchDir of None \<Rightarrow> False | Some n \<Rightarrow> node_is_dir n)
      then Inl (''directory not found: '' @ path_string searchDir)
      else
        let limit = (if giLimit inp \<le> 0 then 200 else giLimit inp);
            maxOut = (if giMaxOutputChars inp \<le> 0 then int DefaultOutputChars else giMaxOutputChars inp);
            signature = globCursorSignature cc searchDir inp in
        if 5000 < limit then Inl ''limit must be at most 5000''
        else if int HardOutputChars < maxOut then Inl (''max_output_chars must be at most '' @ show_nat HardOutputChars)
        else (case start_offset cc signature (giCursor inp) of
          Inl err \<Rightarrow> Inl err
        | Inr offset \<Rightarrow>
            (case glob_listing root searchDir rules inp of
               Inl err \<Rightarrow> Inl err
             | Inr (display, skipped) \<Rightarrow>
                 if int (length display) < offset
                 then Inl (''cursor offset '' @ show_int offset @ '' is past the current result count ''
                      @ show_nat (length display) @ ''; restart without cursor'')
                 else Inr (glob_page cc signature limit maxOut (nat offset) display skipped))))"

subsection \<open>What a recursive pattern finds\<close>

text \<open>Entries of a directory have different names, and a name holds no slash.\<close>

fun fs_ok :: "fsnode \<Rightarrow> bool" and fs_ok_children :: "(gostring \<times> fsnode) list \<Rightarrow> bool" where
  "fs_ok (FDir t ch) = fs_ok_children ch"
| "fs_ok _ = True"
| "fs_ok_children [] = True"
| "fs_ok_children ((n, c) # ch) \<longleftrightarrow> CHR ''/'' \<notin> set n \<and> n \<noteq> [] \<and> n \<notin> fst ` set ch \<and> fs_ok c \<and> fs_ok_children ch"

definition found_at :: "globWalk \<Rightarrow> fspath \<Rightarrow> fsnode \<Rightarrow> fspath \<Rightarrow> bool" where
  "found_at g path node ns \<longleftrightarrow>
     (\<exists>t. fs_lookup node ns = Some (FFile t)) \<and> (\<forall>k<length ns. \<not> dir_pruned g (path @ take k ns))
     \<and> \<not> file_pruned g (path @ ns) \<and> name_matches g (last (path @ ns))"

lemma found_at_file [simp]:
  "found_at g path (FFile t) ns \<longleftrightarrow> ns = [] \<and> \<not> file_pruned g path \<and> name_matches g (last path)"
  by (cases ns) (auto simp: found_at_def)

lemma found_at_bad [simp]: "\<not> found_at g path FBad ns"
  by (cases ns) (auto simp: found_at_def)

lemma found_at_dir:
  "found_at g path (FDir t ch) ns \<longleftrightarrow>
     \<not> dir_pruned g path \<and> (\<exists>n c ns'. ns = n # ns' \<and> map_of ch n = Some c \<and> found_at g (path @ [n]) c ns')"
proof (cases ns)
  case (Cons n ns')
  have "(\<forall>k<length ns. \<not> dir_pruned g (path @ take k ns))
      \<longleftrightarrow> \<not> dir_pruned g path \<and> (\<forall>k<length ns'. \<not> dir_pruned g ((path @ [n]) @ take k ns'))"
    unfolding Cons by (auto simp: less_Suc_eq_0_disj)
  then show ?thesis using Cons by (auto simp: found_at_def split: option.splits)
qed (auto simp: found_at_def)

lemma walk_finds:
  "fs_ok node \<Longrightarrow> m \<in> set (fst (walk_node g path node)) \<longleftrightarrow> (\<exists>ns. m = path @ ns \<and> found_at g path node ns)"
  "fs_ok_children ch \<Longrightarrow> m \<in> set (fst (walk_children g path ch))
     \<longleftrightarrow> (\<exists>n c ns. m = path @ n # ns \<and> map_of ch n = Some c \<and> found_at g (path @ [n]) c ns)"
proof (induction g path node and g path ch arbitrary: m and m rule: walk_node_walk_children.induct)
  case (3 g path t ch)
  then show ?case by (auto simp: found_at_dir)
next
  case (5 g path n c ch)
  have "map_of ch n = None" using 5(3) by (simp add: map_of_eq_None_iff)
  then have "(\<exists>n' c' ns. m = path @ n' # ns \<and> map_of ((n, c) # ch) n' = Some c' \<and> found_at g (path @ [n']) c' ns)
      \<longleftrightarrow> (\<exists>ns. m = path @ n # ns \<and> found_at g (path @ [n]) c ns)
        \<or> (\<exists>n' c' ns. m = path @ n' # ns \<and> map_of ch n' = Some c' \<and> found_at g (path @ [n']) c' ns)"
    (is "?L \<longleftrightarrow> ?A \<or> ?B")
  proof (intro iffI)
    assume "?A \<or> ?B"
    then show ?L
    proof
      assume ?B
      then obtain n' c' ns where b: "m = path @ n' # ns" "map_of ch n' = Some c'" "found_at g (path @ [n']) c' ns" by blast
      then have "n' \<noteq> n" using \<open>map_of ch n = None\<close> by auto
      with b show ?L by (intro exI [of _ n'] exI [of _ c'] exI [of _ ns]) simp
    qed auto
  qed (auto split: if_splits)
  with 5 show ?case by (auto split: prod.splits)
qed auto

text \<open>
  The policy of the tool over the names on a path: \<open>pre\<close> are the names of the directories before the stars,
  \<open>ns\<close> those of a file below them. A directory below the start is skipped when it is hidden or generated;
  every directory on the way and the file itself must not be excluded by a rule.
\<close>

definition name_shown :: "globInput \<Rightarrow> gostring \<Rightarrow> bool" where
  "name_shown inp d \<longleftrightarrow> (giIncludeHidden inp \<or> \<not> prefix ''.'' d) \<and> (giIncludeIgnored inp \<or> ToLower d \<notin> set defaultIgnoredDirs)"

definition rules_admit :: "globInput \<Rightarrow> ignorePattern list \<Rightarrow> gostring list \<Rightarrow> gostring list \<Rightarrow> bool" where
  "rules_admit inp rules pre ns \<longleftrightarrow> giIncludeIgnored inp \<or>
     (\<forall>k<length ns. pre @ take k ns \<noteq> [] \<longrightarrow> \<not> ignore_Match rules (Join (pre @ take k ns) ''/'') True)
     \<and> \<not> ignore_Match rules (Join (pre @ ns) ''/'') False"

lemma join_comps_append: "''..'' \<notin> set xs \<Longrightarrow> join_comps base xs = base @ filter (\<lambda>x. x \<noteq> [] \<and> x \<noteq> ''.'') xs"
  by (induction base xs rule: join_comps.induct) auto

lemma rel_comps_append [simp]: "rel_comps base (base @ q) = q"
  by (induction base) auto

lemma rel_string_append: "q \<noteq> [] \<Longrightarrow> rel_string base (base @ q) = Join q ''/''"
  by (simp add: rel_string_def Let_def)

lemma last_take_Suc: "k < length ns \<Longrightarrow> last (p @ take (Suc k) ns) = ns ! k"
  by (simp add: take_Suc_conv_app_nth)

lemma dirs_admitted:
  assumes "g = \<lparr>gwBase = base, gwStart = base @ pre, gwHidden = giIncludeHidden inp, gwIgnored = giIncludeIgnored inp,
      gwRules = rules, gwSuffix = sfx\<rparr>"
  shows "(\<forall>k<length ns. \<not> dir_pruned g ((base @ pre) @ take k ns)) \<longleftrightarrow>
    (\<forall>k<length ns. (0 < k \<longrightarrow> name_shown inp (ns ! (k - 1)))
      \<and> (giIncludeIgnored inp \<or> (pre @ take k ns \<noteq> [] \<longrightarrow> \<not> ignore_Match rules (Join (pre @ take k ns) ''/'') True)))"
proof -
  have "\<not> dir_pruned g ((base @ pre) @ take k ns) \<longleftrightarrow> (0 < k \<longrightarrow> name_shown inp (ns ! (k - 1)))
      \<and> (giIncludeIgnored inp \<or> (pre @ take k ns \<noteq> [] \<longrightarrow> \<not> ignore_Match rules (Join (pre @ take k ns) ''/'') True))"
    if "k < length ns" for k
  proof (cases k)
    case 0
    then show ?thesis using rel_string_append [of pre base] by (auto simp: dir_pruned_def assms)
  next
    case (Suc j)
    then have ne: "take k ns \<noteq> []" "last ((base @ pre) @ take k ns) = ns ! j"
      using that last_take_Suc [of j ns "base @ pre"] by auto
    then have "rel_string base ((base @ pre) @ take k ns) = Join (pre @ take k ns) ''/''"
      using rel_string_append [of "pre @ take k ns" base] by simp
    with ne Suc show ?thesis by (auto simp: dir_pruned_def assms name_shown_def IsDefaultIgnoredDir_def)
  qed
  then show ?thesis by blast
qed

lemma dirs_shown: "(\<forall>k<length ns. 0 < k \<longrightarrow> P (ns ! (k - 1))) \<longleftrightarrow> (\<forall>d\<in>set (butlast ns). P d)"
proof (intro iffI ballI allI impI)
  fix d assume a: "\<forall>k<length ns. 0 < k \<longrightarrow> P (ns ! (k - 1))" "d \<in> set (butlast ns)"
  then obtain j where "j < length ns - 1" "d = ns ! j" by (auto simp: in_set_conv_nth nth_butlast)
  then show "P d" using a(1) [rule_format, of "Suc j"] by simp
next
  fix k assume a: "\<forall>d\<in>set (butlast ns). P d" "k < length ns" "0 < k"
  then have "butlast ns ! (k - 1) = ns ! (k - 1)" "k - 1 < length (butlast ns)" by (auto simp: nth_butlast)
  then show "P (ns ! (k - 1))" using a(1) nth_mem by metis
qed

text \<open>C14: a pattern with \<open>**\<close> and an existing directory before it finds exactly the files below that
  directory such that no directory on the way to the file has a hidden or a generated name and no rule of
  the ignore files excludes the file or a directory on the way (unless these are asked for), and the
  file's own name matches what follows the stars. A hidden name of the file itself does not matter,
  against the description of the tool.\<close>

theorem glob_recursive_matches:
  assumes "Index (giPattern inp) ''**'' = Some i" "''..'' \<notin> set (comps (take i (giPattern inp)))"
    and "pre = filter (\<lambda>x. x \<noteq> [] \<and> x \<noteq> ''.'') (comps (take i (giPattern inp)))"
    and "sfx = TrimLeft (drop (i + 2) (giPattern inp)) [CHR ''/'', CHR 0x5C]"
    and "fs_lookup root base = Some (FDir t0 ch0)" "fs_lookup root (base @ pre) = Some node" "fs_ok node"
  shows "\<exists>ms skipped. findMatches root base rules inp = Inr (ms, skipped)
    \<and> set ms = {base @ pre @ ns | ns. (\<exists>t. fs_lookup node ns = Some (FFile t))
         \<and> (\<forall>d\<in>set (butlast ns). name_shown inp d) \<and> rules_admit inp rules pre ns
         \<and> (sfx = [] \<or> filepath_Match sfx (last (pre @ ns)) = Some True)}"
proof -
  let ?g = "\<lparr>gwBase = base, gwStart = base @ pre, gwHidden = giIncludeHidden inp, gwIgnored = giIncludeIgnored inp,
      gwRules = rules, gwSuffix = sfx\<rparr>"
  obtain ms skipped where w: "walk_node ?g (base @ pre) node = (ms, skipped)" by fastforce
  have start: "join_comps base (comps (take i (giPattern inp))) = base @ pre"
    using join_comps_append [OF assms(2)] assms(3) by simp
  have "findMatches root base rules inp = Inr (walk_node ?g (base @ pre) node)"
    using assms(1,4,6) start by (simp add: findMatches_def Let_def)
  moreover have "set ms = {(base @ pre) @ ns | ns. found_at ?g (base @ pre) node ns}"
    using walk_finds(1) [OF assms(7), of _ ?g "base @ pre"] w by auto
  moreover have "found_at ?g (base @ pre) node ns \<longleftrightarrow> (\<exists>t. fs_lookup node ns = Some (FFile t))
         \<and> (\<forall>d\<in>set (butlast ns). name_shown inp d) \<and> rules_admit inp rules pre ns
         \<and> (sfx = [] \<or> filepath_Match sfx (last (pre @ ns)) = Some True)" for ns
  proof (cases "\<exists>t. fs_lookup node ns = Some (FFile t)")
    case True
    have ne: "pre @ ns \<noteq> []" using True assms(5,6) by auto
    then have l: "last ((base @ pre) @ ns) = last (pre @ ns)" by (simp only: append_assoc last_append if_False)
    have f: "\<not> file_pruned ?g ((base @ pre) @ ns) \<longleftrightarrow> giIncludeIgnored inp \<or> \<not> ignore_Match rules (Join (pre @ ns) ''/'') False"
      using rel_string_append [OF ne, of base] by (simp add: file_pruned_def)
    have "(\<forall>k<length ns. \<not> dir_pruned ?g ((base @ pre) @ take k ns)) \<and> \<not> file_pruned ?g ((base @ pre) @ ns)
        \<longleftrightarrow> (\<forall>d\<in>set (butlast ns). name_shown inp d) \<and> rules_admit inp rules pre ns"
      unfolding dirs_admitted [OF refl] f dirs_shown [symmetric, of ns "name_shown inp"] rules_admit_def by blast
    then show ?thesis using True l by (auto simp: found_at_def name_matches_def)
  qed (simp add: found_at_def)
  ultimately show ?thesis using w by auto
qed

definition demo_tree :: fsnode where
  "demo_tree = FDir 0 [(''p'', FDir 0 [(''a.go'', FFile (Some 5)), (''sub'', FDir 0 [(''b.go'', FFile (Some 7))])])]"

definition demo_glob :: globInput where
  "demo_glob = \<lparr>giPattern = ''**/*.go'', giRelative = True, giLimit = 1, giMaxOutputChars = 0, giCursor = [],
     giIncludeHidden = True, giIncludeIgnored = True\<rparr>"

lemma demo_index: "Index ''**/*.go'' ''**'' = Some 0"
  by simp

lemma demo_start: "join_comps [''p''] (comps (take 0 (giPattern demo_glob))) = [''p'']"
  by simp

text \<open>Hidden and generated directories are skipped; a hidden file is found.\<close>

definition policy_tree :: fsnode where
  "policy_tree = FDir 0 [(''p'', FDir 0 [(''.env'', FFile (Some 1)), (''.x'', FDir 0 [(''a.go'', FFile (Some 2))]),
     (''sub'', FDir 0 [(''b.go'', FFile (Some 7))]), (''vendor'', FDir 0 [(''c.go'', FFile (Some 3))])])]"

definition policy_glob :: globInput where
  "policy_glob = \<lparr>giPattern = ''**'', giRelative = True, giLimit = 1, giMaxOutputChars = 0, giCursor = [],
     giIncludeHidden = False, giIncludeIgnored = False\<rparr>"

lemma ToLower_vendor: "ToLower ''vendor'' = ''vendor''" "ToLower ''sub'' = ''sub''"
  by code_simp+

theorem glob_recursive_matches_witness:
  "\<exists>ms skipped. findMatches policy_tree [''p''] [] policy_glob = Inr (ms, skipped)
    \<and> [''p'', ''.env''] \<in> set ms \<and> [''p'', ''sub'', ''b.go''] \<in> set ms
    \<and> [''p'', ''.x'', ''a.go''] \<notin> set ms \<and> [''p'', ''vendor'', ''c.go''] \<notin> set ms"
proof -
  let ?node = "FDir 0 [(''.env'', FFile (Some 1)), (''.x'', FDir 0 [(''a.go'', FFile (Some 2))]),
     (''sub'', FDir 0 [(''b.go'', FFile (Some 7))]), (''vendor'', FDir 0 [(''c.go'', FFile (Some 3))])]"
  have "\<exists>ms skipped. findMatches policy_tree [''p''] [] policy_glob = Inr (ms, skipped)
    \<and> set ms = {[''p''] @ [] @ ns | ns. (\<exists>t. fs_lookup ?node ns = Some (FFile t))
         \<and> (\<forall>d\<in>set (butlast ns). name_shown policy_glob d) \<and> rules_admit policy_glob [] [] ns
         \<and> (([] :: gostring) = [] \<or> filepath_Match [] (last ([] @ ns)) = Some True)}"
    by (rule glob_recursive_matches [where i = 0]) (simp_all add: policy_glob_def policy_tree_def TrimLeft_def)
  moreover have "rules_admit policy_glob [] [] ns" for ns by (simp add: rules_admit_def ignore_Match_def)
  moreover have "name_shown policy_glob ''sub''" "\<not> name_shown policy_glob ''.x''" "\<not> name_shown policy_glob ''vendor''"
    by (simp_all add: name_shown_def policy_glob_def defaultIgnoredDirs_def ToLower_vendor)
  ultimately show ?thesis by auto
qed

subsection \<open>Pages\<close>

lemma insert_file_set: "set (insert_file f xs) = insert f (set xs)" "length (insert_file f xs) = Suc (length xs)"
  by (induction xs) auto

lemma sort_files_set: "set (sort_files fs) = set fs" "length (sort_files fs) = length fs"
  by (induction fs) (auto simp: sort_files_def insert_file_set)

lemma page_loop_prefix: "page_loop st budget ps = (st', rs) \<Longrightarrow> prefix rs ps"
  by (induction ps arbitrary: st st' rs) (auto split: prod.splits bool.splits)

lemma page_loop_progress:
  assumes "page_loop ([], 0) budget (p # ps) = (st, rs)" "int (rune_count (p @ [LF])) \<le> budget"
  shows "rs \<noteq> []"
  using assms by (auto simp: AppendWithinRuneBudget_def Let_def split: prod.splits if_splits)

lemma page_loop_stuck:
  assumes "0 < budget" "budget < int (rune_count (p @ [LF]))"
  shows "snd (page_loop ([], 0) budget (p # ps)) = []"
  using assms by (simp add: AppendWithinRuneBudget_def Let_def)

definition query_ok :: "fsnode \<Rightarrow> fspath \<Rightarrow> globInput \<Rightarrow> bool" where
  "query_ok root dir inp \<longleftrightarrow> giPattern inp \<noteq> [] \<and> (case fs_lookup root dir of None \<Rightarrow> False | Some n \<Rightarrow> node_is_dir n)
     \<and> giLimit inp \<le> 5000 \<and> giMaxOutputChars inp \<le> int HardOutputChars"

definition page_limit :: "globInput \<Rightarrow> int" where
  "page_limit inp = (if giLimit inp \<le> 0 then 200 else giLimit inp)"

definition page_chars :: "globInput \<Rightarrow> int" where
  "page_chars inp = (if giMaxOutputChars inp \<le> 0 then int DefaultOutputChars else giMaxOutputChars inp)"

text \<open>What the base64 and JSON codec and the hash are relied on for.\<close>

definition codec_ok :: "cursorCodec \<Rightarrow> bool" where
  "codec_ok cc \<longleftrightarrow> (\<forall>k s. let c = \<lparr>gcOffset = int k, gcSignature = ccHash cc s\<rparr> in
     ccHash cc s \<noteq> [] \<and> ccEncode cc c \<noteq> [] \<and> ccDecode cc (ccEncode cc c) = Inr c)"

lemma handle_at_offset:
  assumes "query_ok root dir inp" "glob_listing root dir rules inp = Inr (display, skipped)"
    and "start_offset cc (globCursorSignature cc dir inp) (giCursor inp) = Inr (int k)" "k \<le> length display"
  shows "glob_Handle cc root dir rules inp
    = Inr (glob_page cc (globCursorSignature cc dir inp) (page_limit inp) (page_chars inp) k display skipped)"
proof -
  have "\<not> 5000 < page_limit inp" "\<not> int HardOutputChars < page_chars inp"
    using assms(1) by (simp_all add: query_ok_def page_limit_def page_chars_def HardOutputChars_def DefaultOutputChars_def)
  then show ?thesis
    using assms by (auto simp: glob_Handle_def query_ok_def page_limit_def page_chars_def Let_def)
qed

lemma glob_page_fields:
  assumes "page_loop ([], 0) (body_budget maxOut) (take (nat limit) (drop k display)) = (st, rs)"
  shows "goFiles (glob_page cc sig limit maxOut k display skipped) = rs"
    "goHasMore (glob_page cc sig limit maxOut k display skipped) \<longleftrightarrow> k + length rs < length display"
    "k + length rs < length display \<Longrightarrow> goNextCursor (glob_page cc sig limit maxOut k display skipped)
       = ccEncode cc \<lparr>gcOffset = int (k + length rs), gcSignature = sig\<rparr>"
  using assms by (simp_all add: glob_page_def Let_def split: prod.splits)

lemma next_offset:
  assumes "codec_ok cc"
  shows "start_offset cc (globCursorSignature cc dir inp) (ccEncode cc \<lparr>gcOffset = int k, gcSignature = globCursorSignature cc dir inp\<rparr>)
    = Inr (int k)"
  using assms by (simp add: start_offset_def codec_ok_def decodeGlobCursor_def globCursorSignature_def Let_def)

lemma listing_cursor [simp]: "glob_listing root dir rules (inp\<lparr>giCursor := c\<rparr>) = glob_listing root dir rules inp"
proof -
  have "filter_raw (inp\<lparr>giCursor := c\<rparr>) dir rules root ms = filter_raw inp dir rules root ms" for ms
    by (induction ms) (auto simp: Let_def split: prod.splits option.splits)
  then have "findMatches root dir rules (inp\<lparr>giCursor := c\<rparr>) = findMatches root dir rules inp"
    by (cases "Index (giPattern inp) ''**''") (simp_all add: findMatches_def Let_def)
  then show ?thesis
    by (cases "findMatches root dir rules inp") (simp_all add: glob_listing_def split: prod.splits)
qed

text \<open>A client that asks for the next page as long as there is one, for at most \<open>n\<close> pages.\<close>

fun follow :: "cursorCodec \<Rightarrow> fsnode \<Rightarrow> fspath \<Rightarrow> ignorePattern list \<Rightarrow> nat \<Rightarrow> globInput \<Rightarrow> gostring list option" where
  "follow cc root dir rules 0 inp = None"
| "follow cc root dir rules (Suc n) inp =
     (case glob_Handle cc root dir rules inp of
        Inl _ \<Rightarrow> None
      | Inr out \<Rightarrow>
          if goHasMore out
          then map_option (\<lambda>fs. goFiles out @ fs) (follow cc root dir rules n (inp\<lparr>giCursor := goNextCursor out\<rparr>))
          else Some (goFiles out))"

lemma follow_from:
  assumes "codec_ok cc" "query_ok root dir inp" "glob_listing root dir rules inp = Inr (display, skipped)"
    and fits: "\<forall>p\<in>set display. int (rune_count (p @ [LF])) \<le> body_budget (page_chars inp)"
    and "start_offset cc (globCursorSignature cc dir inp) (giCursor inp) = Inr (int k)" "k \<le> length display" "length display - k < n"
  shows "follow cc root dir rules n inp = Some (drop k display)"
  using assms(2,3,4,5,6,7)
proof (induction n arbitrary: k inp)
  case (Suc n)
  let ?sig = "globCursorSignature cc dir inp" and ?page = "take (nat (page_limit inp)) (drop k display)"
  let ?out = "glob_page cc ?sig (page_limit inp) (page_chars inp) k display skipped"
  obtain st rs where p: "page_loop ([], 0) (body_budget (page_chars inp)) ?page = (st, rs)" by fastforce
  note f = glob_page_fields [OF p, of cc ?sig skipped]
  have h: "glob_Handle cc root dir rules inp = Inr ?out" by (rule handle_at_offset) (use Suc.prems in simp_all)
  have pre: "prefix rs (drop k display)" using page_loop_prefix [OF p] prefix_order.trans take_is_prefix by blast
  then obtain rest where rest: "drop k display = rs @ rest" by (auto simp: prefix_def)
  have rest': "rest = drop (k + length rs) display" using rest by (metis add.commute append_eq_conv_conj drop_drop)
  show ?case
  proof (cases "k + length rs < length display")
    case False
    then have "rest = []" using rest' by simp
    then show ?thesis using False h f rest by simp
  next
    case True
    then obtain q l where dr: "drop k display = q # l" by (cases "drop k display") auto
    have "nat (page_limit inp) \<noteq> 0" by (simp add: page_limit_def)
    then obtain qs where q: "?page = q # qs" using dr by (cases "nat (page_limit inp)") auto
    have "q \<in> set display" using dr in_set_dropD [of q k display] by simp
    note q = q this
    have "rs \<noteq> []" using page_loop_progress [of "body_budget (page_chars inp)" q qs] p q Suc.prems(3) by auto
    then have n: "length display - (k + length rs) < n" using Suc.prems(6) True by (cases rs) auto
    let ?inp = "inp\<lparr>giCursor := goNextCursor ?out\<rparr>"
    have same: "query_ok root dir ?inp" "page_chars ?inp = page_chars inp" "globCursorSignature cc dir ?inp = ?sig"
      using Suc.prems(1) by (simp_all add: query_ok_def page_chars_def globCursorSignature_def)
    have "follow cc root dir rules n ?inp = Some (drop (k + length rs) display)"
      by (rule Suc.IH) (use Suc.prems same n True f(3) next_offset [OF assms(1), of dir inp "k + length rs"] in simp_all)
    then show ?thesis using True h f rest rest' by simp
  qed
qed simp

text \<open>C13: when every path fits the page, a client that follows the cursors of a query gets, after at most
  as many pages as there are matches and one more, exactly the sorted list of all matches, each once
  and none left out.\<close>

theorem glob_pages_complete:
  assumes "codec_ok cc" "query_ok root dir inp" "giCursor inp = []"
    and "glob_listing root dir rules inp = Inr (display, skipped)"
    and "\<forall>p\<in>set display. int (rune_count (p @ [LF])) \<le> body_budget (page_chars inp)"
  shows "follow cc root dir rules (length display + 1) inp = Some display"
proof -
  have "start_offset cc (globCursorSignature cc dir inp) (giCursor inp) = Inr (int 0)"
    using assms(3) by (simp add: start_offset_def)
  from follow_from [OF assms(1,2,4,5) this, of "length display + 1"] show ?thesis by simp
qed

text \<open>A codec for the examples: the offset in unary before the signature.\<close>

definition demo_codec :: cursorCodec where
  "demo_codec = \<lparr>ccHash = (\<lambda>s. ''k'' @ s), ccEncode = (\<lambda>c. replicate (nat (gcOffset c)) (CHR ''x'') @ '':'' @ gcSignature c),
     ccDecode = (\<lambda>v. Inr \<lparr>gcOffset = int (length (takeWhile (\<lambda>x. x = CHR ''x'') v)),
        gcSignature = tl (dropWhile (\<lambda>x. x = CHR ''x'') v)\<rparr>)\<rparr>"

lemma demo_codec_ok: "codec_ok demo_codec"
proof -
  have "takeWhile (\<lambda>x. x = CHR ''x'') (replicate k (CHR ''x'') @ CHR '':'' # t) = replicate k (CHR ''x'')"
    "dropWhile (\<lambda>x. x = CHR ''x'') (replicate k (CHR ''x'') @ CHR '':'' # t) = CHR '':'' # t" for k t
    by (induction k) simp_all
  then show ?thesis by (simp add: codec_ok_def demo_codec_def Let_def)
qed

lemma demo_names: "filepath_Match ''*.go'' ''a.go'' = Some True" "filepath_Match ''*.go'' ''b.go'' = Some True"
  using filepath_Match_star [of "''.go''" "''a.go''"] filepath_Match_star [of "''.go''" "''b.go''"]
  by (simp_all add: plain_char_def)

lemmas demo_eval = glob_listing_def findMatches_def demo_glob_def demo_tree_def TrimLeft_def dir_pruned_def file_pruned_def
  name_matches_def demo_names timed_def map_filter_simps node_time_def sort_files_def file_before_def rel_string_def

lemma demo_listing: "glob_listing demo_tree [''p''] [] demo_glob = Inr ([''sub/b.go'', ''a.go''], 0)"
  by (simp add: demo_eval)

theorem glob_pages_complete_witness:
  "follow demo_codec demo_tree [''p''] [] 3 demo_glob = Some [''sub/b.go'', ''a.go'']"
proof -
  have "query_ok demo_tree [''p''] demo_glob"
    by (simp add: query_ok_def demo_glob_def demo_tree_def node_is_dir_def)
  moreover have "giCursor demo_glob = []" by (simp add: demo_glob_def)
  moreover have "rune_count (''sub/b.go'' @ [LF]) = 9" "rune_count (''a.go'' @ [LF]) = 5"
    by (subst rune_count_ascii; simp add: is_ascii_def)+
  then have "\<forall>p\<in>set [''sub/b.go'', ''a.go'']. int (rune_count (p @ [LF])) \<le> body_budget (page_chars demo_glob)"
    by (simp add: body_budget_def page_chars_def demo_glob_def DefaultOutputChars_def)
  ultimately have "follow demo_codec demo_tree [''p''] [] (length [''sub/b.go'', ''a.go''] + 1) demo_glob = Some [''sub/b.go'', ''a.go'']"
    by (intro glob_pages_complete [OF demo_codec_ok _ _ demo_listing])
  then show ?thesis by (simp add: eval_nat_numeral)
qed

text \<open>a path that does not fit the page stops the paging: the page is empty, more is announced, and the
  cursor leads back to the same place, so that a client never gets past it.\<close>

theorem glob_pages_stuck:
  assumes "codec_ok cc" "query_ok root dir inp" "giCursor inp = []"
    and "glob_listing root dir rules inp = Inr (p # ps, skipped)"
    and "body_budget (page_chars inp) < int (rune_count (p @ [LF]))"
  shows "follow cc root dir rules n inp = None"
proof -
  have b: "0 < body_budget (page_chars inp)"
    by (simp add: body_budget_def page_chars_def DefaultOutputChars_def)
  have "follow cc root dir rules n i = None"
    if "query_ok root dir i" "glob_listing root dir rules i = Inr (p # ps, skipped)" "page_chars i = page_chars inp"
      "start_offset cc (globCursorSignature cc dir i) (giCursor i) = Inr (int 0)" for i
    using that
  proof (induction n arbitrary: i)
    case (Suc n)
    let ?sig = "globCursorSignature cc dir i"
    obtain st rs where pl: "page_loop ([], 0) (body_budget (page_chars i)) (take (nat (page_limit i)) (drop 0 (p # ps))) = (st, rs)"
      by fastforce
    have "nat (page_limit i) \<noteq> 0" by (simp add: page_limit_def)
    then obtain l where "nat (page_limit i) = Suc l" by (cases "nat (page_limit i)") auto
    then have "rs = []" using page_loop_stuck [OF b assms(5), of "take l ps"] pl Suc.prems(3) by (simp del: page_loop.simps)
    note f = glob_page_fields [OF pl, of cc ?sig skipped, unfolded this]
    have h: "glob_Handle cc root dir rules i = Inr (glob_page cc ?sig (page_limit i) (page_chars i) 0 (p # ps) skipped)"
      by (rule handle_at_offset) (use Suc.prems in simp_all)
    let ?i = "i\<lparr>giCursor := goNextCursor (glob_page cc ?sig (page_limit i) (page_chars i) 0 (p # ps) skipped)\<rparr>"
    have "follow cc root dir rules n ?i = None"
    proof (rule Suc.IH)
      show "query_ok root dir ?i" using Suc.prems(1) by (simp add: query_ok_def)
      have "page_chars ?i = page_chars i" by (simp add: page_chars_def)
      then show "page_chars ?i = page_chars inp" using Suc.prems(3) by simp
      show "start_offset cc (globCursorSignature cc dir ?i) (giCursor ?i) = Inr (int 0)"
        using f(3) next_offset [OF assms(1), of dir i 0] by (simp add: globCursorSignature_def)
    qed (use Suc.prems in simp)
    then show ?case using h f by simp
  qed simp
  from this [OF assms(2,4) refl] show ?thesis using assms(3) by (simp add: start_offset_def)
qed

theorem glob_pages_stuck_witness:
  "follow demo_codec demo_tree [''p''] [] 1000 (demo_glob\<lparr>giMaxOutputChars := 8\<rparr>) = None"
proof (rule glob_pages_stuck [OF demo_codec_ok])
  show "query_ok demo_tree [''p''] (demo_glob\<lparr>giMaxOutputChars := 8\<rparr>)"
    by (simp add: query_ok_def demo_glob_def demo_tree_def node_is_dir_def HardOutputChars_def)
  show "giCursor (demo_glob\<lparr>giMaxOutputChars := 8\<rparr>) = []" by (simp add: demo_glob_def)
  show "glob_listing demo_tree [''p''] [] (demo_glob\<lparr>giMaxOutputChars := 8\<rparr>) = Inr (''sub/b.go'' # [''a.go''], 0)"
    by (simp add: demo_eval)
  have "rune_count (''sub/b.go'' @ [LF]) = 9" by (subst rune_count_ascii) (simp_all add: is_ascii_def)
  then show "body_budget (page_chars (demo_glob\<lparr>giMaxOutputChars := 8\<rparr>)) < int (rune_count (''sub/b.go'' @ [LF]))"
    by (simp add: body_budget_def page_chars_def demo_glob_def)
qed

subsection \<open>Patterns that miss\<close>

text \<open>a pattern with a directory after the stars finds nothing: what follows the stars is compared with
  the name of a file alone, which has no slash.\<close>

theorem glob_directory_after_stars:
  assumes "fs_ok node" "path \<noteq> []" "CHR ''/'' \<notin> set (last path)"
    and "list_all plain_char (gwSuffix g)" "CHR ''/'' \<in> set (gwSuffix g)"
  shows "fst (walk_node g path node) = []"
proof -
  have names: "CHR ''/'' \<notin> set (last (q @ ns))"
    if "fs_ok n" "fs_lookup n ns = Some x" "CHR ''/'' \<notin> set (last q)" for n ns q x
    using that
  proof (induction n ns arbitrary: q rule: fs_lookup.induct)
    case (2 t ch m ns)
    obtain c where c: "map_of ch m = Some c" "fs_lookup c ns = Some x" using 2(3) by (auto split: option.splits)
    have "fs_ok_children ch \<Longrightarrow> map_of ch m = Some c \<Longrightarrow> fs_ok c \<and> CHR ''/'' \<notin> set m"
      by (induction ch) (auto split: if_splits)
    with 2(2) c(1) have "fs_ok c" "CHR ''/'' \<notin> set m" by auto
    from 2(1) [OF c(1) this(1) c(2), of "q @ [m]"] this show ?case by simp
  qed simp_all
  have "\<not> name_matches g (last (path @ ns))" if "fs_lookup node ns = Some x" for ns x
    using names [OF assms(1) that assms(3)] filepath_Match_plain [OF assms(4)] assms(5)
    by (auto simp: name_matches_def)
  then have "\<nexists>m. m \<in> set (fst (walk_node g path node))"
    using walk_finds(1) [OF assms(1), of _ g path] by (auto simp: found_at_def)
  then show ?thesis by (cases "fst (walk_node g path node)") auto
qed

theorem glob_directory_after_stars_witness:
  "fst (walk_node \<lparr>gwBase = [''p''], gwStart = [''p''], gwHidden = False, gwIgnored = True, gwRules = [], gwSuffix = ''sub/b.go''\<rparr>
     [''p''] (FDir 0 [(''sub'', FDir 0 [(''b.go'', FFile (Some 7))])])) = []"
  by (rule glob_directory_after_stars) (simp_all add: plain_char_def)

text \<open>a pattern whose directory does not exist is searched from the base directory instead.\<close>

theorem glob_missing_directory_widens:
  assumes "fs_lookup root (join_comps base (comps pre)) = None" "CHR ''*'' \<notin> set pre"
    and base: "fs_lookup root base \<noteq> None"
  shows "findMatches root base rules (inp\<lparr>giPattern := pre @ ''**'' @ sfx\<rparr>) = findMatches root base rules (inp\<lparr>giPattern := ''**'' @ sfx\<rparr>)"
proof -
  have i: "Index (pre @ ''**'' @ sfx) ''**'' = Some (length pre)" using assms(2) by (induction pre) (auto simp: prefix_Cons)
  show ?thesis using assms(1) base i by (auto simp: findMatches_def Let_def)
qed

theorem glob_missing_directory_widens_witness:
  "findMatches demo_tree [''p''] [] (demo_glob\<lparr>giPattern := ''no/'' @ ''**'' @ ''/*.go''\<rparr>)
   = findMatches demo_tree [''p''] [] (demo_glob\<lparr>giPattern := ''**'' @ ''/*.go''\<rparr>)"
  by (rule glob_missing_directory_widens) (simp_all add: demo_tree_def)

end
