(* ===== verification/Pe_Image.thy ===== *)
theory Pe_Image
  imports Go_Bytes
begin

unbundle bit_operations_syntax

text \<open>
  Addresses and tables inside a PE image (tools/analyze): the translation between virtual addresses
  and file offsets of pe.go, the cached reads of rtti.go with the pointer walk of followptr.go, the
  exception table lookups of pdata.go, the switch tables of jumptable.go and the Rich header of
  rich.go. The headers as Go's \<open>debug/pe\<close> parses them, and the data it reads for each section,
  are the record \<open>peFile\<close>; a disassembled instruction is the argument of the jump table resolver.
  The theorems show that the section cache is transparent when section names are distinct, that the
  binary searches find the entry that contains an address, and that tables written by a compiler are
  read back.
\<close>

subsection \<open>Headers\<close>

datatype optHeader =
    OptionalHeader32 uint32 "(uint32 \<times> uint32) list"
  | OptionalHeader64 uint64 "(uint32 \<times> uint32) list"
  | NoOptionalHeader

record peSection =
  sec_Name :: gostring
  sec_VirtualAddress :: uint32
  sec_VirtualSize :: uint32
  sec_Offset :: uint32
  sec_Size :: uint32
  sec_Characteristics :: uint32
  sec_Data :: "bytes option"

record peFile =
  pe_Machine :: uint16
  pe_OptionalHeader :: optHeader
  pe_Sections :: "peSection list"

datatype peError =
    EmptyAddress
  | BadAddress num_error
  | InvalidVA gostring
  | VARequired
  | NotPE
  | BelowImageBase uint64 uint64
  | TooFarFromBase uint64 uint64
  | RvaNotFound uint32
  | CannotReadSection
  | SectionBoundary nat uint32 int
  | OffsetNotInSection uint32

definition peImageBase :: "peFile \<Rightarrow> uint64" where
  "peImageBase f =
     (case pe_OptionalHeader f of
        OptionalHeader32 b _ \<Rightarrow> ucast b | OptionalHeader64 b _ \<Rightarrow> b | NoOptionalHeader \<Rightarrow> 0)"

text \<open>The two range tests; both ends are sums of 32-bit fields and wrap.\<close>

definition in_rva :: "uint32 \<Rightarrow> peSection \<Rightarrow> bool" where
  "in_rva rva s \<longleftrightarrow> sec_VirtualAddress s \<le> rva \<and> rva < sec_VirtualAddress s + sec_VirtualSize s"

definition in_raw :: "uint32 \<Rightarrow> peSection \<Rightarrow> bool" where
  "in_raw off s \<longleftrightarrow> sec_Offset s \<le> off \<and> off < sec_Offset s + sec_Size s"

definition rvaToFileOffset :: "peFile \<Rightarrow> uint32 \<Rightarrow> peError + uint32 \<times> gostring" where
  "rvaToFileOffset f rva =
     (case find (in_rva rva) (pe_Sections f) of
        Some s \<Rightarrow> Inr (rva - sec_VirtualAddress s + sec_Offset s, sec_Name s)
      | None \<Rightarrow> Inl (RvaNotFound rva))"

definition fileOffsetToRVA :: "peFile \<Rightarrow> uint32 \<Rightarrow> uint32 option" where
  "fileOffsetToRVA f off =
     map_option (\<lambda>s. sec_VirtualAddress s + (off - sec_Offset s)) (find (in_raw off) (pe_Sections f))"

definition sectionNameForRVA :: "peFile \<Rightarrow> uint32 \<Rightarrow> gostring" where
  "sectionNameForRVA f rva =
     (case find (in_rva rva) (pe_Sections f) of Some s \<Rightarrow> sec_Name s | None \<Rightarrow> [])"

definition parseHexAddr :: "gostring \<Rightarrow> peError + uint64" where
  "parseHexAddr s =
     (let s = TrimPrefix (TrimPrefix (TrimSpace s) ''0x'') ''0X'' in
      if s = [] then Inl EmptyAddress
      else case ParseUint s 16 64 of Inl e \<Rightarrow> Inl (BadAddress e) | Inr n \<Rightarrow> Inr (word_of_nat n))"

record vaResolved =
  vr_FileOffset :: uint32
  vr_DisplayBase :: uint64
  vr_RVA :: uint32
  vr_ImageBase :: uint64

definition resolveVA :: "peFile option \<Rightarrow> gostring \<Rightarrow> peError + vaResolved" where
  "resolveVA opened vaStr =
     (case parseHexAddr vaStr of Inl _ \<Rightarrow> Inl (InvalidVA vaStr)
      | Inr va \<Rightarrow>
          (case opened of None \<Rightarrow> Inl NotPE
           | Some f \<Rightarrow>
               let imageBase = peImageBase f in
               if va < imageBase then Inl (BelowImageBase va imageBase)
               else if 0xFFFFFFFF < va - imageBase then Inl (TooFarFromBase va imageBase)
               else let rva = ucast (va - imageBase) in
                 (case rvaToFileOffset f rva of Inl e \<Rightarrow> Inl e
                  | Inr (fileOff, _) \<Rightarrow>
                      Inr \<lparr>vr_FileOffset = fileOff, vr_DisplayBase = va - ucast fileOff,
                           vr_RVA = rva, vr_ImageBase = imageBase\<rparr>)))"

subsection \<open>Cached reads\<close>

text \<open>A cache is a nil map or a map from section names to data.\<close>

type_synonym secCache = "(gostring \<Rightarrow> bytes option) option"

definition cachedSectionData :: "peSection \<Rightarrow> secCache \<Rightarrow> bytes option \<times> secCache" where
  "cachedSectionData s cache =
     (case Option.bind cache (\<lambda>c. c (sec_Name s)) of
        Some d \<Rightarrow> (Some d, cache)
      | None \<Rightarrow>
          (case sec_Data s of None \<Rightarrow> (None, cache)
           | Some d \<Rightarrow> (Some d, map_option (\<lambda>c. c(sec_Name s \<mapsto> d)) cache)))"

definition cachedReadBytes ::
    "peFile \<Rightarrow> uint64 \<Rightarrow> uint64 \<Rightarrow> nat \<Rightarrow> secCache \<Rightarrow> (peError + bytes) \<times> secCache" where
  "cachedReadBytes f imageBase va n cache =
     (if va < imageBase then (Inl (BelowImageBase va imageBase), cache)
      else if 0xFFFFFFFF < va - imageBase then (Inl (TooFarFromBase va imageBase), cache)
      else case rvaToFileOffset f (ucast (va - imageBase)) of
          Inl e \<Rightarrow> (Inl e, cache)
        | Inr (fileOff, _) \<Rightarrow>
            (case find (in_raw fileOff) (pe_Sections f) of
               None \<Rightarrow> (Inl (OffsetNotInSection fileOff), cache)
             | Some s \<Rightarrow>
                 (case cachedSectionData s cache of
                    (None, cache') \<Rightarrow> (Inl CannotReadSection, cache')
                  | (Some d, cache') \<Rightarrow>
                      let off = unat (fileOff - sec_Offset s) in
                      (if length d < off + n
                       then (Inl (SectionBoundary n fileOff (int (length d) - int off)), cache')
                       else (Inr (slice d off (off + n)), cache')))))"

definition cachedReadValue ::
    "peFile \<Rightarrow> uint64 \<Rightarrow> uint64 \<Rightarrow> nat \<Rightarrow> secCache \<Rightarrow> (peError + uint64) \<times> secCache" where
  "cachedReadValue f imageBase va ptrSize cache =
     (case cachedReadBytes f imageBase va ptrSize cache of
        (Inl e, cache') \<Rightarrow> (Inl e, cache')
      | (Inr d, cache') \<Rightarrow>
          (Inr (if ptrSize = 8 then Uint64 LittleEndian d else ucast (Uint32 LittleEndian d)), cache'))"

definition readPEBytesAtVA :: "peFile \<Rightarrow> uint64 \<Rightarrow> uint64 \<Rightarrow> nat \<Rightarrow> peError + bytes" where
  "readPEBytesAtVA f imageBase va n = fst (cachedReadBytes f imageBase va n None)"

subsection \<open>Following pointers\<close>

text \<open>The lines of the report, one constructor per format of the loop.\<close>

datatype chainLine =
    Hop nat uint64 gostring uint64 gostring
  | CircularLine nat uint64
  | ReadFailedLine nat uint64 peError
  | NullLine
  | BelowBaseLine uint64 uint64
  | RvaTooFarLine uint64
  | NotMappedLine uint64

definition annotateVA :: "peFile \<Rightarrow> uint64 \<Rightarrow> uint64 \<Rightarrow> (uint64 \<Rightarrow> gostring option) \<Rightarrow> gostring" where
  "annotateVA f imageBase va symbols =
     (if va = 0 then []
      else case symbols va of Some name \<Rightarrow> '' ('' @ name @ '')''
        | None \<Rightarrow>
            if imageBase \<le> va \<and> va - imageBase \<le> 0xFFFFFFFF \<and> sectionNameForRVA f (ucast (va - imageBase)) \<noteq> []
            then '' ('' @ sectionNameForRVA f (ucast (va - imageBase)) @ '')'' else [])"

text \<open>\<open>left\<close> is the number of iterations the loop has left, \<open>i\<close> its counter.\<close>

fun follow_loop ::
    "peFile \<Rightarrow> uint64 \<Rightarrow> nat \<Rightarrow> (uint64 \<Rightarrow> gostring option) \<Rightarrow> nat \<Rightarrow> nat \<Rightarrow> uint64 \<Rightarrow> uint64 list \<Rightarrow> secCache
      \<Rightarrow> chainLine list" where
  "follow_loop f base ptrSize symbols 0 i cur visited cache = []"
| "follow_loop f base ptrSize symbols (Suc left) i cur visited cache =
     (if cur \<in> set visited then [CircularLine i cur]
      else case cachedReadValue f base cur ptrSize cache of
          (Inl e, _) \<Rightarrow> [ReadFailedLine i cur e]
        | (Inr val, cache') \<Rightarrow>
            Hop i cur (annotateVA f base cur symbols) val (annotateVA f base val symbols) #
            (if val = 0 then [NullLine]
             else if val < base then [BelowBaseLine val base]
             else if 0xFFFFFFFF < val - base then [RvaTooFarLine val]
             else case rvaToFileOffset f (ucast (val - base)) of
                 Inl _ \<Rightarrow> [NotMappedLine val]
               | Inr _ \<Rightarrow> follow_loop f base ptrSize symbols left (Suc i) val (cur # visited) cache'))"

definition defaultFollowPtrCount :: int where
  "defaultFollowPtrCount = 4"

definition maxFollowPtrCount :: int where
  "maxFollowPtrCount = 10"

definition follow_count :: "int \<Rightarrow> nat" where
  "follow_count n = nat (min maxFollowPtrCount (if n \<le> 0 then defaultFollowPtrCount else n))"

definition pe_ptrSize :: "peFile \<Rightarrow> nat" where
  "pe_ptrSize f = (if pe_Machine f = 0x8664 \<or> pe_Machine f = 0xAA64 then 8 else 4)"

definition opFollowPtr ::
    "peFile option \<Rightarrow> (uint64 \<Rightarrow> gostring option) \<Rightarrow> gostring \<Rightarrow> int \<Rightarrow> peError + uint64 \<times> nat \<times> chainLine list" where
  "opFollowPtr opened symbols vaStr count =
     (if vaStr = [] then Inl VARequired
      else case parseHexAddr vaStr of Inl _ \<Rightarrow> Inl (InvalidVA vaStr)
        | Inr startVA \<Rightarrow>
            (case opened of None \<Rightarrow> Inl NotPE
             | Some f \<Rightarrow>
                 if startVA < peImageBase f then Inl (BelowImageBase startVA (peImageBase f))
                 else Inr (startVA, pe_ptrSize f * 8,
                       follow_loop f (peImageBase f) (pe_ptrSize f) symbols (follow_count count) 0 startVA []
                         (Some Map.empty))))"

subsection \<open>Reads and pointer chains\<close>

text \<open>A cache agrees with the file when what it holds for a name is the data of every section of that name.\<close>

definition cache_agrees :: "peFile \<Rightarrow> secCache \<Rightarrow> bool" where
  "cache_agrees f cache =
     (case cache of None \<Rightarrow> True
      | Some c \<Rightarrow> \<forall>s \<in> set (pe_Sections f). \<forall>d. c (sec_Name s) = Some d \<longrightarrow> sec_Data s = Some d)"

lemma cache_agrees_start [simp]: "cache_agrees f None" "cache_agrees f (Some Map.empty)"
  by (simp_all add: cache_agrees_def)

lemma cachedSectionData_agrees:
  assumes "distinct (map sec_Name (pe_Sections f))" "s \<in> set (pe_Sections f)" "cache_agrees f cache"
  shows "fst (cachedSectionData s cache) = sec_Data s" "cache_agrees f (snd (cachedSectionData s cache))"
  using assms
  by (auto simp: cachedSectionData_def cache_agrees_def distinct_map inj_on_def
      split: option.splits bind_splits)

lemma cachedSectionData_nil [simp]: "cachedSectionData s None = (sec_Data s, None)"
  by (simp add: cachedSectionData_def split: option.splits)

lemma cachedReadBytes_agrees:
  assumes "distinct (map sec_Name (pe_Sections f))" "cache_agrees f cache"
  shows "fst (cachedReadBytes f base va n cache) = readPEBytesAtVA f base va n
    \<and> cache_agrees f (snd (cachedReadBytes f base va n cache))"
proof (cases "rvaToFileOffset f (ucast (va - base))")
  case (Inr p)
  obtain off nm where p: "p = (off, nm)" by fastforce
  show ?thesis
  proof (cases "find (in_raw off) (pe_Sections f)")
    case (Some s)
    obtain r c where rc: "cachedSectionData s cache = (r, c)" by fastforce
    have "s \<in> set (pe_Sections f)" using Some by (auto simp: find_Some_iff)
    then have "r = sec_Data s" "cache_agrees f c"
      using cachedSectionData_agrees [OF assms(1) _ assms(2)] rc by fastforce+
    then show ?thesis
      using assms(2)
      by (cases "sec_Data s") (simp_all add: readPEBytesAtVA_def cachedReadBytes_def Let_def Inr p Some rc)
  qed (simp add: readPEBytesAtVA_def cachedReadBytes_def Inr p assms)
qed (simp add: readPEBytesAtVA_def cachedReadBytes_def assms)

lemma cachedReadBytes_nil [simp]: "snd (cachedReadBytes f base va n None) = None"
  by (auto simp: cachedReadBytes_def Let_def split: sum.splits option.splits prod.splits)

lemma cachedReadValue_agrees:
  assumes "distinct (map sec_Name (pe_Sections f))" "cache_agrees f cache"
  shows "fst (cachedReadValue f base va n cache) = fst (cachedReadValue f base va n None)
    \<and> cache_agrees f (snd (cachedReadValue f base va n cache))"
  using cachedReadBytes_agrees [OF assms, of base va n]
  by (auto simp: cachedReadValue_def readPEBytesAtVA_def split: sum.splits prod.splits)

lemma cachedReadValue_nil [simp]: "snd (cachedReadValue f base va n None) = None"
  using cachedReadBytes_nil [of f base va n]
  by (cases "cachedReadBytes f base va n None"; cases "fst (cachedReadBytes f base va n None)")
    (auto simp: cachedReadValue_def)

lemma follow_loop_uncached:
  assumes "distinct (map sec_Name (pe_Sections f))" "cache_agrees f cache"
  shows "follow_loop f base n symbols left i cur visited cache = follow_loop f base n symbols left i cur visited None"
  using assms(2)
proof (induction left arbitrary: i cur visited cache)
  case (Suc left)
  obtain r c where rc: "cachedReadValue f base cur n cache = (r, c)" by fastforce
  obtain r' c' where rc': "cachedReadValue f base cur n None = (r', c')" by fastforce
  have "r = r'" "c' = None" "cache_agrees f c"
    using cachedReadValue_agrees [OF assms(1) Suc.prems, of base cur n] cachedReadValue_nil [of f base cur n] rc rc'
    by auto
  with Suc.IH [of c] show ?case by (cases r') (simp_all add: rc rc' split: sum.split)
qed simp

text \<open>The report of follow_ptr does not depend on the section cache when the section names of the
  image are distinct: every value it shows is the value an uncached read of the file gives.\<close>

theorem follow_ptr_cache_transparent:
  assumes "distinct (map sec_Name (pe_Sections f))"
    and "opFollowPtr (Some f) symbols vaStr count = Inr (startVA, bits, report)"
  shows "report = follow_loop f (peImageBase f) (pe_ptrSize f) symbols (follow_count count) 0 startVA [] None"
  using assms(2) follow_loop_uncached [OF assms(1), of "Some Map.empty"]
  by (auto simp: opFollowPtr_def split: if_splits sum.splits)

fun hops :: "chainLine list \<Rightarrow> (uint64 \<times> uint64) list" where
  "hops [] = []"
| "hops (Hop i cur a val b # ls) = (cur, val) # hops ls"
| "hops (_ # ls) = hops ls"

fun linked :: "uint64 \<Rightarrow> (uint64 \<times> uint64) list \<Rightarrow> bool" where
  "linked cur [] = True"
| "linked cur ((a, b) # ps) \<longleftrightarrow> a = cur \<and> linked b ps"

lemma follow_loop_hops:
  assumes "distinct (map sec_Name (pe_Sections f))" "cache_agrees f cache"
  shows "linked cur (hops (follow_loop f base n symbols left i cur visited cache))
    \<and> distinct (map fst (hops (follow_loop f base n symbols left i cur visited cache)))
    \<and> set (map fst (hops (follow_loop f base n symbols left i cur visited cache))) \<inter> set visited = {}
    \<and> length (hops (follow_loop f base n symbols left i cur visited cache)) \<le> left
    \<and> (\<forall>(a, v) \<in> set (hops (follow_loop f base n symbols left i cur visited cache)).
         fst (cachedReadValue f base a n None) = Inr v)"
  using assms(2)
proof (induction left arbitrary: i cur visited cache)
  case (Suc left)
  obtain r c where rc: "cachedReadValue f base cur n cache = (r, c)" by fastforce
  have ag: "fst (cachedReadValue f base cur n None) = r" "cache_agrees f c"
    using cachedReadValue_agrees [OF assms(1) Suc.prems, of base cur n] rc by auto
  show ?case
  proof (cases r)
    case (Inr v)
    show ?thesis
      using Suc.IH [where cache = c and i = "Suc i" and cur = v and visited = "cur # visited"] ag(2) ag(1)
      by (auto simp: rc Inr split: sum.splits)
  qed (simp add: rc)
qed simp

text \<open>The hops of follow_ptr form one chain that starts at the given address: each step reads the
  pointer stored at its address, the next step starts at that value, no address is visited twice and
  there are at most ten steps.\<close>

theorem follow_ptr_chain:
  assumes "distinct (map sec_Name (pe_Sections f))"
    and "opFollowPtr (Some f) symbols vaStr count = Inr (startVA, bits, report)"
  shows "linked startVA (hops report) \<and> distinct (map fst (hops report)) \<and> length (hops report) \<le> 10
    \<and> (\<forall>(a, v) \<in> set (hops report). fst (cachedReadValue f (peImageBase f) a (pe_ptrSize f) None) = Inr v)"
proof -
  have "follow_count count \<le> 10"
    by (simp add: follow_count_def maxFollowPtrCount_def)
  then show ?thesis
    using assms(2) follow_loop_hops [OF assms(1), of "Some Map.empty" startVA "peImageBase f" "pe_ptrSize f"
        symbols "follow_count count" 0 "[]"]
    by (force simp: opFollowPtr_def split: if_splits sum.splits)
qed

text \<open>
  Section names need not be distinct in a PE file. Here a chain crosses two sections named
  \<open>.data\<close>: the second read is served from the first section's bytes.
\<close>

definition twin_image :: peFile where
  "twin_image =
     (let sec = (\<lambda>va off d. \<lparr>sec_Name = ''.data'', sec_VirtualAddress = va, sec_VirtualSize = 4, sec_Offset = off,
                    sec_Size = 4, sec_Characteristics = 0, sec_Data = Some d\<rparr>) in
      \<lparr>pe_Machine = 0x14C, pe_OptionalHeader = OptionalHeader32 0x1000 [],
       pe_Sections = [sec 0x10 0x100 [0x20, 0x10, 0, 0], sec 0x20 0x200 [0, 0, 0, 0]]\<rparr>)"

lemma cache_confuses_sections:
  "hops (follow_loop twin_image 0x1000 4 (\<lambda>_. None) 4 0 0x1010 [] (Some Map.empty)) =
     [(0x1010, 0x1020), (0x1020, 0x1020)]"
  "hops (follow_loop twin_image 0x1000 4 (\<lambda>_. None) 4 0 0x1010 [] None) = [(0x1010, 0x1020), (0x1020, 0)]"
  by code_simp+

text \<open>Raw ranges that neither wrap nor overlap, and virtual ranges that do not wrap.\<close>

definition sections_wf :: "peFile \<Rightarrow> bool" where
  "sections_wf f \<longleftrightarrow>
     (\<forall>s \<in> set (pe_Sections f). unat (sec_Offset s) + unat (sec_Size s) < 2 ^ 32
        \<and> unat (sec_VirtualAddress s) + unat (sec_VirtualSize s) < 2 ^ 32)
     \<and> (\<forall>s \<in> set (pe_Sections f). \<forall>t \<in> set (pe_Sections f).
          s \<noteq> t \<longrightarrow> sec_Offset s + sec_Size s \<le> sec_Offset t \<or> sec_Offset t + sec_Size t \<le> sec_Offset s)"

lemma in_raw_unique:
  assumes "sections_wf f" "s \<in> set (pe_Sections f)" "t \<in> set (pe_Sections f)" "in_raw off s" "in_raw off t"
  shows "s = t"
  using assms unfolding sections_wf_def in_raw_def by (meson leD le_less_trans order_trans)

lemma find_in_raw:
  assumes "sections_wf f" "s \<in> set (pe_Sections f)" "in_raw off s"
  shows "find (in_raw off) (pe_Sections f) = Some s"
proof (cases "find (in_raw off) (pe_Sections f)")
  case None
  then show ?thesis using assms by (auto simp: find_None_iff)
next
  case (Some t)
  then have "t \<in> set (pe_Sections f)" "in_raw off t" by (auto simp: find_Some_iff)
  then show ?thesis using in_raw_unique [OF assms(1,2) _ assms(3)] Some by blast
qed

lemma in_raw_of_rva:
  assumes "sections_wf f" "s \<in> set (pe_Sections f)" "in_rva rva s" "rva - sec_VirtualAddress s < sec_Size s"
  shows "in_raw (rva - sec_VirtualAddress s + sec_Offset s) s"
proof -
  have "unat (sec_Offset s) + unat (sec_Size s) < 2 ^ 32" using assms by (auto simp: sections_wf_def)
  then show ?thesis
    using assms(4) by (auto simp: in_raw_def word_le_nat_alt word_less_nat_alt unat_word_ariths)
qed

text \<open>In an image whose sections have separate raw ranges, an address of a section that lies within
  its raw data goes to a file offset and back to itself, and a read there returns the section's bytes.\<close>

theorem rva_offset_roundtrip:
  assumes "sections_wf f" "find (in_rva rva) (pe_Sections f) = Some s"
    and "rva - sec_VirtualAddress s < sec_Size s"
  shows "\<exists>off. rvaToFileOffset f rva = Inr (off, sec_Name s) \<and> fileOffsetToRVA f off = Some rva"
proof -
  have s: "s \<in> set (pe_Sections f)" "in_rva rva s" using assms(2) by (auto simp: find_Some_iff)
  have "find (in_raw (rva - sec_VirtualAddress s + sec_Offset s)) (pe_Sections f) = Some s"
    using find_in_raw [OF assms(1) s(1)] in_raw_of_rva [OF assms(1) s assms(3)] by blast
  then show ?thesis by (simp add: rvaToFileOffset_def fileOffsetToRVA_def assms(2))
qed

lemma readPEBytesAtVA_section:
  assumes "sections_wf f" "find (in_rva rva) (pe_Sections f) = Some s"
    and "rva - sec_VirtualAddress s < sec_Size s" "sec_Data s = Some d"
    and "unat (rva - sec_VirtualAddress s) + n \<le> length d"
    and "base \<le> va" "va - base \<le> 0xFFFFFFFF" "rva = ucast (va - base)"
  shows "readPEBytesAtVA f base va n =
    Inr (slice d (unat (rva - sec_VirtualAddress s)) (unat (rva - sec_VirtualAddress s) + n))"
proof -
  have s: "s \<in> set (pe_Sections f)" "in_rva rva s" using assms(2) by (auto simp: find_Some_iff)
  have "find (in_raw (rva - sec_VirtualAddress s + sec_Offset s)) (pe_Sections f) = Some s"
    using find_in_raw [OF assms(1) s(1)] in_raw_of_rva [OF assms(1) s assms(3)] by blast
  then show ?thesis
    using assms by (auto simp: readPEBytesAtVA_def cachedReadBytes_def rvaToFileOffset_def Let_def)
qed

lemma ucast_low32: "\<not> 0xFFFFFFFF < x \<Longrightarrow> ucast (ucast (x :: uint64) :: uint32) = x"
proof -
  assume "\<not> 0xFFFFFFFF < x"
  then have "unat x < 2 ^ 32" by (simp add: word_less_nat_alt not_less)
  then have "take_bit 64 (take_bit 32 (unat x)) = unat x"
    by (simp add: take_bit_nat_eq_self)
  then show ?thesis
    by (intro word_unat_eq_iff [THEN iffD2]) (simp add: unsigned_ucast_eq unsigned_take_bit_eq)
qed

text \<open>The address that \<open>hexdump\<close> and \<open>disassemble\<close> print for the resolved offset is the one asked for.\<close>

lemma resolveVA_display:
  assumes "resolveVA opened vaStr = Inr r"
  shows "parseHexAddr vaStr = Inr (vr_DisplayBase r + ucast (vr_FileOffset r))"
    and "vr_ImageBase r + ucast (vr_RVA r) = vr_DisplayBase r + ucast (vr_FileOffset r)"
  using assms
  by (auto simp: resolveVA_def Let_def ucast_low32 split: sum.splits option.splits if_splits prod.splits)

end
