(* ===== verification/Bin_Scan.thy ===== *)
theory Bin_Scan
  imports Pe_Image
begin

text \<open>
  The scanners of tools/analyze that read a whole file: the pattern search of pattern.go, the
  string extraction of strings.go, the byte comparison of bindiff.go and the dump of hexdump.go. A
  file is its bytes; for a PE file the parsed headers give the virtual address and the section of an
  offset. The theorems say which positions each scanner reports, and in particular that the chunks
  in which the pattern search and the comparison read the file do not show in their results, but for
  the positions just before the end of an overlap, which the pattern search never tests.
\<close>

subsection \<open>Addresses in the output\<close>

definition lower_hex :: "char \<Rightarrow> char" where
  "lower_hex c = (if 65 \<le> (of_char c :: nat) \<and> (of_char c :: nat) \<le> 70 then char_of (of_char c + 32 :: nat) else c)"

definition fmt_x :: "nat \<Rightarrow> nat \<Rightarrow> gostring" where
  "fmt_x w n = map lower_hex (show_hex_pad w n)"

record peVAMapper =
  vm_file :: peFile
  vm_imageBase :: uint64

definition toVA :: "peVAMapper option \<Rightarrow> nat \<Rightarrow> gostring" where
  "toVA m fileOff =
     (case m of None \<Rightarrow> []
      | Some m \<Rightarrow>
          (case fileOffsetToRVA (vm_file m) (word_of_nat fileOff) of None \<Rightarrow> []
           | Some rva \<Rightarrow> ''0x'' @ fmt_x 0 (unat (vm_imageBase m + ucast rva))))"

definition tryPEMapper :: "peFile option \<Rightarrow> peVAMapper option" where
  "tryPEMapper opened =
     (case opened of None \<Rightarrow> None
      | Some f \<Rightarrow> if peImageBase f = 0 then None else Some \<lparr>vm_file = f, vm_imageBase = peImageBase f\<rparr>)"

subsection \<open>Pattern search\<close>

definition patternChunkSize :: nat where
  "patternChunkSize = 4 * 1024 * 1024"

definition patternOverlap :: nat where
  "patternOverlap = 256"

datatype scanError =
    PatternRequired
  | EmptyPattern
  | PatternTooLong nat
  | InvalidHexByte nat gostring
  | CannotOpenFile
  | FileTooLarge nat
  | UnsupportedEncoding gostring

definition hex_val :: "char \<Rightarrow> nat option" where
  "hex_val c =
     (let v = (of_char c :: nat) in
      if 48 \<le> v \<and> v \<le> 57 then Some (v - 48)
      else if 97 \<le> v \<and> v \<le> 102 then Some (v - 87)
      else if 65 \<le> v \<and> v \<le> 70 then Some (v - 55) else None)"

text \<open>\<open>hex.DecodeString\<close>: an odd length or a character that is no digit is an error.\<close>

fun hex_DecodeString :: "gostring \<Rightarrow> bytes option" where
  "hex_DecodeString [] = Some []"
| "hex_DecodeString [_] = None"
| "hex_DecodeString (a # b # s) =
     (case (hex_val a, hex_val b) of
        (Some x, Some y) \<Rightarrow> map_option ((#) (word_of_nat (x * 16 + y))) (hex_DecodeString s)
      | _ \<Rightarrow> None)"

fun parse_tokens :: "nat \<Rightarrow> gostring list \<Rightarrow> scanError + bytes \<times> bool list" where
  "parse_tokens i [] = Inr ([], [])"
| "parse_tokens i (tok # toks) =
     (if tok = ''??'' \<or> tok = ''?'' then
        (case parse_tokens (Suc i) toks of Inl e \<Rightarrow> Inl e | Inr (bs, ms) \<Rightarrow> Inr (0 # bs, False # ms))
      else case hex_DecodeString tok of
          Some [b] \<Rightarrow> (case parse_tokens (Suc i) toks of Inl e \<Rightarrow> Inl e | Inr (bs, ms) \<Rightarrow> Inr (b # bs, True # ms))
        | _ \<Rightarrow> Inl (InvalidHexByte i tok))"

definition parseHexPattern :: "gostring \<Rightarrow> scanError + bytes \<times> bool list" where
  "parseHexPattern pattern =
     (let tokens = Fields pattern in
      if tokens = [] then Inl EmptyPattern
      else if patternOverlap \<le> length tokens then Inl (PatternTooLong (patternOverlap - 1))
      else parse_tokens 0 tokens)"

fun matchPattern :: "bytes \<Rightarrow> bytes \<Rightarrow> bool list \<Rightarrow> bool" where
  "matchPattern (d # data) (p # pattern) (m # msk) \<longleftrightarrow> \<not> (m \<and> d \<noteq> p) \<and> matchPattern data pattern msk"
| "matchPattern _ _ _ = True"

text \<open>The inner loop: the hits found so far and the loop index.\<close>

function chunk_loop :: "bytes \<Rightarrow> bool list \<Rightarrow> nat \<Rightarrow> nat \<Rightarrow> bytes \<Rightarrow> nat \<Rightarrow> (nat \<times> bytes) list \<Rightarrow> (nat \<times> bytes) list" where
  "chunk_loop pat msk maxRes fileOffset chunk i hits =
     (if length chunk < i + length pat then hits
      else if 0 < fileOffset \<and> i < patternOverlap then chunk_loop pat msk maxRes fileOffset chunk (Suc i) hits
      else if matchPattern (slice chunk i (i + length pat)) pat msk then
        let hits' = hits @ [(fileOffset + i, slice chunk i (i + length pat))] in
        (if maxRes \<le> length hits' then hits' else chunk_loop pat msk maxRes fileOffset chunk (Suc i) hits')
      else chunk_loop pat msk maxRes fileOffset chunk (Suc i) hits)"
  by auto
termination by (relation "measure (\<lambda>(p, m, r, f, c, i, h). Suc (length c) - i)") auto

declare chunk_loop.simps [simp del]

function pattern_loop :: "bytes \<Rightarrow> bool list \<Rightarrow> nat \<Rightarrow> bytes \<Rightarrow> nat \<Rightarrow> (nat \<times> bytes) list \<Rightarrow> (nat \<times> bytes) list" where
  "pattern_loop pat msk maxRes file_data fileOffset hits =
     (if fileOffset < length file_data \<and> length hits < maxRes then
        let readSize = min (patternChunkSize + patternOverlap) (length file_data - fileOffset);
            chunk = slice file_data fileOffset (fileOffset + readSize) in
        pattern_loop pat msk maxRes file_data (fileOffset + patternChunkSize)
          (chunk_loop pat msk maxRes fileOffset chunk 0 hits)
      else hits)"
  by auto
termination
  by (relation "measure (\<lambda>(p, m, r, d, off, h). length d - off)") (auto simp: patternChunkSize_def)

declare pattern_loop.simps [simp del]

record peSectionRange =
  sr_name :: gostring
  sr_start :: uint32
  sr_end :: uint32

definition sectionForFileOffset :: "peSectionRange list \<Rightarrow> uint32 \<Rightarrow> gostring" where
  "sectionForFileOffset sections off =
     (case find (\<lambda>s. sr_start s \<le> off \<and> off < sr_end s) sections of Some s \<Rightarrow> sr_name s | None \<Rightarrow> [])"

definition pe_ranges :: "peVAMapper option \<Rightarrow> peSectionRange list" where
  "pe_ranges m =
     (case m of None \<Rightarrow> []
      | Some m \<Rightarrow> map (\<lambda>s. \<lparr>sr_name = sec_Name s, sr_start = sec_Offset s, sr_end = sec_Offset s + sec_Size s\<rparr>)
                    (pe_Sections (vm_file m)))"

definition formatHexSpaced :: "bytes \<Rightarrow> gostring" where
  "formatHexSpaced bs = Join (map (\<lambda>b. fmt_x 2 (unat b)) bs) [SP]"

definition match_line :: "peVAMapper option \<Rightarrow> nat \<times> bytes \<Rightarrow> gostring" where
  "match_line m hit =
     (let absOffset = fst hit; va = toVA m absOffset;
          secName = (if absOffset \<le> 0xFFFFFFFF then sectionForFileOffset (pe_ranges m) (word_of_nat absOffset) else []);
          offset = ''0x'' @ fmt_x 8 absOffset; matched = formatHexSpaced (snd hit) in
      if va \<noteq> [] then
        (if secName \<noteq> [] then ''['' @ secName @ ''] '' @ offset @ '' ('' @ va @ ''): '' @ matched @ [LF]
         else offset @ '' ('' @ va @ ''): '' @ matched @ [LF])
      else offset @ '': '' @ matched @ [LF])"

definition clamp_results :: "nat \<Rightarrow> nat \<Rightarrow> int \<Rightarrow> nat" where
  "clamp_results dflt most n = (if n \<le> 0 then dflt else min most (nat n))"

text \<open>The outcome: the lines, their number, the pattern and whether the report says it was cut.\<close>

definition opPatternSearch ::
    "(bytes \<times> peFile option) option \<Rightarrow> gostring \<Rightarrow> int \<Rightarrow> scanError + gostring list \<times> nat \<times> gostring \<times> bool" where
  "opPatternSearch opened pattern_arg max_results =
     (let pattern = TrimSpace pattern_arg in
      if pattern = [] then Inl PatternRequired
      else case parseHexPattern pattern of Inl e \<Rightarrow> Inl e
        | Inr (pat, msk) \<Rightarrow>
            if pat = [] then Inl EmptyPattern
            else let maxRes = clamp_results 100 500 max_results in
              (case opened of None \<Rightarrow> Inl CannotOpenFile
               | Some (content, pe) \<Rightarrow>
                   let hits = pattern_loop pat msk maxRes content 0 [] in
                   Inr (map (match_line (tryPEMapper pe)) hits, length hits, pattern, maxRes \<le> length hits)))"

subsection \<open>What the pattern search finds\<close>

definition occurs :: "bytes \<Rightarrow> bytes \<Rightarrow> bool list \<Rightarrow> nat \<Rightarrow> bool" where
  "occurs content pat msk p \<longleftrightarrow>
     p + length pat \<le> length content \<and> matchPattern (slice content p (p + length pat)) pat msk"

text \<open>
  Positions that no chunk tests: in the first 256 bytes of a later chunk, where that chunk skips
  them, and too close to the end of the previous chunk for a match to fit there.
\<close>

definition untested :: "nat \<Rightarrow> nat \<Rightarrow> bool" where
  "untested n p \<longleftrightarrow>
     patternChunkSize \<le> p \<and> p mod patternChunkSize < patternOverlap \<and> patternOverlap < p mod patternChunkSize + n"

definition hit_at :: "bytes \<Rightarrow> nat \<Rightarrow> nat \<Rightarrow> nat \<times> bytes" where
  "hit_at content n p = (p, slice content p (p + n))"

lemma chunk_loop_hits:
  assumes "length hits < maxRes"
  shows "chunk_loop pat msk maxRes off chunk i hits =
    take maxRes (hits @ map (\<lambda>i. (off + i, slice chunk i (i + length pat)))
      (filter (\<lambda>i. \<not> (0 < off \<and> i < patternOverlap) \<and> matchPattern (slice chunk i (i + length pat)) pat msk)
        [i..<Suc (length chunk) - length pat]))"
  using assms
proof (induction pat msk maxRes off chunk i hits rule: chunk_loop.induct)
  case (1 pat msk maxRes off chunk i hits)
  show ?case
  proof (cases "length chunk < i + length pat")
    case True
    then show ?thesis using 1(4) by (simp add: chunk_loop.simps [of _ _ _ _ _ i])
  next
    case False
    then have up: "[i..<Suc (length chunk) - length pat] = i # [Suc i..<Suc (length chunk) - length pat]"
      by (simp add: upt_conv_Cons)
    let ?x = "(off + i, slice chunk i (i + length pat))"
    have full: "take maxRes ((hits @ [?x]) @ ys) = hits @ [?x]" if "maxRes \<le> Suc (length hits)" for ys
      using that 1(4) by (simp add: take_Cons')
    show ?thesis
      using 1(1) [OF False] 1(2) [OF False _ _ refl] 1(3) [OF False] 1(4) False full
      by (auto simp: chunk_loop.simps [of _ _ _ _ _ i] up Let_def)
  qed
qed

lemma chunk_pos: "0 < patternChunkSize" "patternOverlap < patternChunkSize"
  by (simp_all add: patternChunkSize_def patternOverlap_def)

lemma pattern_loop_full: "maxRes \<le> length hits \<Longrightarrow> pattern_loop pat msk maxRes content off hits = hits"
  by (simp add: pattern_loop.simps [of pat msk maxRes content off hits])

text \<open>The positions a chunk is responsible for.\<close>

definition chunk_lo :: "nat \<Rightarrow> nat" where
  "chunk_lo off = (if off = 0 then 0 else off + patternOverlap)"

lemma tested_in_chunk:
  assumes "off mod patternChunkSize = 0" "0 < n" "n \<le> patternOverlap"
    and "chunk_lo off \<le> p" "p + n \<le> off + patternChunkSize + patternOverlap"
  shows "\<not> untested n p"
proof -
  obtain i where i: "p = off + i" using assms(4) by (auto simp: chunk_lo_def le_iff_add split: if_splits)
  then have m: "p mod patternChunkSize = i mod patternChunkSize"
    using assms(1) by (metis mod_add_left_eq add_0)
  show ?thesis
  proof (cases "i < patternChunkSize")
    case True
    then show ?thesis
      using m i assms(4) by (auto simp: untested_def chunk_lo_def split: if_splits)
  next
    case False
    have "i < 2 * patternChunkSize" using assms(2,5) i chunk_pos by simp
    then have "i mod patternChunkSize = i - patternChunkSize"
      using False by (simp add: mod_if)
    then show ?thesis using m i assms(5) False by (auto simp: untested_def)
  qed
qed

lemma untested_gap:
  assumes "off mod patternChunkSize = 0" "n \<le> patternOverlap"
    and "off + patternChunkSize + patternOverlap < p + n" "p < off + patternChunkSize + patternOverlap"
  shows "untested n p"
proof -
  have "off + patternChunkSize \<le> p" using assms(2,3) by linarith
  then obtain j where j: "p = off + patternChunkSize + j" using le_Suc_ex by blast
  have "p mod patternChunkSize = j mod patternChunkSize"
    unfolding j using assms(1) by (metis mod_add_left_eq mod_add_self2 add_0)
  moreover have "j < patternOverlap" using assms(4) j by simp
  ultimately show ?thesis using j assms(3) chunk_pos by (simp add: untested_def)
qed

lemma filter_upt_from: "b \<le> a \<Longrightarrow> filter (\<lambda>p. a \<le> p \<and> Q p) [b..<e] = filter Q [a..<e]"
proof (induction e)
  case (Suc e)
  then show ?case by (cases "a \<le> e") (auto simp: filter_empty_conv)
qed simp

lemma take_take_append: "take m (take m xs @ ys) = take m (xs @ ys)"
  by (cases "length xs \<le> m") auto

text \<open>The hits of one chunk in positions of the file.\<close>

lemma chunk_hits_absolute:
  fixes content pat msk off
  defines "n \<equiv> length pat" and "chunk \<equiv> slice content off (off + min (patternChunkSize + patternOverlap) (length content - off))"
  assumes off: "off < length content" "off mod patternChunkSize = 0" and n: "0 < n" "n \<le> patternOverlap"
  shows "map (\<lambda>i. (off + i, slice chunk i (i + n)))
      (filter (\<lambda>i. \<not> (0 < off \<and> i < patternOverlap) \<and> matchPattern (slice chunk i (i + n)) pat msk)
        [0..<Suc (length chunk) - n]) =
    map (hit_at content n) (filter (\<lambda>p. matchPattern (slice content p (p + n)) pat msk \<and> \<not> untested n p)
      [chunk_lo off..<off + (Suc (length chunk) - n)])"
proof -
  let ?m = "Suc (length chunk) - n" and ?M = "\<lambda>p. matchPattern (slice content p (p + n)) pat msk"
  have lc: "length chunk = min (patternChunkSize + patternOverlap) (length content - off)"
    using off by (simp add: chunk_def)
  have sl: "slice chunk i (i + n) = slice content (off + i) (off + i + n)" if "i < ?m" for i
  proof -
    have "i + n \<le> min (patternChunkSize + patternOverlap) (length content - off)" using that lc by linarith
    then have "min n (min (patternChunkSize + patternOverlap) (length content - off) - i) = n" by linarith
    then show ?thesis by (simp add: chunk_def slice_def drop_take add.commute del: min_less_iff_conj)
  qed
  have "map (\<lambda>i. (off + i, slice chunk i (i + n)))
      (filter (\<lambda>i. \<not> (0 < off \<and> i < patternOverlap) \<and> matchPattern (slice chunk i (i + n)) pat msk) [0..<?m]) =
    map (\<lambda>i. hit_at content n (i + off)) (filter (\<lambda>i. chunk_lo off \<le> i + off \<and> ?M (i + off)) [0..<?m])"
    by (rule map_cong, rule filter_cong) (auto simp: sl hit_at_def chunk_lo_def add.commute)
  also have "\<dots> = map (hit_at content n) (filter (\<lambda>p. chunk_lo off \<le> p \<and> ?M p) (map (\<lambda>i. i + off) [0..<?m]))"
    by (simp add: filter_map comp_def)
  also have "\<dots> = map (hit_at content n) (filter ?M [chunk_lo off..<off + ?m])"
    by (simp add: map_add_upt add.commute filter_upt_from chunk_lo_def)
  also have "filter ?M [chunk_lo off..<off + ?m] = filter (\<lambda>p. ?M p \<and> \<not> untested n p) [chunk_lo off..<off + ?m]"
  proof (rule filter_cong)
    fix p assume "p \<in> set [chunk_lo off..<off + ?m]"
    then have "chunk_lo off \<le> p" "p + n \<le> off + patternChunkSize + patternOverlap"
      using lc by (auto simp: chunk_lo_def split: if_splits)
    then show "?M p = (?M p \<and> \<not> untested n p)" using tested_in_chunk [OF off(2) n] by blast
  qed simp
  finally show ?thesis .
qed

text \<open>After a chunk, only untested positions lie before the range of the next one.\<close>

lemma chunk_ranges:
  fixes content :: bytes and off n :: nat
  defines "e \<equiv> off + (Suc (min (patternChunkSize + patternOverlap) (length content - off)) - n)"
  assumes off: "off < length content" "off mod patternChunkSize = 0" and n: "0 < n" "n \<le> patternOverlap"
    and Q: "\<And>p. Q p \<Longrightarrow> \<not> untested n p"
  shows "filter Q [chunk_lo off..<e] @ filter Q [chunk_lo (off + patternChunkSize)..<Suc (length content) - n] =
    filter Q [chunk_lo off..<Suc (length content) - n]"
proof -
  let ?t = "Suc (length content) - n"
  have next_lo: "chunk_lo (off + patternChunkSize) = off + patternChunkSize + patternOverlap"
    using chunk_pos by (simp add: chunk_lo_def)
  have lo: "off \<le> chunk_lo off" by (simp add: chunk_lo_def)
  show ?thesis
  proof (cases "length content - off \<le> patternChunkSize + patternOverlap")
    case True
    then have "[chunk_lo (off + patternChunkSize)..<?t] = []" using n by (simp add: next_lo)
    moreover have "[chunk_lo off..<e] = [chunk_lo off..<?t]"
      using True off lo by (cases "n \<le> length content - off") (auto simp: e_def)
    ultimately show ?thesis by (simp only: filter.simps append_Nil2)
  next
    case False
    then have e: "e = Suc (off + patternChunkSize + patternOverlap) - n" "e \<le> ?t" using n by (auto simp: e_def)
    have "chunk_lo off \<le> e" using e n chunk_pos by (auto simp: chunk_lo_def)
    then have "filter Q [chunk_lo off..<?t] = filter Q [chunk_lo off..<e] @ filter Q [e..<?t]"
      using e(2) by (metis filter_append le_Suc_ex upt_add_eq_append)
    moreover have "filter Q [e..<?t] = filter (\<lambda>p. chunk_lo (off + patternChunkSize) \<le> p \<and> Q p) [e..<?t]"
    proof (rule filter_cong)
      fix p assume "p \<in> set [e..<?t]"
      then have "off + patternChunkSize + patternOverlap < p + n" using e(1) by auto
      then show "Q p = (chunk_lo (off + patternChunkSize) \<le> p \<and> Q p)"
        using untested_gap [OF off(2) n(2), of p] Q [of p] by (auto simp: next_lo not_le [symmetric])
    qed simp
    moreover have "e \<le> chunk_lo (off + patternChunkSize)" using e n by (simp add: next_lo)
    ultimately show ?thesis by (simp add: filter_upt_from)
  qed
qed

lemma pattern_loop_hits:
  assumes "off mod patternChunkSize = 0" "0 < length pat" "length pat \<le> patternOverlap" "length hits \<le> maxRes"
  shows "pattern_loop pat msk maxRes content off hits =
    take maxRes (hits @ map (hit_at content (length pat))
      (filter (\<lambda>p. matchPattern (slice content p (p + length pat)) pat msk \<and> \<not> untested (length pat) p)
        [chunk_lo off..<Suc (length content) - length pat]))"
  using assms
proof (induction pat msk maxRes content off hits rule: pattern_loop.induct)
  case (1 pat msk maxRes content off hits)
  let ?n = "length pat" and ?Q = "\<lambda>p. matchPattern (slice content p (p + length pat)) pat msk \<and> \<not> untested (length pat) p"
  show ?case
  proof (cases "off < length content \<and> length hits < maxRes")
    case True
    define chunk where "chunk = slice content off (off + min (patternChunkSize + patternOverlap) (length content - off))"
    let ?h = "chunk_loop pat msk maxRes off chunk 0 hits"
    let ?e = "off + (Suc (min (patternChunkSize + patternOverlap) (length content - off)) - ?n)"
    have lc: "length chunk = min (patternChunkSize + patternOverlap) (length content - off)"
      using True by (simp add: chunk_def)
    have h: "?h = take maxRes (hits @ map (hit_at content ?n) (filter ?Q [chunk_lo off..<?e]))"
      using chunk_loop_hits [of hits maxRes pat msk off chunk 0]
        chunk_hits_absolute [of off content pat msk, folded chunk_def] True 1(2-4) lc by simp
    have "pattern_loop pat msk maxRes content off hits = pattern_loop pat msk maxRes content (off + patternChunkSize) ?h"
      using True by (simp add: pattern_loop.simps [of pat msk maxRes content off hits] chunk_def Let_def)
    also have "\<dots> = take maxRes (?h @ map (hit_at content ?n)
        (filter ?Q [chunk_lo (off + patternChunkSize)..<Suc (length content) - ?n]))"
      by (rule 1(1) [OF True refl, folded chunk_def, OF refl]) (use 1(2-4) h in simp_all)
    also have "\<dots> = take maxRes (hits @ map (hit_at content ?n) (filter ?Q [chunk_lo off..<?e] @
        filter ?Q [chunk_lo (off + patternChunkSize)..<Suc (length content) - ?n]))"
      unfolding h take_take_append by simp
    also have "filter ?Q [chunk_lo off..<?e] @ filter ?Q [chunk_lo (off + patternChunkSize)..<Suc (length content) - ?n] =
        filter ?Q [chunk_lo off..<Suc (length content) - ?n]"
      by (rule chunk_ranges) (use True 1(2-4) in auto)
    finally show ?thesis .
  next
    case False
    have "chunk_lo off \<ge> Suc (length content) - ?n" if "length content \<le> off"
      using that 1(3) by (cases pat) (auto simp: chunk_lo_def)
    then show ?thesis
      using False 1(5) by (auto simp: pattern_loop.simps [of pat msk maxRes content off hits] not_less)
  qed
qed

lemma parse_tokens_length: "parse_tokens i toks = Inr (pat, msk) \<Longrightarrow> length pat = length toks \<and> length msk = length toks"
  by (induction i toks arbitrary: pat msk rule: parse_tokens.induct)
    (auto split: if_splits sum.splits option.splits list.splits)

lemma parseHexPattern_length:
  assumes "parseHexPattern pattern = Inr (pat, msk)"
  shows "0 < length pat" "length pat < patternOverlap" "length msk = length pat"
  using assms parse_tokens_length [of 0 "Fields pattern" pat msk]
  by (auto simp: parseHexPattern_def Let_def split: if_splits)

lemma Fields_Nil [simp]: "Fields [] = []"
  by (simp add: Fields_def FieldsFunc_def fields_loop.simps)

lemma pattern_loop_occurs:
  assumes "0 < length pat" "length pat \<le> patternOverlap"
  shows "pattern_loop pat msk maxRes content 0 [] =
    take maxRes (map (hit_at content (length pat))
      (filter (\<lambda>p. occurs content pat msk p \<and> \<not> untested (length pat) p) [0..<length content]))"
proof -
  let ?Q = "\<lambda>p. matchPattern (slice content p (p + length pat)) pat msk \<and> \<not> untested (length pat) p"
  have "[0..<length content] = [0..<Suc (length content) - length pat] @ [Suc (length content) - length pat..<length content]"
  proof -
    have "Suc (length content) - length pat \<le> length content" using assms(1) by linarith
    then show ?thesis
      using upt_add_eq_append [of 0 "Suc (length content) - length pat" "length content - (Suc (length content) - length pat)"]
      by simp
  qed
  moreover have "filter (\<lambda>p. occurs content pat msk p \<and> \<not> untested (length pat) p)
      [Suc (length content) - length pat..<length content] = []"
    by (auto simp: occurs_def filter_empty_conv)
  moreover have "filter ?Q [0..<Suc (length content) - length pat] =
      filter (\<lambda>p. occurs content pat msk p \<and> \<not> untested (length pat) p) [0..<Suc (length content) - length pat]"
    by (rule filter_cong) (auto simp: occurs_def)
  ultimately show ?thesis
    using pattern_loop_hits [of 0 pat "[]" maxRes msk content] assms by (simp add: chunk_lo_def)
qed

text \<open>C17: The pattern search reports exactly the positions at which the pattern occurs in the file, in
  increasing order and up to the result limit, whatever the size of the file, except the positions less
  than a pattern's length before the end of the 256-byte overlap at the start of a later chunk.\<close>

theorem pattern_search_exact:
  assumes "parseHexPattern (TrimSpace arg) = Inr (pat, msk)"
  shows "opPatternSearch (Some (content, pe)) arg max_results =
    (let maxRes = clamp_results 100 500 max_results;
         found = filter (\<lambda>p. occurs content pat msk p \<and> \<not> untested (length pat) p) [0..<length content];
         hits = take maxRes (map (hit_at content (length pat)) found) in
     Inr (map (match_line (tryPEMapper pe)) hits, min maxRes (length found), TrimSpace arg, maxRes \<le> length found))"
proof -
  note len = parseHexPattern_length [OF assms]
  have ne: "TrimSpace arg \<noteq> []" using assms by (auto simp: parseHexPattern_def)
  show ?thesis
    using len ne assms pattern_loop_occurs [of pat msk "clamp_results 100 500 max_results" content]
    by (simp add: opPatternSearch_def Let_def min.commute)
qed

lemma pattern_search_exact_witness:
  "opPatternSearch (Some ([0x4D, 0x5A, 0, 0x4D, 0x5A], None)) ''4d ??'' 0 =
    Inr ([''0x00000000: 4d 5a'' @ [LF], ''0x00000003: 4d 5a'' @ [LF]], 2, ''4d ??'', False)"
proof -
  have t: "TrimSpace ''4d ??'' = ''4d ??''" by (rule TrimSpace_id) (simp_all add: is_space_def)
  have "Fields (Join [''4d'', ''??''] [SP]) = [''4d'', ''??'']"
    by (rule Fields_Join) (simp add: plain_word_def is_space_def)
  then have p: "parseHexPattern ''4d ??'' = Inr ([0x4D, 0], [True, False])"
    by (simp add: parseHexPattern_def patternOverlap_def hex_val_def)
  have o: "filter (\<lambda>p. occurs [0x4D, 0x5A, 0, 0x4D, 0x5A] [0x4D, 0] [True, False] p \<and> \<not> untested (length [0x4D, 0 :: 8 word]) p)
      [0..<length [0x4D, 0x5A, 0, 0x4D, 0x5A :: 8 word]] = [0, 3]"
    by (simp add: occurs_def untested_def patternChunkSize_def slice_def upt_rec)
  have l: "match_line (tryPEMapper None) (hit_at [0x4D, 0x5A, 0, 0x4D, 0x5A] (length [0x4D, 0 :: 8 word]) 0) = ''0x00000000: 4d 5a'' @ [LF]"
    "match_line (tryPEMapper None) (hit_at [0x4D, 0x5A, 0, 0x4D, 0x5A] (length [0x4D, 0 :: 8 word]) 3) = ''0x00000003: 4d 5a'' @ [LF]"
  proof -
    have "fmt_x 8 0 = ''00000000''" "fmt_x 8 3 = ''00000003''" "formatHexSpaced [0x4D, 0x5A] = ''4d 5a''"
      by code_simp+
    then show "match_line (tryPEMapper None) (hit_at [0x4D, 0x5A, 0, 0x4D, 0x5A] (length [0x4D, 0 :: 8 word]) 0) = ''0x00000000: 4d 5a'' @ [LF]"
      "match_line (tryPEMapper None) (hit_at [0x4D, 0x5A, 0, 0x4D, 0x5A] (length [0x4D, 0 :: 8 word]) 3) = ''0x00000003: 4d 5a'' @ [LF]"
      by (simp_all add: match_line_def toVA_def tryPEMapper_def hit_at_def slice_def Let_def)
  qed
  show ?thesis
    using pattern_search_exact [of "''4d ??''" "[0x4D, 0]" "[True, False]" "[0x4D, 0x5A, 0, 0x4D, 0x5A]" None 0]
    unfolding t o by (simp add: Let_def clamp_results_def p l [simplified])
qed

text \<open>A match of two bytes across the end of an overlap is not reported.\<close>

lemma pattern_missed_at_overlap_end:
  fixes content :: bytes
  defines "content \<equiv> replicate (patternChunkSize + 255) 0 @ [1, 2]"
  shows "occurs content [1, 2] [True, True] (patternChunkSize + 255)"
    and "pattern_loop [1, 2] [True, True] maxRes content 0 [] = []"
proof -
  show "occurs content [1, 2] [True, True] (patternChunkSize + 255)"
    by (simp add: occurs_def content_def slice_def)
  have "\<not> occurs content [1, 2] [True, True] p \<or> p = patternChunkSize + 255" for p
  proof -
    have "matchPattern (slice content p (p + 2)) [1, 2] [True, True] \<Longrightarrow> p + 2 \<le> length content \<Longrightarrow> content ! p = 1"
      by (cases "drop p content") (auto simp: slice_def nth_via_drop take_Cons' split: if_splits)
    moreover have "content ! p = 0" if "p < patternChunkSize + 255"
      using that by (simp add: content_def nth_append del: replicate_add)
    ultimately show ?thesis by (force simp: occurs_def content_def)
  qed
  moreover have "untested 2 (patternChunkSize + 255)"
    by (simp add: untested_def patternChunkSize_def patternOverlap_def)
  ultimately show "pattern_loop [1, 2] [True, True] maxRes content 0 [] = []"
    using pattern_loop_occurs [of "[1, 2]" "[True, True]" maxRes content]
    by (auto simp: patternOverlap_def numeral_2_eq_2 filter_empty_conv)
qed

text \<open>A position beyond 4 GiB is labelled with the address of the offset 4 GiB below it.\<close>

lemma toVA_wraps: "toVA m (off + 2 ^ 32) = toVA m off"
proof -
  have "word_of_nat (off + 2 ^ 32) = (word_of_nat off :: uint32)"
    by (intro word_unat_eq_iff [THEN iffD2]) (simp only: unat_of_nat, simp)
  then show ?thesis by (simp only: toVA_def)
qed

subsection \<open>String extraction\<close>

definition printable :: "8 word \<Rightarrow> bool" where
  "printable b \<longleftrightarrow> 0x20 \<le> b \<and> b \<le> 0x7E"

text \<open>The state of the loop of \<open>extractASCII\<close>: the index, \<open>start\<close> (None for -1) and the entries so far.\<close>

fun ascii_loop ::
    "bytes \<Rightarrow> nat \<Rightarrow> nat \<Rightarrow> bytes \<Rightarrow> nat \<Rightarrow> nat option \<Rightarrow> (nat \<times> bytes) list \<Rightarrow> (nat \<times> bytes) list" where
  "ascii_loop whole minLen maxRes [] i start out =
     (case start of None \<Rightarrow> out
      | Some st \<Rightarrow> if minLen \<le> length whole - st then out @ [(st, drop st whole)] else out)"
| "ascii_loop whole minLen maxRes (b # bs) i start out =
     (if printable b then ascii_loop whole minLen maxRes bs (Suc i) (case start of None \<Rightarrow> Some i | Some st \<Rightarrow> Some st) out
      else case start of None \<Rightarrow> ascii_loop whole minLen maxRes bs (Suc i) None out
        | Some st \<Rightarrow>
            if minLen \<le> i - st then
              let out' = out @ [(st, slice whole st i)] in
              if maxRes \<le> length out' then out' else ascii_loop whole minLen maxRes bs (Suc i) None out'
            else ascii_loop whole minLen maxRes bs (Suc i) None out)"

definition extractASCII :: "bytes \<Rightarrow> nat \<Rightarrow> nat \<Rightarrow> (nat \<times> bytes) list" where
  "extractASCII whole minLen maxRes = ascii_loop whole minLen maxRes whole 0 None []"

definition isPrintableRune :: "rune \<Rightarrow> bool" where
  "isPrintableRune r \<longleftrightarrow> (0x20 \<le> r \<and> r \<le> 0x7E) \<or> r = 9 \<or> 0x7F < r"

text \<open>\<open>extractUTF8\<close>: \<open>start\<close> with the number of runes since then.\<close>

function utf8_loop ::
    "gostring \<Rightarrow> nat \<Rightarrow> nat \<Rightarrow> nat \<Rightarrow> (nat \<times> nat) option \<Rightarrow> (nat \<times> gostring) list \<Rightarrow> (nat \<times> gostring) list" where
  "utf8_loop whole minLen maxRes i start out =
     (if length whole \<le> i then
        (case start of None \<Rightarrow> out
         | Some (st, charCount) \<Rightarrow> if minLen \<le> charCount then out @ [(st, drop st whole)] else out)
      else let r = fst (decode_rune (drop i whole)); w = snd (decode_rune (drop i whole)) in
        if r \<noteq> RuneError \<and> 0 < w \<and> isPrintableRune r then
          utf8_loop whole minLen maxRes (i + w)
            (case start of None \<Rightarrow> Some (i, 1) | Some (st, charCount) \<Rightarrow> Some (st, Suc charCount)) out
        else case start of None \<Rightarrow> utf8_loop whole minLen maxRes (Suc i) None out
          | Some (st, charCount) \<Rightarrow>
              if minLen \<le> charCount then
                let out' = out @ [(st, slice whole st i)] in
                if maxRes \<le> length out' then out' else utf8_loop whole minLen maxRes (Suc i) None out'
              else utf8_loop whole minLen maxRes (Suc i) None out)"
  by pat_completeness auto
termination by (relation "measure (\<lambda>(w, mn, mx, i, s, out). length w - i)") auto

declare utf8_loop.simps [simp del]

definition extractUTF8 :: "gostring \<Rightarrow> nat \<Rightarrow> nat \<Rightarrow> (nat \<times> gostring) list" where
  "extractUTF8 whole minLen maxRes = utf8_loop whole minLen maxRes 0 None []"

definition writeStringEntry :: "peVAMapper option \<Rightarrow> nat \<times> gostring \<Rightarrow> gostring" where
  "writeStringEntry m e =
     (if toVA m (fst e) \<noteq> [] then ''0x'' @ fmt_x 6 (fst e) @ '' ('' @ toVA m (fst e) @ ''): '' @ snd e @ [LF]
      else ''0x'' @ fmt_x 6 (fst e) @ '': '' @ snd e @ [LF])"

text \<open>The outcome: the lines, their number, the length used and whether the report says it was cut.\<close>

definition opStrings ::
    "nat \<Rightarrow> (bytes \<times> peFile option) option \<Rightarrow> int \<Rightarrow> int \<Rightarrow> gostring \<Rightarrow> scanError + gostring list \<times> nat \<times> nat \<times> bool" where
  "opStrings maxSize opened min_length max_results encoding =
     (case opened of None \<Rightarrow> Inl CannotOpenFile
      | Some (content, pe) \<Rightarrow>
          if maxSize < length content then Inl (FileTooLarge (length content))
          else let minLen = (if min_length \<le> 0 then 4 else nat min_length);
                   maxRes = clamp_results 500 2000 max_results;
                   enc = (if ToLower (TrimSpace encoding) = [] then ''ascii'' else ToLower (TrimSpace encoding));
                   report = (\<lambda>es. Inr (map (writeStringEntry (tryPEMapper pe)) es, length es, minLen, maxRes \<le> length es)) in
            if enc = ''ascii'' then report (map (\<lambda>(st, bs). (st, string_of_bytes bs)) (extractASCII content minLen maxRes))
            else if enc = ''utf8'' \<or> enc = ''utf-8'' then report (extractUTF8 (string_of_bytes content) minLen maxRes)
            else Inl (UnsupportedEncoding enc))"

text \<open>A maximal run of printable bytes.\<close>

definition string_run :: "bytes \<Rightarrow> nat \<Rightarrow> nat \<Rightarrow> bool" where
  "string_run d s e \<longleftrightarrow> s < e \<and> e \<le> length d \<and> (\<forall>k. s \<le> k \<and> k < e \<longrightarrow> printable (d ! k))
     \<and> (s = 0 \<or> \<not> printable (d ! (s - 1))) \<and> (e = length d \<or> \<not> printable (d ! e))"

text \<open>The runs of the text from an index on, given where the run under way started.\<close>

fun runs_from :: "bytes \<Rightarrow> nat \<Rightarrow> nat option \<Rightarrow> (nat \<times> nat) list" where
  "runs_from [] i start = (case start of None \<Rightarrow> [] | Some st \<Rightarrow> [(st, i)])"
| "runs_from (b # bs) i start =
     (if printable b then runs_from bs (Suc i) (case start of None \<Rightarrow> Some i | Some st \<Rightarrow> Some st)
      else (case start of None \<Rightarrow> [] | Some st \<Rightarrow> [(st, i)]) @ runs_from bs (Suc i) None)"

lemma ascii_loop_runs:
  assumes "length out < maxRes" "i + length bs = length whole" "0 < maxRes"
  shows "ascii_loop whole minLen maxRes bs i start out =
    take maxRes (out @ map (\<lambda>(s, e). (s, slice whole s e)) (filter (\<lambda>(s, e). minLen \<le> e - s) (runs_from bs i start)))"
  using assms
proof (induction whole minLen maxRes bs i start out rule: ascii_loop.induct)
  case (1 whole minLen maxRes i start out)
  then show ?case by (cases start) (auto simp: slice_def)
next
  case (2 whole minLen maxRes b bs i start out)
  show ?case
  proof (cases "printable b")
    case True
    then show ?thesis using 2 by simp
  next
    case False
    show ?thesis
    proof (cases start)
      case None
      then show ?thesis using 2 False by simp
    next
      case (Some st)
      have full: "take maxRes ((out @ [x]) @ ys) = out @ [x]" if "maxRes \<le> Suc (length out)" for x ys
        using that 2(5) by (simp add: take_Cons')
      show ?thesis using 2(3,4,5-7) False Some full by (auto simp: Let_def)
    qed
  qed
qed

text \<open>What \<open>start\<close> stands for at an index.\<close>

definition run_open :: "bytes \<Rightarrow> nat \<Rightarrow> nat option \<Rightarrow> bool" where
  "run_open d i start =
     (case start of None \<Rightarrow> i = 0 \<or> \<not> printable (d ! (i - 1))
      | Some st \<Rightarrow> st < i \<and> (\<forall>k. st \<le> k \<and> k < i \<longrightarrow> printable (d ! k)) \<and> (st = 0 \<or> \<not> printable (d ! (st - 1))))"

lemma run_open_None: "run_open d i None \<Longrightarrow> \<not> string_run d s i"
  by (auto simp: run_open_def string_run_def)

lemma run_open_unique:
  assumes "run_open d i (Some st)" "string_run d s i"
  shows "s = st"
proof -
  have o: "st < i" "\<forall>k. st \<le> k \<and> k < i \<longrightarrow> printable (d ! k)" "st = 0 \<or> \<not> printable (d ! (st - 1))"
    using assms(1) by (auto simp: run_open_def)
  have r: "s < i" "\<forall>k. s \<le> k \<and> k < i \<longrightarrow> printable (d ! k)" "s = 0 \<or> \<not> printable (d ! (s - 1))"
    using assms(2) by (auto simp: string_run_def)
  have "\<not> s < st"
  proof
    assume "s < st"
    then have "s \<le> st - 1" "st - 1 < i" "st \<noteq> 0" using o(1) by linarith+
    then show False using r(2) o(3) by blast
  qed
  moreover have "\<not> st < s"
  proof
    assume "st < s"
    then have "st \<le> s - 1" "s - 1 < i" "s \<noteq> 0" using r(1) by linarith+
    then show False using o(2) r(3) by blast
  qed
  ultimately show ?thesis by simp
qed

lemma run_open_closes:
  assumes "run_open d i (Some st)" "i \<le> length d" "i = length d \<or> \<not> printable (d ! i)"
  shows "string_run d s i \<longleftrightarrow> s = st"
proof
  assume "string_run d s i"
  then show "s = st" by (rule run_open_unique [OF assms(1)])
next
  assume "s = st"
  then show "string_run d s i" using assms by (auto simp: run_open_def string_run_def)
qed

lemma string_run_end: "string_run d s e \<Longrightarrow> e \<le> length d \<and> (e < length d \<longrightarrow> \<not> printable (d ! e))"
  by (auto simp: string_run_def)

lemma runs_from_set:
  assumes "run_open d i start" "drop i d = bs" "i \<le> length d"
  shows "set (runs_from bs i start) = {(s, e). string_run d s e \<and> i \<le> e}"
  using assms
proof (induction bs i start rule: runs_from.induct)
  case (1 i start)
  then have i: "i = length d" by simp
  have e: "e = i" if "string_run d s e" "i \<le> e" for s e using string_run_end [OF that(1)] that(2) i by simp
  show ?case
  proof (cases start)
    case None
    then show ?thesis using run_open_None 1(1) e by fastforce
  next
    case (Some st)
    then have "string_run d s i \<longleftrightarrow> s = st" for s using run_open_closes 1(1) i by simp
    then show ?thesis using e Some by (auto simp: set_eq_iff)
  qed
next
  case (2 b bs i start)
  have i: "i < length d" "d ! i = b" "drop (Suc i) d = bs"
    using 2(4,5) by (metis drop_all leI list.distinct(1), metis nth_via_drop, metis drop_Suc list.sel(3) tl_drop)
  show ?case
  proof (cases "printable b")
    case True
    let ?start = "case start of None \<Rightarrow> Some i | Some st \<Rightarrow> Some st"
    have "run_open d (Suc i) ?start"
      using 2(3) True i by (cases start) (auto simp: run_open_def less_Suc_eq)
    then have "set (runs_from bs (Suc i) ?start) = {(s, e). string_run d s e \<and> Suc i \<le> e}"
      using 2(1) [OF True] i by simp
    moreover have "i \<le> e \<longleftrightarrow> Suc i \<le> e" if "string_run d s e" for s e
      using string_run_end [OF that] True i by (auto simp: le_less Suc_le_eq)
    ultimately show ?thesis using True by auto
  next
    case False
    have "run_open d (Suc i) None" using False i by (simp add: run_open_def)
    then have rest: "set (runs_from bs (Suc i) None) = {(s, e). string_run d s e \<and> Suc i \<le> e}"
      using 2(2) [OF False] i by simp
    show ?thesis
    proof (cases start)
      case None
      have "i \<le> e \<longleftrightarrow> Suc i \<le> e" if "string_run d s e" for s e
        using run_open_None 2(3) None that by (auto simp: le_less Suc_le_eq)
      then show ?thesis using False None rest by auto
    next
      case (Some st)
      have st: "string_run d s i \<longleftrightarrow> s = st" for s using run_open_closes 2(3) Some i False by simp
      have "string_run d s e \<and> i \<le> e \<longleftrightarrow> (s = st \<and> e = i) \<or> string_run d s e \<and> Suc i \<le> e" for s e
        using st [of s] by (cases "e = i") auto
      then have "{(s, e). string_run d s e \<and> i \<le> e} = insert (st, i) {(s, e). string_run d s e \<and> Suc i \<le> e}"
        by blast
      then show ?thesis by (simp add: False Some rest)
    qed
  qed
qed

lemma runs_from_sorted:
  "(case start of None \<Rightarrow> True | Some st \<Rightarrow> st < i) \<Longrightarrow>
    sorted_wrt (\<lambda>p q. snd p < fst q) (runs_from bs i start)
    \<and> (\<forall>p \<in> set (runs_from bs i start). (case start of None \<Rightarrow> i | Some st \<Rightarrow> st) \<le> fst p)"
proof (induction bs i start rule: runs_from.induct)
  case (1 i start)
  then show ?case by (cases start) auto
next
  case (2 b bs i start)
  show ?case
  proof (cases "printable b")
    case True
    then show ?thesis using 2(1) [OF True] 2(3) by (cases start) auto
  next
    case False
    then show ?thesis using 2(2) [OF False] 2(3) by (cases start) fastforce+
  qed
qed

text \<open>The strings of a file are its maximal runs of printable ASCII bytes of at least the minimal
  length, each reported once with its offset and in the order of the file, up to the result limit.\<close>

theorem extractASCII_maximal_runs:
  assumes "0 < maxRes"
  shows "\<exists>runs. sorted_wrt (\<lambda>p q. snd p < fst q) runs
    \<and> set runs = {(s, e). string_run d s e \<and> minLen \<le> e - s}
    \<and> extractASCII d minLen maxRes = take maxRes (map (\<lambda>(s, e). (s, slice d s e)) runs)"
proof (intro exI conjI)
  let ?r = "filter (\<lambda>(s, e). minLen \<le> e - s) (runs_from d 0 None)"
  show "sorted_wrt (\<lambda>p q. snd p < fst q) ?r"
    using runs_from_sorted [where start = None and i = 0 and bs = d] by (simp add: sorted_wrt_filter)
  show "set ?r = {(s, e). string_run d s e \<and> minLen \<le> e - s}"
    using runs_from_set [of d 0 None d] by (auto simp: run_open_def)
  show "extractASCII d minLen maxRes = take maxRes (map (\<lambda>(s, e). (s, slice d s e)) ?r)"
    using ascii_loop_runs [of "[]" maxRes 0 d d minLen None] assms by (simp add: extractASCII_def)
qed

subsection \<open>Comparing two files\<close>

definition diffChunkSize :: nat where
  "diffChunkSize = 64 * 1024"

text \<open>The lines shown and the number of differences.\<close>

type_synonym diff_state = "(nat \<times> 8 word \<times> 8 word) list \<times> nat"

fun diff_bytes :: "nat \<Rightarrow> nat \<Rightarrow> bytes \<Rightarrow> bytes \<Rightarrow> diff_state \<Rightarrow> diff_state" where
  "diff_bytes maxRes pos (a # bufA) (b # bufB) (shown, total_diffs) =
     diff_bytes maxRes (Suc pos) bufA bufB
       (if a \<noteq> b then (if length shown < maxRes then shown @ [(pos, a, b)] else shown, Suc total_diffs)
        else (shown, total_diffs))"
| "diff_bytes maxRes pos _ _ st = st"

function diff_loop :: "nat \<Rightarrow> bytes \<Rightarrow> bytes \<Rightarrow> nat \<Rightarrow> diff_state \<Rightarrow> diff_state" where
  "diff_loop maxRes fA fB off st =
     (let compareLen = min (length fA) (length fB) in
      if off < compareLen then
        let readLen = min diffChunkSize (compareLen - off) in
        diff_loop maxRes fA fB (off + diffChunkSize)
          (diff_bytes maxRes off (slice fA off (off + readLen)) (slice fB off (off + readLen)) st)
      else st)"
  by pat_completeness auto
termination
  by (relation "measure (\<lambda>(m, a, b, off, st). min (length a) (length b) - off)") (auto simp: diffChunkSize_def)

declare diff_loop.simps [simp del]

record binDiffReport =
  bd_sizes :: "nat \<times> nat"
  bd_sizeDiff :: "int option"
  bd_compareLen :: nat
  bd_shown :: "(nat \<times> 8 word \<times> 8 word) list"
  bd_total :: nat
  bd_cut :: bool
  bd_extra :: "(nat \<times> bool) option"

datatype binDiffError =
    PathBRequired
  | PathBNotAbsolute
  | PathBSymlink
  | PathBMissing
  | PathBDirectory
  | PathBTooLarge nat
  | CannotOpenA

text \<open>
  The second path with what the system says about it: whether it is a symbolic link, and what
  \<open>Stat\<close> finds. On Unix a cleaned path is absolute when the path starts with a slash.
\<close>

datatype statResult = StatError | StatDir | StatFile bytes

definition opBinDiff ::
    "bool \<Rightarrow> nat \<Rightarrow> bytes option \<Rightarrow> gostring \<Rightarrow> bool \<Rightarrow> statResult \<Rightarrow> int \<Rightarrow> binDiffError + binDiffReport" where
  "opBinDiff allowSymlinks maxSize openA pathB isLink statB max_results =
     (if pathB = [] then Inl PathBRequired
      else if hd pathB \<noteq> CHR ''/'' then Inl PathBNotAbsolute
      else if \<not> allowSymlinks \<and> isLink then Inl PathBSymlink
      else case statB of StatError \<Rightarrow> Inl PathBMissing
        | StatDir \<Rightarrow> Inl PathBDirectory
        | StatFile fB \<Rightarrow>
            if maxSize < length fB then Inl (PathBTooLarge (length fB))
            else case openA of None \<Rightarrow> Inl CannotOpenA
              | Some fA \<Rightarrow>
                  let maxRes = clamp_results 100 500 max_results;
                      st = diff_loop maxRes fA fB 0 ([], 0);
                      sizeA = length fA; sizeB = length fB in
                  Inr \<lparr>bd_sizes = (sizeA, sizeB),
                       bd_sizeDiff = (if sizeA \<noteq> sizeB then Some (int sizeB - int sizeA) else None),
                       bd_compareLen = min sizeA sizeB, bd_shown = fst st, bd_total = snd st,
                       bd_cut = (maxRes < snd st),
                       bd_extra = (if sizeA \<noteq> sizeB then Some (nat \<bar>int sizeA - int sizeB\<bar>, sizeB < sizeA) else None)\<rparr>)"

text \<open>The positions at which the two files differ, with both bytes.\<close>

definition differences :: "bytes \<Rightarrow> bytes \<Rightarrow> nat \<Rightarrow> nat \<Rightarrow> (nat \<times> 8 word \<times> 8 word) list" where
  "differences fA fB i j = map (\<lambda>k. (k, fA ! k, fB ! k)) (filter (\<lambda>k. fA ! k \<noteq> fB ! k) [i..<j])"

lemma diff_bytes_slices:
  assumes "i \<le> j" "j \<le> length fA" "j \<le> length fB"
  shows "diff_bytes maxRes i (slice fA i j) (slice fB i j) (take maxRes ds, n) =
    (take maxRes (ds @ differences fA fB i j), n + length (differences fA fB i j))"
  using assms
proof (induction "j - i" arbitrary: i ds n)
  case 0
  then show ?case by (simp add: slice_def differences_def)
next
  case (Suc m)
  then have ij: "i < j" "slice fA i j = fA ! i # slice fA (Suc i) j" "slice fB i j = fB ! i # slice fB (Suc i) j"
    by (simp_all add: slice_def Cons_nth_drop_Suc [symmetric] Suc_diff_Suc [symmetric])
  have up: "[i..<j] = i # [Suc i..<j]" using ij(1) by (simp add: upt_conv_Cons)
  have m: "m = j - Suc i" using Suc(2) by simp
  show ?case
  proof (cases "fA ! i = fB ! i")
    case True
    then show ?thesis
      using Suc(1) [OF m, of ds n] Suc(3-5) ij by (simp add: differences_def up)
  next
    case False
    let ?x = "(i, fA ! i, fB ! i)"
    have t: "(if length (take maxRes ds) < maxRes then take maxRes ds @ [?x] else take maxRes ds) = take maxRes (ds @ [?x])"
      by (cases "length ds < maxRes") auto
    have "diff_bytes maxRes i (slice fA i j) (slice fB i j) (take maxRes ds, n) =
        diff_bytes maxRes (Suc i) (slice fA (Suc i) j) (slice fB (Suc i) j) (take maxRes (ds @ [?x]), Suc n)"
      unfolding ij(2,3) diff_bytes.simps t using False by (simp only: if_True simp_thms)
    moreover have "differences fA fB i j = ?x # differences fA fB (Suc i) j"
      using False by (simp add: differences_def up)
    ultimately show ?thesis
      using Suc(1) [OF m, of "ds @ [?x]" "Suc n"] Suc(3-5) ij(1) by simp
  qed
qed

lemma differences_append: "i \<le> j \<Longrightarrow> j \<le> k \<Longrightarrow> differences fA fB i j @ differences fA fB j k = differences fA fB i k"
  using upt_add_eq_append [of i j "k - j"] by (simp add: differences_def)

lemma diff_loop_differences:
  "diff_loop maxRes fA fB off (take maxRes ds, n) =
    (take maxRes (ds @ differences fA fB off (min (length fA) (length fB))),
     n + length (differences fA fB off (min (length fA) (length fB))))"
proof (induction "min (length fA) (length fB) - off" arbitrary: off ds n rule: less_induct)
  case less
  let ?c = "min (length fA) (length fB)"
  show ?case
  proof (cases "off < ?c")
    case True
    let ?e = "off + min diffChunkSize (?c - off)"
    have e: "off \<le> ?e" "?e \<le> ?c" "?e \<le> length fA" "?e \<le> length fB" using True by auto
    have "?c - (off + diffChunkSize) < ?c - off" 
      by (rule diff_less_mono2) (use True in \<open>simp_all add: diffChunkSize_def\<close>)
    note ih = less [OF this, of "ds @ differences fA fB off ?e" "n + length (differences fA fB off ?e)"]
    have tail: "differences fA fB (off + diffChunkSize) ?c = differences fA fB ?e ?c"
      by (cases "diffChunkSize \<le> ?c - off") (auto simp: differences_def)
    have "diff_loop maxRes fA fB off (take maxRes ds, n) =
        diff_loop maxRes fA fB (off + diffChunkSize)
          (take maxRes (ds @ differences fA fB off ?e), n + length (differences fA fB off ?e))"
      using True diff_bytes_slices [OF e(1,3,4)] by (simp add: diff_loop.simps [of _ _ _ off] Let_def)
    then have "diff_loop maxRes fA fB off (take maxRes ds, n) =
        (take maxRes (ds @ differences fA fB off ?e @ differences fA fB ?e ?c),
         n + length (differences fA fB off ?e @ differences fA fB ?e ?c))"
      unfolding ih tail by (simp only: append_assoc length_append add.assoc)
    then show ?thesis unfolding differences_append [OF e(1,2)] .
  next
    case False
    then have "?c \<le> off" by linarith
    then have "differences fA fB off ?c = []" by (simp only: differences_def upt_conv_Nil filter.simps list.map)
    then show ?thesis
      unfolding diff_loop.simps [of maxRes fA fB off] Let_def
      using False by (simp only: if_False append_Nil2 list.size add_0_right)
  qed
qed

text \<open>C40: The comparison of two files shows the first positions at which their common part differs, in
  order and with both bytes, and counts all of them, whatever the size of the files and however they are
  read in chunks; the report is marked as cut exactly when it does not show all of them.\<close>

theorem bin_diff_exact:
  assumes "opBinDiff allowSymlinks maxSize (Some fA) pathB isLink (StatFile fB) max_results = Inr r"
  shows "bd_shown r = take (clamp_results 100 500 max_results) (differences fA fB 0 (bd_compareLen r))
    \<and> bd_total r = length (differences fA fB 0 (bd_compareLen r))
    \<and> (bd_cut r \<longleftrightarrow> length (bd_shown r) < bd_total r)
    \<and> (bd_total r = 0 \<and> bd_extra r = None \<longleftrightarrow> fA = fB)"
proof -
  let ?c = "min (length fA) (length fB)"
  have l: "diff_loop m fA fB 0 ([], 0) = (take m (differences fA fB 0 ?c), length (differences fA fB 0 ?c))" for m
    using diff_loop_differences [of m fA fB 0 "[]" 0] by simp
  have "length (differences fA fB 0 ?c) = 0 \<and> length fA = length fB \<longleftrightarrow> fA = fB"
    by (auto simp: differences_def filter_empty_conv intro: nth_equalityI)
  then show ?thesis
    using assms by (auto simp: opBinDiff_def Let_def l split: if_splits)
qed

lemma bin_diff_exact_witness:
  "\<exists>r. opBinDiff False 100 (Some [1, 2, 3]) ''/b'' False (StatFile [1, 7]) 0 = Inr r
    \<and> bd_shown r = [(1, 2, 7)] \<and> bd_total r = 1 \<and> \<not> bd_cut r"
proof -
  obtain r where r: "opBinDiff False 100 (Some [1, 2, 3]) ''/b'' False (StatFile [1, 7]) 0 = Inr r" "bd_compareLen r = 2"
    by (simp add: opBinDiff_def Let_def)
  have "differences [1, 2, 3] [1, 7] 0 2 = [(1, 2, 7)]" by code_simp
  with bin_diff_exact [OF r(1)] r show ?thesis by (simp add: clamp_results_def)
qed

subsection \<open>Hex dump\<close>

definition bytesPerLine :: nat where
  "bytesPerLine = 16"

datatype dumpError =
    DumpVA peError
  | NegativeOffset
  | CannotReadAt int

text \<open>The rows of a dump: the position in the buffer and the bytes of the row.\<close>

function dump_rows :: "nat \<Rightarrow> bytes \<Rightarrow> (nat \<times> bytes) list" where
  "dump_rows i buf = (if buf = [] then [] else (i, take bytesPerLine buf) # dump_rows (i + bytesPerLine) (drop bytesPerLine buf))"
  by auto
termination by (relation "measure (\<lambda>(i, buf). length buf)") (auto simp: bytesPerLine_def)

declare dump_rows.simps [simp del]

definition dump_hex :: "bytes \<Rightarrow> gostring list" where
  "dump_hex row = map (\<lambda>b. fmt_x 2 (unat b)) row @ replicate (bytesPerLine - length row) [SP, SP]"

definition dump_line :: "uint64 \<Rightarrow> nat \<times> bytes \<Rightarrow> gostring" where
  "dump_line base row =
     (let hexParts = dump_hex (snd row) in
      ''0x'' @ fmt_x 8 (unat (base + word_of_nat (fst row))) @ ''  '' @ Join (take 8 hexParts) [SP] @ ''  '' @
      Join (drop 8 hexParts) [SP] @ ''  |'' @
      map (\<lambda>b. if printable b then char_of (unat b) else CHR ''.'') (snd row) @ ''|'' @ [LF])"

text \<open>\<open>addr = displayBase + uint64(offset) + uint64(i)\<close>; \<open>resolved\<close> is given when an address was asked for.\<close>

definition opHexdump ::
    "bytes \<Rightarrow> peFile option \<Rightarrow> int \<Rightarrow> gostring \<Rightarrow> int \<Rightarrow> dumpError + gostring list \<times> nat \<times> uint64 \<times> int" where
  "opHexdump content opened offset_arg va length_arg =
     (case (if va = [] then Inr (offset_arg, 0)
            else case resolveVA opened va of Inl e \<Rightarrow> Inl (DumpVA e)
              | Inr r \<Rightarrow> Inr (int (unat (vr_FileOffset r)), vr_DisplayBase r)) of
        Inl e \<Rightarrow> Inl e
      | Inr (offset, displayBase) \<Rightarrow>
          if offset < 0 then Inl NegativeOffset
          else let len = (if length_arg \<le> 0 then 256 else min 4096 (nat length_arg));
                   buf = take len (drop (nat offset) content) in
            if buf = [] then Inl (CannotReadAt offset)
            else Inr (map (dump_line (displayBase + word_of_int offset)) (dump_rows 0 buf), length buf, displayBase, offset))"

text \<open>The rows hold the buffer without gaps, sixteen bytes each but for the last, at their positions.\<close>

lemma dump_rows_cover:
  "concat (map snd (dump_rows i buf)) = buf
    \<and> (\<forall>k < length (dump_rows i buf). fst (dump_rows i buf ! k) = i + 16 * k
        \<and> snd (dump_rows i buf ! k) = take 16 (drop (16 * k) buf))
    \<and> length (dump_rows i buf) = (length buf + 15) div 16"
proof (induction i buf rule: dump_rows.induct)
  case (1 i buf)
  show ?case
  proof (cases "buf = []")
    case False
    have d: "dump_rows i buf = (i, take 16 buf) # dump_rows (i + 16) (drop 16 buf)"
      using False by (simp add: dump_rows.simps [of i buf] bytesPerLine_def)
    note ih = 1 [OF False, unfolded bytesPerLine_def]
    have "(length buf + 15) div 16 = Suc ((length (drop 16 buf) + 15) div 16)"
      using False by (cases "16 \<le> length buf") (auto simp: div_if Suc_le_eq [symmetric] Suc_diff_le)
    moreover have "fst (dump_rows i buf ! k) = i + 16 * k \<and> snd (dump_rows i buf ! k) = take 16 (drop (16 * k) buf)"
      if "k < length (dump_rows i buf)" for k
      using that ih unfolding d by (cases k) (auto simp: add.commute)
    ultimately show ?thesis using ih unfolding d by simp
  qed (simp add: dump_rows.simps [of i])
qed

text \<open>Every line of a dump shows its address, and the addresses of a resolved dump start at the one asked for.\<close>

lemma hexdump_of_va:
  assumes "opHexdump content opened offset va n = Inr (report, m, base, off)" "va \<noteq> []"
  shows "\<exists>start. parseHexAddr va = Inr start
    \<and> report = map (dump_line start) (dump_rows 0 (take m (drop (nat off) content)))"
proof -
  obtain r where r: "resolveVA opened va = Inr r"
    using assms by (auto simp: opHexdump_def split: sum.splits)
  have "word_of_int (int (unat (vr_FileOffset r))) = (ucast (vr_FileOffset r) :: uint64)"
    by (intro word_unat_eq_iff [THEN iffD2]) (simp add: unsigned_ucast_eq unat_of_nat unsigned_of_nat take_bit_nat_eq_self)
  moreover have "take (min (length content - a) k) (drop a content) = take k (drop a content)" for a k
    by (simp add: min_def)
  ultimately show ?thesis
    using assms r resolveVA_display(1) [OF r]
    by (auto simp: opHexdump_def Let_def split: if_splits sum.splits)
qed

end
