(* ===== verification/Pe_Tables.thy ===== *)
theory Pe_Tables
  imports Pe_Image
begin

unbundle bit_operations_syntax

text \<open>
  Three kinds of table in a PE image: the exception table, which the lookups of
  tools/analyze/pdata.go search for the function around an address; the switch tables that
  jumptable.go feeds into the control flow walk; and the Rich header of rich.go. The theorems show
  that both exception table searches find the entry that contains the address and no other, that
  resolved case targets are offsets of the executable section, and that a table or a header laid out
  by the linker is read back entry for entry.
\<close>

subsection \<open>The exception table\<close>

record runtimeFunction =
  BeginAddress :: uint32
  EndAddress :: uint32
  UnwindData :: uint32

text \<open>\<open>sort.Search\<close> from the standard library.\<close>

function search_loop :: "(nat \<Rightarrow> bool) \<Rightarrow> nat \<Rightarrow> nat \<Rightarrow> nat" where
  "search_loop P i j =
     (if i < j then let h = (i + j) div 2 in if P h then search_loop P i h else search_loop P (Suc h) j else i)"
  by auto
termination by (relation "measure (\<lambda>(P, i, j). j - i)") auto

declare search_loop.simps [simp del]

definition sort_Search :: "nat \<Rightarrow> (nat \<Rightarrow> bool) \<Rightarrow> nat" where
  "sort_Search n P = search_loop P 0 n"

definition pdata_word :: "bytes \<Rightarrow> nat \<Rightarrow> uint32" where
  "pdata_word d off = Uint32 LittleEndian (drop off d)"

definition pdata_entry :: "bytes \<Rightarrow> nat \<Rightarrow> runtimeFunction" where
  "pdata_entry d i = \<lparr>BeginAddress = pdata_word d (i * 12), EndAddress = pdata_word d (i * 12 + 4),
                      UnwindData = pdata_word d (i * 12 + 8)\<rparr>"

text \<open>The hand-written search of \<open>pdataFuncEndOffset\<close>; its indices stay below the table's 32-bit size.\<close>

function pdata_loop :: "bytes \<Rightarrow> uint32 \<Rightarrow> nat \<Rightarrow> nat \<Rightarrow> nat" where
  "pdata_loop d q lo hi =
     (if lo < hi then
        let mid = lo + (hi - lo) div 2 in
        if q < pdata_word d (mid * 12) then pdata_loop d q lo mid else pdata_loop d q (mid + 1) hi
      else lo)"
  by auto
termination by (relation "measure (\<lambda>(d, q, lo, hi). hi - lo)") auto

declare pdata_loop.simps [simp del]

text \<open>The raw bytes of the table, cut to the section's data.\<close>

definition pdata_bytes :: "peFile \<Rightarrow> uint32 \<times> uint32 \<Rightarrow> bytes option" where
  "pdata_bytes f excDir =
     (case find (in_rva (fst excDir)) (pe_Sections f) of
        None \<Rightarrow> Some []
      | Some s \<Rightarrow>
          (case sec_Data s of None \<Rightarrow> None
           | Some d \<Rightarrow>
               let off = unat (fst excDir - sec_VirtualAddress s) in
               if length d \<le> off then None
               else Some (slice d off (min (off + unat (snd excDir)) (length d)))))"

definition excDirectory :: "peFile \<Rightarrow> (uint32 \<times> uint32) option" where
  "excDirectory f =
     (case pe_OptionalHeader f of OptionalHeader64 _ dirs \<Rightarrow> if length dirs \<le> 3 then None else Some (dirs ! 3)
      | _ \<Rightarrow> None)"

definition pdata_lookup :: "bytes \<Rightarrow> uint32 \<Rightarrow> uint32 option" where
  "pdata_lookup d q =
     (if length d < 12 then None
      else let lo = pdata_loop d q 0 (length d div 12) in
        if lo = 0 then None
        else let begin = pdata_word d ((lo - 1) * 12); endRVA = pdata_word d ((lo - 1) * 12 + 4) in
          if endRVA \<le> begin \<or> q < begin \<or> endRVA \<le> q then None else Some endRVA)"

definition pdataFuncEndOffset :: "peFile \<Rightarrow> uint32 \<Rightarrow> uint32 option" where
  "pdataFuncEndOffset f queryRVA =
     (case excDirectory f of None \<Rightarrow> None
      | Some excDir \<Rightarrow>
          if fst excDir = 0 \<or> snd excDir = 0 then None
          else if snd excDir < 12 then None
          else case pdata_bytes f excDir of None \<Rightarrow> None
            | Some d \<Rightarrow>
                (case pdata_lookup d queryRVA of None \<Rightarrow> None
                 | Some endRVA \<Rightarrow>
                     (case rvaToFileOffset f endRVA of Inl _ \<Rightarrow> None | Inr (off, _) \<Rightarrow> Some off)))"

definition peHasPdata :: "peFile \<Rightarrow> bool" where
  "peHasPdata f = (case excDirectory f of None \<Rightarrow> False | Some exc \<Rightarrow> fst exc \<noteq> 0 \<and> 12 \<le> snd exc)"

text \<open>The lookup of \<open>opFunctionAt\<close>: entries whose end is not after their begin are dropped first.\<close>

definition pdata_entries :: "bytes \<Rightarrow> runtimeFunction list" where
  "pdata_entries d =
     filter (\<lambda>e. \<not> EndAddress e \<le> BeginAddress e) (map (pdata_entry d) [0..<length d div 12])"

datatype functionAtResult =
    NoValidEntries
  | BeforeAll runtimeFunction
  | BetweenFunctions runtimeFunction "runtimeFunction option"
  | FunctionEntry runtimeFunction

definition function_entry :: "runtimeFunction list \<Rightarrow> uint32 \<Rightarrow> functionAtResult" where
  "function_entry entries q =
     (if entries = [] then NoValidEntries
      else let idx = sort_Search (length entries) (\<lambda>i. q < BeginAddress (entries ! i)) in
        if idx = 0 then BeforeAll (entries ! 0)
        else let entry = entries ! (idx - 1) in
          if q < BeginAddress entry \<or> EndAddress entry \<le> q
          then BetweenFunctions entry (if idx < length entries then Some (entries ! idx) else None)
          else FunctionEntry entry)"

definition maxPdataEntries :: nat where
  "maxPdataEntries = 500000"

datatype functionAtError =
    VaRequiredError
  | InvalidVaError gostring
  | NotPEError
  | BelowBaseError uint64 uint64
  | TooFarError uint64 uint64
  | NoOptionalHeaderError
  | NoPdataError
  | EmptyPdataError uint32
  | CannotLocatePdata
  | CannotReadPdata uint32 nat
  | LookupError functionAtResult

text \<open>
  \<open>opFunctionAt\<close> up to the entry it prints, for an image with an exception table: \<open>content\<close> is the
  file, of which \<open>ReadAt\<close> returns what is there.
\<close>

definition functionAt_pdata :: "peFile \<Rightarrow> bytes \<Rightarrow> uint32 \<Rightarrow> functionAtError + runtimeFunction" where
  "functionAt_pdata f content queryRVA =
     (case pe_OptionalHeader f of
        OptionalHeader64 _ dirs \<Rightarrow>
          let excDir = (if 3 < length dirs then dirs ! 3 else (0, 0)) in
          if fst excDir = 0 \<or> snd excDir = 0 then Inl NoPdataError
          else let entryCount = unat (snd excDir) div 12 in
            if entryCount = 0 then Inl (EmptyPdataError (snd excDir))
            else case rvaToFileOffset f (fst excDir) of
                Inl _ \<Rightarrow> Inl CannotLocatePdata
              | Inr (fileOff, _) \<Rightarrow>
                  let pdataSize = min entryCount maxPdataEntries * 12;
                      d = take pdataSize (drop (unat fileOff) content) in
                  if d = [] then Inl (CannotReadPdata fileOff pdataSize)
                  else case function_entry (pdata_entries d) queryRVA of
                      FunctionEntry e \<Rightarrow> Inr e
                    | r \<Rightarrow> Inl (LookupError r)
      | _ \<Rightarrow> Inl NoOptionalHeaderError)"

definition function_at_va ::
    "gostring \<Rightarrow> gostring \<Rightarrow> peFile option \<Rightarrow> functionAtError + peFile \<times> uint64 \<times> uint32" where
  "function_at_va va_arg target_va opened =
     (let vaStr = (if va_arg = [] \<and> target_va \<noteq> [] then target_va else va_arg) in
      if vaStr = [] then Inl VaRequiredError
      else case parseHexAddr vaStr of Inl _ \<Rightarrow> Inl (InvalidVaError vaStr)
        | Inr va \<Rightarrow>
            (case opened of None \<Rightarrow> Inl NotPEError
             | Some f \<Rightarrow>
                 if va < peImageBase f then Inl (BelowBaseError va (peImageBase f))
                 else if 0xFFFFFFFF < va - peImageBase f then Inl (TooFarError va (peImageBase f))
                 else Inr (f, va, ucast (va - peImageBase f))))"

subsection \<open>Searching the exception table\<close>

lemma search_loop_split:
  assumes "\<And>a b. i \<le> a \<Longrightarrow> a \<le> b \<Longrightarrow> b < j \<Longrightarrow> P a \<Longrightarrow> P b" "i \<le> j"
  shows "i \<le> search_loop P i j \<and> search_loop P i j \<le> j
    \<and> (\<forall>k. i \<le> k \<and> k < search_loop P i j \<longrightarrow> \<not> P k) \<and> (\<forall>k. search_loop P i j \<le> k \<and> k < j \<longrightarrow> P k)"
  using assms
proof (induction P i j rule: search_loop.induct)
  case (1 P i j)
  define h where "h = (i + j) div 2"
  show ?case
  proof (cases "i < j")
    case True
    then have h: "i \<le> h" "h < j" by (auto simp: h_def)
    show ?thesis
    proof (cases "P h")
      case P: True
      have up: "P k" if "h \<le> k" "k < j" for k using 1(3) [of h k] P h that by blast
      have r: "search_loop P i j = search_loop P i h"
        using True P by (simp add: search_loop.simps [of P i j] h_def Let_def)
      have "i \<le> search_loop P i h \<and> search_loop P i h \<le> h
        \<and> (\<forall>k. i \<le> k \<and> k < search_loop P i h \<longrightarrow> \<not> P k) \<and> (\<forall>k. search_loop P i h \<le> k \<and> k < h \<longrightarrow> P k)"
      proof (rule 1(1) [OF True h_def P])
        show "P b" if "i \<le> a" "a \<le> b" "b < h" "P a" for a b
          by (rule 1(3) [OF that(1,2) _ that(4)]) (use that h in simp)
      qed (use h in simp)
      moreover have "P k" if "search_loop P i h \<le> k" "k < j" for k
        using up [of k] calculation that by (cases "h \<le> k") auto
      ultimately show ?thesis using h unfolding r by simp
    next
      case nP: False
      have down: "\<not> P k" if "i \<le> k" "k < Suc h" for k using 1(3) [of k h] nP h that by auto
      have r: "search_loop P i j = search_loop P (Suc h) j"
        using True nP by (simp add: search_loop.simps [of P i j] h_def Let_def)
      have "Suc h \<le> search_loop P (Suc h) j \<and> search_loop P (Suc h) j \<le> j
        \<and> (\<forall>k. Suc h \<le> k \<and> k < search_loop P (Suc h) j \<longrightarrow> \<not> P k) \<and> (\<forall>k. search_loop P (Suc h) j \<le> k \<and> k < j \<longrightarrow> P k)"
      proof (rule 1(2) [OF True h_def nP])
        show "P b" if "Suc h \<le> a" "a \<le> b" "b < j" "P a" for a b
          by (rule 1(3) [OF _ that(2,3,4)]) (use that h in simp)
      qed (use h in simp)
      moreover have "\<not> P k" if "i \<le> k" "k < search_loop P (Suc h) j" for k
        using down [of k] calculation that by (cases "Suc h \<le> k") auto
      ultimately show ?thesis using h unfolding r by simp
    qed
  qed (use 1(4) in \<open>auto simp: search_loop.simps [of P i j] search_loop.simps [of P j j]\<close>)
qed

lemma pdata_loop_search: "pdata_loop d q lo hi = search_loop (\<lambda>i. q < pdata_word d (i * 12)) lo hi"
proof (induction d q lo hi rule: pdata_loop.induct)
  case (1 d q lo hi)
  have "lo + (hi - lo) div 2 = (lo + hi) div 2" if "lo < hi"
    using that by linarith
  then show ?case
    using 1 by (simp add: pdata_loop.simps [of d q lo hi] search_loop.simps [of _ lo hi] Let_def)
qed

text \<open>A table as a linker writes it: valid entries in order, none reaching into the next.\<close>

definition table_ordered :: "runtimeFunction list \<Rightarrow> bool" where
  "table_ordered es \<longleftrightarrow>
     sorted_wrt (\<lambda>a b. EndAddress a \<le> BeginAddress b) es \<and> list_all (\<lambda>e. BeginAddress e < EndAddress e) es"

definition covers :: "runtimeFunction \<Rightarrow> uint32 \<Rightarrow> bool" where
  "covers e q \<longleftrightarrow> BeginAddress e \<le> q \<and> q < EndAddress e"

lemma table_ordered_nth:
  assumes "table_ordered es" "a < b" "b < length es"
  shows "EndAddress (es ! a) \<le> BeginAddress (es ! b)" "BeginAddress (es ! a) < BeginAddress (es ! b)"
proof -
  show e: "EndAddress (es ! a) \<le> BeginAddress (es ! b)"
    using assms by (auto simp: table_ordered_def sorted_wrt_iff_nth_less)
  have "BeginAddress (es ! a) < EndAddress (es ! a)"
    using assms by (auto simp: table_ordered_def list_all_length)
  then show "BeginAddress (es ! a) < BeginAddress (es ! b)" using e by simp
qed

lemma table_search:
  fixes es q
  defines "idx \<equiv> search_loop (\<lambda>i. q < BeginAddress (es ! i)) 0 (length es)"
  assumes "table_ordered es"
  shows "idx \<le> length es" "k < length es \<Longrightarrow> q < BeginAddress (es ! k) \<longleftrightarrow> idx \<le> k"
proof -
  have mono: "q < BeginAddress (es ! b)" if "a \<le> b" "b < length es" "q < BeginAddress (es ! a)" for a b
    using table_ordered_nth(2) [OF assms(2), of a b] that by (cases "a = b") auto
  have "0 \<le> idx \<and> idx \<le> length es \<and> (\<forall>k. 0 \<le> k \<and> k < idx \<longrightarrow> \<not> q < BeginAddress (es ! k))
      \<and> (\<forall>k. idx \<le> k \<and> k < length es \<longrightarrow> q < BeginAddress (es ! k))"
    unfolding idx_def by (rule search_loop_split) (use mono in simp_all)
  then show "idx \<le> length es" "k < length es \<Longrightarrow> q < BeginAddress (es ! k) \<longleftrightarrow> idx \<le> k"
    by (auto simp: not_le [symmetric])
qed

text \<open>The entry left of the split is the only one that can contain the address.\<close>

lemma table_covering:
  fixes es q
  defines "idx \<equiv> search_loop (\<lambda>i. q < BeginAddress (es ! i)) 0 (length es)"
  assumes "table_ordered es" "k < length es" "covers (es ! k) q"
  shows "k = idx - 1 \<and> 0 < idx"
proof -
  note ts = table_search [OF assms(2), where q = q, folded idx_def]
  have k: "k < idx" using ts(2) [OF assms(3)] assms(4) by (auto simp: covers_def not_le [symmetric])
  moreover have "\<not> k < idx - 1"
  proof
    assume lt: "k < idx - 1"
    then have "idx - 1 < length es" using ts(1) k by linarith
    then have "EndAddress (es ! k) \<le> BeginAddress (es ! (idx - 1))" "BeginAddress (es ! (idx - 1)) \<le> q"
      using table_ordered_nth(1) [OF assms(2) lt] ts(2) [of "idx - 1"] lt by auto
    then show False using assms(4) by (auto simp: covers_def)
  qed
  ultimately show ?thesis by linarith
qed

lemma function_entry_iff:
  assumes "table_ordered es"
  shows "function_entry es q = FunctionEntry e \<longleftrightarrow> e \<in> set es \<and> covers e q"
proof
  assume "function_entry es q = FunctionEntry e"
  then show "e \<in> set es \<and> covers e q"
    using table_search(1) [OF assms, where q = q]
    by (fastforce simp: function_entry_def sort_Search_def Let_def covers_def not_less not_le split: if_splits)
next
  assume "e \<in> set es \<and> covers e q"
  then obtain k where k: "k < length es" "e = es ! k" "covers (es ! k) q" by (auto simp: in_set_conv_nth)
  show "function_entry es q = FunctionEntry e"
    using table_covering [OF assms k(1,3)] k by (auto simp: function_entry_def sort_Search_def Let_def covers_def)
qed

lemma pdata_entry_sel [simp]:
  "BeginAddress (pdata_entry d i) = pdata_word d (i * 12)" "EndAddress (pdata_entry d i) = pdata_word d (i * 12 + 4)"
  by (simp_all add: pdata_entry_def)

lemma search_loop_cong: "(\<And>k. i \<le> k \<Longrightarrow> k < j \<Longrightarrow> P k = Q k) \<Longrightarrow> search_loop P i j = search_loop Q i j"
proof (induction P i j rule: search_loop.induct)
  case (1 P i j)
  show ?case
  proof (cases "i < j")
    case True
    then have h: "i \<le> (i + j) div 2" "(i + j) div 2 < j" by auto
    show ?thesis
      using 1(1,2) [OF True refl] 1(3) h True
      by (auto simp: search_loop.simps [of P i j] search_loop.simps [of Q i j] Let_def)
  qed (simp add: search_loop.simps [of P i j] search_loop.simps [of Q i j])
qed

lemma pdata_lookup_iff:
  assumes "table_ordered (map (pdata_entry d) [0..<length d div 12])"
  shows "pdata_lookup d q = Some r \<longleftrightarrow> (\<exists>i < length d div 12. covers (pdata_entry d i) q \<and> EndAddress (pdata_entry d i) = r)"
proof -
  let ?n = "length d div 12" and ?es = "map (pdata_entry d) [0..<length d div 12]"
  let ?idx = "search_loop (\<lambda>i. q < BeginAddress (?es ! i)) 0 (length ?es)"
  have idx: "pdata_loop d q 0 ?n = ?idx"
    unfolding pdata_loop_search by (simp, rule search_loop_cong) simp
  have le: "?idx \<le> ?n" using table_search(1) [OF assms, where q = q] by simp
  have cov: "i = ?idx - 1 \<and> 0 < ?idx" if "i < ?n" "covers (pdata_entry d i) q" for i
    using table_covering [OF assms, where k = i and q = q] that by simp
  have ge: "\<not> length d < 12" if "0 < ?n" using that by (simp add: div_greater_zero_iff)
  show ?thesis
  proof
    assume a: "pdata_lookup d q = Some r"
    then have "0 < ?idx" "covers (pdata_entry d (?idx - 1)) q" "EndAddress (pdata_entry d (?idx - 1)) = r"
      by (auto simp: pdata_lookup_def idx Let_def covers_def not_le not_less split: if_splits)
    moreover from this(1) have "?idx - 1 < ?n" using le by linarith
    ultimately show "\<exists>i < ?n. covers (pdata_entry d i) q \<and> EndAddress (pdata_entry d i) = r" by blast
  next
    assume "\<exists>i < ?n. covers (pdata_entry d i) q \<and> EndAddress (pdata_entry d i) = r"
    then obtain i where i: "i < ?n" "covers (pdata_entry d i) q" "EndAddress (pdata_entry d i) = r" by blast
    have "\<not> length d < 12" using ge i(1) by linarith
    then show "pdata_lookup d q = Some r"
      using cov [OF i(1,2)] i by (auto simp: pdata_lookup_def idx Let_def covers_def)
  qed
qed

text \<open>C18: In an ordered exception table the lookup of function_at returns exactly the entry whose range
  contains the address, and the hand-written search behind the other operations returns the end of the
  same entry.\<close>

theorem pdata_searches_exact:
  assumes "table_ordered (map (pdata_entry d) [0..<length d div 12])"
  shows "(function_entry (pdata_entries d) q = FunctionEntry e \<longleftrightarrow>
      (\<exists>i < length d div 12. e = pdata_entry d i \<and> covers e q))
    \<and> (pdata_lookup d q = Some r \<longleftrightarrow>
      (\<exists>e. function_entry (pdata_entries d) q = FunctionEntry e \<and> EndAddress e = r))"
proof -
  have "list_all (\<lambda>e. \<not> EndAddress e \<le> BeginAddress e) (map (pdata_entry d) [0..<length d div 12])"
    using assms by (simp add: table_ordered_def not_le)
  then have es: "pdata_entries d = map (pdata_entry d) [0..<length d div 12]"
    unfolding pdata_entries_def by (simp add: filter_id_conv list_all_iff)
  have f: "function_entry (pdata_entries d) q = FunctionEntry e \<longleftrightarrow>
      (\<exists>i < length d div 12. e = pdata_entry d i \<and> covers e q)" for e
    using function_entry_iff [OF assms, of q e] by (auto simp: es)
  show ?thesis
    unfolding pdata_lookup_iff [OF assms] f by auto
qed

definition sample_pdata :: bytes where
  "sample_pdata = [0x00, 0x10, 0, 0, 0x08, 0x10, 0, 0, 0, 0, 0, 0,  0x08, 0x10, 0, 0, 0x10, 0x10, 0, 0, 0, 0, 0, 0]"

lemma pdata_searches_exact_witness:
  "function_entry (pdata_entries sample_pdata) 0x1009 = FunctionEntry \<lparr>BeginAddress = 0x1008, EndAddress = 0x1010, UnwindData = 0\<rparr>
    \<and> pdata_lookup sample_pdata 0x1009 = Some 0x1010"
proof -
  have "table_ordered (map (pdata_entry sample_pdata) [0..<length sample_pdata div 12])" by code_simp
  note ex = pdata_searches_exact [OF this, where q = "0x1009"]
  have e: "function_entry (pdata_entries sample_pdata) 0x1009 =
      FunctionEntry \<lparr>BeginAddress = 0x1008, EndAddress = 0x1010, UnwindData = 0\<rparr>"
    by code_simp
  have "pdata_lookup sample_pdata 0x1009 = Some 0x1010"
    unfolding conjunct2 [OF ex [where r = "0x1010"]] by (rule exI, rule conjI, rule e) simp
  with e show ?thesis by blast
qed

text \<open>
  The end of a function is exclusive, but \<open>pdataFuncEndOffset\<close> translates it as an address of the
  image: when the last function of a section ends with the section, the lookup fails, and when another
  section starts there, the answer is an offset of that section.
\<close>

definition tail_image :: peFile where
  "tail_image =
     (let sec = (\<lambda>nm va off d. \<lparr>sec_Name = nm, sec_VirtualAddress = va, sec_VirtualSize = of_nat (length d), sec_Offset = off,
                    sec_Size = of_nat (length d), sec_Characteristics = 0, sec_Data = Some d\<rparr>) in
      \<lparr>pe_Machine = 0x8664, pe_OptionalHeader = OptionalHeader64 0x1000 [(0, 0), (0, 0), (0, 0), (0x2000, 24)],
       pe_Sections = [sec ''.text'' 0x1000 0x400 (replicate 16 0), sec ''.pdata'' 0x2000 0x600 sample_pdata]\<rparr>)"

lemma tail_image_pdata:
  "excDirectory tail_image = Some (0x2000, 24)" "pdata_bytes tail_image (0x2000, 24) = Some sample_pdata"
  by code_simp+

lemma pdata_end_of_section:
  "pdata_lookup sample_pdata 0x1009 = Some 0x1010" "pdataFuncEndOffset tail_image 0x1009 = None"
  "pdata_lookup sample_pdata 0x1004 = Some 0x1008" "pdataFuncEndOffset tail_image 0x1004 = Some 0x408"
proof -
  show l: "pdata_lookup sample_pdata 0x1009 = Some 0x1010" "pdata_lookup sample_pdata 0x1004 = Some 0x1008"
    by code_simp+
  have r: "rvaToFileOffset tail_image 0x1010 = Inl (RvaNotFound 0x1010)"
    "rvaToFileOffset tail_image 0x1008 = Inr (0x408, ''.text'')"
    by code_simp+
  show "pdataFuncEndOffset tail_image 0x1009 = None" "pdataFuncEndOffset tail_image 0x1004 = Some 0x408"
    by (simp_all add: pdataFuncEndOffset_def tail_image_pdata l r)
qed

subsection \<open>Switch tables\<close>

text \<open>The fields of a decoded instruction that the resolver looks at.\<close>

datatype x86Arg = MemArg nat nat nat int | OtherArg

record x86Inst =
  inst_isJMP :: bool
  inst_Args :: "x86Arg list"

record tableSection =
  ts_rva :: uint32
  ts_data :: bytes

definition maxJumpTableEntries :: nat where
  "maxJumpTableEntries = 1024"

fun jt_loop :: "bytes \<Rightarrow> uint64 \<Rightarrow> uint64 \<Rightarrow> uint64 \<Rightarrow> nat \<Rightarrow> nat \<Rightarrow> nat list" where
  "jt_loop tdata base execLo execHi 0 p = []"
| "jt_loop tdata base execLo execHi (Suc left) p =
     (if length tdata < p + 4 then []
      else let caseVA = ucast (Uint32 LittleEndian (drop p tdata)) in
        if caseVA < base then []
        else let crva = caseVA - base in
          if crva < execLo \<or> execHi \<le> crva then []
          else unat (crva - execLo) # jt_loop tdata base execLo execHi left (p + 4))"

definition in_table :: "uint64 \<Rightarrow> tableSection \<Rightarrow> bool" where
  "in_table trva ts \<longleftrightarrow> ucast (ts_rva ts) \<le> trva \<and> trva < ucast (ts_rva ts) + of_nat (length (ts_data ts))"

definition makeJumpTableResolver ::
    "tableSection list \<Rightarrow> bytes \<Rightarrow> uint32 \<Rightarrow> uint64 \<Rightarrow> x86Inst \<Rightarrow> nat list" where
  "makeJumpTableResolver tableSecs execData execRVA imageBase inst =
     (if \<not> inst_isJMP inst \<or> inst_Args inst = [] then []
      else case inst_Args inst ! 0 of OtherArg \<Rightarrow> []
        | MemArg scale index mbase disp \<Rightarrow>
            if scale \<noteq> 4 \<or> index = 0 \<or> mbase \<noteq> 0 then []
            else let tableVA = ucast (word_of_int disp :: uint32) in
              if tableVA < imageBase then []
              else let trva = tableVA - imageBase in
                (case find (in_table trva) tableSecs of None \<Rightarrow> []
                 | Some ts \<Rightarrow>
                     jt_loop (ts_data ts) imageBase (ucast execRVA) (ucast execRVA + of_nat (length execData))
                       maxJumpTableEntries (unat (trva - ucast (ts_rva ts)))))"

text \<open>The address a compiler stores for the case at offset \<open>c\<close> of the code section.\<close>

definition jt_word :: "uint64 \<Rightarrow> uint32 \<Rightarrow> nat \<Rightarrow> bytes" where
  "jt_word base execRVA c = PutUint32 LittleEndian (of_nat (unat base + unat execRVA + c))"

definition is_case :: "uint64 \<Rightarrow> uint32 \<Rightarrow> nat \<Rightarrow> uint32 \<Rightarrow> bool" where
  "is_case base execRVA n w \<longleftrightarrow> unat base + unat execRVA \<le> unat w \<and> unat w < unat base + unat execRVA + n"

lemma unat_ucast32 [simp]: "unat (ucast (w :: uint32) :: uint64) = unat w"
  using unat_less [of w] by (simp add: unsigned_ucast_eq take_bit_nat_eq_self)

lemma exec_end:
  assumes "n < 2 ^ 63"
  shows "unat (ucast (r :: uint32) + of_nat n :: uint64) = unat r + n"
  using assms unat_less [of r] by (simp add: unat_word_ariths unat_of_nat)

lemma case_test:
  assumes "n < 2 ^ 63"
  shows "\<not> ucast (w :: uint32) < base \<and> \<not> (ucast w - base < ucast r \<or> ucast r + of_nat n \<le> ucast w - base)
      \<longleftrightarrow> is_case base r n w" (is "?L \<longleftrightarrow> _")
    and "is_case base r n w \<Longrightarrow> unat (ucast w - base - ucast (r :: uint32)) = unat w - unat base - unat r"
proof -
  have e: "unat (ucast r + of_nat n :: uint64) = unat r + n" by (rule exec_end [OF assms])
  have sub: "unat (ucast w - base) = unat w - unat base" if "base \<le> ucast w"
    using unat_sub [OF that] by simp
  show "?L \<longleftrightarrow> is_case base r n w"
    using sub e by (cases "base \<le> ucast w") (auto simp: is_case_def word_le_nat_alt word_less_nat_alt)
  assume c: "is_case base r n w"
  then have b: "base \<le> ucast w" by (simp add: is_case_def word_le_nat_alt)
  have "ucast r \<le> ucast w - base" using c sub [OF b] by (auto simp: is_case_def word_le_nat_alt)
  then show "unat (ucast w - base - ucast r) = unat w - unat base - unat r"
    using unat_sub [of "ucast r" "ucast w - base"] sub [OF b] by simp
qed

lemma jt_loop_step:
  assumes "n < 2 ^ 63"
  shows "jt_loop tdata base (ucast r) (ucast (r :: uint32) + of_nat n) (Suc left) p =
    (if length tdata < p + 4 then []
     else let w = Uint32 LittleEndian (drop p tdata) in
       if is_case base r n w
       then (unat w - unat base - unat r) # jt_loop tdata base (ucast r) (ucast r + of_nat n) left (p + 4) else [])"
proof -
  let ?w = "Uint32 LittleEndian (drop p tdata)"
  show ?thesis
    using case_test [OF assms, where w = ?w and base = base and r = r]
    by (cases "is_case base r n ?w") (auto simp: Let_def)
qed

declare jt_loop.simps(2) [simp del]

lemma jt_loop_targets:
  assumes "n < 2 ^ 63"
  shows "length (jt_loop tdata base (ucast r) (ucast (r :: uint32) + of_nat n) left p) \<le> left
    \<and> (\<forall>t \<in> set (jt_loop tdata base (ucast r) (ucast r + of_nat n) left p). t < n)"
proof (induction left arbitrary: p)
  case (Suc left)
  show ?case
    using Suc.IH [of "p + 4"] by (auto simp: jt_loop_step [OF assms] is_case_def Let_def)
qed simp

text \<open>Every target the resolver feeds into the control flow walk is an offset inside the executable
  section, and one table gives at most 1024 of them, whatever the bytes of the image are.\<close>

theorem jump_targets_in_section:
  assumes "length execData < 2 ^ 63"
    and "t \<in> set (makeJumpTableResolver secs execData execRVA base inst)"
  shows "t < length execData \<and> length (makeJumpTableResolver secs execData execRVA base inst) \<le> 1024"
  using assms(2) jt_loop_targets [OF assms(1)]
  by (auto simp: makeJumpTableResolver_def Let_def maxJumpTableEntries_def split: if_splits x86Arg.splits option.splits)

lemma drop_length_append: "k = length xs \<Longrightarrow> drop k (xs @ ys) = ys"
  by simp

lemma jt_loop_cases:
  assumes "n < 2 ^ 63" "unat base + unat r + n \<le> 2 ^ 32" "\<forall>c \<in> set cs. c < n" "length cs \<le> left"
    and "length cs = left \<or> length rest < 4 \<or> \<not> is_case base r n (Uint32 LittleEndian rest)"
  shows "jt_loop (pre @ concat (map (jt_word base r) cs) @ rest) base (ucast r) (ucast (r :: uint32) + of_nat n) left
    (length pre) = cs"
  using assms(3-5)
proof (induction cs arbitrary: pre left)
  case Nil
  show ?case
  proof (cases left)
    case (Suc l)
    then show ?thesis using Nil(3) by (auto simp: jt_loop_step [OF assms(1)] Let_def)
  qed simp
next
  case (Cons c cs)
  obtain l where l: "left = Suc l" using Cons.prems(2) by (cases left) auto
  let ?d = "pre @ concat (map (jt_word base r) (c # cs)) @ rest"
  let ?w = "of_nat (unat base + unat r + c) :: uint32"
  have c: "c < n" using Cons.prems(1) by simp
  have uw: "unat ?w = unat base + unat r + c" using c assms(2) by (simp only: unat_of_nat) simp
  have w: "Uint32 LittleEndian (drop (length pre) ?d) = ?w" by (simp add: jt_word_def)
  have "jt_loop ((pre @ jt_word base r c) @ concat (map (jt_word base r) cs) @ rest) base (ucast r)
      (ucast r + of_nat n) l (length (pre @ jt_word base r c)) = cs"
    by (rule Cons.IH) (use Cons.prems l in auto)
  then have "jt_loop ?d base (ucast r) (ucast r + of_nat n) l (length pre + 4) = cs"
    by (simp add: jt_word_def)
  moreover have "\<not> length ?d < length pre + 4" by (simp add: jt_word_def)
  moreover have "is_case base r n ?w" using c uw by (simp add: is_case_def)
  ultimately show ?case
    unfolding l jt_loop_step [OF assms(1)] w using uw by (simp add: Let_def)
qed

text \<open>The addresses (relative to the image base) whose bytes a section holds, and sections that do not overlap.\<close>

definition ts_holds :: "tableSection \<Rightarrow> nat \<Rightarrow> bool" where
  "ts_holds ts a \<longleftrightarrow> unat (ts_rva ts) \<le> a \<and> a < unat (ts_rva ts) + length (ts_data ts)"

definition sections_apart :: "tableSection list \<Rightarrow> bool" where
  "sections_apart secs \<longleftrightarrow>
     (\<forall>s\<in>set secs. length (ts_data s) < 2 ^ 63)
     \<and> (\<forall>s\<in>set secs. \<forall>t\<in>set secs. s \<noteq> t \<longrightarrow>
          unat (ts_rva s) + length (ts_data s) \<le> unat (ts_rva t) \<or> unat (ts_rva t) + length (ts_data t) \<le> unat (ts_rva s))"

lemma in_table_holds:
  assumes "length (ts_data ts) < 2 ^ 63"
  shows "in_table a ts \<longleftrightarrow> ts_holds ts (unat a)"
  using exec_end [OF assms, of "ts_rva ts"] by (simp add: in_table_def ts_holds_def word_le_nat_alt word_less_nat_alt)

lemma find_table:
  assumes "sections_apart secs" "ts \<in> set secs" "ts_holds ts (unat a)"
  shows "find (in_table a) secs = Some ts"
proof -
  have h: "in_table a s \<longleftrightarrow> ts_holds s (unat a)" if "s \<in> set secs" for s
    using in_table_holds that assms(1) by (auto simp: sections_apart_def)
  show ?thesis
  proof (cases "find (in_table a) secs")
    case None
    then show ?thesis using h assms(2,3) by (auto simp: find_None_iff)
  next
    case (Some s)
    then have s: "s \<in> set secs" "ts_holds s (unat a)" using h by (auto simp: find_Some_iff)
    have "s = ts"
    proof (rule ccontr)
      assume "s \<noteq> ts"
      then have "unat (ts_rva s) + length (ts_data s) \<le> unat (ts_rva ts) \<or> unat (ts_rva ts) + length (ts_data ts) \<le> unat (ts_rva s)"
        using assms(1,2) s(1) unfolding sections_apart_def by blast
      then show False using s(2) assms(3) by (auto simp: ts_holds_def)
    qed
    then show ?thesis using Some by simp
  qed
qed

text \<open>C19: A switch table as a compiler lays it out is resolved to its cases: for a jump through
  \<open>[index*4 + table]\<close> whose table holds the 32-bit addresses of at most 1024 cases anywhere in one of the
  readable sections, which do not overlap, and whose last entry is followed by the end of that section
  or by a word that is no address of the executable section, the resolver returns the offsets of the
  cases in order. (A following word that is such an address would be read as one more case.)\<close>

theorem jump_table_roundtrip:
  assumes "length execData < 2 ^ 63" "unat base + unat execRVA + length execData \<le> 2 ^ 32"
    and "\<forall>c \<in> set cs. c < length execData" "length cs \<le> 1024"
    and "length rest < 4 \<or> \<not> is_case base execRVA (length execData) (Uint32 LittleEndian rest)"
    and "inst_isJMP inst" "inst_Args inst = MemArg 4 index 0 disp # args" "index \<noteq> 0"
    and "sections_apart secs" "ts \<in> set secs"
    and "ts_data ts = pre @ concat (map (jt_word base execRVA) cs) @ rest" "length pre < length (ts_data ts)"
    and "unat (word_of_int disp :: uint32) = unat base + unat (ts_rva ts) + length pre"
  shows "makeJumpTableResolver secs execData execRVA base inst = cs"
proof -
  let ?va = "ucast (word_of_int disp :: uint32) :: uint64"
  have b: "base \<le> ?va" using assms(13) by (simp add: word_le_nat_alt)
  have trva: "unat (?va - base) = unat (ts_rva ts) + length pre"
    using unat_sub [OF b] assms(13) by simp
  then have f: "find (in_table (?va - base)) secs = Some ts"
    using assms(12) by (intro find_table [OF assms(9,10)]) (simp add: ts_holds_def)
  have "ucast (ts_rva ts) \<le> ?va - base" using trva by (simp add: word_le_nat_alt)
  then have "unat (?va - base - ucast (ts_rva ts)) = length pre"
    using unat_sub [of "ucast (ts_rva ts)" "?va - base"] trva by simp
  moreover have "\<not> ?va < base" using b by simp
  ultimately show ?thesis
    using jt_loop_cases [OF assms(1,2,3), of 1024 rest pre] assms(4-8,11) f
    by (simp add: makeJumpTableResolver_def Let_def maxJumpTableEntries_def)
qed

text \<open>A table in the second section, behind other data.\<close>

lemma jump_table_roundtrip_witness:
  "makeJumpTableResolver
     [\<lparr>ts_rva = 0x1000, ts_data = replicate 16 0\<rparr>,
      \<lparr>ts_rva = 0x2000, ts_data = [0xFF, 0xFF, 0x04, 0x10, 0x40, 0, 0x08, 0x10, 0x40, 0, 0, 0, 0, 0]\<rparr>] (replicate 16 0) 0x1000 0x400000
     \<lparr>inst_isJMP = True, inst_Args = [MemArg 4 1 0 0x402002]\<rparr> = [4, 8]"
proof -
  let ?ts = "\<lparr>ts_rva = 0x2000, ts_data = [0xFF, 0xFF, 0x04, 0x10, 0x40, 0, 0x08, 0x10, 0x40, 0, 0, 0, 0, 0]\<rparr>"
  show ?thesis
  proof (rule jump_table_roundtrip [where cs = "[4, 8]" and rest = "[0, 0, 0, 0]" and index = 1 and disp = "0x402002"
        and args = "[]" and ts = ?ts and pre = "[0xFF, 0xFF]"])
    show "ts_data ?ts = [0xFF, 0xFF] @ concat (map (jt_word 0x400000 0x1000) [4, 8]) @ [0, 0, 0, 0]"
      by (simp add: jt_word_def PutUint32_def put_uint_def)
    show "length [0, 0, 0, 0 :: 8 word] < 4 \<or>
        \<not> is_case 0x400000 0x1000 (length (replicate 16 (0 :: 8 word))) (Uint32 LittleEndian [0, 0, 0, 0])"
      by (simp add: is_case_def Uint32_def get_uint_def)
  qed (simp_all add: sections_apart_def)
qed

subsection \<open>The Rich header\<close>

definition richProductNames :: "(uint16 \<times> gostring) list" where
  "richProductNames =
     [(0, ''Unknown''), (1, ''Import0''), (2, ''Linker510''), (3, ''Cvtomf510''),
      (4, ''Linker600''), (5, ''Cvtomf600''), (6, ''Cvtres500''), (7, ''Utc11_Basic''),
      (8, ''Utc11_C''), (9, ''Utc12_Basic''), (10, ''Utc12_C''), (11, ''Utc12_CPP''),
      (12, ''AliasObj60''), (13, ''VisualBasic60''), (14, ''Masm613''), (15, ''Masm710''),
      (16, ''Linker511''), (17, ''Cvtomf511''), (18, ''Masm614''), (19, ''Linker512''),
      (20, ''Cvtomf512''), (21, ''Utc12_C_Std''), (22, ''Utc12_CPP_Std''), (23, ''Utc12_C_Book''),
      (24, ''Utc12_CPP_Book''), (25, ''Implib700''), (26, ''Cvtomf700''), (28, ''Linker622''),
      (29, ''Cvtomf622''), (30, ''Cvtres501''), (45, ''Utc12_C_DLL''), (47, ''Utc13_C''),
      (48, ''Utc13_CPP''), (83, ''Linker710''), (84, ''Cvtomf710''), (85, ''Linker800''),
      (86, ''Cvtomf800''), (93, ''Utc13_C_Std''), (94, ''Utc13_CPP_Std''), (102, ''Utc14_C''),
      (103, ''Utc14_CPP''), (128, ''Cvtres700''), (158, ''Linker900''), (170, ''Masm800''),
      (171, ''Masm900''), (175, ''Utc15_C''), (176, ''Utc15_CPP''), (177, ''Utc15_CVTCIL_C''),
      (178, ''Utc15_CVTCIL_CPP''), (187, ''Utc16_C''), (188, ''Utc16_CPP''), (199, ''Linker1000''),
      (201, ''Utc17_C''), (202, ''Utc17_CPP''), (214, ''Masm1000''), (217, ''Utc18_C''),
      (218, ''Utc18_CPP''), (255, ''Linker1100''), (258, ''Utc1900_C''), (259, ''Utc1900_CPP''),
      (260, ''Utc1900_CVTCIL_C''), (261, ''Utc1900_CVTCIL_CPP'')]"

record richEntry =
  re_prodID :: uint16
  re_prodName :: gostring
  re_buildVer :: uint16
  re_count :: uint32

datatype richReport =
    CannotReadFile
  | NoRichHeader
  | RichTruncated
  | NoDanS
  | RichHeader uint32 nat nat "richEntry list" bool gostring

definition rich_entry :: "uint32 \<Rightarrow> bytes \<Rightarrow> nat \<Rightarrow> richEntry" where
  "rich_entry xorKey data off =
     (let compID = Uint32 LittleEndian (drop off data) XOR xorKey;
          count = Uint32 LittleEndian (drop (off + 4) data) XOR xorKey;
          prodID = ucast (drop_bit 16 compID);
          buildVer = ucast (compID AND 0xFFFF) in
      \<lparr>re_prodID = prodID,
       re_prodName = (case map_of richProductNames prodID of Some nm \<Rightarrow> nm | None \<Rightarrow> ''Unknown_'' @ show_nat (unat prodID)),
       re_buildVer = buildVer, re_count = count\<rparr>)"

text \<open>The entries and whether the report says it was truncated.\<close>

function rich_loop :: "uint32 \<Rightarrow> bytes \<Rightarrow> nat \<Rightarrow> nat \<Rightarrow> nat \<Rightarrow> richEntry list \<times> bool" where
  "rich_loop xorKey data richIdx off entryCount =
     (if richIdx \<le> off then ([], False)
      else if length data < off + 8 then ([], False)
      else let e = rich_entry xorKey data off in
        if 100 \<le> entryCount + 1 then ([e], True)
        else case rich_loop xorKey data richIdx (off + 8) (entryCount + 1) of (es, b) \<Rightarrow> (e # es, b))"
  by auto
termination by (relation "measure (\<lambda>(k, d, r, off, c). r - off)") auto

declare rich_loop.simps [simp del]

definition rich_marker :: bytes where
  "rich_marker = bytes_of ''Rich''"

definition dans_marker :: uint32 where
  "dans_marker = 0x536E6144"

text \<open>\<open>md5Hex\<close> of the raw header is an argument.\<close>

definition opRichHeader :: "(bytes \<Rightarrow> gostring) \<Rightarrow> bytes \<Rightarrow> richReport" where
  "opRichHeader md5Hex content =
     (let data = take 4096 content in
      if data = [] then CannotReadFile
      else case find (\<lambda>i. slice data i (i + 4) = rich_marker) [0..<length data - 8] of
          None \<Rightarrow> NoRichHeader
        | Some richIdx \<Rightarrow>
            if length data < richIdx + 8 then RichTruncated
            else let xorKey = Uint32 LittleEndian (drop (richIdx + 4) data) in
              (case find (\<lambda>i. i + 4 \<le> length data \<and> Uint32 LittleEndian (drop i data) = dans_marker XOR xorKey)
                      (map (\<lambda>k. 4 * k) [0..<(richIdx + 3) div 4]) of
                 None \<Rightarrow> NoDanS
               | Some dansIdx \<Rightarrow>
                   (case rich_loop xorKey data richIdx (dansIdx + 16) 0 of
                      (es, trunc) \<Rightarrow>
                        RichHeader xorKey dansIdx (richIdx + 8) es trunc (md5Hex (slice data dansIdx (richIdx + 8))))))"

text \<open>A header as the linker writes it.\<close>

definition rich_comp :: "uint16 \<Rightarrow> uint16 \<Rightarrow> uint32" where
  "rich_comp p b = push_bit 16 (ucast p) OR ucast b"

definition rich_words :: "uint32 \<Rightarrow> (uint16 \<times> uint16 \<times> uint32) list \<Rightarrow> bytes" where
  "rich_words key es =
     concat (map (\<lambda>(p, b, c). PutUint32 LittleEndian (rich_comp p b XOR key) @ PutUint32 LittleEndian (c XOR key)) es)"

definition rich_block :: "uint32 \<Rightarrow> (uint16 \<times> uint16 \<times> uint32) list \<Rightarrow> bytes" where
  "rich_block key es =
     PutUint32 LittleEndian (dans_marker XOR key) @ concat (replicate 3 (PutUint32 LittleEndian key)) @
     rich_words key es @ rich_marker @ PutUint32 LittleEndian key"

definition rich_decoded :: "uint16 \<times> uint16 \<times> uint32 \<Rightarrow> richEntry" where
  "rich_decoded e =
     (case e of (p, b, c) \<Rightarrow>
        \<lparr>re_prodID = p,
         re_prodName = (case map_of richProductNames p of Some nm \<Rightarrow> nm | None \<Rightarrow> ''Unknown_'' @ show_nat (unat p)),
         re_buildVer = b, re_count = c\<rparr>)"

lemma rich_comp_parts:
  "ucast (drop_bit 16 (rich_comp p b)) = p" "ucast (rich_comp p b AND 0xFFFF) = b"
proof -
  show "ucast (drop_bit 16 (rich_comp p b)) = p"
    by (rule bit_word_eqI) (auto simp: rich_comp_def bit_simps dest: bit_imp_le_length)
  have m: "(0xFFFF :: uint32) = mask 16" by (simp add: mask_eq_exp_minus_1)
  show "ucast (rich_comp p b AND 0xFFFF) = b"
    unfolding m by (rule bit_word_eqI) (auto simp: rich_comp_def bit_simps)
qed

lemma xor_xor_key: "(x XOR k) XOR k = (x :: uint32)"
  by (simp add: xor.assoc)

lemma length_rich_words [simp]: "length (rich_words key es) = 8 * length es"
  by (induction es) (auto simp: rich_words_def)

lemma length_rich_block [simp]: "length (rich_block key es) = 24 + 8 * length es"
  by (simp add: rich_block_def rich_marker_def numeral_3_eq_3)

lemma rich_entry_word:
  "rich_entry key (pre @ PutUint32 LittleEndian (rich_comp p b XOR key) @ PutUint32 LittleEndian (c XOR key) @ rest) (length pre) =
     rich_decoded (p, b, c)"
  by (cases "map_of richProductNames p")
    (simp_all add: rich_entry_def rich_decoded_def rich_comp_parts xor_xor_key Let_def)

lemma rich_loop_words:
  assumes "n < 100"
  shows "rich_loop key (pre @ rich_words key es @ rest) (length pre + 8 * length es) (length pre) n =
    (map rich_decoded (take (100 - n) es), 100 \<le> n + length es \<and> es \<noteq> [])"
  using assms
proof (induction es arbitrary: pre n)
  case Nil
  then show ?case by (simp add: rich_loop.simps)
next
  case (Cons e es)
  obtain p b c where e: "e = (p, b, c)" by (cases e) auto
  let ?x = "PutUint32 LittleEndian (rich_comp p b XOR key) @ PutUint32 LittleEndian (c XOR key)"
  let ?d = "pre @ rich_words key (e # es) @ rest"
  have d: "?d = pre @ ?x @ rich_words key es @ rest" by (simp add: rich_words_def e)
  have h: "rich_entry key ?d (length pre) = rich_decoded e"
    by (subst d) (use rich_entry_word [of key pre p b c "rich_words key es @ rest"] in \<open>simp add: e\<close>)
  have n: "n < 100" using Cons.prems by auto
  have ih: "rich_loop key ?d (length pre + 8 * length (e # es)) (length pre + 8) (n + 1) =
      (map rich_decoded (take (100 - (n + 1)) es), 100 \<le> n + 1 + length es \<and> es \<noteq> [])" if "n + 1 < 100"
    using Cons.IH [of "n + 1" "pre @ ?x"] that by (subst d) (simp add: algebra_simps)
  show ?case
  proof (cases "n + 1 < 100")
    case True
    moreover have "take (100 - n) (e # es) = e # take (100 - (n + 1)) es"
      using True by (simp add: take_Cons')
    ultimately show ?thesis
      using ih h by (simp add: rich_loop.simps [of key ?d _ "length pre"] Let_def) auto
  next
    case False
    then have "n = 99" using n by simp
    then show ?thesis using h by (simp add: rich_loop.simps [of key ?d _ "length pre"] Let_def)
  qed
qed

lemma find_map_comp: "find P (map f xs) = map_option f (find (P \<circ> f) xs)"
  by (induction xs) auto

lemma find_upt:
  assumes "i < n" "P i" "\<And>j. j < i \<Longrightarrow> \<not> P j"
  shows "find P [0..<n] = Some i"
  using assms by (auto simp: find_Some_iff intro!: exI [of _ i])

text \<open>A Rich header as the linker writes it is decoded entry for entry: when the first Rich marker of
  the first 4096 bytes ends the block and no aligned word before the block equals the encoded DanS mark,
  the report has the key, the position of the block and every product, build and count, up to the
  hundred entries it shows.\<close>

theorem rich_header_roundtrip:
  assumes "length pre mod 4 = 0" "rest \<noteq> []"
    and "length (pre @ rich_block key es @ rest) \<le> 4096"
    and "\<forall>i < length pre + 16 + 8 * length es. slice (pre @ rich_block key es @ rest) i (i + 4) \<noteq> rich_marker"
    and "\<forall>k. 4 * k < length pre \<longrightarrow>
      Uint32 LittleEndian (drop (4 * k) (pre @ rich_block key es @ rest)) \<noteq> dans_marker XOR key"
  shows "opRichHeader md5Hex (pre @ rich_block key es @ rest) =
    RichHeader key (length pre) (length pre + length (rich_block key es)) (map rich_decoded (take 100 es))
      (100 \<le> length es) (md5Hex (rich_block key es))"
proof -
  let ?d = "pre @ rich_block key es @ rest" and ?r = "length pre + 16 + 8 * length es"
  let ?head = "PutUint32 LittleEndian (dans_marker XOR key) @ concat (replicate 3 (PutUint32 LittleEndian key))"
  have lh: "length ?head = 16" by (simp add: numeral_3_eq_3)
  have lr: "length rich_marker = 4" by (simp add: rich_marker_def)
  have ne: "0 < length rest" using assms(2) by simp
  have d1: "?d = (pre @ ?head @ rich_words key es) @ rich_marker @ PutUint32 LittleEndian key @ rest"
    by (simp add: rich_block_def)
  have dr: "drop ?r ?d = rich_marker @ PutUint32 LittleEndian key @ rest"
    unfolding d1 by (rule drop_length_append) (use lh in simp)
  have key: "drop (?r + 4) ?d = PutUint32 LittleEndian key @ rest"
    using arg_cong [OF dr, where f = "drop 4"] lr by (simp add: add.commute)
  have dd: "drop (length pre) ?d = rich_block key es @ rest" by simp
  have dans: "Uint32 LittleEndian (drop (length pre) ?d) = dans_marker XOR key"
    unfolding dd rich_block_def by simp
  have richIdx: "find (\<lambda>i. slice ?d i (i + 4) = rich_marker) [0..<length ?d - 8] = Some ?r"
  proof (rule find_upt)
    show "slice ?d ?r (?r + 4) = rich_marker" using dr lr by (simp add: slice_def)
  qed (use ne assms(4) in auto)
  obtain m where m: "length pre = 4 * m" using assms(1) by (metis mod_0_imp_dvd dvdE mult.commute)
  have dansIdx: "find (\<lambda>i. i + 4 \<le> length ?d \<and> Uint32 LittleEndian (drop i ?d) = dans_marker XOR key)
      (map (\<lambda>k. 4 * k) [0..<(?r + 3) div 4]) = Some (length pre)"
  proof -
    have "find ((\<lambda>i. i + 4 \<le> length ?d \<and> Uint32 LittleEndian (drop i ?d) = dans_marker XOR key) \<circ> (\<lambda>k. 4 * k))
        [0..<(?r + 3) div 4] = Some m"
      by (rule find_upt) (use assms(5) dans m in \<open>auto simp: \<close>)
    then show ?thesis by (simp add: find_map_comp m)
  qed
  have loop: "rich_loop key ?d ?r (length pre + 16) 0 = (map rich_decoded (take 100 es), 100 \<le> length es)"
  proof -
    have "?d = (pre @ ?head) @ rich_words key es @ (rich_marker @ PutUint32 LittleEndian key @ rest)"
      by (simp add: rich_block_def)
    moreover have "?r = length (pre @ ?head) + 8 * length es" "length pre + 16 = length (pre @ ?head)" using lh by simp_all
    moreover have "(100 \<le> 0 + length es \<and> es \<noteq> []) = (100 \<le> length es)" by auto
    moreover have "100 - 0 = (100 :: nat)" by simp
    ultimately show ?thesis
      using rich_loop_words [of 0 key "pre @ ?head" es "rich_marker @ PutUint32 LittleEndian key @ rest"]
      by (simp only: zero_less_numeral simp_thms)
  qed
  have blk: "slice ?d (length pre) (?r + 8) = rich_block key es"
    by (simp add: slice_def)
  have k: "Uint32 LittleEndian (drop (?r + 4) ?d) = key" using key by simp
  have nt: "take 4096 ?d = ?d" "?d \<noteq> []" "\<not> length ?d < ?r + 8" using assms(2,3) by auto
  show ?thesis
    unfolding opRichHeader_def nt(1) Let_def richIdx
    using nt(2,3) by (simp only: option.case if_False k dansIdx loop blk prod.case) simp
qed

end
