(* ===== verification/Spec2Isabelle.thy ===== *)
theory Spec2Isabelle
  imports Patch Output Raw_Output Broker Ipc_Net Mem_Filter Mem_Session Mem_Chain Mem_Pool Bash_Handle Debug_Vars Query_Tools Ssrf Sftp_Rm Glob Bin_Scan Pe_Tables
begin

text \<open>
  AgentTool is a server of tools for coding agents, written in Go: editing and patching files,
  running shells, reading the memory of processes, messages between agents, and a long list of
  wrappers around libraries and system calls. This development models the parts whose behaviour is
  the program's own logic and proves that they do what they are for. All paths below are under src/.

  \<^bold>\<open>Foundations.\<close> \<open>Prelude\<close> has the shared types (a Go \<open>string\<close> is a list of HOL characters, byte for
  byte; a byte slice is a list of 8-bit words) and generic facts on lists. \<open>Go_Unicode\<close>, \<open>Go_Strings\<close> and
  \<open>Go_Bytes\<close> define what the program uses of Go's standard library: UTF-8, \<open>strings\<close>, \<open>strconv\<close>,
  \<open>encoding/binary\<close>, \<open>unicode/utf16\<close>.

  \<^bold>\<open>Text files.\<close> \<open>Line_Endings\<close> (common/lineending.go, common/fileutil.go) models the analysis of newlines,
  the newline-normalized view of a file and the map from its offsets back to the original, including
  the mutable cursors of \<open>LineEndingMap\<close>; it shows that the map cuts the file where the view is cut and
  that answers do not depend on earlier queries. \<open>Edit_Indent\<close> (tools/edit/indent.go) models detection and
  conversion of indentation, \<open>Edit_Replace\<close> (tools/edit/replace.go) the six passes of the replacement
  engine: an applied edit is a replacement in the view, leaves every other byte alone, and is refused
  when ambiguous. \<open>Text_Diff\<close> (internal/textdiff) prints unified diffs, with the difflib matcher as a
  parameter whose documented contract is a hypothesis; \<open>Patch\<close> (tools/patch/handler.go) parses and applies
  them, and applying the printed diff of two files gives the second.

  \<^bold>\<open>Output of tools.\<close> \<open>Output\<close> (common/outputlimit.go, capture.go, outputcompact.go) has the rune limits, the
  bounded capture and the folding of repeated diagnostics; \<open>Raw_Output\<close> (common/rawoutput.go) the store that
  keeps what was folded, with its eviction and expiry.

  \<^bold>\<open>Shells.\<close> \<open>Bash_Chain\<close> (tools/bash/chainops.go and the command builders of shell_windows.go and
  shell_unix.go) splits commands at top-level operators, which is checked against a
  grammar of quoted and nested text that does not mention the splitter, and quotes them for other shells; \<open>Bash_Exec\<close>
  (tools/bash/exec.go, handler.go) reads the output of a shell up to the sentinel line and reports it,
  through the capture, the folding and the raw output store; a run whose write to the shell blocks, or
  whose shell stays silent without a deadline, has no result (\<open>None\<close>). \<open>Bash_Pool\<close> (tools/bash/pool.go) is the pool of
  sessions: a step relation interleaves lookups, starts, insertions, removals, reaping and commands over
  a store of shells with their locks; no shell leaks and a running command keeps its shell.
  \<open>Bash_Handle\<close> (tools/bash/handler.go) is a whole call over pool and store. \<open>Flex\<close> (common/flexint.go,
  flexbool.go) reads arguments given as numbers or strings.

  \<^bold>\<open>Messages and connections.\<close> \<open>Broker\<close> (tools/ipc/broker.go) is a step relation that interleaves the
  critical sections of any number of posts, fetches and waits, with their channels and timers.
  \<open>Pools\<close> (tools/ssh/pool.go) and \<open>Ipc_Net\<close> (tools/ipc/protocol.go, pool.go, send.go, receive.go) have the
  connection pools and the packets on the wire. The eviction contract is the locale \<open>idle_pool\<close>, with
  \<open>never_busy_pool\<close> and its sublocale \<open>lru_pool\<close> for pools with a hard capacity; the ssh, ipc and shell
  pools interpret them.

  \<^bold>\<open>Memory of processes.\<close> \<open>Mem_Types\<close> (tools/memtool/types.go) encodes, compares and prints values;
  \<open>Mem_Store\<close> (matchstore.go) is the store of matches that spills to disk, refined to a list through the
  locale \<open>record_file\<close>; \<open>Mem_Scan\<close> (scan.go) searches with any number of workers; \<open>Mem_Filter\<close> shows that the
  batched filter decides once per match unless unmapped memory lies inside one batch; \<open>Mem_Session\<close> (snapshot.go, session.go, handler.go) has snapshots
  and the undo stack over a heap of shared stores; \<open>Mem_Chain\<close> (pointer.go, readchain.go) scans for
  pointers, one level deep, and resolves chains of them. A process is a reader function; what a lemma needs of it is a
  hypothesis such as \<open>readable_regions\<close>.

  \<open>Mem_Pool\<close> (session.go) is the pool of scan sessions with its counts of operations in progress.

  \<^bold>\<open>Debugger.\<close> \<open>Debug_Events\<close> (tools/debug/events.go) is the ring buffer of adapter events, refined to an
  unbounded log through the locale \<open>event_simulation\<close>. \<open>Debug_Session\<close> (protocol.go, events.go) has the client
  with its map of pending responses and the event loop, and a step relation of any number of callers:
  responses reach the request they answer. \<open>Debug_Ops\<close> (operations.go, session.go) has the operations that
  run the program and the pool of sessions, \<open>Debug_Vars\<close> the pages of variables.

  \<^bold>\<open>Queries.\<close> \<open>Query_Path\<close> (common/navigate.go) parses and prints query paths and walks decoded documents; the
  recursion at a wildcard ends because no printed path has more wildcards than its parts, and on plain
  paths the walk is the evaluation of the parts. \<open>Query_Tools\<close> has the handlers of jsonquery, yamlquery and
  tomlquery and their normalizers; what navigation keeps of a value is the locale \<open>nav_closed\<close>.

  \<^bold>\<open>Finding files.\<close> \<open>Ignore\<close> (common/ignore.go) has \<open>filepath.Match\<close> and the rules of ignore files, \<open>Glob\<close>
  (tools/glob/handler.go) the search for a pattern in a tree of files and the pages of its result:
  following the cursors gives every match once.

  \<^bold>\<open>Network and remote files.\<close> \<open>Ssrf\<close> (common/ssrf.go, common/httpclient.go) classifies addresses, checks
  hosts and has the dialers of the HTTP client: no address outside the policy is dialed. \<open>Sftp_Rm\<close>
  (tools/sftp/security.go, operations.go) has the guards of remote paths and the operations on the remote
  tree over an abstract server: a recursive delete is confined, goes bottom up and
  deletes at most 10000 files and 10002 items (the documented limit is 10000 items).

  \<^bold>\<open>Binary analysis.\<close> \<open>Bin_Scan\<close> (tools/analyze/pattern.go, strings.go, bindiff.go, hexdump.go) has the
  scanners of whole files: what each reports is stated over positions of the file, independent of the
  chunks it is read in. \<open>Pe_Image\<close> (pe.go, rtti.go, followptr.go) translates addresses of a PE image and
  reads through a section cache; \<open>Pe_Tables\<close> (pdata.go, jumptable.go, rich.go) searches the exception
  table and decodes switch tables and the Rich header. The headers as \<open>debug/pe\<close> parses them, the symbol
  map, the digest and decoded instructions are arguments.

  \<^bold>\<open>Effects, errors and loops.\<close> State is passed explicitly; what another party decides (clocks, random
  bytes, results of system calls, the order of map iteration, schedules) is an argument or a choice of
  a step relation. Go errors are values of sum types. Every loop is a total function; there is no
  fuel. Addresses and lengths on the wire are words of their width, so wrap-around is kept; \<open>int\<close> values
  that index slices are natural numbers where the code has checked them and integers before that.

  \<^bold>\<open>Not modelled.\<close> Tools that only wrap the file system, the network, databases, the operating system
  or third-party parsers (grep, mysql, the code graph, other parts of the
  executable formats and others); they are listed in the manifest with the reason. Within the modelled tools, the
  opening of files and processes, the registration of tools and JSON decoding are arguments.
\<close>

end
